(* ===== verification/Nck_Prelude.thy ===== *)
theory Nck_Prelude
  imports Main "HOL-Library.Word" "HOL-Library.Char_ord"
begin

text \<open>
  Shared vocabulary of the development.

  \<^item> \<open>byte\<close>, \<open>bytes\<close>: Rust's \<open>u8\<close> and byte slices;
  \<^item> \<open>error_kind\<close>: the values of \<open>std::io::ErrorKind\<close> that the code creates or matches on;
  \<^item> \<open>('e, 'a) res\<close>: the result of a Rust call: \<open>Ok\<close>, \<open>Err\<close>, or a panic that unwinds the caller;
  \<^item> \<open>('s, 'a) io\<close>: a call that may change the state \<open>'s\<close>, with \<open>io_bind\<close> for the
    sequencing that \<open>?\<close> gives (an error or a panic ends the computation, the state so far stays);
  \<^item> big-endian encodings of machine words, and generic list facts.

  The collections \<open>io_simps\<close> (unfolding of the sequencing combinators) and \<open>wire\<close>
  (facts on byte encodings) are extended by the component theories.
\<close>

section \<open>Collections\<close>

named_theorems io_simps "unfolding of sequencing combinators and lifted operations"
named_theorems wire "shape and length of byte encodings"

section \<open>Data\<close>

type_synonym byte = "8 word"
type_synonym bytes = "byte list"

text \<open>The bytes of a text.\<close>

definition bytes_of :: "string \<Rightarrow> bytes" where
  "bytes_of s = map (\<lambda>c. word_of_nat (of_char c)) s"

datatype error_kind =
    InvalidData
  | InvalidInput
  | UnexpectedEof
  | WriteZero
  | Interrupted
  | WouldBlock
  | AlreadyExists
  | NotFound
  | PermissionDenied
  | ConnectionRefused
  | ConnectionReset
  | ConnectionAborted
  | NotConnected
  | BrokenPipe
  | RawOs nat \<comment> \<open>any other operating system error, by its number\<close>

datatype ('e, 'a) res = Ok 'a | Err 'e | Panic

type_synonym ('s, 'e, 'a) op = "'s \<Rightarrow> ('e, 'a) res \<times> 's"
type_synonym ('s, 'a) io = "('s, error_kind, 'a) op"

fun is_ok :: "('e, 'a) res \<Rightarrow> bool" where
  "is_ok (Ok _) = True"
| "is_ok _ = False"

fun is_panic :: "('e, 'a) res \<Rightarrow> bool" where
  "is_panic Panic = True"
| "is_panic _ = False"

fun map_res :: "('a \<Rightarrow> 'b) \<Rightarrow> ('e, 'a) res \<Rightarrow> ('e, 'b) res" where
  "map_res f (Ok x) = Ok (f x)"
| "map_res f (Err e) = Err e"
| "map_res f Panic = Panic"

fun map_err :: "('e \<Rightarrow> 'f) \<Rightarrow> ('e, 'a) res \<Rightarrow> ('f, 'a) res" where
  "map_err f (Ok x) = Ok x"
| "map_err f (Err e) = Err (f e)"
| "map_err f Panic = Panic"

section \<open>Sequencing\<close>

definition io_return :: "'a \<Rightarrow> ('s, 'e, 'a) op" where
  "io_return x = (\<lambda>s. (Ok x, s))"

definition io_fail :: "'e \<Rightarrow> ('s, 'e, 'a) op" where
  "io_fail e = (\<lambda>s. (Err e, s))"

text \<open>Reading and changing the state.\<close>

definition io_get :: "('s \<Rightarrow> ('s, 'e, 'a) op) \<Rightarrow> ('s, 'e, 'a) op" where
  "io_get f = (\<lambda>s. f s s)"

definition io_modify :: "('s \<Rightarrow> 's) \<Rightarrow> ('s, 'e, unit) op" where
  "io_modify f = (\<lambda>s. (Ok (), f s))"

definition io_bind :: "('s, 'e, 'a) op \<Rightarrow> ('a \<Rightarrow> ('s, 'e, 'b) op) \<Rightarrow> ('s, 'e, 'b) op" where
  "io_bind m f = (\<lambda>s. case m s of
      (Ok x, s') \<Rightarrow> f x s'
    | (Err e, s') \<Rightarrow> (Err e, s')
    | (Panic, s') \<Rightarrow> (Panic, s'))"

definition io_then :: "('s, 'e, unit) op \<Rightarrow> ('s, 'e, 'b) op \<Rightarrow> ('s, 'e, 'b) op" where
  "io_then m k = io_bind m (\<lambda>_. k)"

lemma io_return_apply [simp]: "io_return x s = (Ok x, s)"
  by (simp add: io_return_def)

lemma io_fail_apply [simp]: "io_fail e s = (Err e, s)"
  by (simp add: io_fail_def)

lemma io_get_apply [simp]: "io_get f s = f s s"
  by (simp add: io_get_def)

lemma io_modify_apply [simp]: "io_modify f s = (Ok (), f s)"
  by (simp add: io_modify_def)

lemma io_bind_Ok [simp]: "m s = (Ok x, s') \<Longrightarrow> io_bind m f s = f x s'"
  by (simp add: io_bind_def)

lemma io_bind_Err [simp]: "m s = (Err e, s') \<Longrightarrow> io_bind m f s = (Err e, s')"
  by (simp add: io_bind_def)

lemma io_bind_Panic [simp]: "m s = (Panic, s') \<Longrightarrow> io_bind m f s = (Panic, s')"
  by (simp add: io_bind_def)

lemma io_then_Ok [simp]: "m s = (Ok x, s') \<Longrightarrow> io_then m k s = k s'"
  by (simp add: io_then_def)

lemma io_then_Err [simp]: "m s = (Err e, s') \<Longrightarrow> io_then m k s = (Err e, s')"
  by (simp add: io_then_def)

lemma io_then_Panic [simp]: "m s = (Panic, s') \<Longrightarrow> io_then m k s = (Panic, s')"
  by (simp add: io_then_def)

lemma io_bind_Pair_Ok [simp]: "io_bind (Pair (Ok x)) f = f x"
  by (simp add: fun_eq_iff)

lemma io_bind_OkE:
  assumes "io_bind m f s = (Ok y, t)"
  obtains x s' where "m s = (Ok x, s')" and "f x s' = (Ok y, t)"
  using assms by (auto simp: io_bind_def split: prod.splits res.splits)

lemma io_then_OkE:
  assumes "io_then m k s = (Ok y, t)"
  obtains s' where "m s = (Ok (), s')" and "k s' = (Ok y, t)"
  using assms unfolding io_then_def by (auto elim: io_bind_OkE)

text \<open>\<open>no_panic m s\<close>: the call \<open>m\<close> from state \<open>s\<close> does not panic.\<close>

definition no_panic :: "('s, 'e, 'a) op \<Rightarrow> 's \<Rightarrow> bool" where
  "no_panic m s \<longleftrightarrow> fst (m s) \<noteq> Panic"

named_theorems np "calls that do not panic"

lemma no_panic_bind [np]:
  "no_panic m s \<Longrightarrow> (\<And>x s'. m s = (Ok x, s') \<Longrightarrow> no_panic (f x) s') \<Longrightarrow> no_panic (io_bind m f) s"
  by (cases "m s"; cases "fst (m s)") (auto simp: no_panic_def)

lemma no_panic_then [np]:
  "no_panic m s \<Longrightarrow> (\<And>s'. m s = (Ok (), s') \<Longrightarrow> no_panic k s') \<Longrightarrow> no_panic (io_then m k) s"
  unfolding io_then_def by (rule no_panic_bind) auto

lemma no_panic_return [np, simp]: "no_panic (io_return x) s"
  by (simp add: no_panic_def)

lemma no_panic_get [np, simp]: "no_panic (f s) s \<Longrightarrow> no_panic (io_get f) s"
  by (simp add: no_panic_def)

lemma no_panic_modify [np, simp]: "no_panic (io_modify f) s"
  by (simp add: no_panic_def)

lemma no_panicD: "no_panic m s \<Longrightarrow> m s = (r, s') \<Longrightarrow> r \<noteq> Panic"
  by (simp add: no_panic_def)

lemma no_panicI: "(\<And>s'. m s \<noteq> (Panic, s')) \<Longrightarrow> no_panic m s"
  by (cases "m s") (auto simp: no_panic_def)

text \<open>A result computed without the state, and the indexing operations that can panic.\<close>

definition io_res :: "('e, 'a) res \<Rightarrow> ('s, 'e, 'a) op" where
  "io_res r = (\<lambda>s. (r, s))"

definition slice_of :: "nat \<Rightarrow> nat \<Rightarrow> 'a list \<Rightarrow> (error_kind, 'a list) res" where
  "slice_of i j xs = (if i \<le> j \<and> j \<le> length xs then Ok (take (j - i) (drop i xs)) else Panic)"

definition index_of :: "nat \<Rightarrow> 'a list \<Rightarrow> (error_kind, 'a) res" where
  "index_of i xs = (if i < length xs then Ok (xs ! i) else Panic)"

lemma io_res_apply [simp]: "io_res r s = (r, s)"
  by (simp add: io_res_def)

lemma no_panic_res [simp]: "no_panic (io_res r) s \<longleftrightarrow> r \<noteq> Panic"
  by (simp add: no_panic_def)

lemma no_panic_Pair [simp]: "no_panic (Pair r) s \<longleftrightarrow> r \<noteq> Panic"
  by (simp add: no_panic_def)

lemma io_bind_res_Ok [simp]: "io_bind (io_res (Ok x)) f = f x"
  by (simp add: fun_eq_iff)

text \<open>The operation \<open>m\<close> with its error converted.\<close>

definition on_error :: "('e \<Rightarrow> 'f) \<Rightarrow> ('s, 'e, 'a) op \<Rightarrow> ('s, 'f, 'a) op" where
  "on_error f m s = (case m s of (r, s') \<Rightarrow> (map_err f r, s'))"

section \<open>Total correctness of a call\<close>

text \<open>
  \<open>succeeds m Q s\<close>: the call \<open>m\<close> from state \<open>s\<close> returns \<open>Ok\<close> with a value and
  a state satisfying \<open>Q\<close>.
\<close>

definition succeeds :: "('s, 'e, 'a) op \<Rightarrow> ('a \<Rightarrow> 's \<Rightarrow> bool) \<Rightarrow> 's \<Rightarrow> bool" where
  "succeeds m Q s \<longleftrightarrow> (\<exists>x s'. m s = (Ok x, s') \<and> Q x s')"

lemma succeedsI: "m s = (Ok x, s') \<Longrightarrow> Q x s' \<Longrightarrow> succeeds m Q s"
  by (auto simp: succeeds_def)

lemma succeedsE:
  assumes "succeeds m Q s"
  obtains x s' where "m s = (Ok x, s')" and "Q x s'"
  using assms by (auto simp: succeeds_def)

lemma succeeds_mono:
  "succeeds m Q s \<Longrightarrow> (\<And>x s'. Q x s' \<Longrightarrow> R x s') \<Longrightarrow> succeeds m R s"
  by (auto simp: succeeds_def)

lemma succeeds_return [simp]: "succeeds (io_return x) Q s \<longleftrightarrow> Q x s"
  by (auto simp: succeeds_def)

lemma succeeds_Pair [simp]: "succeeds (Pair r) Q s \<longleftrightarrow> (\<exists>x. r = Ok x \<and> Q x s)"
  by (auto simp: succeeds_def)

lemma succeeds_res [simp]: "succeeds (io_res r) Q s \<longleftrightarrow> (\<exists>x. r = Ok x \<and> Q x s)"
  by (auto simp: succeeds_def)

lemma succeeds_get [simp]: "succeeds (io_get f) Q s \<longleftrightarrow> succeeds (f s) Q s"
  by (simp add: succeeds_def)

lemma succeeds_modify [simp]: "succeeds (io_modify f) Q s \<longleftrightarrow> Q () (f s)"
  by (simp add: succeeds_def)

lemma succeeds_bind:
  "succeeds (io_bind m f) Q s \<longleftrightarrow> succeeds m (\<lambda>x s'. succeeds (f x) Q s') s"
  by (auto simp: succeeds_def io_bind_def split: prod.splits res.splits)

lemma succeeds_then:
  "succeeds (io_then m k) Q s \<longleftrightarrow> succeeds m (\<lambda>_ s'. succeeds k Q s') s"
  by (simp add: io_then_def succeeds_bind)

lemma succeeds_bindI:
  "succeeds m P s \<Longrightarrow> (\<And>x s'. P x s' \<Longrightarrow> succeeds (f x) Q s') \<Longrightarrow> succeeds (io_bind m f) Q s"
  by (auto simp: succeeds_bind elim: succeeds_mono)

lemma succeeds_thenI:
  "succeeds m P s \<Longrightarrow> (\<And>s'. P () s' \<Longrightarrow> succeeds k Q s') \<Longrightarrow> succeeds (io_then m k) Q s"
  unfolding io_then_def by (rule succeeds_bindI, assumption) simp

text \<open>
  \<open>guarded I m Q s\<close>: the call \<open>m\<close> from state \<open>s\<close> does not panic, leaves a state satisfying
  \<open>I\<close> whether it succeeds or fails, and a value and state satisfying \<open>Q\<close> if it succeeds.
\<close>

definition guarded :: "('s \<Rightarrow> bool) \<Rightarrow> ('s, 'a) io \<Rightarrow> ('a \<Rightarrow> 's \<Rightarrow> bool) \<Rightarrow> 's \<Rightarrow> bool" where
  "guarded I m Q s \<longleftrightarrow> (case m s of
      (Ok x, s') \<Rightarrow> I s' \<and> Q x s'
    | (Err e, s') \<Rightarrow> I s'
    | (Panic, s') \<Rightarrow> False)"

lemma guarded_return [simp]: "guarded I (io_return x) Q s \<longleftrightarrow> I s \<and> Q x s"
  by (simp add: guarded_def)

lemma guarded_Pair [simp]: "guarded I (Pair r) Q s \<longleftrightarrow>
    (case r of Ok x \<Rightarrow> I s \<and> Q x s | Err e \<Rightarrow> I s | Panic \<Rightarrow> False)"
  by (simp add: guarded_def split: res.split)

lemma guarded_res [simp]: "guarded I (io_res r) Q s \<longleftrightarrow>
    (case r of Ok x \<Rightarrow> I s \<and> Q x s | Err e \<Rightarrow> I s | Panic \<Rightarrow> False)"
  by (simp add: guarded_def split: res.split)

lemma guarded_get [simp]: "guarded I (io_get f) Q s \<longleftrightarrow> guarded I (f s) Q s"
  by (simp add: guarded_def)

lemma guarded_modify [simp]: "guarded I (io_modify f) Q s \<longleftrightarrow> I (f s) \<and> Q () (f s)"
  by (simp add: guarded_def)

lemma guarded_bindI:
  "guarded I m P s \<Longrightarrow> (\<And>x s'. I s' \<Longrightarrow> P x s' \<Longrightarrow> guarded I (f x) Q s') \<Longrightarrow> guarded I (io_bind m f) Q s"
  by (cases "m s"; cases "fst (m s)") (auto simp: guarded_def)

lemma guarded_thenI:
  "guarded I m P s \<Longrightarrow> (\<And>s'. I s' \<Longrightarrow> P () s' \<Longrightarrow> guarded I k Q s') \<Longrightarrow> guarded I (io_then m k) Q s"
  unfolding io_then_def by (rule guarded_bindI, assumption) simp

lemma guarded_mono:
  "guarded J m P s \<Longrightarrow> (\<And>s'. J s' \<Longrightarrow> I s') \<Longrightarrow> (\<And>x s'. J s' \<Longrightarrow> P x s' \<Longrightarrow> Q x s') \<Longrightarrow> guarded I m Q s"
  by (auto simp: guarded_def split: prod.splits res.splits)

lemma guarded_no_panic: "guarded I m Q s \<Longrightarrow> no_panic m s"
  by (auto simp: guarded_def no_panic_def split: prod.splits res.splits)

lemma guarded_invariant: "guarded I m Q s \<Longrightarrow> I (snd (m s))"
  by (auto simp: guarded_def split: prod.splits res.splits)

text \<open>
  \<open>agree I m m'\<close>: on states satisfying \<open>I\<close>, which both keep, the two calls are the same.
\<close>

definition agree :: "('s \<Rightarrow> bool) \<Rightarrow> ('s, 'a) io \<Rightarrow> ('s, 'a) io \<Rightarrow> bool" where
  "agree I m m' \<longleftrightarrow> (\<forall>s. I s \<longrightarrow> m' s = m s \<and> I (snd (m s)))"

named_theorems agreeing "calls that agree"

lemma agreeD: "agree I m m' \<Longrightarrow> I s \<Longrightarrow> m' s = m s"
  by (simp add: agree_def)

lemma agree_bind [agreeing]:
  "agree I m m' \<Longrightarrow> (\<And>x. agree I (f x) (f' x)) \<Longrightarrow> agree I (io_bind m f) (io_bind m' f')"
  unfolding agree_def io_bind_def by (auto split: prod.split res.split dest: spec)

lemma agree_then [agreeing]: "agree I m m' \<Longrightarrow> agree I k k' \<Longrightarrow> agree I (io_then m k) (io_then m' k')"
  unfolding io_then_def by (rule agree_bind)

lemma agree_return [agreeing]: "agree I (io_return x) (io_return x)"
  by (simp add: agree_def)

lemma agree_res [agreeing]: "agree I (io_res r) (io_res r)"
  by (simp add: agree_def)

lemma agree_fail [agreeing]: "agree I (io_fail e) (io_fail e)"
  by (simp add: agree_def)

lemma agree_get [agreeing]: "(\<And>s. agree I (f s) (f' s)) \<Longrightarrow> agree I (io_get f) (io_get f')"
  by (simp add: agree_def)

lemma agree_if [agreeing]:
  "agree I m m' \<Longrightarrow> agree I k k' \<Longrightarrow> agree I (if b then m else k) (if b then m' else k')"
  by simp

section \<open>Big-endian words\<close>

definition byte_of_nat :: "nat \<Rightarrow> byte" where
  "byte_of_nat n = word_of_nat n"

fun be_bytes :: "nat \<Rightarrow> nat \<Rightarrow> bytes" where
  "be_bytes 0 n = []"
| "be_bytes (Suc k) n = be_bytes k (n div 256) @ [byte_of_nat (n mod 256)]"

fun be_value :: "bytes \<Rightarrow> nat" where
  "be_value bs = foldl (\<lambda>acc b. acc * 256 + unat b) 0 bs"

definition u16_to_be_bytes :: "16 word \<Rightarrow> bytes" where
  "u16_to_be_bytes w = be_bytes 2 (unat w)"

definition u16_from_be_bytes :: "bytes \<Rightarrow> 16 word" where
  "u16_from_be_bytes bs = word_of_nat (be_value bs)"

lemma unat_byte_of_nat: "n < 256 \<Longrightarrow> unat (byte_of_nat n) = n"
  by (simp add: byte_of_nat_def unat_of_nat)

lemma byte_of_nat_inject: "m < 256 \<Longrightarrow> n < 256 \<Longrightarrow> byte_of_nat m = byte_of_nat n \<longleftrightarrow> m = n"
  by (metis unat_byte_of_nat)

lemma length_be_bytes [simp, wire]: "length (be_bytes k n) = k"
  by (induction k arbitrary: n) auto

lemma be_bytes_2: "be_bytes 2 n = [byte_of_nat (n div 256 mod 256), byte_of_nat (n mod 256)]"
  by (simp add: numeral_2_eq_2)

lemma be_value_snoc: "be_value (bs @ [b]) = be_value bs * 256 + unat b"
  by simp

lemma be_value_be_bytes: "n < 256 ^ k \<Longrightarrow> be_value (be_bytes k n) = n"
proof (induction k arbitrary: n)
  case 0
  then show ?case by simp
next
  case (Suc k)
  then have "n div 256 < 256 ^ k"
    by (simp add: less_mult_imp_div_less mult.commute)
  then have "be_value (be_bytes k (n div 256)) = n div 256"
    by (rule Suc.IH)
  then have "be_value (be_bytes (Suc k) n) = n div 256 * 256 + n mod 256"
    using unat_byte_of_nat [of "n mod 256"]
    by (simp del: be_value.simps add: be_value_snoc)
  then show ?case by simp
qed

lemma be_bytes_inject:
  "m < 256 ^ k \<Longrightarrow> n < 256 ^ k \<Longrightarrow> be_bytes k m = be_bytes k n \<longleftrightarrow> m = n"
  by (metis be_value_be_bytes)

declare be_value.simps [simp del]

lemma length_u16_to_be_bytes [simp, wire]: "length (u16_to_be_bytes w) = 2"
  by (simp add: u16_to_be_bytes_def)

lemma unat_u16_bound: "unat (w :: 16 word) < 65536"
  using unsigned_less [where w = w and ?'a = nat] by simp

lemma unat_u16_of_nat: "n < 65536 \<Longrightarrow> unat (word_of_nat n :: 16 word) = n"
  by (simp add: unat_of_nat)

lemma u16_from_to_be_bytes [simp]: "u16_from_be_bytes (u16_to_be_bytes w) = w"
proof -
  have "unat w < 256 ^ 2" using unat_u16_bound [of w] by simp
  then show ?thesis
    by (simp add: u16_from_be_bytes_def u16_to_be_bytes_def be_value_be_bytes del: be_bytes.simps)
qed

lemma be_value_pair: "be_value [a, b] = unat a * 256 + unat b"
  by (simp add: be_value.simps)

lemma byte_of_nat_unat [simp]: "byte_of_nat (unat b) = b"
  by (simp add: byte_of_nat_def)

lemma u16_to_from_be_bytes: "length bs = 2 \<Longrightarrow> u16_to_be_bytes (u16_from_be_bytes bs) = bs"
proof -
  assume "length bs = 2"
  then obtain a b where bs: "bs = [a, b]" by (auto simp: length_Suc_conv numeral_2_eq_2)
  have ab: "unat a < 256" "unat b < 256"
    using unsigned_less [where w = a and ?'a = nat] unsigned_less [where w = b and ?'a = nat] by simp_all
  then have "unat a * 256 + unat b < 65536" by simp
  then have "unat (u16_from_be_bytes bs) = unat a * 256 + unat b"
    by (simp only: bs u16_from_be_bytes_def be_value_pair unat_u16_of_nat)
  moreover have "be_bytes 2 (unat a * 256 + unat b) = [byte_of_nat (unat a), byte_of_nat (unat b)]"
    using ab by (simp add: numeral_2_eq_2 mod_mult_self2)
  ultimately show ?thesis by (simp add: u16_to_be_bytes_def bs)
qed

lemma u16_to_be_bytes_inject [simp]: "u16_to_be_bytes v = u16_to_be_bytes w \<longleftrightarrow> v = w"
  by (metis u16_from_to_be_bytes)

section \<open>Lists\<close>

lemma take_drop_split: "k \<le> n \<Longrightarrow> take k xs @ take (n - k) (drop k xs) = take n xs"
  by (metis le_add_diff_inverse take_add)

lemma append_eq_same_length:
  "length xs = length ys \<Longrightarrow> xs @ us = ys @ vs \<longleftrightarrow> xs = ys \<and> us = vs"
  by simp

lemma take_min_length: "take (min n (length xs)) xs = take n xs" "take (min (length xs) n) xs = take n xs"
  by (cases "n \<le> length xs"; auto simp: min_def)+

end
