(* ===== verification/Base32.thy ===== *)
theory Base32
  imports Nck_Prelude
begin

text \<open>
  \<open>crates/hashing/src/base32.rs\<close>: the fixed-size base32 wrapper. The encoding itself is the
  third-party crate \<open>data_encoding\<close>, a parameter of the model: a \<open>b32_codec\<close> holds its two
  calls, and \<open>codec_documented\<close> states what that crate documents of them for the alphabet of
  the source (no padding, upper case translated to lower case). \<open>rfc4648_codec\<close> is a codec
  that satisfies it, so the hypotheses can hold.
\<close>

section \<open>The encoding library, as a parameter\<close>

datatype decode_mut_result =
    DecodePanic \<comment> \<open>the call panics\<close>
  | DecodeErr \<comment> \<open>the call returns an error\<close>
  | DecodeOk nat bytes \<comment> \<open>the count returned, and the output buffer after the call\<close>

record b32_codec =
  encode_write :: "bytes \<Rightarrow> string"
  decode_mut :: "string \<Rightarrow> nat \<Rightarrow> decode_mut_result" \<comment> \<open>input, length of the output buffer\<close>

definition BASE32_symbols :: string where
  "BASE32_symbols = ''abcdefghijklmnopqrstuvwxyz234567''"

definition BASE32_upper :: string where
  "BASE32_upper = ''ABCDEFGHIJKLMNOPQRSTUVWXYZ''"

definition BASE32_translate :: "char \<Rightarrow> char" where
  "BASE32_translate c =
     (case map_of (zip BASE32_upper BASE32_symbols) c of None \<Rightarrow> c | Some d \<Rightarrow> d)"

text \<open>\<open>Encoding::encode_len\<close> and \<open>Encoding::decode_len\<close> for five bits a symbol, no padding.\<close>

definition b32_encode_len :: "nat \<Rightarrow> nat" where
  "b32_encode_len n = (8 * n + 4) div 5"

definition b32_decode_len :: "nat \<Rightarrow> nat option" where
  "b32_decode_len n = (if n mod 8 \<in> {0, 2, 4, 5, 7} then Some (5 * n div 8) else None)"

definition codec_documented :: "b32_codec \<Rightarrow> bool" where
  "codec_documented c \<longleftrightarrow>
     (\<forall>bs. length (encode_write c bs) = b32_encode_len (length bs)) \<and>
     (\<forall>bs. set (encode_write c bs) \<subseteq> set BASE32_symbols) \<and>
     (\<forall>bs. decode_mut c (encode_write c bs) (length bs) = DecodeOk (length bs) bs) \<and>
     (\<forall>s n. decode_mut c s n = DecodePanic \<longleftrightarrow> b32_decode_len (length s) \<noteq> Some n) \<and>
     (\<forall>s n k out. decode_mut c s n = DecodeOk k out \<longrightarrow> length out = n) \<and>
     (\<forall>s n. decode_mut c (map BASE32_translate s) n = decode_mut c s n)"

lemma codec_encode_len: "codec_documented c \<Longrightarrow> length (encode_write c bs) = b32_encode_len (length bs)"
  by (simp add: codec_documented_def)

lemma codec_symbols: "codec_documented c \<Longrightarrow> set (encode_write c bs) \<subseteq> set BASE32_symbols"
  by (simp add: codec_documented_def)

lemma codec_roundtrip:
  "codec_documented c \<Longrightarrow> decode_mut c (encode_write c bs) (length bs) = DecodeOk (length bs) bs"
  by (simp add: codec_documented_def)

lemma codec_panics:
  "codec_documented c \<Longrightarrow> decode_mut c s n = DecodePanic \<longleftrightarrow> b32_decode_len (length s) \<noteq> Some n"
  by (simp add: codec_documented_def)

lemma codec_out_len: "codec_documented c \<Longrightarrow> decode_mut c s n = DecodeOk k out \<Longrightarrow> length out = n"
  by (auto simp: codec_documented_def)

lemma codec_translate:
  "codec_documented c \<Longrightarrow> decode_mut c (map BASE32_translate s) n = decode_mut c s n"
  by (simp add: codec_documented_def)

section \<open>The wrapper\<close>

text \<open>\<open>Base32<SIZE>\<close> is its array of \<open>SIZE\<close> bytes.\<close>

datatype base32 = Base32 (b32_bytes: bytes)

definition base32_default :: "nat \<Rightarrow> base32" where
  "base32_default SIZE = Base32 (replicate SIZE 0)"

definition base32_from :: "bytes \<Rightarrow> base32" where
  "base32_from value = Base32 value"

definition base32_from_ref :: "bytes \<Rightarrow> base32" where
  "base32_from_ref value = Base32 value"

definition base32_debug :: "b32_codec \<Rightarrow> base32 \<Rightarrow> string" where
  "base32_debug c b = encode_write c (b32_bytes b)"

definition base32_display :: "b32_codec \<Rightarrow> base32 \<Rightarrow> string" where
  "base32_display c b = encode_write c (b32_bytes b)"

datatype invalid_base32 = InvalidBase32 nat

definition base32_from_str :: "b32_codec \<Rightarrow> nat \<Rightarrow> string \<Rightarrow> (invalid_base32, base32) res" where
  "base32_from_str c SIZE s =
     (case decode_mut c s SIZE of
        DecodePanic \<Rightarrow> Panic
      | DecodeOk v result \<Rightarrow> if v = SIZE then Ok (Base32 result) else Err (InvalidBase32 SIZE)
      | DecodeErr \<Rightarrow> Err (InvalidBase32 SIZE))"

lemma base32_roundtrip:
  "codec_documented c \<Longrightarrow> length bs = SIZE \<Longrightarrow>
     base32_from_str c SIZE (base32_display c (Base32 bs)) = Ok (Base32 bs)"
  using codec_roundtrip [of c bs] by (simp add: base32_from_str_def base32_display_def)

lemma base32_case:
  "codec_documented c \<Longrightarrow>
     base32_from_str c SIZE (map BASE32_translate s) = base32_from_str c SIZE s"
  by (simp add: base32_from_str_def codec_translate)

lemma base32_from_str_Panic:
  "codec_documented c \<Longrightarrow>
     base32_from_str c SIZE s = Panic \<longleftrightarrow> b32_decode_len (length s) \<noteq> Some SIZE"
  using codec_panics [of c s SIZE]
  by (auto simp: base32_from_str_def split: decode_mut_result.splits)

lemma base32_from_str_len:
  "codec_documented c \<Longrightarrow> base32_from_str c SIZE s = Ok b \<Longrightarrow> length (b32_bytes b) = SIZE"
  by (auto simp: base32_from_str_def codec_out_len split: decode_mut_result.splits if_splits)

lemma decode_len_32: "b32_decode_len n = Some 32 \<longleftrightarrow> n = 52"
proof
  assume "b32_decode_len n = Some 32"
  then have "5 * n div 8 = 32" and m: "n mod 8 \<in> {0, 2, 4, 5, 7}"
    by (auto simp: b32_decode_len_def split: if_splits)
  then have "n = 52 \<or> n = 51 + 1" by (auto; presburger)
  then show "n = 52" by simp
qed (simp add: b32_decode_len_def)

section \<open>A codec with the documented behaviour\<close>

fun bits_of :: "nat \<Rightarrow> nat \<Rightarrow> bool list" where
  "bits_of 0 n = []"
| "bits_of (Suc k) n = bits_of k (n div 2) @ [odd n]"

fun bits_value :: "bool list \<Rightarrow> nat" where
  "bits_value bs = foldl (\<lambda>acc b. 2 * acc + of_bool b) 0 bs"

lemma length_bits_of [simp]: "length (bits_of k n) = k"
  by (induction k arbitrary: n) auto

lemma bits_value_snoc: "bits_value (bs @ [b]) = 2 * bits_value bs + of_bool b"
  by simp

declare bits_value.simps [simp del]

lemma bits_value_of: "n < 2 ^ k \<Longrightarrow> bits_value (bits_of k n) = n"
proof (induction k arbitrary: n)
  case 0
  then show ?case by (simp add: bits_value.simps)
next
  case (Suc k)
  then have "bits_value (bits_of k (n div 2)) = n div 2" by simp
  then show ?case by (simp add: bits_value_snoc)
qed

lemma bits_of_value: "bits_of (length bs) (bits_value bs) = bs"
  by (induction bs rule: rev_induct) (auto simp: bits_value_snoc)

lemma bits_value_bound: "bits_value bs < 2 ^ length bs"
  by (induction bs rule: rev_induct) (auto simp: bits_value_snoc bits_value.simps [of "[]"])

text \<open>The first \<open>n\<close> groups of \<open>k\<close> elements.\<close>

definition chunk :: "nat \<Rightarrow> nat \<Rightarrow> 'a list \<Rightarrow> 'a list list" where
  "chunk k n xs = map (\<lambda>i. take k (drop (k * i) xs)) [0..<n]"

lemma length_chunk [simp]: "length (chunk k n xs) = n"
  by (simp add: chunk_def)

lemma chunk_elem_length: "k * n \<le> length xs \<Longrightarrow> g \<in> set (chunk k n xs) \<Longrightarrow> length g = k"
proof -
  assume le: "k * n \<le> length xs" and "g \<in> set (chunk k n xs)"
  then obtain i where "i < n" and g: "g = take k (drop (k * i) xs)" by (auto simp: chunk_def)
  then have "k * Suc i \<le> k * n" by (intro mult_le_mono2) simp
  with le g show "length g = k" by simp
qed

lemma concat_chunk: "concat (chunk k n xs) = take (k * n) xs"
proof (induction n)
  case (Suc n)
  have "take (k * Suc n) xs = take (k * n) xs @ take k (drop (k * n) xs)"
    by (metis add.commute mult_Suc_right take_add)
  with Suc show ?case by (simp add: chunk_def)
qed (simp add: chunk_def)

lemma chunk_Cons: "length g = k \<Longrightarrow> chunk k (Suc n) (g @ xs) = g # chunk k n xs"
  by (simp add: chunk_def upt_conv_Cons flip: map_Suc_upt del: upt_Suc)

lemma chunk_concat: "\<forall>g \<in> set gs. length g = k \<Longrightarrow> chunk k (length gs) (concat gs @ ys) = gs"
proof (induction gs)
  case (Cons g gs)
  then show ?case by (simp add: chunk_Cons)
qed (simp add: chunk_def)

definition rfc4648_encode :: "bytes \<Rightarrow> string" where
  "rfc4648_encode bs =
     (let n = b32_encode_len (length bs);
          bits = concat (map (\<lambda>b. bits_of 8 (unat b)) bs) in
      map (\<lambda>g. BASE32_symbols ! bits_value g)
        (chunk 5 n (bits @ replicate (5 * n - length bits) False)))"

definition rfc4648_symbol :: "char \<Rightarrow> nat option" where
  "rfc4648_symbol c = map_of (zip BASE32_symbols [0..<32]) (BASE32_translate c)"

definition rfc4648_decode :: "string \<Rightarrow> nat \<Rightarrow> decode_mut_result" where
  "rfc4648_decode s n =
     (if b32_decode_len (length s) \<noteq> Some n then DecodePanic
      else case those (map rfc4648_symbol s) of
        None \<Rightarrow> DecodeErr
      | Some vs \<Rightarrow>
          let bits = concat (map (bits_of 5) vs) in
          if True \<in> set (drop (8 * n) bits) then DecodeErr
          else DecodeOk n (map (\<lambda>g. byte_of_nat (bits_value g)) (chunk 8 n bits)))"

definition rfc4648_codec :: b32_codec where
  "rfc4648_codec = \<lparr>encode_write = rfc4648_encode, decode_mut = rfc4648_decode\<rparr>"

lemma BASE32_symbols_facts:
  "length BASE32_symbols = 32" "distinct BASE32_symbols"
  "\<forall>c \<in> set BASE32_symbols. BASE32_translate c = c"
  by (simp_all add: BASE32_symbols_def BASE32_translate_def BASE32_upper_def)

lemma BASE32_translate_idem: "BASE32_translate (BASE32_translate c) = BASE32_translate c"
proof (cases "map_of (zip BASE32_upper BASE32_symbols) c")
  case None
  then show ?thesis by (simp add: BASE32_translate_def)
next
  case (Some d)
  then have "d \<in> set BASE32_symbols" by (auto dest!: map_of_SomeD set_zip_rightD)
  moreover from Some have "BASE32_translate c = d" by (simp add: BASE32_translate_def)
  ultimately show ?thesis using BASE32_symbols_facts(3) by simp
qed

lemma rfc4648_symbol_nth: "v < 32 \<Longrightarrow> rfc4648_symbol (BASE32_symbols ! v) = Some v"
proof -
  assume v: "v < 32"
  then have "BASE32_symbols ! v \<in> set BASE32_symbols" using BASE32_symbols_facts(1) by simp
  then have "BASE32_translate (BASE32_symbols ! v) = BASE32_symbols ! v"
    using BASE32_symbols_facts(3) by blast
  then show ?thesis
    using v BASE32_symbols_facts map_of_zip_nth [of BASE32_symbols "[0..<32]" v]
    by (simp add: rfc4648_symbol_def)
qed

lemma decode_encode_len: "b32_decode_len (b32_encode_len n) = Some n"
proof -
  obtain q r where n: "n = 5 * q + r" and r: "r < 5"
    by (metis mod_less_divisor mult_div_mod_eq zero_less_numeral)
  have "(8 * n + 4) div 5 = (8 * r + 4 + 5 * (8 * q)) div 5" by (simp add: n)
  also have "\<dots> = 8 * q + (8 * r + 4) div 5" by (subst div_mult_self2) auto
  finally have e: "b32_encode_len n = 8 * q + (8 * r + 4) div 5" by (simp add: b32_encode_len_def)
  from r have "r = 0 \<or> r = 1 \<or> r = 2 \<or> r = 3 \<or> r = 4" by auto
  then have k: "(8 * r + 4) div 5 mod 8 \<in> {0, 2, 4, 5, 7}" "5 * ((8 * r + 4) div 5) div 8 = r"
    by (elim disjE; simp)+
  define k where "k = (8 * r + 4) div 5"
  have "(8 * q + k) mod 8 = k mod 8" by simp
  moreover have "5 * (8 * q + k) div 8 = 5 * q + 5 * k div 8" by presburger
  moreover have "b32_encode_len n = 8 * q + k" using e by (simp only: k_def)
  ultimately show ?thesis
    using k [folded k_def] by (auto simp: b32_decode_len_def n)
qed

lemma encode_len_bits: "8 * n \<le> 5 * b32_encode_len n"
  unfolding b32_encode_len_def by presburger

lemma those_map_Some: "(\<And>x. x \<in> set xs \<Longrightarrow> f x = Some (g x)) \<Longrightarrow> those (map f xs) = Some (map g xs)"
  by (induction xs) auto

lemma rfc4648_roundtrip: "rfc4648_decode (rfc4648_encode bs) (length bs) = DecodeOk (length bs) bs"
proof -
  let ?n = "b32_encode_len (length bs)"
  let ?gs = "map (\<lambda>b. bits_of 8 (unat b)) bs"
  let ?bits = "concat ?gs"
  let ?pad = "?bits @ replicate (5 * ?n - length ?bits) False"
  let ?ch = "chunk 5 ?n ?pad"
  have len: "length ?bits = 8 * length bs" by (induction bs) auto
  have padlen: "length ?pad = 5 * ?n" using encode_len_bits [of "length bs"] len by simp
  have g5: "length g = 5" if "g \<in> set ?ch" for g
    using that padlen by (intro chunk_elem_length [of 5 ?n ?pad]) auto
  have small: "bits_value g < 32" if "g \<in> set ?ch" for g
    using bits_value_bound [of g] g5 [OF that] by simp
  have enc: "rfc4648_encode bs = map (\<lambda>g. BASE32_symbols ! bits_value g) ?ch"
    by (simp add: rfc4648_encode_def Let_def)
  have "those (map rfc4648_symbol (rfc4648_encode bs)) = Some (map bits_value ?ch)"
    unfolding enc map_map by (rule those_map_Some) (simp add: small rfc4648_symbol_nth)
  moreover have "map (bits_of 5) (map bits_value ?ch) = ?ch"
    unfolding map_map by (rule map_idI) (metis bits_of_value comp_apply g5)
  then have "concat (map (bits_of 5) (map bits_value ?ch)) = ?pad"
    using concat_chunk [of 5 ?n ?pad] padlen by simp
  moreover have "chunk 8 (length bs) ?pad = ?gs"
    using chunk_concat [of ?gs 8 "replicate (5 * ?n - length ?bits) False"] by simp
  moreover have "map (\<lambda>g. byte_of_nat (bits_value g)) ?gs = bs"
  proof -
    have "byte_of_nat (bits_value (bits_of 8 (unat b))) = b" for b :: byte
      using unsigned_less [where w = b and ?'a = nat] by (simp add: bits_value_of byte_of_nat_def)
    then show ?thesis by (simp add: comp_def)
  qed
  moreover have "b32_decode_len (length (rfc4648_encode bs)) = Some (length bs)"
    by (simp add: enc decode_encode_len)
  moreover have "True \<notin> set (drop (8 * length bs) ?pad)" using len by simp
  ultimately show ?thesis by (simp add: rfc4648_decode_def Let_def)
qed

theorem rfc4648_documented: "codec_documented rfc4648_codec"
proof -
  have len: "length (rfc4648_encode bs) = b32_encode_len (length bs)" for bs
    by (simp add: rfc4648_encode_def Let_def)
  have sym: "set (rfc4648_encode bs) \<subseteq> set BASE32_symbols" for bs
  proof
    fix c assume "c \<in> set (rfc4648_encode bs)"
    let ?bits = "concat (map (\<lambda>b. bits_of 8 (unat b)) bs)"
    let ?n = "b32_encode_len (length bs)"
    let ?pad = "?bits @ replicate (5 * ?n - length ?bits) False"
    have l: "5 * ?n \<le> length ?pad" by simp
    from \<open>c \<in> _\<close> obtain g where g: "g \<in> set (chunk 5 ?n ?pad)"
      and c: "c = BASE32_symbols ! bits_value g"
      by (auto simp: rfc4648_encode_def Let_def)
    have "bits_value g < 2 ^ 5"
      using bits_value_bound [of g] chunk_elem_length [OF l g] by simp
    with c show "c \<in> set BASE32_symbols" using BASE32_symbols_facts(1) by simp
  qed
  have panic: "rfc4648_decode s n = DecodePanic \<longleftrightarrow> b32_decode_len (length s) \<noteq> Some n" for s n
    by (auto simp: rfc4648_decode_def Let_def split: option.splits)
  have out: "rfc4648_decode s n = DecodeOk k out \<Longrightarrow> length out = n" for s n k out
    by (auto simp: rfc4648_decode_def Let_def split: option.splits if_splits)
  have "rfc4648_symbol \<circ> BASE32_translate = rfc4648_symbol"
    by (simp add: fun_eq_iff rfc4648_symbol_def BASE32_translate_idem)
  then have trans: "rfc4648_decode (map BASE32_translate s) n = rfc4648_decode s n" for s n
    by (simp add: rfc4648_decode_def)
  show ?thesis
    unfolding codec_documented_def rfc4648_codec_def
    by (auto simp: len panic trans rfc4648_roundtrip dest: out sym [THEN subsetD])
qed

end
