(* ===== verification/Stable_Hash.thy ===== *)
theory Stable_Hash
  imports Nck_Prelude
begin

text \<open>
  \<open>crates/hashing/src/lib.rs\<close>: hashing that does not depend on the platform or the process.
  A \<open>StableHasher\<close> is a record of its two calls; every \<open>impl StableHash\<close> is a function
  from a value to a change of the hasher's state, calling the hasher as the source does.

  The specification is the byte stream that a value feeds to the hasher (\<open>enc_*\<close>).
  \<open>lawful_hasher\<close> is the contract of a hasher (feeding two slices is feeding their
  concatenation); under it every implementation feeds exactly its stream. \<open>stable_type\<close>
  is the contract of a hashable type: its streams can be read back, also when other data
  follows, so distinct values (and distinct sequences of values) never feed the same bytes.
\<close>

section \<open>Hashers and hashable values\<close>

record ('h, 'r) stable_hasher =
  hasher_update :: "bytes \<Rightarrow> 'h \<Rightarrow> 'h"
  hasher_finalize :: "'h \<Rightarrow> 'r"

type_synonym ('h, 'a) stable_update = "'a \<Rightarrow> 'h \<Rightarrow> 'h"

definition update_hash :: "('h, 'a) stable_update \<Rightarrow> 'a \<Rightarrow> 'h \<Rightarrow> 'h" where
  "update_hash upd v h = upd v h"

definition stable_hash :: "('h, 'r) stable_hasher \<Rightarrow> ('h, 'a) stable_update \<Rightarrow> 'a \<Rightarrow> 'h \<Rightarrow> 'r" where
  "stable_hash H upd v h = hasher_finalize H (update_hash upd v h)"

definition stable_u8 :: "('h, 'r) stable_hasher \<Rightarrow> ('h, byte) stable_update" where
  "stable_u8 H v h = hasher_update H [v] h"

definition stable_u16 :: "('h, 'r) stable_hasher \<Rightarrow> ('h, 16 word) stable_update" where
  "stable_u16 H v h = hasher_update H (be_bytes 2 (unat v)) h"

definition stable_u32 :: "('h, 'r) stable_hasher \<Rightarrow> ('h, 32 word) stable_update" where
  "stable_u32 H v h = hasher_update H (be_bytes 4 (unat v)) h"

definition stable_u64 :: "('h, 'r) stable_hasher \<Rightarrow> ('h, 64 word) stable_update" where
  "stable_u64 H v h = hasher_update H (be_bytes 8 (unat v)) h"

definition stable_u128 :: "('h, 'r) stable_hasher \<Rightarrow> ('h, 128 word) stable_update" where
  "stable_u128 H v h = hasher_update H (be_bytes 16 (unat v)) h"

text \<open>Signed integers are words read as two's complement; \<open>to_be_bytes\<close> writes the same bits.\<close>

definition stable_i8 :: "('h, 'r) stable_hasher \<Rightarrow> ('h, 8 word) stable_update" where
  "stable_i8 H v h = hasher_update H [v] h"

definition stable_i16 :: "('h, 'r) stable_hasher \<Rightarrow> ('h, 16 word) stable_update" where
  "stable_i16 H v h = hasher_update H (be_bytes 2 (unat v)) h"

definition stable_i32 :: "('h, 'r) stable_hasher \<Rightarrow> ('h, 32 word) stable_update" where
  "stable_i32 H v h = hasher_update H (be_bytes 4 (unat v)) h"

definition stable_i64 :: "('h, 'r) stable_hasher \<Rightarrow> ('h, 64 word) stable_update" where
  "stable_i64 H v h = hasher_update H (be_bytes 8 (unat v)) h"

definition stable_i128 :: "('h, 'r) stable_hasher \<Rightarrow> ('h, 128 word) stable_update" where
  "stable_i128 H v h = hasher_update H (be_bytes 16 (unat v)) h"

definition stable_bool :: "('h, 'r) stable_hasher \<Rightarrow> ('h, bool) stable_update" where
  "stable_bool H v h = (if v then hasher_update H [0xFF] h else hasher_update H [0x00] h)"

text \<open>\<open>usize\<close> and \<open>isize\<close> are 64 bits wide on the supported targets.\<close>

definition stable_usize :: "('h, 'r) stable_hasher \<Rightarrow> ('h, 64 word) stable_update" where
  "stable_usize H v h = stable_u64 H v h"

definition stable_isize :: "('h, 'r) stable_hasher \<Rightarrow> ('h, 64 word) stable_update" where
  "stable_isize H v h = stable_i64 H v h"

definition stable_slice ::
    "('h, 'r) stable_hasher \<Rightarrow> ('h, 'a) stable_update \<Rightarrow> ('h, 'a list) stable_update" where
  "stable_slice H upd xs h =
     fold upd xs (update_hash (stable_usize H) (word_of_nat (length xs)) h)"

definition stable_vec ::
    "('h, 'r) stable_hasher \<Rightarrow> ('h, 'a) stable_update \<Rightarrow> ('h, 'a list) stable_update" where
  "stable_vec H upd xs h = stable_slice H upd xs h"

text \<open>\<open>String\<close>, \<open>&str\<close>, \<open>OsString\<close>, \<open>&OsStr\<close>, \<open>PathBuf\<close>, \<open>&Path\<close>: their bytes.\<close>

definition stable_os_string :: "('h, 'r) stable_hasher \<Rightarrow> ('h, bytes) stable_update" where
  "stable_os_string H s h = stable_slice H (stable_u8 H) s h"

definition stable_path :: "('h, 'r) stable_hasher \<Rightarrow> ('h, bytes) stable_update" where
  "stable_path H s h = stable_slice H (stable_u8 H) s h"

definition stable_string :: "('h, 'r) stable_hasher \<Rightarrow> ('h, bytes) stable_update" where
  "stable_string H s h = stable_slice H (stable_u8 H) s h"

definition stable_option ::
    "('h, 'r) stable_hasher \<Rightarrow> ('h, 'a) stable_update \<Rightarrow> ('h, 'a option) stable_update" where
  "stable_option H upd v h =
     (case v of
        Some x \<Rightarrow> update_hash upd x (update_hash (stable_u8 H) 1 h)
      | None \<Rightarrow> update_hash (stable_u8 H) 0 h)"

definition stable_pair ::
    "('h, 'a) stable_update \<Rightarrow> ('h, 'b) stable_update \<Rightarrow> ('h, 'a \<times> 'b) stable_update" where
  "stable_pair upd1 upd2 p h = update_hash upd2 (snd p) (update_hash upd1 (fst p) h)"

text \<open>\<open>update_iter\<close>: each element after its position, then \<open>u64::MAX\<close>.\<close>

fun update_iter_from ::
    "('h, 'r) stable_hasher \<Rightarrow> ('h, 'a) stable_update \<Rightarrow> nat \<Rightarrow> 'a list \<Rightarrow> 'h \<Rightarrow> 'h" where
  "update_iter_from H upd i [] h = update_hash (stable_u64 H) (- 1) h"
| "update_iter_from H upd i (v # vs) h =
     update_iter_from H upd (Suc i) vs (upd v (update_hash (stable_u64 H) (word_of_nat i) h))"

definition update_iter ::
    "('h, 'r) stable_hasher \<Rightarrow> ('h, 'a) stable_update \<Rightarrow> 'a list \<Rightarrow> 'h \<Rightarrow> 'h" where
  "update_iter H upd vs h = update_iter_from H upd 0 vs h"

text \<open>A \<open>BTreeSet\<close> and a \<open>BTreeMap\<close> iterate in the order of their keys.\<close>

definition stable_btree_set ::
    "('h, 'r) stable_hasher \<Rightarrow> ('h, 'a :: linorder) stable_update \<Rightarrow> ('h, 'a set) stable_update" where
  "stable_btree_set H upd S h = update_iter H upd (sorted_list_of_set S) h"

definition btree_entries :: "('k :: linorder \<rightharpoonup> 'v) \<Rightarrow> ('k \<times> 'v) list" where
  "btree_entries m = map (\<lambda>k. (k, the (m k))) (sorted_list_of_set (dom m))"

definition stable_btree_map ::
    "('h, 'r) stable_hasher \<Rightarrow> ('h, 'k :: linorder) stable_update \<Rightarrow> ('h, 'v) stable_update \<Rightarrow>
     ('h, 'k \<rightharpoonup> 'v) stable_update" where
  "stable_btree_map H updk updv m h = update_iter H (stable_pair updk updv) (btree_entries m) h"

section \<open>Byte streams\<close>

definition enc_u64 :: "64 word \<Rightarrow> bytes" where
  "enc_u64 v = be_bytes 8 (unat v)"

definition enc_bool :: "bool \<Rightarrow> bytes" where
  "enc_bool v = [if v then 0xFF else 0x00]"

definition enc_list :: "('a \<Rightarrow> bytes) \<Rightarrow> 'a list \<Rightarrow> bytes" where
  "enc_list enc xs = enc_u64 (word_of_nat (length xs)) @ concat (map enc xs)"

fun enc_option :: "('a \<Rightarrow> bytes) \<Rightarrow> 'a option \<Rightarrow> bytes" where
  "enc_option enc None = [0]"
| "enc_option enc (Some x) = 1 # enc x"

definition enc_pair :: "('a \<Rightarrow> bytes) \<Rightarrow> ('b \<Rightarrow> bytes) \<Rightarrow> 'a \<times> 'b \<Rightarrow> bytes" where
  "enc_pair enc1 enc2 p = enc1 (fst p) @ enc2 (snd p)"

fun enc_iter :: "('a \<Rightarrow> bytes) \<Rightarrow> nat \<Rightarrow> 'a list \<Rightarrow> bytes" where
  "enc_iter enc i [] = enc_u64 (- 1)"
| "enc_iter enc i (x # xs) = enc_u64 (word_of_nat i) @ enc x @ enc_iter enc (Suc i) xs"

section \<open>The contract of a hasher\<close>

locale lawful_hasher =
  fixes H :: "('h, 'r) stable_hasher"
  assumes update_nil: "hasher_update H [] h = h"
    and update_append: "hasher_update H b (hasher_update H a h) = hasher_update H (a @ b) h"
begin

text \<open>\<open>feeds upd enc\<close>: the implementation \<open>upd\<close> feeds the stream \<open>enc\<close>.\<close>

definition feeds :: "('h, 'a) stable_update \<Rightarrow> ('a \<Rightarrow> bytes) \<Rightarrow> bool" where
  "feeds upd enc \<longleftrightarrow> (\<forall>v h. upd v h = hasher_update H (enc v) h)"

lemma feedsD: "feeds upd enc \<Longrightarrow> upd v h = hasher_update H (enc v) h"
  by (simp add: feeds_def)

lemma feeds_u8: "feeds (stable_u8 H) (\<lambda>v. [v])"
  by (simp add: feeds_def stable_u8_def)

lemma feeds_u64: "feeds (stable_u64 H) enc_u64"
  by (simp add: feeds_def stable_u64_def enc_u64_def)

lemma feeds_usize: "feeds (stable_usize H) enc_u64"
  using feeds_u64 by (simp add: feeds_def stable_usize_def)

lemma feeds_bool: "feeds (stable_bool H) enc_bool"
  by (simp add: feeds_def stable_bool_def enc_bool_def)

lemma feeds_fold:
  "feeds upd enc \<Longrightarrow> fold upd xs (hasher_update H a h) = hasher_update H (a @ concat (map enc xs)) h"
  by (induction xs arbitrary: a) (simp_all add: feedsD update_append)

lemma feeds_slice: "feeds upd enc \<Longrightarrow> feeds (stable_slice H upd) (enc_list enc)"
  by (simp add: feeds_def [of "stable_slice H upd"] stable_slice_def update_hash_def
      feedsD [OF feeds_usize] feeds_fold enc_list_def)

lemma feeds_vec: "feeds upd enc \<Longrightarrow> feeds (stable_vec H upd) (enc_list enc)"
  using feeds_slice [of upd enc] by (simp add: feeds_def stable_vec_def)

lemma feeds_string: "feeds (stable_string H) (enc_list (\<lambda>b. [b]))"
  using feeds_slice [OF feeds_u8] by (simp add: feeds_def stable_string_def)

lemma feeds_path: "feeds (stable_path H) (enc_list (\<lambda>b. [b]))"
  using feeds_slice [OF feeds_u8] by (simp add: feeds_def stable_path_def)

lemma feeds_os_string: "feeds (stable_os_string H) (enc_list (\<lambda>b. [b]))"
  using feeds_slice [OF feeds_u8] by (simp add: feeds_def stable_os_string_def)

lemma feeds_option: "feeds upd enc \<Longrightarrow> feeds (stable_option H upd) (enc_option enc)"
  by (auto simp: feeds_def stable_option_def update_hash_def stable_u8_def update_append
      split: option.splits)

lemma feeds_pair: "feeds u1 e1 \<Longrightarrow> feeds u2 e2 \<Longrightarrow> feeds (stable_pair u1 u2) (enc_pair e1 e2)"
  by (simp add: feeds_def stable_pair_def enc_pair_def update_hash_def update_append)

lemma feeds_iter_from:
  "feeds upd enc \<Longrightarrow>
     update_iter_from H upd i xs (hasher_update H a h) = hasher_update H (a @ enc_iter enc i xs) h"
  by (induction xs arbitrary: i a)
    (simp_all add: update_hash_def feedsD feedsD [OF feeds_u64] update_append)

lemma feeds_iter: "feeds upd enc \<Longrightarrow> feeds (update_iter H upd) (enc_iter enc 0)"
  using feeds_iter_from [of upd enc 0 _ "[]"] by (simp add: feeds_def update_iter_def update_nil)

lemma feeds_btree_set:
  "feeds upd enc \<Longrightarrow> feeds (stable_btree_set H upd) (\<lambda>S. enc_iter enc 0 (sorted_list_of_set S))"
  using feeds_iter [of upd enc] by (simp add: feeds_def stable_btree_set_def)

lemma feeds_btree_map:
  "feeds uk ek \<Longrightarrow> feeds uv ev \<Longrightarrow>
     feeds (stable_btree_map H uk uv) (\<lambda>m. enc_iter (enc_pair ek ev) 0 (btree_entries m))"
  using feeds_iter [OF feeds_pair, of uk ek uv ev] by (simp add: feeds_def stable_btree_map_def)

end

section \<open>The contract of a hashable type\<close>

locale stable_type =
  fixes enc :: "'a \<Rightarrow> bytes" and valid :: "'a \<Rightarrow> bool"
  assumes readable: "valid v \<Longrightarrow> valid w \<Longrightarrow> enc v @ r = enc w @ s \<Longrightarrow> v = w \<and> r = s"
begin

lemma enc_inject: "valid v \<Longrightarrow> valid w \<Longrightarrow> enc v = enc w \<Longrightarrow> v = w"
  using readable [of v w "[]" "[]"] by simp

lemma concat_readable:
  "length xs = length ys \<Longrightarrow> (\<And>x. x \<in> set xs \<union> set ys \<Longrightarrow> valid x) \<Longrightarrow>
     concat (map enc xs) @ r = concat (map enc ys) @ s \<Longrightarrow> xs = ys \<and> r = s"
proof (induction xs ys rule: list_induct2)
  case (Cons x xs y ys)
  then have "x = y \<and> concat (map enc xs) @ r = concat (map enc ys) @ s"
    by (intro readable) auto
  with Cons show ?case by auto
qed simp

end

lemma enc_u64_readable: "enc_u64 v @ r = enc_u64 w @ s \<Longrightarrow> v = w \<and> r = s"
proof -
  have "unat u < 256 ^ 8" for u :: "64 word"
    using unsigned_less [where w = u and ?'a = nat] by simp
  then show "enc_u64 v @ r = enc_u64 w @ s \<Longrightarrow> v = w \<and> r = s"
    by (simp add: enc_u64_def be_bytes_inject word_unat_eq_iff del: be_bytes.simps)
qed

lemma u64_of_nat_inject:
  "m < 2 ^ 64 \<Longrightarrow> n < 2 ^ 64 \<Longrightarrow> word_of_nat m = (word_of_nat n :: 64 word) \<longleftrightarrow> m = n"
  by (auto dest!: arg_cong [where f = unat] simp: unat_of_nat)

lemma u64_of_nat_not_max: "i < 2 ^ 64 - 1 \<Longrightarrow> (word_of_nat i :: 64 word) \<noteq> - 1"
proof
  assume i: "i < 2 ^ 64 - 1" and eq: "(word_of_nat i :: 64 word) = - 1"
  have "unat (- 1 :: 64 word) = 2 ^ 64 - 1"
    by (simp add: unsigned_minus_1_eq_mask mask_eq_exp_minus_1)
  moreover have "unat (word_of_nat i :: 64 word) = i" using i by (simp add: unat_of_nat)
  ultimately show False using i eq by simp
qed

context stable_type begin

lemma list_type: "stable_type (enc_list enc) (\<lambda>xs. length xs < 2 ^ 64 \<and> (\<forall>x \<in> set xs. valid x))"
proof
  fix v w r s
  assume v: "length v < 2 ^ 64 \<and> (\<forall>x \<in> set v. valid x)"
    and w: "length w < 2 ^ 64 \<and> (\<forall>x \<in> set w. valid x)"
    and eq: "enc_list enc v @ r = enc_list enc w @ s"
  from eq have len: "(word_of_nat (length v) :: 64 word) = word_of_nat (length w)"
    and rest: "concat (map enc v) @ r = concat (map enc w) @ s"
    using enc_u64_readable by (auto simp: enc_list_def)
  from len v w have "length v = length w" using u64_of_nat_inject by blast
  then show "v = w \<and> r = s" using rest v w by (intro concat_readable) auto
qed

lemma option_type: "stable_type (enc_option enc) (\<lambda>v. \<forall>x. v = Some x \<longrightarrow> valid x)"
proof
  fix v w r s
  assume "\<forall>x. v = Some x \<longrightarrow> valid x" and "\<forall>x. w = Some x \<longrightarrow> valid x"
    and "enc_option enc v @ r = enc_option enc w @ s"
  then show "v = w \<and> r = s" by (cases v; cases w) (auto dest: readable)
qed

lemma iter_end_readable:
  assumes "i < 2 ^ 64 - 1"
  shows "enc_iter enc i [] @ r \<noteq> enc_iter enc i (y # ys) @ s"
proof
  assume "enc_iter enc i [] @ r = enc_iter enc i (y # ys) @ s"
  then have "- 1 = (word_of_nat i :: 64 word)"
    using enc_u64_readable [of "- 1" r "word_of_nat i" "enc y @ enc_iter enc (Suc i) ys @ s"] by simp
  with u64_of_nat_not_max [OF assms] show False by simp
qed

lemma iter_readable:
  "i + length xs < 2 ^ 64 - 1 \<Longrightarrow> i + length ys < 2 ^ 64 - 1 \<Longrightarrow>
     (\<forall>x \<in> set xs \<union> set ys. valid x) \<Longrightarrow>
     enc_iter enc i xs @ r = enc_iter enc i ys @ s \<Longrightarrow> xs = ys \<and> r = s"
proof (induction xs arbitrary: i ys)
  case Nil
  then have "i < 2 ^ 64 - 1" by simp
  from iter_end_readable [OF this, of r _ _ s] Nil.prems(4) have "ys = []"
    by (cases ys) (auto simp del: enc_iter.simps)
  with Nil.prems(4) show ?case by simp
next
  case (Cons x xs)
  then have i: "i < 2 ^ 64 - 1" by simp
  from iter_end_readable [OF this, of s _ _ r] Cons.prems(4) obtain y ys' where ys: "ys = y # ys'"
    by (cases ys) (auto simp del: enc_iter.simps dest: sym)
  with Cons.prems(4) have "enc x @ enc_iter enc (Suc i) xs @ r = enc y @ enc_iter enc (Suc i) ys' @ s"
    by simp
  with Cons.prems(3) ys have "x = y" "enc_iter enc (Suc i) xs @ r = enc_iter enc (Suc i) ys' @ s"
    using readable [of x y] by auto
  moreover from Cons.prems ys have "Suc i + length xs < 2 ^ 64 - 1" "Suc i + length ys' < 2 ^ 64 - 1"
    "\<forall>x \<in> set xs \<union> set ys'. valid x" by auto
  ultimately show ?case using Cons.IH [of "Suc i" ys'] ys by simp
qed

lemma iter_type:
  "stable_type (enc_iter enc 0) (\<lambda>xs. length xs < 2 ^ 64 - 1 \<and> (\<forall>x \<in> set xs. valid x))"
  by (unfold_locales, rule iter_readable [of 0]) auto

end

lemma pair_type:
  assumes "stable_type e1 v1" and "stable_type e2 v2"
  shows "stable_type (enc_pair e1 e2) (\<lambda>p. v1 (fst p) \<and> v2 (snd p))"
proof
  fix v w r s
  assume v: "v1 (fst v) \<and> v2 (snd v)" and w: "v1 (fst w) \<and> v2 (snd w)"
    and eq: "enc_pair e1 e2 v @ r = enc_pair e1 e2 w @ s"
  from eq have "e1 (fst v) @ e2 (snd v) @ r = e1 (fst w) @ e2 (snd w) @ s"
    by (simp add: enc_pair_def)
  with v w have "fst v = fst w" "e2 (snd v) @ r = e2 (snd w) @ s"
    using stable_type.readable [OF assms(1)] by blast+
  with v w show "v = w \<and> r = s"
    using stable_type.readable [OF assms(2)] by (auto simp: prod_eq_iff)
qed

text \<open>The types of the source.\<close>

interpretation u8: stable_type "\<lambda>v :: byte. [v]" "\<lambda>_. True"
  by unfold_locales auto

interpretation bool: stable_type enc_bool "\<lambda>_. True"
  by unfold_locales (auto simp: enc_bool_def split: if_splits)

interpretation u64: stable_type enc_u64 "\<lambda>_. True"
  by unfold_locales (rule enc_u64_readable)

interpretation byte_string: stable_type "enc_list (\<lambda>v :: byte. [v])" "\<lambda>s. length s < 2 ^ 64"
  using u8.list_type by simp

interpretation string_list: stable_type "enc_list (enc_list (\<lambda>v :: byte. [v]))"
    "\<lambda>xs. length xs < 2 ^ 64 \<and> (\<forall>x \<in> set xs. length x < 2 ^ 64)"
  by (rule byte_string.list_type)

text \<open>
  Maps: equal streams come from equal entry lists, and the entry list of a finite map
  determines the map.
\<close>

lemma btree_entries_inject:
  assumes "finite (dom m)" and "finite (dom n)" and "btree_entries m = btree_entries n"
  shows "m = n"
proof
  fix k
  have keys: "dom p = fst ` set (btree_entries p)" if "finite (dom p)" for p :: "'a \<rightharpoonup> 'b"
    using that by (force simp: btree_entries_def)
  have at: "(k, the (p k)) \<in> set (btree_entries p)" if "finite (dom p)" "k \<in> dom p" for p :: "'a \<rightharpoonup> 'b"
    using that by (auto simp: btree_entries_def)
  have the: "v = the (p k)" if "finite (dom p)" "(k, v) \<in> set (btree_entries p)" for p :: "'a \<rightharpoonup> 'b" and v
    using that by (auto simp: btree_entries_def)
  from keys [OF assms(1)] keys [OF assms(2)] assms(3) have dom: "dom m = dom n" by simp
  show "m k = n k"
  proof (cases "k \<in> dom m")
    case True
    with at [OF assms(1)] the [OF assms(2)] assms(3) have "the (m k) = the (n k)" by simp
    moreover from True dom obtain a b where "m k = Some a" "n k = Some b" by blast
    ultimately show ?thesis by simp
  next
    case False
    with dom have "k \<notin> dom n" by simp
    with False show ?thesis by (simp add: domIff)
  qed
qed

end
