(* ===== verification/Supported_Hash.thy ===== *)
theory Supported_Hash
  imports Base32 Stable_Hash "HOL-Library.List_Lexorder"
begin

text \<open>
  \<open>crates/hashing/src/supported.rs\<close>: the supported hash algorithms, their textual form and
  their order. The Blake3 implementation is a third-party crate: its hasher is modelled by the
  bytes fed so far (feeding two slices is documented to be feeding their concatenation), and
  its digest is a parameter \<open>b3\<close> of which only the length, 32 bytes, is assumed.
\<close>

section \<open>Hashers\<close>

type_synonym digest = "bytes \<Rightarrow> bytes"

definition blake3_documented :: "digest \<Rightarrow> bool" where
  "blake3_documented b3 \<longleftrightarrow> (\<forall>bs. length (b3 bs) = 32)"

datatype supported_hasher = HBlake3 (fed: bytes)

datatype supported_hash = Blake3 (hash_bytes: bytes)

definition hash_valid :: "supported_hash \<Rightarrow> bool" where
  "hash_valid h \<longleftrightarrow> length (hash_bytes h) = 32"

definition supported_hasher_blake3 :: supported_hasher where
  "supported_hasher_blake3 = HBlake3 []"

fun supported_update :: "supported_hasher \<Rightarrow> bytes \<Rightarrow> supported_hasher" where
  "supported_update (HBlake3 hasher) bs = HBlake3 (hasher @ bs)"

fun supported_finalize :: "digest \<Rightarrow> supported_hasher \<Rightarrow> supported_hash" where
  "supported_finalize b3 (HBlake3 hasher) = Blake3 (b3 hasher)"

definition supported_stable_hasher ::
    "digest \<Rightarrow> (supported_hasher, supported_hash) stable_hasher" where
  "supported_stable_hasher b3 =
     \<lparr>hasher_update = (\<lambda>bs h. supported_update h bs), hasher_finalize = supported_finalize b3\<rparr>"

fun create_matching_hasher :: "supported_hash \<Rightarrow> supported_hasher" where
  "create_matching_hasher (Blake3 _) = supported_hasher_blake3"

fun stable_supported_hash :: "('h, 'r) stable_hasher \<Rightarrow> ('h, supported_hash) stable_update" where
  "stable_supported_hash H (Blake3 hash) h = hasher_update H hash (update_hash (stable_u8 H) 1 h)"

interpretation supported: lawful_hasher "supported_stable_hasher b3" for b3
proof
  show "hasher_update (supported_stable_hasher b3) [] h = h" for h
    by (cases h) (simp add: supported_stable_hasher_def)
  show "hasher_update (supported_stable_hasher b3) b (hasher_update (supported_stable_hasher b3) a h) =
      hasher_update (supported_stable_hasher b3) (a @ b) h" for a b h
    by (cases h) (simp add: supported_stable_hasher_def)
qed

definition enc_supported_hash :: "supported_hash \<Rightarrow> bytes" where
  "enc_supported_hash h = 1 # hash_bytes h"

lemma feeds_supported_hash:
  "supported.feeds b3 (stable_supported_hash (supported_stable_hasher b3)) enc_supported_hash"
  unfolding supported.feeds_def
proof (intro allI)
  fix v h
  show "stable_supported_hash (supported_stable_hasher b3) v h =
      hasher_update (supported_stable_hasher b3) (enc_supported_hash v) h"
    by (cases v) (simp add: enc_supported_hash_def update_hash_def stable_u8_def supported.update_append)
qed

interpretation supported_hash: stable_type enc_supported_hash hash_valid
proof
  fix v w r s
  assume "hash_valid v" "hash_valid w" "enc_supported_hash v @ r = enc_supported_hash w @ s"
  then show "v = w \<and> r = s"
    by (cases v; cases w) (simp add: enc_supported_hash_def hash_valid_def)
qed

lemma feeds_hash:
  assumes "supported.feeds b3 upd enc"
  shows "stable_hash (supported_stable_hasher b3) upd v supported_hasher_blake3 = Blake3 (b3 (enc v))"
  using supported.feedsD [OF assms, of v supported_hasher_blake3]
  by (simp add: stable_hash_def update_hash_def supported_hasher_blake3_def supported_stable_hasher_def)

section \<open>Order\<close>

datatype ordering = Less | Equal | Greater

text \<open>\<open>Ord\<close> of arrays of bytes: lexicographic.\<close>

fun bytes_cmp :: "bytes \<Rightarrow> bytes \<Rightarrow> ordering" where
  "bytes_cmp [] [] = Equal"
| "bytes_cmp [] (_ # _) = Less"
| "bytes_cmp (_ # _) [] = Greater"
| "bytes_cmp (a # as) (b # bs) = (if a < b then Less else if b < a then Greater else bytes_cmp as bs)"

fun supported_cmp :: "supported_hash \<Rightarrow> supported_hash \<Rightarrow> ordering" where
  "supported_cmp (Blake3 a) (Blake3 b) = bytes_cmp a b"

definition supported_partial_cmp :: "supported_hash \<Rightarrow> supported_hash \<Rightarrow> ordering option" where
  "supported_partial_cmp a b = Some (supported_cmp a b)"

lemma bytes_cmp_less: "bytes_cmp a b = Less \<longleftrightarrow> a < b"
  by (induction a b rule: bytes_cmp.induct) auto

lemma bytes_cmp_equal: "bytes_cmp a b = Equal \<longleftrightarrow> a = b"
  by (induction a b rule: bytes_cmp.induct) auto

lemma bytes_cmp_greater: "bytes_cmp a b = Greater \<longleftrightarrow> b < a"
  by (induction a b rule: bytes_cmp.induct) auto

lemma bytes_cmp_not_greater: "bytes_cmp a b \<noteq> Greater \<longleftrightarrow> a \<le> b"
  by (simp add: bytes_cmp_greater not_less)

instantiation supported_hash :: linorder
begin

definition less_eq_supported_hash :: "supported_hash \<Rightarrow> supported_hash \<Rightarrow> bool" where
  "less_eq_supported_hash a b \<longleftrightarrow> supported_cmp a b \<noteq> Greater"

definition less_supported_hash :: "supported_hash \<Rightarrow> supported_hash \<Rightarrow> bool" where
  "less_supported_hash a b \<longleftrightarrow> supported_cmp a b = Less"

instance
proof
  fix x y z :: supported_hash
  obtain a b c where xyz: "x = Blake3 a" "y = Blake3 b" "z = Blake3 c"
    by (metis supported_hash.exhaust)
  note defs = less_eq_supported_hash_def less_supported_hash_def xyz
    bytes_cmp_less bytes_cmp_not_greater supported_cmp.simps
  show "x < y \<longleftrightarrow> x \<le> y \<and> \<not> y \<le> x" by (auto simp: defs)
  show "x \<le> x" by (simp add: defs)
  show "x \<le> y \<Longrightarrow> y \<le> z \<Longrightarrow> x \<le> z" by (simp add: defs)
  show "x \<le> y \<Longrightarrow> y \<le> x \<Longrightarrow> x = y" by (simp add: defs)
  show "x \<le> y \<or> y \<le> x" by (simp add: defs linear)
qed

end

section \<open>Text\<close>

definition PREFIX_BLAKE3 :: string where
  "PREFIX_BLAKE3 = ''blake3-''"

fun supported_debug :: "b32_codec \<Rightarrow> supported_hash \<Rightarrow> string" where
  "supported_debug c (Blake3 h) =
     ''Blake3('' @ [CHR 0x22] @ base32_display c (Base32 h) @ [CHR 0x22] @ '')''"

fun supported_display :: "b32_codec \<Rightarrow> supported_hash \<Rightarrow> string" where
  "supported_display c (Blake3 h) = ''blake3-'' @ base32_display c (Base32 h)"

datatype 'a parse_error = UnknownType 'a | InvalidLength nat | InvalidBase32Value

fun parse_error_from :: "invalid_base32 \<Rightarrow> 'a parse_error" where
  "parse_error_from (InvalidBase32 _) = InvalidBase32Value"

definition strip_prefix :: "string \<Rightarrow> string \<Rightarrow> string option" where
  "strip_prefix p s = (if take (length p) s = p then Some (drop (length p) s) else None)"

definition supported_from_str :: "b32_codec \<Rightarrow> string \<Rightarrow> (string parse_error, supported_hash) res" where
  "supported_from_str c s =
     (case strip_prefix PREFIX_BLAKE3 s of
        Some val \<Rightarrow>
          (case base32_from_str c 32 val of
             Ok b32 \<Rightarrow> Ok (Blake3 (b32_bytes b32))
           | Err e \<Rightarrow> Err (parse_error_from e)
           | Panic \<Rightarrow> Panic)
      | None \<Rightarrow> Err (UnknownType s))"

lemma strip_prefix_append [simp]: "strip_prefix p (p @ s) = Some s"
  by (simp add: strip_prefix_def)

lemma strip_prefix_Some: "strip_prefix p s = Some t \<longleftrightarrow> s = p @ t"
  by (auto simp: strip_prefix_def) (metis append_take_drop_id)

lemma strip_prefix_None: "strip_prefix p s = None \<longleftrightarrow> (\<nexists>t. s = p @ t)"
  by (metis not_None_eq strip_prefix_Some)

lemma display_from_str:
  assumes "codec_documented c" and "hash_valid h"
  shows "supported_from_str c (supported_display c h) = Ok h"
proof -
  obtain bs where h: "h = Blake3 bs" by (cases h)
  with assms have "base32_from_str c 32 (base32_display c (Base32 bs)) = Ok (Base32 bs)"
    by (simp add: base32_roundtrip hash_valid_def)
  then show ?thesis by (simp add: h supported_from_str_def PREFIX_BLAKE3_def strip_prefix_def)
qed

section \<open>Properties\<close>

text \<open>
  C9: the text of a hash parses back to the hash, also after its base32 part has been
  written in upper case.
\<close>

theorem supported_hash_roundtrip:
  assumes "codec_documented c" and "hash_valid h"
    and "map BASE32_translate t = base32_display c (Base32 (hash_bytes h))"
  shows "supported_from_str c (supported_display c h) = Ok h \<and>
    supported_from_str c (PREFIX_BLAKE3 @ t) = Ok h"
proof -
  obtain bs where h: "h = Blake3 bs" by (cases h)
  with assms have rt: "base32_from_str c 32 (base32_display c (Base32 bs)) = Ok (Base32 bs)"
    by (simp add: base32_roundtrip hash_valid_def)
  have "base32_from_str c 32 t = Ok (Base32 bs)"
    using rt assms(3) h base32_case [OF assms(1), of 32 t] by simp
  then have "supported_from_str c (PREFIX_BLAKE3 @ t) = Ok h"
    by (simp add: supported_from_str_def h)
  with display_from_str [OF assms(1,2)] show ?thesis by simp
qed

theorem supported_hash_roundtrip_witness:
  "supported_from_str rfc4648_codec (supported_display rfc4648_codec (Blake3 (replicate 32 0))) =
     Ok (Blake3 (replicate 32 0))"
proof -
  let ?t = "base32_display rfc4648_codec (Base32 (replicate 32 0))"
  have "set ?t \<subseteq> set BASE32_symbols"
    using codec_symbols [OF rfc4648_documented] by (simp add: base32_display_def)
  then have "map BASE32_translate ?t = ?t"
    using BASE32_symbols_facts(3) by (intro map_idI) blast
  with supported_hash_roundtrip [OF rfc4648_documented, of "Blake3 (replicate 32 0)" ?t]
  show ?thesis by (simp add: hash_valid_def)
qed

lemma from_str_unknown:
  "strip_prefix PREFIX_BLAKE3 s = None \<Longrightarrow> supported_from_str c s = Err (UnknownType s)"
  by (simp add: supported_from_str_def)

lemma from_str_prefixed:
  "supported_from_str c (PREFIX_BLAKE3 @ t) =
     (case base32_from_str c 32 t of
        Ok b \<Rightarrow> Ok (Blake3 (b32_bytes b)) | Err e \<Rightarrow> Err (parse_error_from e) | Panic \<Rightarrow> Panic)"
  by (simp add: supported_from_str_def)

lemma from_str_prefixed_Panic:
  "codec_documented c \<Longrightarrow> supported_from_str c (PREFIX_BLAKE3 @ t) = Panic \<longleftrightarrow> length t \<noteq> 52"
  using base32_from_str_Panic [of c 32 t]
  by (cases "base32_from_str c 32 t") (auto simp: from_str_prefixed decode_len_32)

text \<open>
  C38: parsing a hash has exactly these outcomes. Without the prefix it is
  \<open>UnknownType\<close>; with it, a text of any length other than 52 panics instead of returning
  an error, and \<open>InvalidLength\<close> is never returned; what parses is a 32-byte hash.
\<close>

theorem supported_from_str_outcomes:
  assumes "codec_documented c"
  shows "(strip_prefix PREFIX_BLAKE3 s = None \<longrightarrow> supported_from_str c s = Err (UnknownType s)) \<and>
    (supported_from_str c s = Panic \<longleftrightarrow> (\<exists>t. s = PREFIX_BLAKE3 @ t \<and> length t \<noteq> 52)) \<and>
    (\<forall>n. supported_from_str c s \<noteq> Err (InvalidLength n)) \<and>
    (\<forall>h. supported_from_str c s = Ok h \<longrightarrow> hash_valid h)"
proof (cases "strip_prefix PREFIX_BLAKE3 s")
  case None
  then show ?thesis
    using from_str_unknown [OF None, of c] by (auto simp: strip_prefix_None)
next
  case (Some t)
  then have s: "s = PREFIX_BLAKE3 @ t" by (simp add: strip_prefix_Some)
  have "parse_error_from e \<noteq> InvalidLength n" for e n by (cases e) simp
  moreover have "hash_valid (Blake3 (b32_bytes b))" if "base32_from_str c 32 t = Ok b" for b
    using base32_from_str_len [OF assms that] by (simp add: hash_valid_def)
  ultimately show ?thesis
    using from_str_prefixed_Panic [OF assms, of t] Some
    by (auto simp: s from_str_prefixed split: res.splits)
qed

theorem supported_from_str_outcomes_witness:
  "supported_from_str rfc4648_codec ''blake3-abc'' = Panic"
  using supported_from_str_outcomes [OF rfc4648_documented, of "''blake3-abc''"]
  by (simp add: PREFIX_BLAKE3_def)

text \<open>
  Hashing a list of strings with a supported hasher digests exactly the stream of the
  list (its length, then each string as its length and bytes), and two lists with the same
  stream are equal: no two lists are confused before the digest.
\<close>

theorem hash_string_list:
  "stable_hash (supported_stable_hasher b3)
       (stable_vec (supported_stable_hasher b3) (stable_string (supported_stable_hasher b3)))
       xs supported_hasher_blake3 = Blake3 (b3 (enc_list (enc_list (\<lambda>b. [b])) xs)) \<and>
   (length xs < 2 ^ 64 \<and> length ys < 2 ^ 64 \<and> (\<forall>s \<in> set xs \<union> set ys. length s < 2 ^ 64) \<and>
      enc_list (enc_list (\<lambda>b. [b])) xs = enc_list (enc_list (\<lambda>b. [b])) ys \<longrightarrow> xs = ys)"
  using feeds_hash [OF supported.feeds_vec [OF supported.feeds_string]] string_list.enc_inject [of xs ys]
  by auto

theorem hash_string_list_witness:
  "enc_list (enc_list (\<lambda>b. [b])) [[1, 2], []] \<noteq> enc_list (enc_list (\<lambda>b. [b])) [[1], [2 :: byte]]"
proof
  assume "enc_list (enc_list (\<lambda>b. [b])) [[1, 2], []] = enc_list (enc_list (\<lambda>b. [b])) [[1], [2 :: byte]]"
  then have "[[1, 2], []] = [[1], [2 :: byte]]"
    using hash_string_list [of undefined "[[1, 2], []]" "[[1], [2]]"] by simp
  then show False by simp
qed

definition enc_btree_map :: "(bytes \<rightharpoonup> bytes) \<Rightarrow> bytes" where
  "enc_btree_map m =
     enc_iter (enc_pair (enc_list (\<lambda>b. [b])) (enc_list (\<lambda>b. [b]))) 0 (btree_entries m)"

definition btree_map_valid :: "(bytes \<rightharpoonup> bytes) \<Rightarrow> bool" where
  "btree_map_valid m \<longleftrightarrow> finite (dom m) \<and> card (dom m) < 2 ^ 64 - 1 \<and>
     (\<forall>k v. m k = Some v \<longrightarrow> length k < 2 ^ 64 \<and> length v < 2 ^ 64)"

interpretation entry: stable_type "enc_pair (enc_list (\<lambda>b :: byte. [b])) (enc_list (\<lambda>b :: byte. [b]))"
    "\<lambda>p. length (fst p) < 2 ^ 64 \<and> length (snd p) < 2 ^ 64"
  by (rule pair_type [OF byte_string.stable_type_axioms byte_string.stable_type_axioms])

interpretation btree_map: stable_type enc_btree_map btree_map_valid
proof
  fix m n r s
  assume m: "btree_map_valid m" and n: "btree_map_valid n"
    and eq: "enc_btree_map m @ r = enc_btree_map n @ s"
  have ok: "length (btree_entries p) < 2 ^ 64 - 1 \<and>
      (\<forall>e \<in> set (btree_entries p). length (fst e) < 2 ^ 64 \<and> length (snd e) < 2 ^ 64)"
    if "btree_map_valid p" for p
    using that by (auto simp: btree_map_valid_def btree_entries_def)
  from stable_type.readable [OF entry.iter_type ok [OF m] ok [OF n]] eq
  have "btree_entries m = btree_entries n \<and> r = s" by (simp add: enc_btree_map_def)
  with m n show "m = n \<and> r = s"
    using btree_entries_inject by (auto simp: btree_map_valid_def)
qed

text \<open>
  A finite \<open>BTreeMap\<close> of byte strings is digested by a stream that determines the map,
  whatever the order in which its entries were inserted and whatever is hashed after it.
\<close>

theorem hash_btree_map:
  "stable_hash (supported_stable_hasher b3)
       (stable_btree_map (supported_stable_hasher b3) (stable_string (supported_stable_hasher b3))
          (stable_string (supported_stable_hasher b3)))
       m supported_hasher_blake3 = Blake3 (b3 (enc_btree_map m)) \<and>
   (btree_map_valid m \<and> btree_map_valid n \<and> enc_btree_map m @ r = enc_btree_map n @ s \<longrightarrow>
      m = n \<and> r = s)"
  using feeds_hash [OF supported.feeds_btree_map [OF supported.feeds_string supported.feeds_string]]
    btree_map.readable [of m n r s]
  by (auto simp: enc_btree_map_def)

theorem hash_btree_map_witness:
  "enc_btree_map [[1] \<mapsto> [2], [3] \<mapsto> []] \<noteq> enc_btree_map [[1] \<mapsto> [2]]"
proof
  let ?m = "[[1] \<mapsto> [2], [3] \<mapsto> []] :: bytes \<rightharpoonup> bytes" and ?n = "[[1] \<mapsto> [2]] :: bytes \<rightharpoonup> bytes"
  assume "enc_btree_map ?m = enc_btree_map ?n"
  moreover have "btree_map_valid ?m" "btree_map_valid ?n"
    by (auto simp: btree_map_valid_def)
  ultimately have "?m = ?n"
    using hash_btree_map [of undefined ?m ?n "[]" "[]"] by simp
  then have "?m [3] = ?n [3]" by (rule fun_cong)
  then show False by simp
qed

end
