(* ===== verification/Archive_Types.thy ===== *)
theory Archive_Types
  imports Supported_Hash
begin

text \<open>
  \<open>crates/archive/src/lib.rs\<close>: the entries of an archive, the tags of the wire format and
  the coding of hash algorithms; and the format itself as a specification: the bytes of an
  entry, of a chunk of data and of a blob.
\<close>

section \<open>The data model\<close>

definition NCK00 :: bytes where
  "NCK00 = [78, 67, 75, 48, 48]"

definition ENTRY_DATA :: byte where "ENTRY_DATA = 1"
definition ENTRY_ENTRY :: byte where "ENTRY_ENTRY = 2"

definition TYPE_DATA :: byte where "TYPE_DATA = 1"
definition TYPE_LINK :: byte where "TYPE_LINK = 2"
definition TYPE_DIR :: byte where "TYPE_DIR = 3"

definition MAX_LENGTH :: nat where
  "MAX_LENGTH = 65535"

unbundle bit_operations_syntax

text \<open>The bit flags: a \<open>u16\<close> of which one bit is declared.\<close>

type_synonym entry_flags = "16 word"

definition EXECUTABLE :: entry_flags where
  "EXECUTABLE = 1"

definition from_bits_truncate :: "16 word \<Rightarrow> entry_flags" where
  "from_bits_truncate bits = bits AND EXECUTABLE"

definition flags_bits :: "entry_flags \<Rightarrow> 16 word" where
  "flags_bits flags = flags"

datatype entry_target =
    TData supported_hash entry_flags
  | TLink bytes entry_flags
  | TDirectory

record entry =
  path :: bytes
  target :: entry_target

definition entry_new :: "bytes \<Rightarrow> entry_target \<Rightarrow> entry" where
  "entry_new p t = \<lparr>path = p, target = t\<rparr>"

fun unwrap_or_default :: "entry_flags option \<Rightarrow> entry_flags" where
  "unwrap_or_default None = 0"
| "unwrap_or_default (Some flags) = flags"

definition entry_data :: "bytes \<Rightarrow> supported_hash \<Rightarrow> entry_flags option \<Rightarrow> entry" where
  "entry_data p hash flags = entry_new p (TData hash (unwrap_or_default flags))"

definition entry_link :: "bytes \<Rightarrow> bytes \<Rightarrow> entry_flags option \<Rightarrow> entry" where
  "entry_link p source flags = entry_new p (TLink source (unwrap_or_default flags))"

definition entry_directory :: "bytes \<Rightarrow> entry" where
  "entry_directory p = entry_new p TDirectory"

text \<open>
  What reading an archive yields. \<open>EvData\<close> comes with a \<open>DataReader\<close> that borrows the reader
  (theory \<open>Data_Reader\<close>).
\<close>

datatype read_event = EvNone | EvData | EvEntry entry

section \<open>Hash algorithms on the wire\<close>

fun hash_data :: "supported_hash \<Rightarrow> byte \<times> bytes" where
  "hash_data (Blake3 h) = (1, h)"

definition hash_length :: "byte \<Rightarrow> (error_kind, nat) res" where
  "hash_length hash = (if hash = 1 then Ok 32 else Err InvalidData)"

definition create_hash :: "byte \<Rightarrow> bytes \<Rightarrow> (error_kind, supported_hash) res" where
  "create_hash hash data =
     (if hash = 1 then (if length data = 32 then Ok (Blake3 data) else Panic) else Panic)"

lemma create_hash_data:
  "hash_valid h \<Longrightarrow> create_hash (fst (hash_data h)) (snd (hash_data h)) = Ok h"
  by (cases h) (simp add: create_hash_def hash_valid_def)

lemma hash_length_data:
  "hash_valid h \<Longrightarrow> hash_length (fst (hash_data h)) = Ok (length (snd (hash_data h)))"
  by (cases h) (simp add: hash_length_def hash_valid_def)

section \<open>The format\<close>

definition enc_string :: "bytes \<Rightarrow> bytes" where
  "enc_string s = u16_to_be_bytes (word_of_nat (length s)) @ s"

definition enc_hash :: "supported_hash \<Rightarrow> bytes" where
  "enc_hash h = fst (hash_data h) # snd (hash_data h)"

fun enc_target :: "entry_target \<Rightarrow> bytes" where
  "enc_target (TData h flags) = TYPE_DATA # enc_hash h @ u16_to_be_bytes flags"
| "enc_target (TLink dest flags) = TYPE_LINK # enc_string dest @ u16_to_be_bytes flags"
| "enc_target TDirectory = [TYPE_DIR]"

definition enc_entry :: "entry \<Rightarrow> bytes" where
  "enc_entry e = ENTRY_ENTRY # enc_string (path e) @ enc_target (target e)"

definition enc_chunks :: "bytes list \<Rightarrow> bytes" where
  "enc_chunks cs = concat (map enc_string cs)"

text \<open>What follows the tag of a blob: its chunks, an empty chunk, and the hash.\<close>

definition enc_body :: "bytes list \<Rightarrow> supported_hash \<Rightarrow> bytes" where
  "enc_body cs h = enc_chunks cs @ [0, 0] @ enc_hash h"

definition enc_blob :: "bytes list \<Rightarrow> supported_hash \<Rightarrow> bytes" where
  "enc_blob cs h = ENTRY_DATA # enc_body cs h"

definition chunk_valid :: "bytes \<Rightarrow> bool" where
  "chunk_valid c \<longleftrightarrow> c \<noteq> [] \<and> length c \<le> MAX_LENGTH"

definition flags_valid :: "entry_flags \<Rightarrow> bool" where
  "flags_valid flags \<longleftrightarrow> from_bits_truncate flags = flags"

fun target_valid :: "entry_target \<Rightarrow> bool" where
  "target_valid (TData h flags) \<longleftrightarrow> hash_valid h \<and> flags_valid flags"
| "target_valid (TLink dest flags) \<longleftrightarrow> length dest \<le> MAX_LENGTH \<and> flags_valid flags"
| "target_valid TDirectory \<longleftrightarrow> True"

definition entry_valid :: "entry \<Rightarrow> bool" where
  "entry_valid e \<longleftrightarrow> length (path e) \<le> MAX_LENGTH \<and> target_valid (target e)"

lemma unat_length_u16: "length s \<le> MAX_LENGTH \<Longrightarrow> unat (word_of_nat (length s) :: 16 word) = length s"
  by (simp add: unat_of_nat MAX_LENGTH_def)

lemma length_enc_hash: "hash_valid h \<Longrightarrow> length (enc_hash h) = 33"
  by (cases h) (simp add: enc_hash_def hash_valid_def)

lemma enc_chunks_Cons [wire]: "enc_chunks (c # cs) = enc_string c @ enc_chunks cs"
  by (simp add: enc_chunks_def)

lemma enc_chunks_Nil [wire]: "enc_chunks [] = []"
  by (simp add: enc_chunks_def)

lemma enc_chunks_append [wire]: "enc_chunks (cs @ ds) = enc_chunks cs @ enc_chunks ds"
  by (simp add: enc_chunks_def)

lemma enc_body_Nil: "enc_body [] h = [0, 0] @ enc_hash h"
  by (simp add: enc_body_def enc_chunks_def)

lemma enc_body_Cons: "enc_body (c # cs) h = enc_string c @ enc_body cs h"
  by (simp add: enc_body_def enc_chunks_def)

end
