(* ===== verification/Rust_Io.thy ===== *)
theory Rust_Io
  imports Nck_Prelude
begin

text \<open>
  The byte sources and sinks that the program is generic over: \<open>T: Read\<close>, \<open>T: AsyncRead\<close>,
  \<open>T: Write\<close> and \<open>T: AsyncWrite\<close>.

  A \<open>source\<close> is the bytes it still has to deliver and a script that says how the next
  calls behave: deliver at most so many bytes, fail, or (polled) not be ready. Every finite
  run of an arbitrary reader is the run of such a source. A \<open>sink\<close> is what has been written,
  the room that is left (\<open>None\<close>: unbounded), and a script of the same kind.

  On them: the loops of the standard library (\<open>read_exact\<close>, \<open>write_all\<close>, which retry
  \<open>Interrupted\<close>) and of tokio (which do not), and the contracts of \<open>Read\<close> and \<open>Write\<close> as
  the locales \<open>read_contract\<close> and \<open>write_contract\<close>.
\<close>

section \<open>Sources\<close>

datatype read_step =
    Give nat \<comment> \<open>deliver at most one more byte than the number\<close>
  | RFail error_kind
  | RWait \<comment> \<open>not ready: a poll returns \<open>Pending\<close>, a blocking read waits\<close>

datatype source = Source (avail: bytes) (script: "read_step list")

datatype 'a poll = Pending | Ready 'a

function src_read :: "nat \<Rightarrow> (source, bytes) io" where
  "src_read n (Source bs []) = (Ok (take n bs), Source (drop n bs) [])"
| "src_read n (Source bs (Give k # sc)) =
     (Ok (take (min n (Suc k)) bs), Source (drop (min n (Suc k)) bs) sc)"
| "src_read n (Source bs (RFail e # sc)) = (Err e, Source bs sc)"
| "src_read n (Source bs (RWait # sc)) = src_read n (Source bs sc)"
  by pat_completeness auto
termination
  by (relation "measure (\<lambda>(n, s). length (script s))") auto

fun src_poll_read :: "nat \<Rightarrow> source \<Rightarrow> (error_kind, bytes) res poll \<times> source" where
  "src_poll_read n (Source bs (RWait # sc)) = (Pending, Source bs sc)"
| "src_poll_read n s = (case src_read n s of (r, s') \<Rightarrow> (Ready r, s'))"

definition faults :: "source \<Rightarrow> error_kind set" where
  "faults s = {e. RFail e \<in> set (script s)}"

definition steady :: "source \<Rightarrow> bool" where
  "steady s \<longleftrightarrow> faults s = {}"

lemma faults_Source [simp]: "faults (Source bs sc) = {e. RFail e \<in> set sc}"
  by (simp add: faults_def)

lemma src_read_Ok:
  "src_read n s = (Ok bs, s') \<Longrightarrow>
     avail s = bs @ avail s' \<and> length bs \<le> n \<and> (bs = [] \<longrightarrow> n = 0 \<or> avail s = []) \<and>
     length (script s') \<le> length (script s)"
  by (induction n s rule: src_read.induct) auto

lemma src_read_Err:
  "src_read n s = (Err e, s') \<Longrightarrow>
     avail s' = avail s \<and> e \<in> faults s \<and> length (script s') < length (script s)"
  by (induction n s rule: src_read.induct) auto

lemma src_read_not_Panic: "src_read n s \<noteq> (Panic, s')"
  by (induction n s rule: src_read.induct) auto

lemma src_read_faults: "src_read n s = (r, s') \<Longrightarrow> faults s' \<subseteq> faults s"
  by (induction n s rule: src_read.induct) auto

lemma src_read_cases:
  obtains (Ok) bs s' where "src_read n s = (Ok bs, s')" and "avail s = bs @ avail s'"
      and "length bs \<le> n" and "bs = [] \<Longrightarrow> n = 0 \<or> avail s = []" and "faults s' \<subseteq> faults s"
  | (Err) e s' where "src_read n s = (Err e, s')" and "avail s' = avail s" and "e \<in> faults s"
      and "length (script s') < length (script s)" and "faults s' \<subseteq> faults s"
proof (cases "src_read n s")
  case (Pair r s')
  note fa = src_read_faults [OF Pair]
  show ?thesis
  proof (cases r)
    case (Ok bs)
    with Pair have *: "src_read n s = (Ok bs, s')" by simp
    from src_read_Ok [OF *] fa show ?thesis by (intro that(1) [OF *]) auto
  next
    case (Err e)
    with Pair have *: "src_read n s = (Err e, s')" by simp
    from src_read_Err [OF *] fa show ?thesis by (intro that(2) [OF *]) auto
  next
    case Panic
    with Pair src_read_not_Panic show ?thesis by metis
  qed
qed

lemma src_read_steady:
  assumes "steady s"
  shows "succeeds (src_read n) (\<lambda>bs s'. avail s = bs @ avail s' \<and> length bs \<le> n \<and>
           (bs = [] \<longrightarrow> n = 0 \<or> avail s = []) \<and> steady s') s"
proof (cases n s rule: src_read_cases)
  case (Ok bs s')
  with assms show ?thesis by (auto simp: succeeds_def steady_def)
next
  case (Err e s')
  with assms show ?thesis by (simp add: steady_def)
qed

section \<open>Reading exactly\<close>

text \<open>The loop of \<open>std::io::Read::read_exact\<close> and \<open>read_buf_exact\<close>.\<close>

function read_exact :: "nat \<Rightarrow> (source, bytes) io" where
  "read_exact n s =
     (if n = 0 then (Ok [], s)
      else case src_read n s of
        (Ok bs, s') \<Rightarrow>
          if bs = [] then (Err UnexpectedEof, s')
          else io_bind (read_exact (n - length bs)) (\<lambda>cs. io_return (bs @ cs)) s'
      | (Err e, s') \<Rightarrow> if e = Interrupted then read_exact n s' else (Err e, s')
      | (Panic, s') \<Rightarrow> (Panic, s'))"
  by pat_completeness auto
termination
proof (relation "measures [\<lambda>(n, s). n, \<lambda>(n, s). length (script s)]", goal_cases)
  case 1
  then show ?case by simp
next
  case (2 n s r s' bs)
  then show ?case using src_read_Ok [of n s bs s'] by (cases bs) auto
next
  case (3 n s r s' e)
  then show ?case using src_read_Err [of n s e s'] by auto
qed

text \<open>tokio's \<open>AsyncReadExt::read_exact\<close>, awaited: the same loop, without the retry.\<close>

function tokio_read_exact :: "nat \<Rightarrow> (source, bytes) io" where
  "tokio_read_exact n s =
     (if n = 0 then (Ok [], s)
      else case src_read n s of
        (Ok bs, s') \<Rightarrow>
          if bs = [] then (Err UnexpectedEof, s')
          else io_bind (tokio_read_exact (n - length bs)) (\<lambda>cs. io_return (bs @ cs)) s'
      | (Err e, s') \<Rightarrow> (Err e, s')
      | (Panic, s') \<Rightarrow> (Panic, s'))"
  by pat_completeness auto
termination
proof (relation "measure fst", goal_cases)
  case 1
  then show ?case by simp
next
  case (2 n s r s' bs)
  then show ?case using src_read_Ok [of n s bs s'] by (cases bs) auto
qed

declare read_exact.simps [simp del] tokio_read_exact.simps [simp del]

lemma read_exact_0 [simp]: "read_exact 0 s = (Ok [], s)"
  by (simp add: read_exact.simps)

lemma tokio_read_exact_0 [simp]: "tokio_read_exact 0 s = (Ok [], s)"
  by (simp add: tokio_read_exact.simps)

lemma read_exact_got:
  "n \<noteq> 0 \<Longrightarrow> src_read n s = (Ok cs, t) \<Longrightarrow> cs \<noteq> [] \<Longrightarrow>
     read_exact n s = io_bind (read_exact (n - length cs)) (\<lambda>ds. io_return (cs @ ds)) t"
  by (subst read_exact.simps) simp

lemma read_exact_eof:
  "n \<noteq> 0 \<Longrightarrow> src_read n s = (Ok [], t) \<Longrightarrow> read_exact n s = (Err UnexpectedEof, t)"
  by (subst read_exact.simps) simp

lemma read_exact_err:
  "n \<noteq> 0 \<Longrightarrow> src_read n s = (Err e, t) \<Longrightarrow>
     read_exact n s = (if e = Interrupted then read_exact n t else (Err e, t))"
  by (subst read_exact.simps) simp

text \<open>Induction along the loop: done, end of input, some bytes read, a retry, a failure.\<close>

lemma read_exact_induct [case_names stop eof got retry fail]:
  assumes "\<And>s. P 0 s"
    and "\<And>n s t. n \<noteq> 0 \<Longrightarrow> src_read n s = (Ok [], t) \<Longrightarrow> avail s = [] \<Longrightarrow> avail t = [] \<Longrightarrow>
           faults t \<subseteq> faults s \<Longrightarrow> P n s"
    and "\<And>n s cs t. n \<noteq> 0 \<Longrightarrow> src_read n s = (Ok cs, t) \<Longrightarrow> cs \<noteq> [] \<Longrightarrow> length cs \<le> n \<Longrightarrow>
           avail s = cs @ avail t \<Longrightarrow> faults t \<subseteq> faults s \<Longrightarrow> P (n - length cs) t \<Longrightarrow> P n s"
    and "\<And>n s t. n \<noteq> 0 \<Longrightarrow> src_read n s = (Err Interrupted, t) \<Longrightarrow> avail t = avail s \<Longrightarrow>
           Interrupted \<in> faults s \<Longrightarrow> faults t \<subseteq> faults s \<Longrightarrow> P n t \<Longrightarrow> P n s"
    and "\<And>n s e t. n \<noteq> 0 \<Longrightarrow> src_read n s = (Err e, t) \<Longrightarrow> e \<noteq> Interrupted \<Longrightarrow>
           avail t = avail s \<Longrightarrow> e \<in> faults s \<Longrightarrow> faults t \<subseteq> faults s \<Longrightarrow> P n s"
  shows "P n s"
proof (induction n s rule: read_exact.induct)
  case (1 n s)
  show ?case
  proof (cases "n = 0")
    case True
    with assms(1) show ?thesis by simp
  next
    case False
    show ?thesis
    proof (cases n s rule: src_read_cases)
      case (Ok cs t)
      show ?thesis
      proof (cases "cs = []")
        case True
        with Ok False show ?thesis by (intro assms(2) [of n s t]) auto
      next
        case ne: False
        with Ok False "1.IH"(1) [OF False Ok(1) [symmetric] refl ne]
        show ?thesis by (intro assms(3) [of n s cs t]) auto
      qed
    next
      case (Err e t)
      show ?thesis
      proof (cases "e = Interrupted")
        case True
        with Err False "1.IH"(2) [OF False Err(1) [symmetric] refl True]
        show ?thesis by (intro assms(4) [of n s t]) auto
      next
        case ne: False
        with Err False show ?thesis by (intro assms(5) [of n s e t]) auto
      qed
    qed
  qed
qed

lemma read_exact_Ok:
  "read_exact n s = (Ok bs, s') \<Longrightarrow> length bs = n \<and> avail s = bs @ avail s'"
proof (induction n s arbitrary: bs s' rule: read_exact_induct)
  case (got n s cs t)
  from got.prems obtain ds where "read_exact (n - length cs) t = (Ok ds, s')" and "bs = cs @ ds"
    by (auto simp: read_exact_got [OF got(1-3)] elim!: io_bind_OkE)
  with got.IH [of ds s'] got.hyps show ?case by auto
qed (auto simp: read_exact_eof read_exact_err)

lemma src_read_no_panic [np]: "no_panic (src_read n) s"
  by (rule no_panicI) (rule src_read_not_Panic)

lemma read_exact_no_panic [np]: "no_panic (read_exact n) s"
proof (induction n s rule: read_exact_induct)
  case (got n s cs t)
  then have "no_panic (io_bind (read_exact (n - length cs)) (\<lambda>ds. io_return (cs @ ds))) t"
    by (intro np)
  with got show ?case by (simp add: no_panic_def read_exact_got)
qed (auto simp: no_panic_def read_exact_eof read_exact_err)

lemma io_bind_return_state:
  "snd (io_bind m (\<lambda>x. io_return (f x)) s) = snd (m s)"
  by (simp add: io_bind_def split: prod.splits res.splits)

lemma read_exact_faults: "faults (snd (read_exact n s)) \<subseteq> faults s"
proof (induction n s rule: read_exact_induct)
  case (got n s cs t)
  then show ?case by (auto simp: read_exact_got io_bind_return_state)
qed (auto simp: read_exact_eof read_exact_err)

lemma src_read_script: "set (script (snd (src_read n s))) \<subseteq> set (script s)"
  by (induction n s rule: src_read.induct) auto

lemma read_exact_script: "set (script (snd (read_exact n s))) \<subseteq> set (script s)"
proof (induction n s rule: read_exact_induct)
  case (eof n s t)
  with src_read_script [of n s] show ?case by (simp add: read_exact_eof)
next
  case (got n s cs t)
  with src_read_script [of n s] show ?case by (auto simp: read_exact_got io_bind_return_state)
next
  case (retry n s t)
  with src_read_script [of n s] show ?case by (auto simp: read_exact_err)
next
  case (fail n s e t)
  with src_read_script [of n s] show ?case by (simp add: read_exact_err)
qed simp

text \<open>A source whose only failures are interruptions delivers what it has.\<close>

definition quiet :: "source \<Rightarrow> bool" where
  "quiet s \<longleftrightarrow> faults s \<subseteq> {Interrupted}"

lemma read_exact_quiet:
  "quiet s \<Longrightarrow> n \<le> length (avail s) \<Longrightarrow>
     succeeds (read_exact n) (\<lambda>bs s'. bs = take n (avail s) \<and> avail s' = drop n (avail s) \<and>
       faults s' \<subseteq> faults s) s"
proof (induction n s rule: read_exact_induct)
  case (got n s cs t)
  then have q: "quiet t" "n - length cs \<le> length (avail t)" by (auto simp: quiet_def)
  from got.IH [OF this] show ?case
    by (rule succeedsE)
      (use got.hyps in \<open>auto simp: read_exact_got succeeds_def take_drop_split\<close>)
next
  case (retry n s t)
  then have "quiet t" "n \<le> length (avail t)" by (auto simp: quiet_def)
  from retry.IH [OF this] show ?case
    by (rule succeedsE)
      (use retry.hyps in \<open>auto simp: read_exact_err succeeds_def\<close>)
qed (auto simp: succeeds_def read_exact_eof quiet_def)

lemma read_exact_short:
  "quiet s \<Longrightarrow> length (avail s) < n \<Longrightarrow> \<exists>s'. read_exact n s = (Err UnexpectedEof, s')"
proof (induction n s rule: read_exact_induct)
  case (got n s cs t)
  then have "quiet t" "length (avail t) < n - length cs" by (auto simp: quiet_def)
  from got.IH [OF this] got.hyps show ?case by (auto simp: read_exact_got)
next
  case (retry n s t)
  then have "quiet t" "length (avail t) < n" by (auto simp: quiet_def)
  from retry.IH [OF this] retry.hyps show ?case by (auto simp: read_exact_err)
qed (auto simp: read_exact_eof quiet_def)

text \<open>Without interruptions the loops of the two libraries agree.\<close>

lemma tokio_read_exact_eq:
  "Interrupted \<notin> faults s \<Longrightarrow> tokio_read_exact n s = read_exact n s"
proof (induction n s rule: read_exact_induct)
  case (eof n s t)
  then show ?case by (simp add: tokio_read_exact.simps [of n s] read_exact_eof)
next
  case (got n s cs t)
  then have "tokio_read_exact (n - length cs) t = read_exact (n - length cs) t" by auto
  with got.hyps show ?case
    by (simp add: tokio_read_exact.simps [of n s] read_exact_got io_bind_def)
next
  case (fail n s e t)
  then show ?case by (simp add: tokio_read_exact.simps [of n s] read_exact_err)
qed auto

section \<open>Sinks\<close>

datatype write_step =
    Take nat \<comment> \<open>accept at most the number of bytes\<close>
  | WFail error_kind
  | WWait

datatype sink = Sink (written: bytes) (room: "nat option") (wscript: "write_step list")

fun fits :: "nat option \<Rightarrow> nat \<Rightarrow> nat" where
  "fits None n = n"
| "fits (Some r) n = min r n"

fun shrink :: "nat \<Rightarrow> nat option \<Rightarrow> nat option" where
  "shrink m None = None"
| "shrink m (Some r) = Some (r - m)"

function sink_write :: "bytes \<Rightarrow> (sink, nat) io" where
  "sink_write bs (Sink w r []) =
     (let m = fits r (length bs) in (Ok m, Sink (w @ take m bs) (shrink m r) []))"
| "sink_write bs (Sink w r (Take k # sc)) =
     (let m = min k (fits r (length bs)) in (Ok m, Sink (w @ take m bs) (shrink m r) sc))"
| "sink_write bs (Sink w r (WFail e # sc)) = (Err e, Sink w r sc)"
| "sink_write bs (Sink w r (WWait # sc)) = sink_write bs (Sink w r sc)"
  by pat_completeness auto
termination
  by (relation "measure (\<lambda>(bs, s). length (wscript s))") auto

fun sink_poll_write :: "bytes \<Rightarrow> sink \<Rightarrow> (error_kind, nat) res poll \<times> sink" where
  "sink_poll_write bs (Sink w r (WWait # sc)) = (Pending, Sink w r sc)"
| "sink_poll_write bs s = (case sink_write bs s of (x, s') \<Rightarrow> (Ready x, s'))"

lemma fits_le [simp]: "fits r n \<le> n"
  by (cases r) auto

lemma shrink_None [simp]: "shrink m r = None \<longleftrightarrow> r = None"
  by (cases r) auto

lemma sink_write_cases:
  obtains (Ok) n s' where "sink_write bs s = (Ok n, s')" and "n \<le> length bs"
      and "written s' = written s @ take n bs" and "length (wscript s') \<le> length (wscript s)"
      and "set (wscript s') \<subseteq> set (wscript s)" and "room s = None \<longleftrightarrow> room s' = None"
      and "room s = None \<Longrightarrow> n = length bs \<or> Take n \<in> set (wscript s)"
  | (Err) e s' where "sink_write bs s = (Err e, s')" and "written s' = written s"
      and "WFail e \<in> set (wscript s)" and "length (wscript s') < length (wscript s)"
      and "set (wscript s') \<subseteq> set (wscript s)" and "room s' = room s"
proof (induction bs s arbitrary: thesis rule: sink_write.induct)
  case (1 bs w r)
  show ?case
  proof (rule "1"(1))
    show "sink_write bs (Sink w r []) =
        (Ok (fits r (length bs)),
         Sink (w @ take (fits r (length bs)) bs) (shrink (fits r (length bs)) r) [])"
      by (simp add: Let_def)
  qed auto
next
  case (2 bs w r k sc)
  show ?case
  proof (rule "2"(1))
    show "sink_write bs (Sink w r (Take k # sc)) =
        (Ok (min k (fits r (length bs))),
         Sink (w @ take (min k (fits r (length bs))) bs) (shrink (min k (fits r (length bs))) r) sc)"
      by (simp add: Let_def)
  qed (auto simp: min_def intro: order_trans [OF _ fits_le])
next
  case (3 bs w r e sc)
  show ?case by (rule "3"(2)) auto
next
  case (4 bs w r sc)
  show ?case
  proof (rule "4.IH", goal_cases)
    case (1 n s')
    then show ?case by (intro "4.prems"(1) [of n s']) auto
  next
    case (2 e s')
    then show ?case by (intro "4.prems"(2) [of e s']) auto
  qed
qed

text \<open>The loop of \<open>std::io::Write::write_all\<close>, and tokio's, which does not retry.\<close>

function write_all :: "bytes \<Rightarrow> (sink, unit) io" where
  "write_all bs s =
     (if bs = [] then (Ok (), s)
      else case sink_write bs s of
        (Ok n, s') \<Rightarrow> if n = 0 then (Err WriteZero, s') else write_all (drop n bs) s'
      | (Err e, s') \<Rightarrow> if e = Interrupted then write_all bs s' else (Err e, s')
      | (Panic, s') \<Rightarrow> (Panic, s'))"
  by pat_completeness auto
termination
proof (relation "measures [\<lambda>(bs, s). length bs, \<lambda>(bs, s). length (wscript s)]", goal_cases)
  case 1
  then show ?case by simp
next
  case (2 bs s r s' n)
  then show ?case by (cases bs) auto
next
  case (3 bs s r s' e)
  then show ?case by (cases bs s rule: sink_write_cases) auto
qed

function tokio_write_all :: "bytes \<Rightarrow> (sink, unit) io" where
  "tokio_write_all bs s =
     (if bs = [] then (Ok (), s)
      else case sink_write bs s of
        (Ok n, s') \<Rightarrow> if n = 0 then (Err WriteZero, s') else tokio_write_all (drop n bs) s'
      | (Err e, s') \<Rightarrow> (Err e, s')
      | (Panic, s') \<Rightarrow> (Panic, s'))"
  by pat_completeness auto
termination
  by (relation "measure (\<lambda>(bs, s). length bs)") (auto simp: neq_Nil_conv)

declare write_all.simps [simp del] tokio_write_all.simps [simp del]

lemma write_all_Nil [simp]: "write_all [] s = (Ok (), s)"
  by (simp add: write_all.simps)

lemma tokio_write_all_Nil [simp]: "tokio_write_all [] s = (Ok (), s)"
  by (simp add: tokio_write_all.simps)

text \<open>An open sink: unbounded, only interruptions for failures, and every write makes progress.\<close>

definition open_sink :: "sink \<Rightarrow> bool" where
  "open_sink s \<longleftrightarrow> room s = None \<and> Take 0 \<notin> set (wscript s) \<and>
     (\<forall>e. WFail e \<in> set (wscript s) \<longrightarrow> e = Interrupted)"

lemma open_sink_write:
  assumes "open_sink s"
  obtains (some) n s' where "sink_write bs s = (Ok n, s')" and "n \<le> length bs" and "bs \<noteq> [] \<Longrightarrow> 0 < n"
      and "written s' = written s @ take n bs" and "open_sink s'"
      and "length (wscript s') \<le> length (wscript s)"
  | (again) s' where "sink_write bs s = (Err Interrupted, s')" and "written s' = written s"
      and "open_sink s'" and "length (wscript s') < length (wscript s)"
proof (cases bs s rule: sink_write_cases)
  case (Ok n s')
  have "n \<noteq> 0" if "bs \<noteq> []"
    using that assms Ok(7) by (cases "n = 0") (auto simp: open_sink_def)
  with assms Ok show ?thesis by (intro some [of n s']) (auto simp: open_sink_def)
next
  case (Err e s')
  with assms show ?thesis by (intro again [of s']) (auto simp: open_sink_def)
qed

lemma write_all_open:
  "open_sink s \<Longrightarrow>
     succeeds (write_all bs) (\<lambda>_ s'. written s' = written s @ bs \<and> open_sink s') s"
proof (induction bs s rule: write_all.induct)
  case (1 bs s)
  show ?case
  proof (cases "bs = []")
    case True
    with "1.prems" show ?thesis by (simp add: succeeds_def)
  next
    case False
    from "1.prems" show ?thesis
    proof (cases rule: open_sink_write [where bs = bs])
      case (some n s')
      with "1.IH"(1) [OF False some(1) [symmetric] refl] False
      have "succeeds (write_all (drop n bs))
          (\<lambda>_ t. written t = written s' @ drop n bs \<and> open_sink t) s'" by auto
      with some False show ?thesis
        by (auto simp: succeeds_def write_all.simps [of bs s])
    next
      case (again s')
      with "1.IH"(2) [OF False again(1) [symmetric] refl] False show ?thesis
        by (auto simp: succeeds_def write_all.simps [of bs s])
    qed
  qed
qed

lemma sink_write_script: "set (wscript (snd (sink_write bs s))) \<subseteq> set (wscript s)"
  by (cases bs s rule: sink_write_cases) auto

lemma write_all_script: "set (wscript (snd (write_all bs s))) \<subseteq> set (wscript s)"
proof (induction bs s rule: write_all.induct)
  case (1 bs s)
  show ?case
  proof (cases "bs = []")
    case False
    note u = write_all.simps [of bs s]
    show ?thesis
    proof (cases bs s rule: sink_write_cases)
      case (Ok n s')
      with "1.IH"(1) [OF False Ok(1) [symmetric] refl] False show ?thesis by (auto simp: u)
    next
      case (Err e s')
      with "1.IH"(2) [OF False Err(1) [symmetric] refl] False show ?thesis by (auto simp: u)
    qed
  qed simp
qed

lemma tokio_write_all_eq:
  "WFail Interrupted \<notin> set (wscript s) \<Longrightarrow> tokio_write_all bs s = write_all bs s"
proof (induction bs s rule: write_all.induct)
  case (1 bs s)
  show ?case
  proof (cases "bs = []")
    case False
    show ?thesis
    proof (cases bs s rule: sink_write_cases)
      case (Ok n s')
      with "1.IH"(1) [OF False Ok(1) [symmetric] refl] "1.prems" False show ?thesis
        by (auto simp: tokio_write_all.simps [of bs s] write_all.simps [of bs s])
    next
      case (Err e s')
      with "1.prems" False show ?thesis
        by (auto simp: tokio_write_all.simps [of bs s] write_all.simps [of bs s])
    qed
  qed simp
qed

end
