(* ===== verification/Io_Contracts.thy ===== *)
theory Io_Contracts
  imports Rust_Io
begin

text \<open>
  The contracts of \<open>Read\<close> and \<open>Write\<close>, and of their polled counterparts, as the program uses
  them, and the clients of the standard library that depend on nothing else.

  A call of \<open>Write::write\<close> may not return (the program has such an implementation), so
  the writing interface yields an option. The contracts are interpreted here for plain
  sources and sinks, and in the archive theories for \<open>DataReader\<close> and \<open>DataWriter\<close>.
\<close>

section \<open>Reading\<close>

text \<open>Reads of the given sizes, one after the other; and reads until one returns nothing.\<close>

fun read_calls :: "(nat \<Rightarrow> ('s, bytes) io) \<Rightarrow> nat list \<Rightarrow> ('s, bytes) io" where
  "read_calls rd [] = io_return []"
| "read_calls rd (n # ns) = io_bind (rd n) (\<lambda>bs. io_bind (read_calls rd ns) (\<lambda>cs. io_return (bs @ cs)))"

partial_function (option) read_to_end ::
    "(nat \<Rightarrow> ('s, bytes) io) \<Rightarrow> nat \<Rightarrow> bytes \<Rightarrow> 's \<Rightarrow> ((error_kind, bytes) res \<times> 's) option" where
  "read_to_end rd n acc s =
     (case rd n s of
        (Ok bs, s') \<Rightarrow> if bs = [] then Some (Ok acc, s') else read_to_end rd n (acc @ bs) s'
      | (Err e, s') \<Rightarrow> if e = Interrupted then read_to_end rd n acc s' else Some (Err e, s')
      | (Panic, s') \<Rightarrow> Some (Panic, s'))"

text \<open>
  \<open>holds s c\<close>: a reader in state \<open>s\<close> has exactly the bytes \<open>c\<close> left to deliver;
  \<open>finished s\<close>: what is known once a read has returned nothing.
\<close>

locale read_contract =
  fixes rd :: "nat \<Rightarrow> ('s, bytes) io" and holds :: "'s \<Rightarrow> bytes \<Rightarrow> bool"
    and finished :: "'s \<Rightarrow> bool"
  assumes read_law:
    "holds s c \<Longrightarrow> 0 < n \<Longrightarrow> succeeds (rd n) (\<lambda>bs s'.
       length bs \<le> n \<and> (bs = [] \<longrightarrow> c = [] \<and> finished s') \<and> (\<exists>c'. c = bs @ c' \<and> holds s' c')) s"
begin

lemma read_calls_law:
  "holds s c \<Longrightarrow> \<forall>n \<in> set ns. 0 < n \<Longrightarrow> succeeds (read_calls rd ns) (\<lambda>bs s'.
     (length ns \<ge> length c \<longrightarrow> bs = c) \<and> (\<exists>c'. c = bs @ c' \<and> holds s' c')) s"
proof (induction ns arbitrary: s c)
  case Nil
  then show ?case by simp
next
  case (Cons n ns)
  then have "0 < n" by simp
  from read_law [OF Cons.prems(1) this] show ?case
  proof (rule succeedsE)
    fix bs s'
    assume rd: "rd n s = (Ok bs, s')"
      and *: "length bs \<le> n \<and> (bs = [] \<longrightarrow> c = [] \<and> finished s') \<and> (\<exists>c'. c = bs @ c' \<and> holds s' c')"
    then obtain c' where c': "c = bs @ c'" "holds s' c'" by blast
    from Cons.IH [OF this(2)] Cons.prems(2) obtain cs t where
      "read_calls rd ns s' = (Ok cs, t)" and "length ns \<ge> length c' \<longrightarrow> cs = c'"
      and "\<exists>c''. c' = cs @ c'' \<and> holds t c''"
      by (auto simp: succeeds_def)
    moreover from * c' have "length (n # ns) \<ge> length c \<Longrightarrow> length ns \<ge> length c'"
      by (cases bs) auto
    ultimately show ?thesis using rd c' by (auto simp: succeeds_def)
  qed
qed

lemma read_to_end_law:
  "holds s c \<Longrightarrow> 0 < n \<Longrightarrow> \<exists>s'. read_to_end rd n acc s = Some (Ok (acc @ c), s') \<and> holds s' [] \<and> finished s'"
proof (induction "length c" arbitrary: s c acc rule: less_induct)
  case less
  from read_law [OF less.prems] show ?case
  proof (rule succeedsE)
    fix bs s'
    assume rd: "rd n s = (Ok bs, s')"
      and *: "length bs \<le> n \<and> (bs = [] \<longrightarrow> c = [] \<and> finished s') \<and> (\<exists>c'. c = bs @ c' \<and> holds s' c')"
    then obtain c' where c': "c = bs @ c'" "holds s' c'" by blast
    show ?case
    proof (cases "bs = []")
      case True
      with rd * c' show ?thesis by (simp add: read_to_end.simps [of rd n acc s])
    next
      case False
      with c' have "length c' < length c" by simp
      from less.hyps [OF this c'(2) less.prems(2), of "acc @ bs"] rd False c'(1)
      show ?thesis by (simp add: read_to_end.simps [of rd n acc s])
    qed
  qed
qed

end

definition source_ended :: "source \<Rightarrow> bool" where
  "source_ended s \<longleftrightarrow> avail s = []"

definition source_holds :: "source \<Rightarrow> bytes \<Rightarrow> bool" where
  "source_holds s c \<longleftrightarrow> steady s \<and> avail s = c"

interpretation source: read_contract src_read source_holds source_ended
proof
  fix s c and n :: nat
  assume "source_holds s c" "0 < n"
  then show "succeeds (src_read n) (\<lambda>bs s'. length bs \<le> n \<and> (bs = [] \<longrightarrow> c = [] \<and> source_ended s') \<and>
      (\<exists>c'. c = bs @ c' \<and> source_holds s' c')) s"
    using src_read_steady [of s n]
    by (auto simp: source_holds_def source_ended_def elim!: succeeds_mono)
qed

section \<open>Polled reading\<close>

type_synonym ('s, 'a) pio = "'s \<Rightarrow> (error_kind, 'a) res poll \<times> 's"

definition at_once :: "('s, 'a) io \<Rightarrow> ('s, 'a) pio" where
  "at_once m s = (case m s of (x, s') \<Rightarrow> (Ready x, s'))"

text \<open>
  \<open>polls P Q m s\<close>: the poll \<open>m\<close> is pending in a state satisfying \<open>P\<close>, or ready with a value
  and a state satisfying \<open>Q\<close>.
\<close>

definition polls :: "('s \<Rightarrow> bool) \<Rightarrow> ('a \<Rightarrow> 's \<Rightarrow> bool) \<Rightarrow> ('s, 'a) pio \<Rightarrow> 's \<Rightarrow> bool" where
  "polls P Q m s \<longleftrightarrow>
     (case m s of (Pending, s') \<Rightarrow> P s' | (Ready (Ok x), s') \<Rightarrow> Q x s' | (Ready _, s') \<Rightarrow> False)"

lemma polls_cases:
  assumes "polls P Q m s"
  obtains (Pending) s' where "m s = (Pending, s')" and "P s'"
  | (Ready) x s' where "m s = (Ready (Ok x), s')" and "Q x s'"
  using assms by (auto simp: polls_def split: prod.splits poll.splits res.splits)

lemma polls_at_once: "succeeds m Q s \<Longrightarrow> polls P Q (at_once m) s"
  by (auto simp: polls_def at_once_def succeeds_def)

lemma polls_mono:
  "polls P Q m s \<Longrightarrow> (\<And>s'. P s' \<Longrightarrow> P' s') \<Longrightarrow> (\<And>x s'. Q x s' \<Longrightarrow> Q' x s') \<Longrightarrow> polls P' Q' m s"
  by (auto simp: polls_def split: prod.splits poll.splits res.splits)

text \<open>tokio's \<open>read_to_end\<close>, polled again whenever it is woken.\<close>

partial_function (option) read_to_end_polled ::
    "(nat \<Rightarrow> ('s, bytes) pio) \<Rightarrow> nat \<Rightarrow> bytes \<Rightarrow> 's \<Rightarrow> ((error_kind, bytes) res \<times> 's) option" where
  "read_to_end_polled pr n acc s =
     (case pr n s of
        (Pending, s') \<Rightarrow> read_to_end_polled pr n acc s'
      | (Ready (Ok bs), s') \<Rightarrow> if bs = [] then Some (Ok acc, s') else read_to_end_polled pr n (acc @ bs) s'
      | (Ready (Err e), s') \<Rightarrow> Some (Err e, s')
      | (Ready Panic, s') \<Rightarrow> Some (Panic, s'))"

text \<open>\<open>delay s\<close> bounds how often polls from \<open>s\<close> are pending before one is ready.\<close>

locale poll_read_contract =
  fixes pr :: "nat \<Rightarrow> ('s, bytes) pio" and holds :: "'s \<Rightarrow> bytes \<Rightarrow> bool"
    and finished :: "'s \<Rightarrow> bool" and delay :: "'s \<Rightarrow> nat"
  assumes poll_read_law:
    "holds s c \<Longrightarrow> 0 < n \<Longrightarrow> polls (\<lambda>s'. holds s' c \<and> delay s' < delay s)
       (\<lambda>bs s'. length bs \<le> n \<and> (bs = [] \<longrightarrow> c = [] \<and> finished s') \<and> (\<exists>c'. c = bs @ c' \<and> holds s' c')) (pr n) s"
begin

lemma read_to_end_polled_law:
  "holds s c \<Longrightarrow> 0 < n \<Longrightarrow> \<exists>s'. read_to_end_polled pr n acc s = Some (Ok (acc @ c), s') \<and> holds s' [] \<and> finished s'"
proof (induction "(length c, delay s)" arbitrary: s c acc rule: wf_induct_rule [OF wf_lex_prod [OF wf_less wf_less]])
  case 1
  from poll_read_law [OF "1.prems"] show ?case
  proof (cases rule: polls_cases)
    case (Pending s')
    with "1.hyps" [of c s' acc] "1.prems"(2) show ?thesis
      by (simp add: read_to_end_polled.simps [of pr n acc s])
  next
    case (Ready bs s')
    then obtain c' where c': "c = bs @ c'" "holds s' c'" by blast
    show ?thesis
    proof (cases "bs = []")
      case True
      with Ready c' show ?thesis by (simp add: read_to_end_polled.simps [of pr n acc s])
    next
      case False
      with "1.hyps" [of c' s' "acc @ bs"] Ready(1) c' "1.prems"(2) show ?thesis
        by (simp add: read_to_end_polled.simps [of pr n acc s])
    qed
  qed
qed

end

text \<open>A reader that never waits may stand where a polled one is expected.\<close>

sublocale read_contract \<subseteq> immediate: poll_read_contract "\<lambda>n. at_once (rd n)" holds finished "\<lambda>_. 0"
  by unfold_locales (intro polls_at_once read_law)

definition source_waits :: "source \<Rightarrow> nat" where
  "source_waits s = length (script s)"

interpretation polled_source: poll_read_contract src_poll_read source_holds source_ended source_waits
proof
  fix s c and n :: nat
  assume s: "source_holds s c" and n: "0 < n"
  show "polls (\<lambda>s'. source_holds s' c \<and> source_waits s' < source_waits s)
      (\<lambda>bs s'. length bs \<le> n \<and> (bs = [] \<longrightarrow> c = [] \<and> source_ended s') \<and> (\<exists>c'. c = bs @ c' \<and> source_holds s' c'))
      (src_poll_read n) s"
  proof (cases "\<exists>bs sc. s = Source bs (RWait # sc)")
    case True
    with s show ?thesis by (auto simp: polls_def source_holds_def steady_def source_waits_def)
  next
    case False
    then have "src_poll_read n s = at_once (src_read n) s"
      by (cases "(n, s)" rule: src_poll_read.cases) (auto simp: at_once_def)
    with polls_at_once [OF source.read_law [OF s n]] show ?thesis by (simp add: polls_def)
  qed
qed

section \<open>Writing\<close>

type_synonym 's write_call = "bytes \<Rightarrow> 's \<Rightarrow> ((error_kind, nat) res \<times> 's) option"

text \<open>The provided method \<open>Write::write_all\<close>, over any implementation of \<open>write\<close>.\<close>

partial_function (option) write_all_with ::
    "'s write_call \<Rightarrow> bytes \<Rightarrow> 's \<Rightarrow> ((error_kind, unit) res \<times> 's) option" where
  "write_all_with wr buf s =
     (if buf = [] then Some (Ok (), s)
      else case wr buf s of
        None \<Rightarrow> None
      | Some (Ok n, s') \<Rightarrow>
          if n = 0 then Some (Err WriteZero, s')
          else if length buf < n then Some (Panic, s')
          else write_all_with wr (drop n buf) s'
      | Some (Err e, s') \<Rightarrow> if e = Interrupted then write_all_with wr buf s' else Some (Err e, s')
      | Some (Panic, s') \<Rightarrow> Some (Panic, s'))"

text \<open>
  \<open>wstate x buf s\<close>: a writer in state \<open>s\<close> has accepted exactly \<open>x\<close>, and may be called with
  \<open>buf\<close>. A call may be interrupted; it is then repeated with the same buffer, and the patience
  of the writer, \<open>fuel\<close>, bounds how often. Once everything is written another buffer may follow.
\<close>

locale write_contract =
  fixes wr :: "'s write_call" and wstate :: "bytes \<Rightarrow> bytes \<Rightarrow> 's \<Rightarrow> bool" and fuel :: "'s \<Rightarrow> nat"
  assumes write_law:
    "wstate x buf s \<Longrightarrow> buf \<noteq> [] \<Longrightarrow>
       (\<exists>n s'. wr buf s = Some (Ok n, s') \<and> 0 < n \<and> n \<le> length buf \<and> wstate (x @ take n buf) (drop n buf) s') \<or>
       (\<exists>s'. wr buf s = Some (Err Interrupted, s') \<and> wstate x buf s' \<and> fuel s' < fuel s)"
    and next_buffer: "wstate x [] s \<Longrightarrow> wstate x buf s"
begin

lemma write_all_law:
  "wstate x buf s \<Longrightarrow> \<exists>s'. write_all_with wr buf s = Some (Ok (), s') \<and> wstate (x @ buf) [] s'"
proof (induction "(length buf, fuel s)" arbitrary: buf s x rule: wf_induct_rule [OF wf_lex_prod [OF wf_less wf_less]])
  case 1
  show ?case
  proof (cases "buf = []")
    case True
    with "1.prems" show ?thesis by (simp add: write_all_with.simps)
  next
    case False
    from write_law [OF "1.prems" False] show ?thesis
    proof (elim disjE exE conjE, goal_cases)
      case (1 n s')
      then have "length (drop n buf) < length buf" by simp
      with "1.hyps" [of "drop n buf" s' "x @ take n buf"] 1 False show ?thesis
        by (auto simp: write_all_with.simps [of wr buf s])
    next
      case (2 s')
      with "1.hyps" [of buf s' x] False show ?thesis
        by (auto simp: write_all_with.simps [of wr buf s])
    qed
  qed
qed

lemma write_all_then_law:
  "wstate x [] s \<Longrightarrow> \<exists>s'. write_all_with wr buf s = Some (Ok (), s') \<and> wstate (x @ buf) [] s'"
  by (rule write_all_law) (rule next_buffer)

end

definition sink_state :: "bytes \<Rightarrow> bytes \<Rightarrow> bytes \<Rightarrow> sink \<Rightarrow> bool" where
  "sink_state base x buf s \<longleftrightarrow> open_sink s \<and> written s = base @ x"

definition patience :: "sink \<Rightarrow> nat" where
  "patience s = length (wscript s)"

interpretation sink: write_contract "\<lambda>buf s. Some (sink_write buf s)" "sink_state base" patience for base
proof
  fix x buf s
  assume s: "sink_state base x buf s" and "buf \<noteq> []"
  then have "open_sink s" by (simp add: sink_state_def)
  then show "(\<exists>n s'. Some (sink_write buf s) = Some (Ok n, s') \<and> 0 < n \<and> n \<le> length buf \<and>
        sink_state base (x @ take n buf) (drop n buf) s') \<or>
      (\<exists>s'. Some (sink_write buf s) = Some (Err Interrupted, s') \<and> sink_state base x buf s' \<and> patience s' < patience s)"
  proof (cases rule: open_sink_write [where bs = buf])
    case (some n s')
    with s \<open>buf \<noteq> []\<close> show ?thesis by (auto simp: sink_state_def)
  next
    case (again s')
    with s show ?thesis by (auto simp: sink_state_def patience_def)
  qed
qed (auto simp: sink_state_def)

section \<open>Polled writing\<close>

type_synonym 's poll_write_call = "bytes \<Rightarrow> 's \<Rightarrow> ((error_kind, nat) res poll \<times> 's) option"

text \<open>tokio's \<open>write_all\<close>, polled again whenever it is woken; it does not retry interruptions.\<close>

partial_function (option) write_all_polled ::
    "'s poll_write_call \<Rightarrow> bytes \<Rightarrow> 's \<Rightarrow> ((error_kind, unit) res \<times> 's) option" where
  "write_all_polled pw buf s =
     (if buf = [] then Some (Ok (), s)
      else case pw buf s of
        None \<Rightarrow> None
      | Some (Pending, s') \<Rightarrow> write_all_polled pw buf s'
      | Some (Ready (Ok n), s') \<Rightarrow>
          if n = 0 then Some (Err WriteZero, s')
          else if length buf < n then Some (Panic, s')
          else write_all_polled pw (drop n buf) s'
      | Some (Ready (Err e), s') \<Rightarrow> Some (Err e, s')
      | Some (Ready Panic, s') \<Rightarrow> Some (Panic, s'))"

locale poll_write_contract =
  fixes pw :: "'s poll_write_call" and wstate :: "bytes \<Rightarrow> bytes \<Rightarrow> 's \<Rightarrow> bool" and fuel :: "'s \<Rightarrow> nat"
  assumes poll_write_law:
    "wstate x buf s \<Longrightarrow> buf \<noteq> [] \<Longrightarrow>
       (\<exists>n s'. pw buf s = Some (Ready (Ok n), s') \<and> 0 < n \<and> n \<le> length buf \<and>
          wstate (x @ take n buf) (drop n buf) s') \<or>
       (\<exists>s'. pw buf s = Some (Pending, s') \<and> wstate x buf s' \<and> fuel s' < fuel s)"
    and next_buffer: "wstate x [] s \<Longrightarrow> wstate x buf s"
begin

lemma write_all_polled_law:
  "wstate x buf s \<Longrightarrow> \<exists>s'. write_all_polled pw buf s = Some (Ok (), s') \<and> wstate (x @ buf) [] s'"
proof (induction "(length buf, fuel s)" arbitrary: buf s x rule: wf_induct_rule [OF wf_lex_prod [OF wf_less wf_less]])
  case 1
  show ?case
  proof (cases "buf = []")
    case True
    with "1.prems" show ?thesis by (simp add: write_all_polled.simps)
  next
    case False
    from poll_write_law [OF "1.prems" False] show ?thesis
    proof (elim disjE exE conjE, goal_cases)
      case (1 n s')
      then have "length (drop n buf) < length buf" by simp
      with "1.hyps" [of "drop n buf" s' "x @ take n buf"] 1 False show ?thesis
        by (auto simp: write_all_polled.simps [of pw buf s])
    next
      case (2 s')
      with "1.hyps" [of buf s' x] False show ?thesis
        by (auto simp: write_all_polled.simps [of pw buf s])
    qed
  qed
qed

end

end
