(* ===== verification/Archive_Write.thy ===== *)
theory Archive_Write
  imports Archive_Types Io_Contracts
begin

text \<open>
  \<open>crates/archive/src/write.rs\<close>, the blocking half: \<open>Writer\<close> and \<open>DataWriter\<close>. A data
  writer keeps the chunk it is writing in a buffer, the range of it that is still to be
  written, and a hasher fed with all the chunks. The loop of \<open>DataWriter::write\<close> does not
  end on a sink that keeps accepting nothing, so it is a partial function; on a sink that
  makes progress it is total.
\<close>

section \<open>Writer\<close>

record writer =
  sink_of :: sink

text \<open>\<open>on_sink m\<close> is \<open>m\<close> applied to \<open>self.writer\<close>.\<close>

definition on_sink :: "(sink, 'a) io \<Rightarrow> (writer, 'a) io" where
  "on_sink m w = (case m (sink_of w) of (x, s) \<Rightarrow> (x, w\<lparr>sink_of := s\<rparr>))"

definition writer_into_inner :: "writer \<Rightarrow> sink" where
  "writer_into_inner w = sink_of w"

definition writer_new :: "(sink, writer) io" where
  "writer_new = io_then (write_all NCK00) (io_get (\<lambda>s. io_return \<lparr>sink_of = s\<rparr>))"

definition write_length_prefixed :: "bytes \<Rightarrow> (writer, unit) io" where
  "write_length_prefixed buf =
     (if length buf > MAX_LENGTH then io_fail InvalidInput
      else
        io_then (on_sink (write_all (u16_to_be_bytes (word_of_nat (length buf)))))
        (io_then (on_sink (write_all buf))
        (io_return ())))"

text \<open>The \<open>match\<close> of \<open>write_entry\<close>, and the whole.\<close>

fun write_target :: "entry_target \<Rightarrow> (writer, unit) io" where
  "write_target (TData hash flags) =
     (case hash_data hash of (hash_id, bs) \<Rightarrow>
       io_then (on_sink (write_all [TYPE_DATA, hash_id]))
       (io_then (on_sink (write_all bs))
       (on_sink (write_all (u16_to_be_bytes (flags_bits flags))))))"
| "write_target (TLink dest flags) =
     io_then (on_sink (write_all [TYPE_LINK]))
     (io_then (write_length_prefixed dest)
     (on_sink (write_all (u16_to_be_bytes (flags_bits flags)))))"
| "write_target TDirectory = on_sink (write_all [TYPE_DIR])"

definition write_entry :: "entry \<Rightarrow> (writer, unit) io" where
  "write_entry e =
     io_then (on_sink (write_all [ENTRY_ENTRY]))
     (io_then (write_length_prefixed (path e))
     (io_then (write_target (target e))
     (io_return ())))"

section \<open>DataWriter\<close>

record data_writer =
  dw_writer :: writer
  dw_hash :: supported_hasher
  dw_buffer :: bytes
  dw_start :: nat
  dw_end :: nat

text \<open>
  \<open>write_data\<close> consumes the writer; the buffer it takes from the pool is empty (theory
  \<open>Buffer_Pool\<close>).
\<close>

definition write_data :: "supported_hasher \<Rightarrow> (writer, data_writer) io" where
  "write_data hasher =
     io_then (on_sink (write_all [ENTRY_DATA]))
     (io_get (\<lambda>w. io_return
       \<lparr>dw_writer = w, dw_hash = hasher, dw_buffer = [], dw_start = 0, dw_end = 0\<rparr>))"

definition dw_pending :: "data_writer \<Rightarrow> bool" where
  "dw_pending d \<longleftrightarrow> dw_start d < dw_end d"

definition on_writer :: "(sink, 'a) io \<Rightarrow> (data_writer, 'a) io" where
  "on_writer m d = (case on_sink m (dw_writer d) of (x, w) \<Rightarrow> (x, d\<lparr>dw_writer := w\<rparr>))"

definition finish_data :: "digest \<Rightarrow> (data_writer, writer \<times> supported_hash) io" where
  "finish_data b3 =
     io_then (on_writer (write_all (u16_to_be_bytes 0)))
     (io_get (\<lambda>d. let hash = supported_finalize b3 (dw_hash d) in
       case hash_data hash of (hash_id, bs) \<Rightarrow>
         io_then (on_writer (write_all [hash_id]))
         (io_then (on_writer (write_all bs))
         (io_get (\<lambda>d. io_return (dw_writer d, hash))))))"

text \<open>
  One turn of the loop: write what is left of the chunk. The value is the count to return
  when the range has become empty. The buffer always starts with the length prefix, so the
  subtraction does not underflow (\<open>data_write_guarded\<close>).
\<close>

definition flush_step :: "(data_writer, nat option) io" where
  "flush_step =
     io_get (\<lambda>d. io_bind (io_res (slice_of (dw_start d) (dw_end d) (dw_buffer d))) (\<lambda>bs.
     io_bind (on_writer (sink_write bs)) (\<lambda>len.
     io_then (io_modify (\<lambda>d. d\<lparr>dw_start := dw_start d + len\<rparr>))
     (io_get (\<lambda>d.
       if dw_pending d then io_return None
       else if dw_end d < 2 then io_res Panic
       else io_return (Some (dw_end d - 2)))))))"

definition start_chunk :: "bytes \<Rightarrow> data_writer \<Rightarrow> data_writer" where
  "start_chunk buf d =
     (let to_write = min (length buf) MAX_LENGTH;
          buffer = u16_to_be_bytes (word_of_nat to_write) @ take to_write buf
      in d\<lparr>dw_hash := supported_update (dw_hash d) (take to_write buf),
           dw_buffer := buffer, dw_start := 0, dw_end := length buffer\<rparr>)"

text \<open>\<open>flush\<close> is the sink's; a chunk that is not written yet stays.\<close>

definition data_flush :: "(sink, unit) io \<Rightarrow> (data_writer, unit) io" where
  "data_flush sink_flush = on_writer sink_flush"

lemma data_flush_keeps:
  "data_flush fl d = (x, d') \<Longrightarrow> dw_buffer d' = dw_buffer d \<and> dw_start d' = dw_start d \<and> dw_end d' = dw_end d \<and>
     dw_hash d' = dw_hash d \<and> sink_of (dw_writer d') = snd (fl (sink_of (dw_writer d)))"
  by (auto simp: data_flush_def on_writer_def on_sink_def split: prod.splits)

text \<open>The loop and the call of \<open>write\<close> by itself that follows it.\<close>

partial_function (option) data_write :: "data_writer write_call" where
  "data_write buf d =
     (if buf = [] then Some (Ok 0, d)
      else if dw_pending d then
        (case flush_step d of
           (Ok None, d') \<Rightarrow> data_write buf d'
         | (Ok (Some n), d') \<Rightarrow> Some (Ok n, d')
         | (Err e, d') \<Rightarrow> Some (Err e, d')
         | (Panic, d') \<Rightarrow> Some (Panic, d'))
      else data_write buf (start_chunk buf d))"

section \<open>Writing an entry\<close>

text \<open>\<open>writer_at w bs\<close>: the sink is open and \<open>bs\<close> has been written to it.\<close>

definition writer_at :: "writer \<Rightarrow> bytes \<Rightarrow> bool" where
  "writer_at w bs \<longleftrightarrow> open_sink (sink_of w) \<and> written (sink_of w) = bs"

lemma put_at: "writer_at w a \<Longrightarrow> succeeds (on_sink (write_all bs)) (\<lambda>_ w'. writer_at w' (a @ bs)) w"
  using write_all_open [of "sink_of w" bs] by (auto simp: succeeds_def on_sink_def writer_at_def)

lemma put_then:
  "writer_at w a \<Longrightarrow> (\<And>w'. writer_at w' (a @ bs) \<Longrightarrow> succeeds k Q w') \<Longrightarrow>
     succeeds (io_then (on_sink (write_all bs)) k) Q w"
  by (rule succeeds_thenI [OF put_at])

lemma writer_new_at: "open_sink s \<Longrightarrow>
    succeeds writer_new (\<lambda>w _. writer_at w (written s @ NCK00)) s"
  using write_all_open [of s NCK00]
  by (auto simp: succeeds_def writer_new_def writer_at_def)

lemma write_length_prefixed_at:
  "writer_at w a \<Longrightarrow> length s \<le> MAX_LENGTH \<Longrightarrow>
     succeeds (write_length_prefixed s) (\<lambda>_ w'. writer_at w' (a @ enc_string s)) w"
  by (auto simp: write_length_prefixed_def enc_string_def intro!: put_then)

lemma write_length_prefixed_long:
  "MAX_LENGTH < length s \<Longrightarrow> write_length_prefixed s w = (Err InvalidInput, w)"
  by (simp add: write_length_prefixed_def)

lemma write_length_prefixed_then:
  "writer_at w a \<Longrightarrow> length s \<le> MAX_LENGTH \<Longrightarrow>
     (\<And>w'. writer_at w' (a @ enc_string s) \<Longrightarrow> succeeds k Q w') \<Longrightarrow>
     succeeds (io_then (write_length_prefixed s) k) Q w"
  by (rule succeeds_thenI [OF write_length_prefixed_at])

lemma write_target_at:
  assumes "writer_at w a" and "target_valid t"
  shows "succeeds (write_target t) (\<lambda>_ w'. writer_at w' (a @ enc_target t)) w"
proof (cases t)
  case (TData h flags)
  with assms show ?thesis
    by (auto simp: enc_hash_def flags_bits_def case_prod_unfold intro!: put_then succeeds_mono [OF put_at])
next
  case (TLink dest flags)
  with assms show ?thesis
    by (auto simp: flags_bits_def intro!: put_then write_length_prefixed_then succeeds_mono [OF put_at])
next
  case TDirectory
  with assms put_at [of w a "[TYPE_DIR]"] show ?thesis by simp
qed

lemma write_entry_at:
  assumes "writer_at w a" and "entry_valid e"
  shows "succeeds (write_entry e) (\<lambda>_ w'. writer_at w' (a @ enc_entry e)) w"
  unfolding write_entry_def
proof (rule put_then [OF assms(1)], rule write_length_prefixed_then, assumption, goal_cases)
  case 1
  with assms(2) show ?case by (simp add: entry_valid_def)
next
  case (2 w1 w2)
  have "target_valid (target e)" using assms(2) by (simp add: entry_valid_def)
  from write_target_at [OF 2(2) this] show ?case
    by (auto simp: succeeds_then enc_entry_def elim: succeeds_mono)
qed

text \<open>A path that is too long is refused, but only after the tag of the entry has been written.\<close>

lemma write_entry_long:
  assumes "writer_at w a" and "MAX_LENGTH < length (path e)"
  shows "\<exists>w'. write_entry e w = (Err InvalidInput, w') \<and> writer_at w' (a @ [ENTRY_ENTRY])"
  using put_at [OF assms(1), of "[ENTRY_ENTRY]"] write_length_prefixed_long [OF assms(2)]
  by (auto simp: succeeds_def write_entry_def)

lemma write_entry_long_link:
  assumes "writer_at w a" and "length (path e) \<le> MAX_LENGTH"
    and "target e = TLink dest flags" and "MAX_LENGTH < length dest"
  shows "\<exists>w'. write_entry e w = (Err InvalidInput, w') \<and>
    writer_at w' (a @ [ENTRY_ENTRY] @ enc_string (path e) @ [TYPE_LINK])"
proof -
  from put_at [OF assms(1), of "[ENTRY_ENTRY]"] obtain w1 where
    w1: "on_sink (write_all [ENTRY_ENTRY]) w = (Ok (), w1)" "writer_at w1 (a @ [ENTRY_ENTRY])"
    by (auto simp: succeeds_def)
  from write_length_prefixed_at [OF w1(2) assms(2)] obtain w2 where
    w2: "write_length_prefixed (path e) w1 = (Ok (), w2)" "writer_at w2 (a @ [ENTRY_ENTRY] @ enc_string (path e))"
    by (auto simp: succeeds_def)
  from put_at [OF w2(2), of "[TYPE_LINK]"] obtain w3 where
    w3: "on_sink (write_all [TYPE_LINK]) w2 = (Ok (), w3)"
      "writer_at w3 (a @ [ENTRY_ENTRY] @ enc_string (path e) @ [TYPE_LINK])"
    by (auto simp: succeeds_def)
  from w1(1) w2(1) w3 write_length_prefixed_long [OF assms(4)] show ?thesis
    by (auto simp: write_entry_def assms(3))
qed

section \<open>Writing a blob\<close>

text \<open>
  \<open>blob_at pre base cs d\<close>: since \<open>base\<close> was in the sink and \<open>pre\<close> in the hasher, exactly the
  chunks \<open>cs\<close> have been written and hashed, and no chunk is pending.
\<close>

definition blob_at :: "bytes \<Rightarrow> bytes \<Rightarrow> bytes list \<Rightarrow> data_writer \<Rightarrow> bool" where
  "blob_at pre base cs d \<longleftrightarrow> \<not> dw_pending d \<and> (\<forall>c \<in> set cs. chunk_valid c) \<and>
     dw_hash d = HBlake3 (pre @ concat cs) \<and> writer_at (dw_writer d) (base @ enc_chunks cs)"

text \<open>\<open>chunk_at pre base cs c d\<close>: in addition the chunk \<open>c\<close> is hashed and buffered, and partly written.\<close>

definition chunk_at :: "bytes \<Rightarrow> bytes \<Rightarrow> bytes list \<Rightarrow> bytes \<Rightarrow> data_writer \<Rightarrow> bool" where
  "chunk_at pre base cs c d \<longleftrightarrow> dw_pending d \<and> (\<forall>c \<in> set cs. chunk_valid c) \<and> chunk_valid c \<and>
     dw_hash d = HBlake3 (pre @ concat cs @ c) \<and>
     dw_buffer d = enc_string c \<and> dw_end d = length (dw_buffer d) \<and>
     writer_at (dw_writer d) (base @ enc_chunks cs @ take (dw_start d) (dw_buffer d))"

lemma write_data_at:
  assumes "writer_at w a"
  shows "succeeds (write_data (HBlake3 pre)) (\<lambda>d _. blob_at pre (a @ [ENTRY_DATA]) [] d) w"
  unfolding write_data_def
  by (rule put_then [OF assms]) (simp add: blob_at_def dw_pending_def enc_chunks_def)

lemma start_chunk_at:
  assumes "blob_at pre base cs d" and "buf \<noteq> []"
  shows "chunk_at pre base cs (take MAX_LENGTH buf) (start_chunk buf d)"
  using assms
  by (auto simp: blob_at_def chunk_at_def start_chunk_def Let_def dw_pending_def enc_string_def chunk_valid_def
      take_min_length MAX_LENGTH_def)

lemma flush_step_at:
  assumes "chunk_at pre base cs c d"
  obtains (more) d' where "flush_step d = (Ok None, d')" and "chunk_at pre base cs c d'"
      and "dw_end d' - dw_start d' < dw_end d - dw_start d"
      and "patience (sink_of (dw_writer d')) \<le> patience (sink_of (dw_writer d))"
  | (finished) d' where "flush_step d = (Ok (Some (length c)), d')" and "blob_at pre base (cs @ [c]) d'"
  | (again) d' where "flush_step d = (Err Interrupted, d')" and "chunk_at pre base cs c d'"
      and "dw_start d' = dw_start d" and "dw_end d' = dw_end d"
      and "patience (sink_of (dw_writer d')) < patience (sink_of (dw_writer d))"
proof -
  let ?s = "sink_of (dw_writer d)" and ?bs = "drop (dw_start d) (dw_buffer d)"
  from assms have d: "dw_start d < length (dw_buffer d)" "dw_end d = length (dw_buffer d)"
    "dw_buffer d = enc_string c" and op: "open_sink ?s"
    and w: "written ?s = base @ enc_chunks cs @ take (dw_start d) (dw_buffer d)"
    by (auto simp: chunk_at_def dw_pending_def writer_at_def)
  have slice: "slice_of (dw_start d) (dw_end d) (dw_buffer d) = Ok ?bs"
    using d by (simp add: slice_of_def)
  from op show ?thesis
  proof (cases rule: open_sink_write [where bs = ?bs])
    case (some n s')
    let ?d = "d\<lparr>dw_writer := dw_writer d\<lparr>sink_of := s'\<rparr>, dw_start := dw_start d + n\<rparr>"
    have n: "0 < n" "n \<le> length (dw_buffer d) - dw_start d" using some(2,3) d by simp_all
    have w': "writer_at (dw_writer ?d) (base @ enc_chunks cs @ take (dw_start ?d) (dw_buffer d))"
      using some(4,5) w by (simp add: writer_at_def take_add)
    show ?thesis
    proof (cases "dw_pending ?d")
      case True
      have "flush_step d = (Ok None, ?d)"
        using True some(1) slice by (simp add: flush_step_def on_writer_def on_sink_def)
      moreover have "chunk_at pre base cs c ?d" using assms True w' by (simp add: chunk_at_def)
      ultimately show ?thesis using n d some(6) by (intro more) (auto simp: patience_def)
    next
      case False
      then have full: "dw_start ?d = length (dw_buffer d)" using n d by (simp add: dw_pending_def)
      have len: "length (dw_buffer d) = 2 + length c" by (simp add: d(3) enc_string_def)
      then have "flush_step d = (Ok (Some (length c)), ?d)"
        using False some(1) slice d(2) by (simp add: flush_step_def on_writer_def on_sink_def)
      moreover have "blob_at pre base (cs @ [c]) ?d"
        using assms False w' full d(3) by (auto simp: chunk_at_def blob_at_def wire)
      ultimately show ?thesis by (rule finished)
    qed
  next
    case (again s')
    let ?d = "d\<lparr>dw_writer := dw_writer d\<lparr>sink_of := s'\<rparr>\<rparr>"
    have "flush_step d = (Err Interrupted, ?d)"
      using again(1) slice by (simp add: flush_step_def on_writer_def on_sink_def)
    moreover have "chunk_at pre base cs c ?d"
      using assms again(2,3) by (auto simp: chunk_at_def writer_at_def dw_pending_def)
    ultimately show ?thesis using again(4) by (intro that(3) [of ?d]) (auto simp: patience_def)
  qed
qed

text \<open>A call of \<open>write\<close> with a chunk pending, and from a clean state.\<close>

lemma data_write_chunk:
  assumes "chunk_at pre base cs c d" and "buf \<noteq> []"
  shows "(\<exists>d'. data_write buf d = Some (Ok (length c), d') \<and> blob_at pre base (cs @ [c]) d') \<or>
    (\<exists>d'. data_write buf d = Some (Err Interrupted, d') \<and> chunk_at pre base cs c d' \<and>
       patience (sink_of (dw_writer d')) < patience (sink_of (dw_writer d)))"
  using assms(1)
proof (induction "dw_end d - dw_start d" arbitrary: d rule: less_induct)
  case less
  have pending: "dw_pending d" using less.prems by (simp add: chunk_at_def)
  from less.prems show ?case
  proof (cases rule: flush_step_at)
    case (more d')
    with less.hyps [OF more(3,2)] pending assms(2) show ?thesis
      by (auto simp: data_write.simps [of buf d])
  qed (use pending assms(2) in \<open>auto simp: data_write.simps [of buf d]\<close>)
qed

lemma data_write_blob:
  "blob_at pre base cs d \<Longrightarrow> buf \<noteq> [] \<Longrightarrow> data_write buf d = data_write buf (start_chunk buf d)"
  by (subst data_write.simps) (simp add: blob_at_def)

lemma start_chunk_patience [simp]:
  "dw_writer (start_chunk buf d) = dw_writer d"
  by (simp add: start_chunk_def Let_def)

definition blob_state :: "bytes \<Rightarrow> bytes \<Rightarrow> bytes \<Rightarrow> bytes \<Rightarrow> data_writer \<Rightarrow> bool" where
  "blob_state pre base x buf d \<longleftrightarrow> (\<exists>cs. x = concat cs \<and>
     (blob_at pre base cs d \<or> buf \<noteq> [] \<and> chunk_at pre base cs (take MAX_LENGTH buf) d))"

definition data_patience :: "data_writer \<Rightarrow> nat" where
  "data_patience d = patience (sink_of (dw_writer d))"

interpretation data_writer: write_contract data_write "blob_state pre base" data_patience for pre base
proof
  fix x buf d
  assume d: "blob_state pre base x buf d" and buf: "buf \<noteq> []"
  let ?c = "take MAX_LENGTH buf"
  from d obtain cs where x: "x = concat cs" and "blob_at pre base cs d \<or> chunk_at pre base cs ?c d"
    by (auto simp: blob_state_def)
  then obtain d1 where "chunk_at pre base cs ?c d1" and d1: "data_write buf d = data_write buf d1"
      "data_patience d1 = data_patience d"
    using start_chunk_at data_write_blob buf by (auto simp: data_patience_def intro: that [of "start_chunk buf d"])
  from data_write_chunk [OF this(1) buf]
  show "(\<exists>n d'. data_write buf d = Some (Ok n, d') \<and> 0 < n \<and> n \<le> length buf \<and>
        blob_state pre base (x @ take n buf) (drop n buf) d') \<or>
      (\<exists>d'. data_write buf d = Some (Err Interrupted, d') \<and> blob_state pre base x buf d' \<and>
        data_patience d' < data_patience d)"
  proof (elim disjE exE conjE, goal_cases)
    case (1 d')
    have "x @ take (length ?c) buf = concat (cs @ [?c])" by (simp add: x take_min_length)
    then have "blob_state pre base (x @ take (length ?c) buf) (drop (length ?c) buf) d'"
      unfolding blob_state_def using 1(2) by blast
    moreover have "0 < length ?c" "length ?c \<le> length buf" using buf by (simp_all add: MAX_LENGTH_def)
    ultimately show ?case using 1(1) d1 by metis
  next
    case (2 d')
    with x buf show ?case by (auto simp: d1 blob_state_def data_patience_def [symmetric])
  qed
qed (auto simp: blob_state_def)

text \<open>The end of the blob.\<close>

lemma on_writer_at:
  "writer_at (dw_writer d) a \<Longrightarrow> succeeds (on_writer (write_all bs)) (\<lambda>_ d'.
     writer_at (dw_writer d') (a @ bs) \<and> dw_hash d' = dw_hash d) d"
  using put_at [of "dw_writer d" a bs] by (auto simp: succeeds_def on_writer_def)

lemma u16_zero [simp]: "u16_to_be_bytes 0 = [0, 0]"
  by (simp add: u16_to_be_bytes_def numeral_2_eq_2 byte_of_nat_def)

lemma finish_data_at:
  assumes "blob_at pre base cs d"
  shows "succeeds (finish_data b3) (\<lambda>(w, h) _. h = Blake3 (b3 (pre @ concat cs)) \<and>
    writer_at w (base @ enc_body cs h)) d"
  unfolding finish_data_def
proof (rule succeeds_thenI, rule on_writer_at [of d "base @ enc_chunks cs"], goal_cases)
  case 1
  from assms show ?case by (simp add: blob_at_def)
next
  case (2 d1)
  let ?h = "b3 (pre @ concat cs)"
  have h: "supported_finalize b3 (dw_hash d1) = Blake3 ?h" using 2 assms by (simp add: blob_at_def)
  have "succeeds (io_then (on_writer (write_all [1])) (io_then (on_writer (write_all ?h))
      (io_get (\<lambda>d. io_return (dw_writer d, Blake3 ?h))))) (\<lambda>(w, h) _. h = Blake3 ?h \<and>
    writer_at w (base @ enc_body cs h)) d1"
    using 2 by (auto simp: enc_body_def enc_hash_def intro!: succeeds_thenI [OF on_writer_at])
  then show ?case by (simp add: h)
qed

section \<open>Failing sinks\<close>

text \<open>Whatever the sink does, a data writer does not panic.\<close>

definition dw_safe :: "data_writer \<Rightarrow> bool" where
  "dw_safe d \<longleftrightarrow> dw_pending d \<longrightarrow> 2 \<le> dw_end d \<and> dw_end d \<le> length (dw_buffer d)"

lemma sink_write_not_Panic: "sink_write bs s \<noteq> (Panic, s')"
  by (cases bs s rule: sink_write_cases) auto

lemma flush_step_guarded:
  assumes "dw_safe d" and "dw_pending d"
  shows "guarded dw_safe flush_step (\<lambda>_ _. True) d"
proof -
  from assms have d: "2 \<le> dw_end d" "dw_start d < dw_end d" "dw_end d \<le> length (dw_buffer d)"
    by (auto simp: dw_safe_def dw_pending_def)
  let ?bs = "take (dw_end d - dw_start d) (drop (dw_start d) (dw_buffer d))"
  have slice: "slice_of (dw_start d) (dw_end d) (dw_buffer d) = Ok ?bs"
    using d by (simp add: slice_of_def)
  show ?thesis
  proof (cases ?bs "sink_of (dw_writer d)" rule: sink_write_cases)
    case (Ok n s')
    with d slice show ?thesis
      by (simp add: guarded_def flush_step_def on_writer_def on_sink_def dw_safe_def dw_pending_def)
  next
    case (Err e s')
    with d slice show ?thesis
      by (simp add: guarded_def flush_step_def on_writer_def on_sink_def dw_safe_def dw_pending_def)
  qed
qed

lemma start_chunk_safe: "buf \<noteq> [] \<Longrightarrow> dw_safe (start_chunk buf d)"
  by (simp add: dw_safe_def start_chunk_def Let_def)

lemmas data_write_induct = data_write.raw_induct [rotated, consumes 1, case_names step]

lemma data_write_safe:
  "data_write buf d = Some y \<Longrightarrow> dw_safe d \<Longrightarrow> fst y \<noteq> Panic \<and> dw_safe (snd y)"
proof (induction rule: data_write_induct)
  case (step f buf d y)
  consider "buf = []" | "buf \<noteq> []" "dw_pending d" | "buf \<noteq> []" "\<not> dw_pending d" by blast
  then show ?case
  proof cases
    case 2
    from flush_step_guarded [OF step.prems 2(2)] 2 step.hyps show ?thesis
      by (auto simp: guarded_def split: prod.splits res.splits option.splits dest: step.IH)
  next
    case 3
    with step start_chunk_safe [OF 3(1)] show ?thesis by auto
  qed (use step in auto)
qed

text \<open>A sink with no room left accepts nothing, and the loop never ends.\<close>

definition stuck :: "data_writer \<Rightarrow> bool" where
  "stuck d \<longleftrightarrow> room (sink_of (dw_writer d)) = Some 0 \<and> wscript (sink_of (dw_writer d)) = []"

lemma flush_step_stuck:
  assumes "stuck d" and "dw_pending d" and "flush_step d = (r, d')"
  shows "stuck d' \<and> dw_pending d' \<and> r = Ok None \<or> r = Panic"
proof -
  from assms(1) obtain w where "sink_of (dw_writer d) = Sink w (Some 0) []"
    by (cases "sink_of (dw_writer d)") (auto simp: stuck_def)
  then have "sink_write bs (sink_of (dw_writer d)) = (Ok 0, sink_of (dw_writer d))" for bs
    by (simp add: Let_def)
  with assms show ?thesis
    by (auto simp: flush_step_def on_writer_def on_sink_def io_bind_def io_then_def stuck_def
        slice_of_def dw_pending_def split: if_splits)
qed

lemma data_write_stuck:
  "data_write buf d = Some y \<Longrightarrow> stuck d \<Longrightarrow> buf \<noteq> [] \<Longrightarrow> dw_safe d \<Longrightarrow> False"
proof (induction rule: data_write_induct)
  case (step f buf d y)
  show ?case
  proof (cases "dw_pending d")
    case True
    from flush_step_guarded [OF step.prems(3) True] step.hyps step.prems(2) True show ?thesis
      using flush_step_stuck [OF step.prems(1) True]
      by (auto simp: guarded_def split: prod.splits res.splits option.splits dest: step.IH)
  next
    case False
    then have "f buf (start_chunk buf d) = Some y" using step by simp
    moreover have "stuck (start_chunk buf d)" using step.prems by (simp add: stuck_def)
    ultimately show ?thesis using step start_chunk_safe by blast
  qed
qed

section \<open>Sinks without interruptions\<close>

text \<open>Sinks that are never interrupted, and the same for the writers over them.\<close>

definition calm_sink :: "sink \<Rightarrow> bool" where
  "calm_sink s \<longleftrightarrow> WFail Interrupted \<notin> set (wscript s)"

definition calm_writer :: "writer \<Rightarrow> bool" where
  "calm_writer w \<longleftrightarrow> calm_sink (sink_of w)"

definition calm_data_writer :: "data_writer \<Rightarrow> bool" where
  "calm_data_writer d \<longleftrightarrow> calm_writer (dw_writer d)"

lemma agree_on_sink [agreeing]:
  "agree calm_sink m m' \<Longrightarrow> agree calm_writer (on_sink m) (on_sink m')"
  by (auto simp: agree_def on_sink_def calm_writer_def case_prod_unfold)

lemma agree_on_writer [agreeing]:
  "agree calm_sink m m' \<Longrightarrow> agree calm_data_writer (on_writer m) (on_writer m')"
  using agree_on_sink [of m m']
  by (auto simp: agree_def on_writer_def calm_data_writer_def case_prod_unfold)

lemma agree_flush_step: "agree calm_data_writer flush_step flush_step"
proof -
  have "agree calm_data_writer (io_modify (\<lambda>d. d\<lparr>dw_start := f d\<rparr>)) (io_modify (\<lambda>d. d\<lparr>dw_start := f d\<rparr>))" for f
    by (simp add: agree_def calm_data_writer_def)
  moreover have "agree calm_sink (sink_write bs) (sink_write bs)" for bs
    using sink_write_script by (auto simp: agree_def calm_sink_def)
  ultimately show ?thesis unfolding flush_step_def by (intro agreeing)
qed

lemma flush_step_calm:
  assumes "calm_data_writer d"
  shows "fst (flush_step d) \<noteq> Err Interrupted"
proof -
  have "fst (sink_write bs (sink_of (dw_writer d))) \<noteq> Err Interrupted" for bs
    using assms by (cases bs "sink_of (dw_writer d)" rule: sink_write_cases)
      (auto simp: calm_data_writer_def calm_writer_def calm_sink_def)
  then show ?thesis
    by (auto simp: flush_step_def io_bind_def io_then_def on_writer_def on_sink_def slice_of_def
        split: prod.splits res.splits) (metis fst_conv)
qed

lemma data_write_calm:
  "data_write buf d = Some y \<Longrightarrow> calm_data_writer d \<Longrightarrow> fst y \<noteq> Err Interrupted"
proof (induction rule: data_write_induct)
  case (step f buf d y)
  have calm: "calm_data_writer (snd (flush_step d))"
    using agree_flush_step step.prems by (simp add: agree_def)
  consider "buf = []" | "buf \<noteq> []" "dw_pending d" | "buf \<noteq> []" "\<not> dw_pending d" by blast
  then show ?case
  proof cases
    case 2
    with step.hyps calm flush_step_calm [OF step.prems] show ?thesis
      by (auto split: prod.splits res.splits option.splits dest: step.IH)
  next
    case 3
    then have "f buf (start_chunk buf d) = Some y" using step.hyps by simp
    moreover have "calm_data_writer (start_chunk buf d)" using step.prems by (simp add: calm_data_writer_def)
    ultimately show ?thesis by (rule step.IH)
  qed (use step.hyps in auto)
qed

section \<open>What the callers see\<close>

text \<open>
  C19: On a sink that makes progress and is never interrupted, one \<open>write\<close> accepts as much of
  the buffer as a chunk can hold, and has then written and hashed exactly one more chunk.
\<close>

theorem data_write_one_chunk:
  assumes "blob_at pre base cs d" and "calm_data_writer d" and "buf \<noteq> []"
  shows "\<exists>d'. data_write buf d = Some (Ok (min (length buf) MAX_LENGTH), d') \<and>
    blob_at pre base (cs @ [take MAX_LENGTH buf]) d'"
  using data_write_chunk [OF start_chunk_at [OF assms(1,3)] assms(3)] data_write_blob [OF assms(1,3)]
    data_write_calm [OF _ assms(2), of buf]
  by (auto simp: min.commute)

theorem data_write_one_chunk_witness:
  "\<exists>d'. data_write [1, 2] \<lparr>dw_writer = \<lparr>sink_of = Sink [9] None [Take 1, Take 2]\<rparr>, dw_hash = HBlake3 [],
      dw_buffer = [], dw_start = 0, dw_end = 0\<rparr> = Some (Ok 2, d') \<and> blob_at [] [9] [[1, 2]] d'"
  using data_write_one_chunk [of "[]" "[9]" "[]" "\<lparr>dw_writer = \<lparr>sink_of = Sink [9] None [Take 1, Take 2]\<rparr>,
      dw_hash = HBlake3 [], dw_buffer = [], dw_start = 0, dw_end = 0\<rparr>" "[1, 2]"]
  by (simp add: blob_at_def dw_pending_def writer_at_def open_sink_def calm_data_writer_def calm_writer_def calm_sink_def enc_chunks_def
      MAX_LENGTH_def numeral_2_eq_2)

text \<open>
  C20: Whatever the sink does, \<open>write\<close> does not panic if it returns, and keeps the buffered
  range inside the buffer; but on a sink with no room left, which accepts nothing and reports
  no error, it does not return.
\<close>

theorem data_write_outcomes:
  assumes "dw_safe d" and "buf \<noteq> []"
  shows "(\<forall>r d'. data_write buf d = Some (r, d') \<longrightarrow> r \<noteq> Panic \<and> dw_safe d') \<and>
    (stuck d \<longrightarrow> data_write buf d = None)"
  using data_write_safe [OF _ assms(1), of buf] data_write_stuck [OF _ _ assms(2,1)]
  by (cases "data_write buf d") fastforce+

theorem data_write_outcomes_witness:
  "data_write [7] \<lparr>dw_writer = \<lparr>sink_of = Sink [] (Some 0) []\<rparr>, dw_hash = HBlake3 [],
      dw_buffer = [], dw_start = 0, dw_end = 0\<rparr> = None"
  using data_write_outcomes [of "\<lparr>dw_writer = \<lparr>sink_of = Sink [] (Some 0) []\<rparr>, dw_hash = HBlake3 [],
      dw_buffer = [], dw_start = 0, dw_end = 0\<rparr>" "[7]"]
  by (simp add: dw_safe_def dw_pending_def stuck_def)

text \<open>
  After an interruption the chunk stays buffered: a \<open>write\<close> with any other buffer then
  finishes the old chunk and reports the length of that, which may exceed the new buffer;
  nothing of the new buffer has been written or hashed.
\<close>

theorem data_write_other_buffer:
  assumes "chunk_at pre base cs c d" and "calm_data_writer d" and "other \<noteq> []"
  shows "\<exists>d'. data_write other d = Some (Ok (length c), d') \<and> blob_at pre base (cs @ [c]) d'"
  using data_write_chunk [OF assms(1,3)] data_write_calm [OF _ assms(2), of other] by auto

theorem data_write_other_buffer_witness:
  "\<exists>d d' d2. data_write [1, 2, 3] d = Some (Err Interrupted, d') \<and>
    data_write [9] d' = Some (Ok 3, d2) \<and> blob_at [] [] [[1, 2, 3]] d2"
proof -
  let ?s = "\<lambda>ws bs. \<lparr>sink_of = Sink bs None ws\<rparr>"
  let ?d = "\<lparr>dw_writer = ?s [WFail Interrupted] [], dw_hash = HBlake3 [], dw_buffer = [], dw_start = 0, dw_end = 0\<rparr>"
  let ?c = "\<lambda>ws. \<lparr>dw_writer = ?s ws [], dw_hash = HBlake3 [1, 2, 3], dw_buffer = [0, 3, 1, 2, 3],
    dw_start = 0, dw_end = 5\<rparr>"
  let ?d' = "?c []"
  have three: "u16_to_be_bytes 3 = [0, 3]"
    by (simp add: u16_to_be_bytes_def be_bytes_2 byte_of_nat_def)
  have "start_chunk [1, 2, 3] ?d = ?c [WFail Interrupted]"
    by (simp add: start_chunk_def MAX_LENGTH_def three)
  then have "data_write [1, 2, 3] ?d = Some (Err Interrupted, ?d')"
    by (simp add: data_write.simps [of _ ?d] data_write.simps [of _ "?c [WFail Interrupted]"]
        dw_pending_def flush_step_def slice_of_def on_writer_def on_sink_def)
  moreover have "chunk_at [] [] [] [1, 2, 3] ?d'"
    by (simp add: chunk_at_def dw_pending_def chunk_valid_def MAX_LENGTH_def enc_string_def three
        writer_at_def open_sink_def enc_chunks_def)
  from data_write_other_buffer [OF this, of "[9]"]
  have "\<exists>d2. data_write [9] ?d' = Some (Ok 3, d2) \<and> blob_at [] [] [[1, 2, 3]] d2"
    by (simp add: calm_data_writer_def calm_writer_def calm_sink_def eval_nat_numeral)
  ultimately show ?thesis by blast
qed

text \<open>
  A path longer than the format can hold is refused, but the tag of the entry, and of a
  link whose target is too long the path and type as well, have been written by then: what
  follows in the archive is no longer what a reader expects.
\<close>

theorem write_entry_refused:
  assumes "writer_at w a" and "MAX_LENGTH < length (path e) \<or>
      length (path e) \<le> MAX_LENGTH \<and> (\<exists>dest flags. target e = TLink dest flags \<and> MAX_LENGTH < length dest)"
  shows "\<exists>w' partial. write_entry e w = (Err InvalidInput, w') \<and> partial \<noteq> [] \<and> writer_at w' (a @ partial)"
  using assms(2)
proof
  assume "MAX_LENGTH < length (path e)"
  from write_entry_long [OF assms(1) this] show ?thesis by blast
next
  assume "length (path e) \<le> MAX_LENGTH \<and> (\<exists>dest flags. target e = TLink dest flags \<and> MAX_LENGTH < length dest)"
  then obtain dest flags where "length (path e) \<le> MAX_LENGTH" "target e = TLink dest flags" "MAX_LENGTH < length dest"
    by blast
  from write_entry_long_link [OF assms(1) this] show ?thesis
    by (metis append_is_Nil_conv not_Cons_self2)
qed

theorem write_entry_refused_witness:
  "\<exists>w' partial. write_entry (entry_directory (replicate 65536 0)) \<lparr>sink_of = Sink [] None []\<rparr> = (Err InvalidInput, w') \<and>
    partial \<noteq> [] \<and> writer_at w' partial"
proof -
  have "writer_at \<lparr>sink_of = Sink [] None []\<rparr> []" by (simp add: writer_at_def open_sink_def)
  from write_entry_refused [OF this, of "entry_directory (replicate 65536 0)"] show ?thesis
    by (simp add: entry_directory_def entry_new_def MAX_LENGTH_def)
qed

end
