(* ===== verification/Archive_Client.thy ===== *)
theory Archive_Client
  imports Archive_Types Io_Contracts
begin

text \<open>
  The clients of the archive crate, over the operations of a writer and of a reader: a whole
  archive is written part by part, and read event by event until there is none. What they
  rely on are the contracts \<open>archive_writer\<close> and \<open>archive_reader\<close>; the blocking and the
  asynchronous operations are shown to satisfy them in the theories that follow.
\<close>

section \<open>Clients\<close>

datatype part = PEntry entry | PData bytes

datatype content = CEntry entry | CData bytes "supported_hash option"

type_synonym 'w blob_call = "bytes \<Rightarrow> 'w \<Rightarrow> ((error_kind, 'w \<times> supported_hash) res) option"

fun write_parts ::
    "(entry \<Rightarrow> ('w, unit) io) \<Rightarrow> 'w blob_call \<Rightarrow> part list \<Rightarrow> 'w \<Rightarrow> ((error_kind, 'w) res) option" where
  "write_parts we wb [] w = Some (Ok w)"
| "write_parts we wb (PEntry e # ps) w =
     (case we e w of
        (Ok _, w') \<Rightarrow> write_parts we wb ps w'
      | (Err e, _) \<Rightarrow> Some (Err e)
      | (Panic, _) \<Rightarrow> Some Panic)"
| "write_parts we wb (PData bs # ps) w =
     (case wb bs w of
        None \<Rightarrow> None
      | Some (Ok (w', _)) \<Rightarrow> write_parts we wb ps w'
      | Some (Err e) \<Rightarrow> Some (Err e)
      | Some Panic \<Rightarrow> Some Panic)"

text \<open>Reading a blob returns its content and the hash that followed it.\<close>

type_synonym 'r content_call = "'r \<Rightarrow> ((error_kind, bytes \<times> supported_hash option) res \<times> 'r) option"

partial_function (option) read_events ::
    "('r, read_event) io \<Rightarrow> 'r content_call \<Rightarrow> content list \<Rightarrow> 'r \<Rightarrow>
       ((error_kind, content list) res \<times> 'r) option" where
  "read_events next_ev blob acc r =
     (case next_ev r of
        (Err e, r') \<Rightarrow> Some (Err e, r')
      | (Panic, r') \<Rightarrow> Some (Panic, r')
      | (Ok EvNone, r') \<Rightarrow> Some (Ok acc, r')
      | (Ok (EvEntry e), r') \<Rightarrow> read_events next_ev blob (acc @ [CEntry e]) r'
      | (Ok EvData, r') \<Rightarrow>
          (case blob r' of
             None \<Rightarrow> None
           | Some (Err e, r2) \<Rightarrow> Some (Err e, r2)
           | Some (Panic, r2) \<Rightarrow> Some (Panic, r2)
           | Some (Ok (bs, h), r2) \<Rightarrow> read_events next_ev blob (acc @ [CData bs h]) r2))"

section \<open>The bytes of an archive\<close>

text \<open>
  How a data writer cuts a blob into chunks depends on the buffers it is given, so a part
  has several encodings.
\<close>

fun part_valid :: "part \<Rightarrow> bool" where
  "part_valid (PEntry e) = entry_valid e"
| "part_valid (PData bs) = True"

fun encodes :: "digest \<Rightarrow> part \<Rightarrow> bytes \<Rightarrow> bool" where
  "encodes b3 (PEntry e) x \<longleftrightarrow> entry_valid e \<and> x = enc_entry e"
| "encodes b3 (PData bs) x \<longleftrightarrow>
     (\<exists>cs. (\<forall>c \<in> set cs. chunk_valid c) \<and> concat cs = bs \<and> x = enc_blob cs (Blake3 (b3 bs)))"

fun read_back :: "digest \<Rightarrow> part \<Rightarrow> content" where
  "read_back b3 (PEntry e) = CEntry e"
| "read_back b3 (PData bs) = CData bs (Some (Blake3 (b3 bs)))"

lemma blake3_hash_valid: "blake3_documented b3 \<Longrightarrow> hash_valid (Blake3 (b3 bs))"
  by (simp add: hash_valid_def blake3_documented_def)

section \<open>The contract of a writer\<close>

text \<open>\<open>wrote w a\<close>: the writer can go on, and \<open>a\<close> has been written.\<close>

locale archive_writer =
  fixes we :: "entry \<Rightarrow> ('w, unit) io" and wb :: "'w blob_call" and wrote :: "'w \<Rightarrow> bytes \<Rightarrow> bool"
    and b3 :: digest
  assumes entry_law: "wrote w a \<Longrightarrow> entry_valid e \<Longrightarrow> succeeds (we e) (\<lambda>_ w'. wrote w' (a @ enc_entry e)) w"
    and blob_law: "wrote w a \<Longrightarrow> \<exists>w' x. wb bs w = Some (Ok (w', Blake3 (b3 bs))) \<and>
      encodes b3 (PData bs) x \<and> wrote w' (a @ x)"
begin

lemma write_parts_law:
  "wrote w a \<Longrightarrow> \<forall>p \<in> set ps. part_valid p \<Longrightarrow>
     \<exists>w' xs. write_parts we wb ps w = Some (Ok w') \<and> list_all2 (encodes b3) ps xs \<and> wrote w' (a @ concat xs)"
proof (induction ps arbitrary: w a)
  case Nil
  then show ?case by auto
next
  case (Cons p ps)
  show ?case
  proof (cases p)
    case (PEntry e)
    with Cons.prems have e: "entry_valid e" by simp
    from entry_law [OF Cons.prems(1) e] obtain w1 where
      w1: "we e w = (Ok (), w1)" "wrote w1 (a @ enc_entry e)" by (auto simp: succeeds_def)
    from Cons.IH [OF w1(2)] Cons.prems(2) obtain w' xs where
      "write_parts we wb ps w1 = Some (Ok w')" "list_all2 (encodes b3) ps xs"
      "wrote w' (a @ concat (enc_entry e # xs))" by auto
    with w1(1) e PEntry show ?thesis by (intro exI [of _ w'] exI [of _ "enc_entry e # xs"]) auto
  next
    case (PData bs)
    from blob_law [OF Cons.prems(1), of bs] obtain w1 x where
      w1: "wb bs w = Some (Ok (w1, Blake3 (b3 bs)))" "encodes b3 (PData bs) x" "wrote w1 (a @ x)" by blast
    from Cons.IH [OF w1(3)] Cons.prems(2) obtain w' xs where
      "write_parts we wb ps w1 = Some (Ok w')" "list_all2 (encodes b3) ps xs"
      "wrote w' (a @ concat (x # xs))" by auto
    with w1(1,2) PData show ?thesis by (intro exI [of _ w'] exI [of _ "x # xs"]) auto
  qed
qed

end

section \<open>The contract of a reader\<close>

text \<open>\<open>left r bs\<close>: the reader is past the header, and \<open>bs\<close> is what its source will deliver.\<close>

locale archive_reader =
  fixes nx :: "('r, read_event) io" and blob :: "'r content_call" and left :: "'r \<Rightarrow> bytes \<Rightarrow> bool"
  assumes end_law: "left r [] \<Longrightarrow> succeeds nx (\<lambda>ev r'. ev = EvNone \<and> left r' []) r"
    and entry_law: "left r (enc_entry e @ rest) \<Longrightarrow> entry_valid e \<Longrightarrow>
      succeeds nx (\<lambda>ev r'. ev = EvEntry e \<and> left r' rest) r"
    and blob_law: "left r (enc_blob cs h @ rest) \<Longrightarrow> hash_valid h \<Longrightarrow> \<forall>c \<in> set cs. chunk_valid c \<Longrightarrow>
      \<exists>r1 r2. nx r = (Ok EvData, r1) \<and> blob r1 = Some (Ok (concat cs, Some h), r2) \<and> left r2 rest"
begin

lemma read_events_law:
  assumes "blake3_documented b3"
  shows "list_all2 (encodes b3) ps xs \<Longrightarrow> left r (concat xs) \<Longrightarrow>
    \<exists>r'. read_events nx blob acc r = Some (Ok (acc @ map (read_back b3) ps), r') \<and> left r' []"
proof (induction ps xs arbitrary: r acc rule: list_all2_induct)
  case Nil
  then have "left r []" by simp
  from end_law [OF this] show ?case
    by (auto simp: succeeds_def read_events.simps [of nx blob acc r])
next
  case (Cons p ps x xs)
  show ?case
  proof (cases p)
    case (PEntry e)
    with Cons have e: "entry_valid e" and "left r (enc_entry e @ concat xs)" by auto
    from entry_law [OF this(2) e] obtain r1 where
      "nx r = (Ok (EvEntry e), r1)" "left r1 (concat xs)" by (auto simp: succeeds_def)
    with Cons.IH [OF this(2), of "acc @ [CEntry e]"] PEntry show ?thesis
      by (simp add: read_events.simps [of nx blob acc r])
  next
    case (PData bs)
    with Cons obtain cs where cs: "\<forall>c \<in> set cs. chunk_valid c" "concat cs = bs"
      and "left r (enc_blob cs (Blake3 (b3 bs)) @ concat xs)" by auto
    from blob_law [OF this(3) blake3_hash_valid [OF assms] cs(1)] obtain r1 r2 where
      r1: "nx r = (Ok EvData, r1)" "blob r1 = Some (Ok (bs, Some (Blake3 (b3 bs))), r2)" "left r2 (concat xs)"
      by (auto simp: cs(2))
    with Cons.IH [OF r1(3), of "acc @ [CData bs (Some (Blake3 (b3 bs)))]"] PData show ?thesis
      by (simp add: read_events.simps [of nx blob acc r])
  qed
qed

end

lemma read_events_start: "nx r = nx r' \<Longrightarrow> read_events nx blob acc r = read_events nx blob acc r'"
  by (subst (1 2) read_events.simps) simp

end
