(* ===== verification/Bytes_Ext.thy ===== *)
theory Bytes_Ext
  imports Rust_Io
begin

text \<open>
  \<open>crates/io/src/bytes_ext.rs\<close>: extending a \<open>BytesMut\<close> from a reader. The state of a call
  is the buffer's contents and the reader. Capacity is not modelled (reserving memory is not
  observable in the contents); what is modelled is which bytes the buffer holds and which the
  reader has lost after each outcome.

  \<open>extend_from_reader\<close> is all or nothing on the buffer, \<open>extend_from_reader_async\<close> keeps a
  partial read at the end of the input, and \<open>poll_extend_from_reader\<close> reads once only: it can
  return \<open>Ok\<close> with the buffer shorter than asked, and turns every error into \<open>UnexpectedEof\<close>.
\<close>

definition extend_from_reader :: "nat \<Rightarrow> (bytes \<times> source, unit) io" where
  "extend_from_reader total_length = (\<lambda>(buf, reader).
     let len = total_length - length buf in
     if len = 0 then (Ok (), (buf, reader))
     else case read_exact len reader of
       (Ok bs, reader') \<Rightarrow> (Ok (), (buf @ bs, reader'))
     | (Err e, reader') \<Rightarrow> (Err e, (buf, reader'))
     | (Panic, reader') \<Rightarrow> (Panic, (buf, reader')))"

text \<open>The loop of the asynchronous version: fill the spare bytes until the end of the input.\<close>

function fill_spare :: "nat \<Rightarrow> (source, bytes) io" where
  "fill_spare spare s =
     (if spare = 0 then (Ok [], s)
      else case src_read spare s of
        (Ok bs, s') \<Rightarrow>
          if bs = [] then (Ok [], s')
          else io_bind (fill_spare (spare - length bs)) (\<lambda>cs. io_return (bs @ cs)) s'
      | (Err e, s') \<Rightarrow> (Err e, s')
      | (Panic, s') \<Rightarrow> (Panic, s'))"
  by pat_completeness auto
termination
proof (relation "measure fst", goal_cases)
  case 1
  then show ?case by simp
next
  case (2 n s r s' bs)
  then show ?case using src_read_Ok [of n s bs s'] by (cases bs) auto
qed

declare fill_spare.simps [simp del]

definition extend_from_reader_async :: "nat \<Rightarrow> (bytes \<times> source, unit) io" where
  "extend_from_reader_async len = (\<lambda>(buf, reader).
     let remaining = len - length buf in
     if remaining = 0 then (Ok (), (buf, reader))
     else case fill_spare remaining reader of
       (Ok bs, reader') \<Rightarrow>
         let spare_len = remaining - length bs in
         (if spare_len = 0 then Ok () else Err UnexpectedEof, (buf @ bs, reader'))
     | (Err e, reader') \<Rightarrow> (Err e, (buf, reader'))
     | (Panic, reader') \<Rightarrow> (Panic, (buf, reader')))"

definition poll_extend_from_reader ::
    "nat \<Rightarrow> bytes \<times> source \<Rightarrow> (error_kind, unit) res poll \<times> (bytes \<times> source)" where
  "poll_extend_from_reader len = (\<lambda>(buf, reader).
     let remaining = len - length buf in
     if remaining = 0 then (Ready (Ok ()), (buf, reader))
     else case src_poll_read remaining reader of
       (Pending, reader') \<Rightarrow> (Pending, (buf, reader'))
     | (Ready (Ok bs), reader') \<Rightarrow>
         if length bs = 0 then (Ready (Err UnexpectedEof), (buf, reader'))
         else (Ready (Ok ()), (buf @ bs, reader'))
     | (Ready (Err e), reader') \<Rightarrow> (Ready (Err UnexpectedEof), (buf, reader'))
     | (Ready Panic, reader') \<Rightarrow> (Ready Panic, (buf, reader')))"

section \<open>The blocking version\<close>

lemma extend_from_reader_full:
  "total_length \<le> length buf \<Longrightarrow> extend_from_reader total_length (buf, s) = (Ok (), (buf, s))"
  by (simp add: extend_from_reader_def)

lemma extend_from_reader_Ok:
  "extend_from_reader total_length (buf, s) = (Ok (), (buf', s')) \<Longrightarrow>
     \<exists>bs. buf' = buf @ bs \<and> avail s = bs @ avail s' \<and> length buf' = max total_length (length buf)"
  by (auto simp: extend_from_reader_def Let_def dest!: read_exact_Ok
      split: if_splits prod.splits res.splits)

lemma extend_from_reader_Err:
  "extend_from_reader total_length (buf, s) = (Err e, (buf', s')) \<Longrightarrow> buf' = buf"
  by (auto simp: extend_from_reader_def Let_def split: if_splits prod.splits res.splits)

lemma extend_from_reader_no_panic [np]: "no_panic (extend_from_reader total_length) b"
  using read_exact_no_panic [of "total_length - length (fst b)" "snd b"]
  by (cases b) (auto simp: no_panic_def extend_from_reader_def Let_def split: prod.splits res.splits)

lemma extend_from_reader_faults: "faults (snd (snd (extend_from_reader total_length (buf, s)))) \<subseteq> faults s"
  using read_exact_faults [of "total_length - length buf" s]
  by (auto simp: extend_from_reader_def Let_def split: prod.splits res.splits)

lemma extend_from_reader_script:
  "set (script (snd (snd (extend_from_reader total_length (buf, s))))) \<subseteq> set (script s)"
  using read_exact_script [of "total_length - length buf" s]
  by (auto simp: extend_from_reader_def Let_def split: prod.splits res.splits)

lemma extend_from_reader_quiet:
  assumes "quiet s" and "total_length - length buf \<le> length (avail s)"
  shows "succeeds (extend_from_reader total_length) (\<lambda>_ (buf', s').
    buf' = buf @ take (total_length - length buf) (avail s) \<and> avail s' = drop (total_length - length buf) (avail s) \<and>
    faults s' \<subseteq> faults s) (buf, s)"
proof (cases "total_length - length buf = 0")
  case True
  then show ?thesis by (simp add: succeeds_def extend_from_reader_def)
next
  case False
  from read_exact_quiet [OF assms] show ?thesis
    by (rule succeedsE) (use False in \<open>simp add: succeeds_def extend_from_reader_def\<close>)
qed

section \<open>The asynchronous version agrees with it\<close>

lemma fill_spare_read_exact:
  "Interrupted \<notin> faults s \<Longrightarrow>
     (case read_exact n s of
        (Ok bs, t) \<Rightarrow> fill_spare n s = (Ok bs, t)
      | (Err e, t) \<Rightarrow> fill_spare n s = (Err e, t) \<or>
          e = UnexpectedEof \<and> (\<exists>bs. fill_spare n s = (Ok bs, t) \<and> length bs < n)
      | (Panic, t) \<Rightarrow> True)"
proof (induction n s rule: read_exact_induct)
  case (eof n s t)
  then show ?case by (simp add: read_exact_eof fill_spare.simps [of n s])
next
  case (got n s cs t)
  then have u: "read_exact n s = io_bind (read_exact (n - length cs)) (\<lambda>ds. io_return (cs @ ds)) t"
    "fill_spare n s = io_bind (fill_spare (n - length cs)) (\<lambda>ds. io_return (cs @ ds)) t"
    by (auto simp: read_exact_got fill_spare.simps [of n s])
  from got have "Interrupted \<notin> faults t" by auto
  from got.IH [OF this] got.hyps show ?case
    unfolding u by (cases "read_exact (n - length cs) t"; cases "fst (read_exact (n - length cs) t)") auto
next
  case (fail n s e t)
  then show ?case by (auto simp: read_exact_err fill_spare.simps [of n s])
qed (auto simp: fill_spare.simps)

text \<open>
  The two agree on the result and on what the reader has left; at a premature end of the
  input only the asynchronous one keeps the bytes it got.
\<close>

lemma extend_async_eq:
  assumes "Interrupted \<notin> faults s"
  shows "\<exists>kept. extend_from_reader_async n (buf, s) =
    (case extend_from_reader n (buf, s) of (x, (buf', s')) \<Rightarrow> (x, (buf' @ kept, s'))) \<and>
    (fst (extend_from_reader n (buf, s)) = Err UnexpectedEof \<or> kept = [])"
proof (cases "n - length buf = 0")
  case True
  then show ?thesis by (simp add: extend_from_reader_def extend_from_reader_async_def)
next
  case False
  obtain x t where x: "read_exact (n - length buf) s = (x, t)" by fastforce
  note spec = fill_spare_read_exact [OF assms, of "n - length buf", unfolded x]
  show ?thesis
  proof (cases x)
    case (Ok bs)
    with x have "length bs = n - length buf" by (simp add: read_exact_Ok)
    with spec x Ok False show ?thesis
      by (simp add: extend_from_reader_def extend_from_reader_async_def)
  next
    case (Err e)
    with spec consider "fill_spare (n - length buf) s = (Err e, t)"
      | bs where "e = UnexpectedEof" "fill_spare (n - length buf) s = (Ok bs, t)" "length bs < n - length buf"
      by auto
    then show ?thesis
      using x Err False by cases (auto simp: extend_from_reader_def extend_from_reader_async_def Let_def)
  next
    case Panic
    with x read_exact_no_panic [of "n - length buf" s] show ?thesis by (simp add: no_panic_def)
  qed
qed

section \<open>What the callers are promised\<close>

text \<open>
  On a reader whose only failures are interruptions, the blocking version extends the
  buffer to exactly the length asked for, with the next bytes of the reader; if there are not
  enough, it fails with \<open>UnexpectedEof\<close> and leaves the buffer as it was.
\<close>

theorem extend_from_reader_total:
  assumes "quiet s" and "length buf < total_length"
  shows "if total_length - length buf \<le> length (avail s)
    then \<exists>s'. extend_from_reader total_length (buf, s) =
        (Ok (), (buf @ take (total_length - length buf) (avail s), s')) \<and>
      avail s' = drop (total_length - length buf) (avail s)
    else \<exists>s'. extend_from_reader total_length (buf, s) = (Err UnexpectedEof, (buf, s'))"
  using extend_from_reader_quiet [OF assms(1), of total_length buf]
    read_exact_short [OF assms(1), of "total_length - length buf"] assms(2)
  by (auto simp: succeeds_def extend_from_reader_def)

theorem extend_from_reader_total_witness:
  "\<exists>s'. extend_from_reader 4 ([1], Source [2, 3, 4, 5] [Give 0, RFail Interrupted]) = (Ok (), ([1, 2, 3, 4], s')) \<and>
    avail s' = [5]"
  using extend_from_reader_total [of "Source [2, 3, 4, 5] [Give 0, RFail Interrupted]" "[1]" 4]
  by (auto simp: quiet_def)

text \<open>
  The polled version reports success as soon as one poll of the reader has delivered a
  byte, however far the buffer is from the length asked for, and turns any error of the reader
  into \<open>UnexpectedEof\<close>.
\<close>

theorem poll_extend_partial:
  assumes "length buf < len" and "src_poll_read (len - length buf) s = (Ready x, s')"
  shows "poll_extend_from_reader len (buf, s) =
    (case x of
       Ok bs \<Rightarrow> if bs = [] then (Ready (Err UnexpectedEof), (buf, s')) else (Ready (Ok ()), (buf @ bs, s'))
     | Err e \<Rightarrow> (Ready (Err UnexpectedEof), (buf, s'))
     | Panic \<Rightarrow> (Ready Panic, (buf, s')))"
  using assms by (cases x) (auto simp: poll_extend_from_reader_def)

theorem poll_extend_partial_witness:
  "poll_extend_from_reader 33 ([], Source [1, 2, 3] [Give 0]) = (Ready (Ok ()), ([1], Source [2, 3] []))"
  using poll_extend_partial [of "[]" 33 "Source [1, 2, 3] [Give 0]" "Ok [1]" "Source [2, 3] []"] by simp

end
