(* ===== verification/Archive_Read.thy ===== *)
theory Archive_Read
  imports Archive_Client Bytes_Ext
begin

text \<open>
  \<open>crates/archive/src/read.rs\<close>, the blocking \<open>Reader\<close>. A \<open>Reader\<close> is its underlying source
  and two flags: whether the format has been found invalid (then every later call fails)
  and whether the header has been read. The lemmas: what each operation does on a source
  that starts with the encoding it expects, that no input makes it panic, and that what
  it returns was encoded in the input.
\<close>

section \<open>Reader\<close>

record reader =
  source :: source
  valid :: bool
  got_header :: bool

fun read_event_is_some :: "read_event \<Rightarrow> bool" where
  "read_event_is_some EvNone = False"
| "read_event_is_some _ = True"

definition read_event_is_none :: "read_event \<Rightarrow> bool" where
  "read_event_is_none e = (\<not> read_event_is_some e)"

definition reader_new :: "source \<Rightarrow> reader" where
  "reader_new src = \<lparr>source = src, valid = True, got_header = False\<rparr>"

definition reader_into_inner :: "reader \<Rightarrow> source" where
  "reader_into_inner r = source r"

text \<open>\<open>invalidate\<close> returns an error, never a value.\<close>

definition invalidate :: "(reader, 'a) io" where
  "invalidate r = (Err InvalidData, r\<lparr>valid := False\<rparr>)"

text \<open>
  \<open>with_reader m\<close> is \<open>m\<close> applied to \<open>self.reader()?\<close>; \<open>extend_cleared len\<close> is
  \<open>buf.clear(); buf.extend_from_reader(self.reader().unwrap(), len)?\<close>, and returns the
  buffer.
\<close>

definition with_reader :: "(source, 'a) io \<Rightarrow> (reader, 'a) io" where
  "with_reader m r =
     (if valid r then (case m (source r) of (x, s) \<Rightarrow> (x, r\<lparr>source := s\<rparr>)) else (Err InvalidData, r))"

definition extend_cleared :: "nat \<Rightarrow> (reader, bytes) io" where
  "extend_cleared len r =
     (if valid r then
        (case extend_from_reader len ([], source r) of
           (Ok _, (buf, s)) \<Rightarrow> (Ok buf, r\<lparr>source := s\<rparr>)
         | (Err e, (buf, s)) \<Rightarrow> (Err e, r\<lparr>source := s\<rparr>)
         | (Panic, (buf, s)) \<Rightarrow> (Panic, r\<lparr>source := s\<rparr>))
      else (Panic, r))"

definition read_u16 :: "(reader, 16 word) io" where
  "read_u16 = io_bind (with_reader (read_exact 2)) (\<lambda>buf. io_return (u16_from_be_bytes buf))"

definition read_length_prefixed :: "(reader, bytes) io" where
  "read_length_prefixed = io_bind read_u16 (\<lambda>len. extend_cleared (unat len))"

definition read_os_string :: "(reader, bytes) io" where
  "read_os_string = read_length_prefixed"

definition read_required_type :: "(reader, byte) io" where
  "read_required_type = io_bind (with_reader (read_exact 1)) (\<lambda>id_buf. io_res (index_of 0 id_buf))"

definition read_type :: "(reader, byte option) io" where
  "read_type =
     io_bind (with_reader (src_read 1)) (\<lambda>id_buf.
       if id_buf = [] then io_return None
       else io_bind (io_res (index_of 0 id_buf)) (\<lambda>t. io_return (Some t)))"

definition read_hash :: "(reader, supported_hash) io" where
  "read_hash =
     io_bind read_required_type (\<lambda>id.
       case hash_length id of
         Ok len \<Rightarrow>
           io_bind (extend_cleared len) (\<lambda>buf.
           io_bind (io_res (slice_of 0 len buf)) (\<lambda>data. io_res (create_hash id data)))
       | Err _ \<Rightarrow> invalidate
       | Panic \<Rightarrow> io_res Panic)"

definition read_entry :: "(reader, read_event) io" where
  "read_entry =
     io_bind read_os_string (\<lambda>path.
     io_bind read_required_type (\<lambda>t.
       if t = TYPE_DATA then
         io_bind read_hash (\<lambda>hash.
         io_bind read_u16 (\<lambda>flags.
         io_return (EvEntry (entry_data path hash (Some (from_bits_truncate flags))))))
       else if t = TYPE_LINK then
         io_bind read_os_string (\<lambda>source.
         io_bind read_u16 (\<lambda>flags.
         io_return (EvEntry (entry_link path source (Some (from_bits_truncate flags))))))
       else if t = TYPE_DIR then io_return (EvEntry (entry_directory path))
       else invalidate))"

definition read_header :: "(reader, unit) io" where
  "read_header r =
     (if \<not> got_header r then
        io_bind (with_reader (read_exact 5)) (\<lambda>header.
          io_then (if header \<noteq> NCK00 then invalidate else io_return ())
            (io_modify (\<lambda>r. r\<lparr>got_header := True\<rparr>))) r
      else (Ok (), r))"

definition next_event :: "(reader, read_event) io" where
  "next_event =
     io_then read_header
     (io_bind read_type (\<lambda>t.
       case t of
         Some ty \<Rightarrow>
           if ty = ENTRY_DATA then io_return EvData
           else if ty = ENTRY_ENTRY then read_entry
           else invalidate
       | None \<Rightarrow> io_return EvNone))"

section \<open>Reading what is there\<close>

text \<open>
  \<open>reader_at hdr r bs\<close>: the reader is valid, its source will fail no call and has \<open>bs\<close> left,
  and \<open>hdr\<close> says whether the header has been read.
\<close>

definition reader_at :: "bool \<Rightarrow> reader \<Rightarrow> bytes \<Rightarrow> bool" where
  "reader_at hdr r bs \<longleftrightarrow>
     valid r \<and> steady (source r) \<and> avail (source r) = bs \<and> got_header r = hdr"

lemma steady_quiet: "steady s \<Longrightarrow> quiet s"
  by (simp add: steady_def quiet_def)

lemma read_exact_at:
  assumes "reader_at hdr r (bs @ rest)" and "length bs = n"
  shows "succeeds (with_reader (read_exact n)) (\<lambda>x r'. x = bs \<and> reader_at hdr r' rest) r"
proof -
  from assms have "quiet (source r)" "n \<le> length (avail (source r))"
    by (auto simp: reader_at_def steady_quiet)
  from read_exact_quiet [OF this] show ?thesis
    by (rule succeedsE) (use assms in \<open>auto simp: succeeds_def with_reader_def reader_at_def steady_def\<close>)
qed

lemma extend_cleared_at:
  assumes "reader_at hdr r (bs @ rest)" and "length bs = n"
  shows "succeeds (extend_cleared n) (\<lambda>x r'. x = bs \<and> reader_at hdr r' rest) r"
proof -
  from assms have "quiet (source r)" "n - length ([] :: bytes) \<le> length (avail (source r))"
    by (auto simp: reader_at_def steady_quiet)
  from extend_from_reader_quiet [OF this] obtain s' where
    "extend_from_reader n ([], source r) = (Ok (), (take n (avail (source r)), s'))"
    "avail s' = drop n (avail (source r))" "faults s' \<subseteq> faults (source r)"
    by (auto simp: succeeds_def)
  with assms show ?thesis
    by (simp add: succeeds_def extend_cleared_def reader_at_def steady_def)
qed

lemma read_u16_at:
  "reader_at hdr r (u16_to_be_bytes w @ rest) \<Longrightarrow>
     succeeds read_u16 (\<lambda>x r'. x = w \<and> reader_at hdr r' rest) r"
  unfolding read_u16_def by (rule succeeds_bindI, rule read_exact_at) auto

lemma read_length_prefixed_at:
  "reader_at hdr r (enc_string s @ rest) \<Longrightarrow> length s \<le> MAX_LENGTH \<Longrightarrow>
     succeeds read_length_prefixed (\<lambda>x r'. x = s \<and> reader_at hdr r' rest) r"
  unfolding read_length_prefixed_def enc_string_def
  by (rule succeeds_bindI, rule read_u16_at, simp)
    (auto simp: unat_length_u16 intro!: extend_cleared_at)

lemma read_required_type_at:
  "reader_at hdr r (t # rest) \<Longrightarrow>
     succeeds read_required_type (\<lambda>x r'. x = t \<and> reader_at hdr r' rest) r"
  unfolding read_required_type_def
  by (rule succeeds_bindI, rule read_exact_at [of _ _ "[t]"]) (auto simp: index_of_def)

lemma read_type_at:
  assumes "reader_at hdr r (t # rest)"
  shows "succeeds read_type (\<lambda>x r'. x = Some t \<and> reader_at hdr r' rest) r"
proof -
  from assms have "steady (source r)" by (simp add: reader_at_def)
  from src_read_steady [OF this, of 1] obtain bs s' where
    "src_read 1 (source r) = (Ok bs, s')" "avail (source r) = bs @ avail s'" "length bs \<le> 1"
    "bs = [] \<longrightarrow> avail (source r) = []" "steady s'"
    by (auto simp: succeeds_def)
  moreover from this assms have "bs = [t] \<and> avail s' = rest"
    by (cases bs) (auto simp: reader_at_def)
  ultimately show ?thesis
    using assms by (auto simp: succeeds_def read_type_def with_reader_def reader_at_def io_bind_def index_of_def)
qed

lemma read_type_end:
  assumes "reader_at hdr r []"
  shows "succeeds read_type (\<lambda>x r'. x = None \<and> reader_at hdr r' []) r"
proof -
  from assms have "steady (source r)" by (simp add: reader_at_def)
  from src_read_steady [OF this, of 1] show ?thesis
    by (rule succeedsE) (use assms in \<open>auto simp: succeeds_def read_type_def with_reader_def reader_at_def io_bind_def\<close>)
qed

lemma read_hash_at:
  assumes "reader_at hdr r (enc_hash h @ rest)" and "hash_valid h"
  shows "succeeds read_hash (\<lambda>x r'. x = h \<and> reader_at hdr r' rest) r"
proof -
  obtain bs where h: "h = Blake3 bs" "length bs = 32"
    using assms(2) by (cases h) (simp add: hash_valid_def)
  have "reader_at hdr r (1 # bs @ rest)" using assms h by (simp add: enc_hash_def)
  from read_required_type_at [OF this] show ?thesis
    unfolding read_hash_def
    by (rule succeeds_bindI)
      (auto simp: hash_length_def h create_hash_def slice_of_def intro!: succeeds_bindI [OF extend_cleared_at])
qed

lemma read_header_at:
  "reader_at False r (NCK00 @ rest) \<Longrightarrow> succeeds read_header (\<lambda>_ r'. reader_at True r' rest) r"
proof -
  assume r: "reader_at False r (NCK00 @ rest)"
  then have "read_header r = io_bind (with_reader (read_exact 5)) (\<lambda>header.
      io_then (if header \<noteq> NCK00 then invalidate else io_return ())
        (io_modify (\<lambda>r. r\<lparr>got_header := True\<rparr>))) r"
    by (simp add: read_header_def reader_at_def)
  moreover have "succeeds (io_bind (with_reader (read_exact 5)) (\<lambda>header.
      io_then (if header \<noteq> NCK00 then invalidate else io_return ())
        (io_modify (\<lambda>r. r\<lparr>got_header := True\<rparr>)))) (\<lambda>_ r'. reader_at True r' rest) r"
    by (rule succeeds_bindI, rule read_exact_at [OF r])
      (auto simp: NCK00_def succeeds_def reader_at_def)
  ultimately show ?thesis by (simp add: succeeds_def)
qed

lemma read_header_done: "reader_at True r bs \<Longrightarrow> succeeds read_header (\<lambda>_ r'. reader_at True r' bs) r"
  by (simp add: succeeds_def read_header_def reader_at_def)

lemma read_entry_at:
  assumes "reader_at hdr r (enc_string (path e) @ enc_target (target e) @ rest)" and "entry_valid e"
  shows "succeeds read_entry (\<lambda>ev r'. ev = EvEntry e \<and> reader_at hdr r' rest) r"
  unfolding read_entry_def
proof (rule succeeds_bindI, rule read_length_prefixed_at [folded read_os_string_def, OF assms(1)])
  show "length (path e) \<le> MAX_LENGTH" using assms(2) by (simp add: entry_valid_def)
next
  fix p r1
  assume p: "p = path e \<and> reader_at hdr r1 (enc_target (target e) @ rest)"
  obtain pp tgt where e: "e = \<lparr>path = pp, target = tgt\<rparr>" by (cases e)
  note defs = TYPE_DATA_def TYPE_LINK_def TYPE_DIR_def entry_data_def entry_link_def
    entry_directory_def entry_new_def entry_valid_def flags_valid_def e
  show "succeeds (io_bind read_required_type (\<lambda>t.
       if t = TYPE_DATA then
         io_bind read_hash (\<lambda>hash.
         io_bind read_u16 (\<lambda>flags.
         io_return (EvEntry (entry_data p hash (Some (from_bits_truncate flags))))))
       else if t = TYPE_LINK then
         io_bind read_os_string (\<lambda>source.
         io_bind read_u16 (\<lambda>flags.
         io_return (EvEntry (entry_link p source (Some (from_bits_truncate flags))))))
       else if t = TYPE_DIR then io_return (EvEntry (entry_directory p))
       else invalidate)) (\<lambda>ev r'. ev = EvEntry e \<and> reader_at hdr r' rest) r1"
  proof (cases tgt)
    case (TData h fl)
    with p e have "reader_at hdr r1 (TYPE_DATA # enc_hash h @ u16_to_be_bytes fl @ rest)" by simp
    from read_required_type_at [OF this] show ?thesis
      by (rule succeeds_bindI)
        (use assms(2) TData p in \<open>auto simp: defs intro!: succeeds_bindI [OF read_hash_at] succeeds_bindI [OF read_u16_at]\<close>)
  next
    case (TLink dest fl)
    with p e have "reader_at hdr r1 (TYPE_LINK # enc_string dest @ u16_to_be_bytes fl @ rest)" by simp
    from read_required_type_at [OF this] show ?thesis
      by (rule succeeds_bindI)
        (use assms(2) TLink p in \<open>auto simp: defs read_os_string_def intro!: succeeds_bindI [OF read_length_prefixed_at] succeeds_bindI [OF read_u16_at]\<close>)
  next
    case TDirectory
    with p e have "reader_at hdr r1 (TYPE_DIR # rest)" by simp
    from read_required_type_at [OF this] show ?thesis
      by (rule succeeds_bindI) (use TDirectory p in \<open>auto simp: defs\<close>)
  qed
qed

lemma next_event_entry:
  assumes "reader_at True r (enc_entry e @ rest)" and "entry_valid e"
  shows "succeeds next_event (\<lambda>ev r'. ev = EvEntry e \<and> reader_at True r' rest) r"
  unfolding next_event_def
  by (rule succeeds_thenI, rule read_header_done [OF assms(1)])
    (use assms(2) in \<open>auto simp: enc_entry_def ENTRY_ENTRY_def ENTRY_DATA_def
      intro!: succeeds_bindI [OF read_type_at] read_entry_at\<close>)

lemma next_event_blob:
  assumes "reader_at True r (enc_blob cs h @ rest)"
  shows "succeeds next_event (\<lambda>ev r'. ev = EvData \<and> reader_at True r' (enc_body cs h @ rest)) r"
  unfolding next_event_def
  by (rule succeeds_thenI, rule read_header_done [OF assms(1)])
    (auto simp: enc_blob_def ENTRY_ENTRY_def ENTRY_DATA_def intro!: succeeds_bindI [OF read_type_at])

lemma next_event_end:
  assumes "reader_at True r []"
  shows "succeeds next_event (\<lambda>ev r'. ev = EvNone \<and> reader_at True r' []) r"
  unfolding next_event_def
  by (rule succeeds_thenI, rule read_header_done [OF assms(1)])
    (auto intro!: succeeds_bindI [OF read_type_end])

text \<open>The header is read by the first event, whatever that is.\<close>

lemma next_event_header:
  assumes "reader_at False r (NCK00 @ rest)"
  obtains r' where "reader_at True r' rest" and "next_event r = next_event r'"
proof -
  from read_header_at [OF assms] obtain r' where r': "read_header r = (Ok (), r')" "reader_at True r' rest"
    by (auto simp: succeeds_def)
  moreover from r'(2) have "read_header r' = (Ok (), r')" by (simp add: read_header_def reader_at_def)
  ultimately show thesis by (intro that [of r']) (simp_all add: next_event_def)
qed

section \<open>No input makes the reader panic\<close>

lemma with_reader_no_panic [np]: "no_panic m (source r) \<Longrightarrow> no_panic (with_reader m) r"
  by (auto simp: no_panic_def with_reader_def split: prod.splits)

lemma invalidate_no_panic [np, simp]: "no_panic invalidate r"
  by (simp add: no_panic_def invalidate_def)

lemma with_reader_Ok:
  assumes "with_reader m r = (Ok x, r')"
  obtains s where "valid r" and "m (source r) = (Ok x, s)" and "r' = r\<lparr>source := s\<rparr>"
  using assms by (auto simp: with_reader_def split: if_splits prod.splits)

lemma read_u16_no_panic [np]: "no_panic read_u16 r"
  unfolding read_u16_def by (intro np)

lemma read_u16_valid: "read_u16 r = (Ok w, r') \<Longrightarrow> valid r'"
  unfolding read_u16_def by (elim io_bind_OkE with_reader_Ok) auto

lemma extend_cleared_no_panic: "valid r \<Longrightarrow> no_panic (extend_cleared n) r"
  using extend_from_reader_no_panic [of n "([], source r)"]
  by (auto simp: no_panic_def extend_cleared_def split: prod.splits res.splits)

lemma extend_cleared_Ok:
  assumes "extend_cleared n r = (Ok buf, r')"
  obtains s where "valid r" and "r' = r\<lparr>source := s\<rparr>" and "length buf = n"
    and "avail (source r) = buf @ avail s"
proof -
  from assms obtain s where "valid r" "r' = r\<lparr>source := s\<rparr>"
    and "extend_from_reader n ([], source r) = (Ok (), (buf, s))"
    by (auto simp: extend_cleared_def split: if_splits prod.splits res.splits)
  with extend_from_reader_Ok [OF this(3)] show thesis by (intro that) auto
qed

lemma read_os_string_no_panic [np]: "no_panic read_os_string r"
  unfolding read_os_string_def read_length_prefixed_def
  by (intro np extend_cleared_no_panic) (rule read_u16_valid)

lemma read_required_type_no_panic [np]: "no_panic read_required_type r"
  unfolding read_required_type_def
proof (intro np)
  fix x s'
  assume "with_reader (read_exact 1) r = (Ok x, s')"
  then have "length x = 1" by (elim with_reader_Ok) (simp add: read_exact_Ok)
  then show "no_panic (io_res (index_of 0 x)) s'" by (simp add: index_of_def)
qed

lemma read_required_type_valid: "read_required_type r = (Ok t, r') \<Longrightarrow> valid r'"
  unfolding read_required_type_def by (elim io_bind_OkE with_reader_Ok) auto

lemma read_hash_no_panic [np]: "no_panic read_hash r"
  unfolding read_hash_def
proof (rule no_panic_bind [OF read_required_type_no_panic])
  fix id r1
  assume "read_required_type r = (Ok id, r1)"
  then have v: "valid r1" by (rule read_required_type_valid)
  have "no_panic (io_bind (extend_cleared 32) (\<lambda>buf.
      io_bind (io_res (slice_of 0 32 buf)) (\<lambda>data. io_res (create_hash 1 data)))) r1"
    by (rule no_panic_bind [OF extend_cleared_no_panic [OF v]])
      (auto simp: slice_of_def create_hash_def elim!: extend_cleared_Ok)
  then show "no_panic (case hash_length id of
         Ok len \<Rightarrow>
           io_bind (extend_cleared len) (\<lambda>buf.
           io_bind (io_res (slice_of 0 len buf)) (\<lambda>data. io_res (create_hash id data)))
       | Err _ \<Rightarrow> invalidate
       | Panic \<Rightarrow> io_res Panic) r1"
    by (cases "id = 1") (auto simp: hash_length_def)
qed

lemma read_entry_no_panic [np]: "no_panic read_entry r"
  unfolding read_entry_def by (auto intro!: np)

lemma read_header_no_panic [np]: "no_panic read_header r"
proof (cases "got_header r")
  case False
  have "no_panic (io_bind (with_reader (read_exact 5)) (\<lambda>header.
      io_then (if header \<noteq> NCK00 then invalidate else io_return ())
        (io_modify (\<lambda>r. r\<lparr>got_header := True\<rparr>)))) r"
    by (auto intro!: np)
  with False show ?thesis by (simp add: no_panic_def read_header_def)
qed (simp add: no_panic_def read_header_def)

lemma read_type_no_panic [np]: "no_panic read_type r"
  unfolding read_type_def by (auto simp: index_of_def intro!: np)

lemma next_event_no_panic [np]: "no_panic next_event r"
  unfolding next_event_def by (auto intro!: np split: option.split)

text \<open>Once invalid, always invalid.\<close>

lemma next_event_invalid: "\<not> valid r \<Longrightarrow> next_event r = (Err InvalidData, r)"
  by (simp add: next_event_def read_header_def read_type_def with_reader_def io_then_def io_bind_def)

section \<open>What is read was there\<close>

lemma read_u16_sound:
  "read_u16 r = (Ok w, r') \<Longrightarrow> avail (source r) = u16_to_be_bytes w @ avail (source r')"
  unfolding read_u16_def
  by (elim io_bind_OkE with_reader_Ok) (auto dest!: read_exact_Ok simp: u16_to_from_be_bytes)

lemma read_os_string_sound:
  assumes "read_os_string r = (Ok s, r')"
  shows "avail (source r) = enc_string s @ avail (source r') \<and> length s \<le> MAX_LENGTH"
proof -
  from assms obtain w r1 where w: "read_u16 r = (Ok w, r1)" and s: "extend_cleared (unat w) r1 = (Ok s, r')"
    unfolding read_os_string_def read_length_prefixed_def by (elim io_bind_OkE)
  from s have "length s = unat w" and "avail (source r1) = s @ avail (source r')"
    by (auto elim!: extend_cleared_Ok)
  with read_u16_sound [OF w] unat_u16_bound [of w] show ?thesis
    by (simp add: enc_string_def MAX_LENGTH_def)
qed

lemma read_required_type_sound:
  "read_required_type r = (Ok t, r') \<Longrightarrow> avail (source r) = t # avail (source r')"
  unfolding read_required_type_def
  by (elim io_bind_OkE with_reader_Ok) (auto dest!: read_exact_Ok simp: index_of_def length_Suc_conv split: if_splits)

lemma read_type_sound:
  "read_type r = (Ok (Some t), r') \<Longrightarrow> avail (source r) = t # avail (source r')"
  unfolding read_type_def
  by (elim io_bind_OkE with_reader_Ok)
    (auto dest!: src_read_Ok simp: index_of_def le_Suc_eq length_Suc_conv split: if_splits)

lemma read_hash_sound:
  assumes "read_hash r = (Ok h, r')"
  shows "avail (source r) = enc_hash h @ avail (source r') \<and> hash_valid h"
proof -
  from assms obtain id r1 where id: "read_required_type r = (Ok id, r1)"
    and rest: "(case hash_length id of
         Ok len \<Rightarrow>
           io_bind (extend_cleared len) (\<lambda>buf.
           io_bind (io_res (slice_of 0 len buf)) (\<lambda>data. io_res (create_hash id data)))
       | Err _ \<Rightarrow> invalidate
       | Panic \<Rightarrow> io_res Panic) r1 = (Ok h, r')"
    unfolding read_hash_def by (elim io_bind_OkE)
  from rest have one: "id = 1" by (auto simp: hash_length_def invalidate_def split: if_splits)
  with rest obtain buf where buf: "extend_cleared 32 r1 = (Ok buf, r')"
    and h: "length buf = 32 \<longrightarrow> h = Blake3 buf"
    by (auto simp: hash_length_def create_hash_def slice_of_def elim!: io_bind_OkE split: if_splits)
  from buf have "avail (source r1) = buf @ avail (source r')" and "length buf = 32"
    by (auto elim!: extend_cleared_Ok)
  with read_required_type_sound [OF id] one h show ?thesis
    by (simp add: enc_hash_def hash_valid_def)
qed

text \<open>An entry as it was on the wire: the flags may have bits that reading drops.\<close>

fun truncate_target :: "entry_target \<Rightarrow> entry_target" where
  "truncate_target (TData h flags) = TData h (from_bits_truncate flags)"
| "truncate_target (TLink dest flags) = TLink dest (from_bits_truncate flags)"
| "truncate_target TDirectory = TDirectory"

lemma read_entry_sound:
  assumes "read_entry r = (Ok ev, r')"
  shows "\<exists>p t. avail (source r) = enc_string p @ enc_target t @ avail (source r') \<and>
    ev = EvEntry \<lparr>path = p, target = truncate_target t\<rparr> \<and> entry_valid \<lparr>path = p, target = truncate_target t\<rparr>"
proof -
  note defs = entry_data_def entry_link_def entry_directory_def entry_new_def entry_valid_def
    flags_valid_def from_bits_truncate_def and.assoc
  from assms obtain p r1 ty r2 where p: "read_os_string r = (Ok p, r1)"
    and ty: "read_required_type r1 = (Ok ty, r2)"
    and k: "(if ty = TYPE_DATA then
         io_bind read_hash (\<lambda>hash.
         io_bind read_u16 (\<lambda>flags.
         io_return (EvEntry (entry_data p hash (Some (from_bits_truncate flags))))))
       else if ty = TYPE_LINK then
         io_bind read_os_string (\<lambda>source.
         io_bind read_u16 (\<lambda>flags.
         io_return (EvEntry (entry_link p source (Some (from_bits_truncate flags))))))
       else if ty = TYPE_DIR then io_return (EvEntry (entry_directory p))
       else invalidate) r2 = (Ok ev, r')"
    unfolding read_entry_def by (elim io_bind_OkE)
  note head = read_os_string_sound [OF p] read_required_type_sound [OF ty]
  consider "ty = TYPE_DATA" | "ty = TYPE_LINK" | "ty = TYPE_DIR"
    using k by (auto simp: invalidate_def split: if_splits)
  then show ?thesis
  proof cases
    case 1
    with k obtain h r3 fl where h: "read_hash r2 = (Ok h, r3)" and fl: "read_u16 r3 = (Ok fl, r')"
      and ev: "ev = EvEntry (entry_data p h (Some (from_bits_truncate fl)))"
      by (auto elim!: io_bind_OkE)
    from head 1 read_hash_sound [OF h] read_u16_sound [OF fl] ev show ?thesis
      by (intro exI [of _ p] exI [of _ "TData h fl"]) (auto simp: defs)
  next
    case 2
    with k obtain d r3 fl where d: "read_os_string r2 = (Ok d, r3)" and fl: "read_u16 r3 = (Ok fl, r')"
      and ev: "ev = EvEntry (entry_link p d (Some (from_bits_truncate fl)))"
      by (auto elim!: io_bind_OkE simp: TYPE_LINK_def TYPE_DATA_def)
    from head 2 read_os_string_sound [OF d] read_u16_sound [OF fl] ev show ?thesis
      by (intro exI [of _ p] exI [of _ "TLink d fl"]) (auto simp: defs)
  next
    case 3
    with k have "r' = r2" "ev = EvEntry (entry_directory p)"
      by (auto simp: TYPE_LINK_def TYPE_DATA_def TYPE_DIR_def)
    with head 3 show ?thesis
      by (intro exI [of _ p] exI [of _ TDirectory]) (auto simp: defs)
  qed
qed

lemma read_header_sound:
  assumes "read_header r = (Ok u, r')"
  shows "avail (source r) = (if got_header r then [] else NCK00) @ avail (source r')"
proof (cases "got_header r")
  case True
  with assms show ?thesis by (simp add: read_header_def)
next
  case False
  with assms have "io_bind (with_reader (read_exact 5)) (\<lambda>header.
      io_then (if header \<noteq> NCK00 then invalidate else io_return ())
        (io_modify (\<lambda>r. r\<lparr>got_header := True\<rparr>))) r = (Ok u, r')" by (simp add: read_header_def)
  then obtain header r1 where h: "with_reader (read_exact 5) r = (Ok header, r1)"
    and k: "io_then (if header \<noteq> NCK00 then invalidate else io_return ()) (io_modify (\<lambda>r. r\<lparr>got_header := True\<rparr>)) r1 = (Ok u, r')"
    by (elim io_bind_OkE)
  from k have "header = NCK00" "source r' = source r1"
    by (auto elim!: io_then_OkE simp: invalidate_def split: if_splits)
  moreover from h have "avail (source r) = header @ avail (source r1)"
    by (elim with_reader_Ok) (auto dest!: read_exact_Ok)
  ultimately show ?thesis using False by simp
qed

text \<open>
  C7: An entry that \<open>next\<close> returns was encoded, byte for byte, at the front of what the source
  delivered, behind the header when it is the first event: the path, the kind, the hash or link
  target as they are, the flags but for bits that are not declared; and the entry could be
  written again.
\<close>

theorem next_event_sound:
  assumes "next_event r = (Ok (EvEntry e), r')"
  shows "\<exists>t. avail (source r) =
      (if got_header r then [] else NCK00) @ enc_entry \<lparr>path = path e, target = t\<rparr> @ avail (source r') \<and>
    target e = truncate_target t \<and> entry_valid e"
proof -
  from assms obtain u r0 ty r1 where h: "read_header r = (Ok u, r0)" and ty: "read_type r0 = (Ok ty, r1)"
    and k: "(case ty of
         Some ty \<Rightarrow>
           if ty = ENTRY_DATA then io_return EvData
           else if ty = ENTRY_ENTRY then read_entry
           else invalidate
       | None \<Rightarrow> io_return EvNone) r1 = (Ok (EvEntry e), r')"
    unfolding next_event_def by (elim io_then_OkE io_bind_OkE)
  from k have "ty = Some ENTRY_ENTRY" and "read_entry r1 = (Ok (EvEntry e), r')"
    by (auto simp: invalidate_def split: option.splits if_splits)
  with read_type_sound [of r0 ENTRY_ENTRY r1] ty read_entry_sound [of r1 "EvEntry e" r'] read_header_sound [OF h]
  show ?thesis by (auto simp: enc_entry_def)
qed

text \<open>The first event of an archive with one entry.\<close>

theorem next_event_sound_witness:
  "\<exists>r' t. next_event (reader_new (Source [78, 67, 75, 48, 48, 2, 0, 1, 47, 3] [])) = (Ok (EvEntry (entry_directory [47])), r') \<and>
    [78, 67, 75, 48, 48, 2, 0, 1, 47, 3] = NCK00 @ enc_entry \<lparr>path = [47], target = t\<rparr> @ avail (source r') \<and>
    TDirectory = truncate_target t"
proof -
  let ?bs = "[78, 67, 75, 48, 48, 2, 0, 1, 47, 3]" and ?e = "entry_directory [47]"
  let ?r = "reader_new (Source ?bs [])"
  have bytes: "?bs = NCK00 @ enc_entry ?e @ []"
    by (simp add: NCK00_def enc_entry_def entry_directory_def entry_new_def ENTRY_ENTRY_def TYPE_DIR_def enc_string_def
        u16_to_be_bytes_def be_bytes_2 byte_of_nat_def)
  have "reader_at False ?r ?bs" by (simp add: reader_at_def reader_new_def steady_def)
  then have at: "reader_at False ?r (NCK00 @ enc_entry ?e @ [])" unfolding bytes .
  from read_header_at [OF this] obtain r1 where r1: "read_header ?r = (Ok (), r1)" "reader_at True r1 (enc_entry ?e @ [])"
    by (auto simp: succeeds_def)
  have "entry_valid ?e" by (simp add: entry_valid_def entry_directory_def entry_new_def MAX_LENGTH_def)
  with next_event_entry [OF r1(2)] obtain r' where r': "next_event r1 = (Ok (EvEntry ?e), r')" by (auto simp: succeeds_def)
  have "read_header r1 = (Ok (), r1)" using r1(2) by (simp add: read_header_def reader_at_def)
  with r' r1(1) have run: "next_event ?r = (Ok (EvEntry ?e), r')"
    by (simp add: next_event_def io_then_def io_bind_def)
  from next_event_sound [OF run] run show ?thesis by (auto simp: reader_new_def entry_directory_def entry_new_def)
qed

end
