(* ===== verification/Data_Reader.thy ===== *)
theory Data_Reader
  imports Archive_Read
begin

text \<open>
  \<open>crates/archive/src/read.rs\<close>, the blocking \<open>DataReader\<close>: the content of a blob as a
  \<open>Read\<close>. In the source it borrows the \<open>Reader\<close>; here it holds it, and \<open>data_reader_of\<close> and
  \<open>release\<close> open and end the borrow. The buffer it takes from the pool is empty
  (theory \<open>Buffer_Pool\<close>).
\<close>

section \<open>DataReader\<close>

record data_reader =
  borrowed :: "reader option"
  remaining :: bytes
  range_start :: nat
  range_end :: nat
  data_hash :: "supported_hash option"

definition data_reader_of :: "reader \<Rightarrow> data_reader" where
  "data_reader_of r =
     \<lparr>borrowed = Some r, remaining = [], range_start = 0, range_end = 0, data_hash = None\<rparr>"

definition release :: "reader \<Rightarrow> data_reader \<Rightarrow> reader" where
  "release r d = (case borrowed d of Some r' \<Rightarrow> r' | None \<Rightarrow> r)"

definition range_is_empty :: "data_reader \<Rightarrow> bool" where
  "range_is_empty d \<longleftrightarrow> \<not> range_start d < range_end d"

definition read_exact_internal :: "nat \<Rightarrow> (data_reader, unit) io" where
  "read_exact_internal len d =
     (if len - length (remaining d) = 0 then (Ok (), d)
      else case borrowed d of
        None \<Rightarrow> (Ok (), d)
      | Some r \<Rightarrow>
          if valid r then
            (case extend_from_reader len (remaining d, source r) of
               (x, (buf, s)) \<Rightarrow> (x, d\<lparr>borrowed := Some (r\<lparr>source := s\<rparr>), remaining := buf\<rparr>))
          else (Err InvalidData, d))"

text \<open>\<open>self.reader.as_mut().unwrap().invalidate()\<close>\<close>

definition data_invalidate :: "(data_reader, 'a) io" where
  "data_invalidate d =
     (case borrowed d of
        None \<Rightarrow> (Panic, d)
      | Some r \<Rightarrow> (Err InvalidData, d\<lparr>borrowed := Some (r\<lparr>valid := False\<rparr>)\<rparr>))"

text \<open>The branch of \<open>read\<close> that copies what is left of the current chunk.\<close>

definition data_copy :: "nat \<Rightarrow> (data_reader, bytes) io" where
  "data_copy n d =
     (let to_copy = min n (range_end d - range_start d) in
      case slice_of (range_start d) (range_start d + to_copy) (remaining d) of
        Ok bs \<Rightarrow>
          let d' = d\<lparr>range_start := range_start d + to_copy\<rparr> in
          (Ok bs, if range_is_empty d' then d'\<lparr>remaining := []\<rparr> else d')
      | Err e \<Rightarrow> (Err e, d)
      | Panic \<Rightarrow> (Panic, d))"

text \<open>
  \<open>DataReader::read\<close> with a buffer of \<open>n\<close> bytes, in parts: the hash at the end of the blob,
  the end of the blob, the next chunk (the recursive call at its end is made with a range
  that is not empty, so it enters the copying branch), and the whole.
\<close>

definition data_take_hash :: "byte \<Rightarrow> nat \<Rightarrow> (data_reader, bytes) io" where
  "data_take_hash hash_id len =
     io_then (read_exact_internal (3 + len))
     (io_get (\<lambda>d. io_bind (io_res (slice_of 3 (3 + len) (remaining d))) (\<lambda>data.
      io_bind (io_res (create_hash hash_id data)) (\<lambda>hash.
      io_then (io_modify (\<lambda>d. d\<lparr>data_hash := Some hash\<rparr>))
      (io_return [])))))"

definition data_finish :: "(data_reader, bytes) io" where
  "data_finish =
     io_then (read_exact_internal 3)
     (io_get (\<lambda>d. io_bind (io_res (index_of 2 (remaining d))) (\<lambda>id.
       case hash_length id of
         Ok len \<Rightarrow> data_take_hash id len
       | Err _ \<Rightarrow> data_invalidate
       | Panic \<Rightarrow> io_res Panic)))"

definition data_fetch :: "nat \<Rightarrow> (data_reader, bytes) io" where
  "data_fetch n =
     io_then (read_exact_internal 2)
     (io_get (\<lambda>d. io_bind (io_res (slice_of 0 2 (remaining d))) (\<lambda>prefix.
       let len = unat (u16_from_be_bytes prefix) in
       if len = 0 then data_finish
       else
         io_then (read_exact_internal (2 + len))
         (io_then (io_modify (\<lambda>d. d\<lparr>range_start := 2, range_end := 2 + len\<rparr>))
         (data_copy n)))))"

definition data_read :: "nat \<Rightarrow> (data_reader, bytes) io" where
  "data_read n =
     io_get (\<lambda>d.
       if borrowed d = None \<or> n = 0 then io_return []
       else if \<not> range_is_empty d then data_copy n
       else data_fetch n)"

section \<open>The stream under a data reader\<close>

text \<open>
  \<open>stream_at d T\<close>: the buffered bytes followed by what the source has left are \<open>T\<close>, and
  reading will not fail.
\<close>

definition stream_at :: "data_reader \<Rightarrow> bytes \<Rightarrow> bool" where
  "stream_at d T \<longleftrightarrow>
     (\<exists>r av. borrowed d = Some r \<and> reader_at True r av \<and> T = remaining d @ av)"

text \<open>\<open>same_range d d'\<close>: only the buffer and the reader differ.\<close>

definition same_range :: "data_reader \<Rightarrow> data_reader \<Rightarrow> bool" where
  "same_range d d' \<longleftrightarrow> range_start d' = range_start d \<and> range_end d' = range_end d \<and> data_hash d' = data_hash d"

lemma read_exact_internal_at:
  assumes "stream_at d T" and "len \<le> length T"
  shows "succeeds (read_exact_internal len) (\<lambda>_ d'. stream_at d' T \<and> same_range d d' \<and>
    remaining d' = take (max len (length (remaining d))) T) d"
proof -
  from assms(1) obtain r av where r: "borrowed d = Some r" "reader_at True r av" "T = remaining d @ av"
    by (auto simp: stream_at_def)
  show ?thesis
  proof (cases "len - length (remaining d) = 0")
    case True
    with assms(1) r show ?thesis by (simp add: succeeds_def read_exact_internal_def same_range_def)
  next
    case False
    from r have "quiet (source r)" by (simp add: reader_at_def steady_quiet)
    moreover have "len - length (remaining d) \<le> length (avail (source r))"
      using assms(2) r by (simp add: reader_at_def)
    ultimately obtain s' where
      "extend_from_reader len (remaining d, source r) =
         (Ok (), (remaining d @ take (len - length (remaining d)) av, s'))"
      "avail s' = drop (len - length (remaining d)) av" "steady s'"
      using extend_from_reader_quiet [of "source r" len "remaining d"] r(2)
      by (auto simp: succeeds_def reader_at_def steady_def)
    with False r show ?thesis
      by (auto simp: succeeds_def read_exact_internal_def same_range_def stream_at_def reader_at_def)
  qed
qed

lemma data_copy_at:
  assumes "\<not> range_is_empty d" and "range_end d = length (remaining d)"
  shows "succeeds (data_copy n) (\<lambda>bs d'. bs = take n (drop (range_start d) (remaining d)) \<and>
    borrowed d' = borrowed d \<and> data_hash d' = data_hash d \<and>
    (if n < range_end d - range_start d
     then \<not> range_is_empty d' \<and> remaining d' = remaining d \<and> range_end d' = range_end d \<and>
       range_start d' = range_start d + n
     else range_is_empty d' \<and> remaining d' = [])) d"
  using assms by (auto simp: succeeds_def data_copy_def Let_def slice_of_def range_is_empty_def min_def)

section \<open>Reading a blob\<close>

text \<open>
  \<open>data_at h rest d content\<close>: the reader is inside a blob with hash \<open>h\<close>, followed by \<open>rest\<close>,
  and \<open>content\<close> is what it has still to deliver. Either part of a chunk is buffered, or the
  next chunk starts the source, or the end has been reached and the hash kept.
\<close>

definition data_done :: "supported_hash \<Rightarrow> bytes \<Rightarrow> data_reader \<Rightarrow> bool" where
  "data_done h rest d \<longleftrightarrow>
     (\<exists>r. borrowed d = Some r \<and> reader_at True r rest) \<and> data_hash d = Some h"

definition data_at :: "supported_hash \<Rightarrow> bytes \<Rightarrow> data_reader \<Rightarrow> bytes \<Rightarrow> bool" where
  "data_at h rest d content \<longleftrightarrow> hash_valid h \<and>
     (\<exists>r cs. borrowed d = Some r \<and> (\<forall>c \<in> set cs. chunk_valid c) \<and>
       ((\<not> range_is_empty d \<and> range_end d = length (remaining d) \<and>
         content = drop (range_start d) (remaining d) @ concat cs \<and> reader_at True r (enc_body cs h @ rest)) \<or>
        (range_is_empty d \<and> remaining d = [] \<and>
         content = concat cs \<and> reader_at True r (enc_body cs h @ rest)) \<or>
        (range_is_empty d \<and> remaining d = [0, 0] @ enc_hash h \<and>
         content = [] \<and> reader_at True r rest \<and> data_hash d = Some h)))"

lemma u16_from_zero [simp]: "u16_from_be_bytes [0, 0] = 0"
  by (simp add: u16_from_be_bytes_def be_value_pair)

lemma data_take_hash_at:
  assumes "stream_at d (0 # 0 # 1 # bs @ rest)" and "range_is_empty d" and "length bs = 32"
    and "length (remaining d) \<le> 35"
  shows "succeeds (data_take_hash 1 32) (\<lambda>x d'. x = [] \<and> stream_at d' (0 # 0 # 1 # bs @ rest) \<and>
    range_is_empty d' \<and> remaining d' = 0 # 0 # 1 # bs \<and> data_hash d' = Some (Blake3 bs)) d"
  unfolding data_take_hash_def
proof (rule succeeds_thenI, rule read_exact_internal_at [OF assms(1)], goal_cases)
  case 1
  show ?case using assms(3) by simp
next
  case (2 d2)
  with assms(3,4) have rem: "remaining d2 = 0 # 0 # 1 # bs" by (simp add: max_def)
  from 2 assms(2) have "stream_at d2 (0 # 0 # 1 # bs @ rest)" "range_is_empty d2"
    by (auto simp: same_range_def range_is_empty_def)
  then show ?case
    by (auto simp: rem assms(3) slice_of_def create_hash_def range_is_empty_def
        stream_at_def io_then_def io_bind_def succeeds_def)
qed

lemma data_finish_at:
  assumes "stream_at d ([0, 0] @ enc_hash h @ rest)" and "range_is_empty d" and "hash_valid h"
    and "length (remaining d) \<le> 35"
  shows "succeeds data_finish (\<lambda>x d'. x = [] \<and> stream_at d' ([0, 0] @ enc_hash h @ rest) \<and>
    range_is_empty d' \<and> remaining d' = [0, 0] @ enc_hash h \<and> data_hash d' = Some h) d"
proof -
  obtain bs where h: "h = Blake3 bs" "length bs = 32"
    using assms(3) by (cases h) (simp add: hash_valid_def)
  have T: "[0, 0] @ enc_hash h @ rest = 0 # 0 # 1 # bs @ rest" by (simp add: h enc_hash_def)
  show ?thesis
    unfolding data_finish_def T
  proof (rule succeeds_thenI, rule read_exact_internal_at [OF assms(1) [unfolded T]], goal_cases)
    case 1
    show ?case by simp
  next
    case (2 d1)
    then have "index_of 2 (remaining d1) = Ok 1" by (auto simp: index_of_def)
    moreover from 2 assms(2,4) h(2) have "stream_at d1 (0 # 0 # 1 # bs @ rest)" "range_is_empty d1"
      "length (remaining d1) \<le> 35"
      by (auto simp: same_range_def range_is_empty_def)
    ultimately show ?case
      using data_take_hash_at [of d1 bs rest] h by (simp add: hash_length_def enc_hash_def)
  qed
qed

lemma data_fetch_end:
  assumes "stream_at d ([0, 0] @ enc_hash h @ rest)" and "range_is_empty d" and "hash_valid h"
    and "length (remaining d) \<le> 35"
  shows "succeeds (data_fetch n) (\<lambda>x d'. x = [] \<and> stream_at d' ([0, 0] @ enc_hash h @ rest) \<and>
    range_is_empty d' \<and> remaining d' = [0, 0] @ enc_hash h \<and> data_hash d' = Some h) d"
  unfolding data_fetch_def
proof (rule succeeds_thenI, rule read_exact_internal_at [OF assms(1)], goal_cases)
  case 1
  show ?case by simp
next
  case (2 d1)
  then have "slice_of 0 2 (remaining d1) = Ok [0, 0]" by (auto simp: slice_of_def max_def numeral_2_eq_2)
  moreover from 2 assms(2-4) have "stream_at d1 ([0, 0] @ enc_hash h @ rest)" "range_is_empty d1"
    "length (remaining d1) \<le> 35"
    by (auto simp: same_range_def range_is_empty_def)
  ultimately show ?case
    using data_finish_at [of d1 h rest] assms(3) by simp
qed

lemma data_fetch_chunk:
  assumes "stream_at d (enc_string c @ rest)" and "chunk_valid c" and "remaining d = []"
  shows "succeeds (data_fetch n) (\<lambda>x d'. x = take n c \<and> stream_at d' (remaining d' @ rest) \<and>
    data_hash d' = data_hash d \<and>
    (if n < length c then \<not> range_is_empty d' \<and> range_end d' = length (remaining d') \<and>
       drop (range_start d') (remaining d') = drop n c
     else range_is_empty d' \<and> remaining d' = [])) d"
proof -
  let ?w = "word_of_nat (length c) :: 16 word" and ?T = "enc_string c @ rest"
  have w: "unat ?w = length c" "length c \<noteq> 0"
    using assms(2) by (auto simp: unat_length_u16 chunk_valid_def)
  show ?thesis
    unfolding data_fetch_def
  proof (rule succeeds_thenI, rule read_exact_internal_at [OF assms(1)], goal_cases)
    case 1
    show ?case by (simp add: enc_string_def)
  next
    case (2 d1)
    with assms(3) have r1: "remaining d1 = u16_to_be_bytes ?w" by (simp add: enc_string_def)
    then have "slice_of 0 2 (remaining d1) = Ok (u16_to_be_bytes ?w)" by (simp add: slice_of_def)
    moreover have "succeeds (io_then (read_exact_internal (2 + length c))
         (io_then (io_modify (\<lambda>d. d\<lparr>range_start := 2, range_end := 2 + length c\<rparr>))
         (data_copy n))) (\<lambda>x d'. x = take n c \<and> stream_at d' (remaining d' @ rest) \<and>
    data_hash d' = data_hash d \<and>
    (if n < length c then \<not> range_is_empty d' \<and> range_end d' = length (remaining d') \<and>
       drop (range_start d') (remaining d') = drop n c
     else range_is_empty d' \<and> remaining d' = [])) d1"
    proof (rule succeeds_thenI, rule read_exact_internal_at [of d1 ?T], goal_cases)
      case 1
      with 2 show ?case by simp
    next
      case 2
      show ?case by (simp add: enc_string_def)
    next
      case (3 d2)
      with r1 have r2: "remaining d2 = u16_to_be_bytes ?w @ c" by (simp add: enc_string_def)
      let ?d = "d2\<lparr>range_start := 2, range_end := 2 + length c\<rparr>"
      from 3 obtain r where b: "borrowed d2 = Some r" "reader_at True r rest"
        by (auto simp: stream_at_def enc_string_def r2)
      from 2 3 have hash: "data_hash d2 = data_hash d" by (simp add: same_range_def)
      have "\<not> range_is_empty ?d" "range_end ?d = length (remaining ?d)"
        using w r2 by (auto simp: range_is_empty_def)
      from data_copy_at [OF this, of n] obtain x d' where
        "data_copy n ?d = (Ok x, d')" "x = take n c" "borrowed d' = Some r" "data_hash d' = data_hash d"
        "if n < length c then \<not> range_is_empty d' \<and> remaining d' = u16_to_be_bytes ?w @ c \<and>
           range_end d' = 2 + length c \<and> range_start d' = 2 + n
         else range_is_empty d' \<and> remaining d' = []"
        by (auto simp: succeeds_def r2 b hash)
      with b(2) show ?case
        by (auto simp: succeeds_def stream_at_def split: if_splits)
    qed
    ultimately show ?case using assms(2) by (simp add: w Let_def chunk_valid_def)
  qed
qed

lemma stream_at_iff:
  "borrowed d = Some r \<Longrightarrow> stream_at d (remaining d @ av) \<longleftrightarrow> reader_at True r av"
  by (auto simp: stream_at_def)

lemma data_read_at:
  assumes "data_at h rest d content" and "0 < n"
  shows "succeeds (data_read n) (\<lambda>bs d'. length bs \<le> n \<and> (bs = [] \<longrightarrow> content = [] \<and> data_done h rest d') \<and>
    (\<exists>content'. content = bs @ content' \<and> data_at h rest d' content')) d"
proof -
  from assms(1) obtain r cs where h: "hash_valid h" and r: "borrowed d = Some r"
    and cs: "\<forall>c \<in> set cs. chunk_valid c"
    and k: "(\<not> range_is_empty d \<and> range_end d = length (remaining d) \<and>
         content = drop (range_start d) (remaining d) @ concat cs \<and> reader_at True r (enc_body cs h @ rest)) \<or>
        (range_is_empty d \<and> remaining d = [] \<and>
         content = concat cs \<and> reader_at True r (enc_body cs h @ rest)) \<or>
        (range_is_empty d \<and> remaining d = [0, 0] @ enc_hash h \<and>
         content = [] \<and> reader_at True r rest \<and> data_hash d = Some h)"
    unfolding data_at_def by blast
  from k r consider (copy) "\<not> range_is_empty d" "range_end d = length (remaining d)"
      "content = drop (range_start d) (remaining d) @ concat cs" "reader_at True r (enc_body cs h @ rest)"
    | (finished) "range_is_empty d" "content = []" "stream_at d ([0, 0] @ enc_hash h @ rest)" "length (remaining d) \<le> 35"
    | (chunk) c cs' where "range_is_empty d" "remaining d = []" "cs = c # cs'"
      "content = c @ concat cs'" "stream_at d (enc_string c @ enc_body cs' h @ rest)"
    by (cases cs) (auto simp: stream_at_def enc_body_def enc_chunks_Cons enc_chunks_Nil length_enc_hash [OF h])
  then show ?thesis
  proof cases
    case copy
    let ?s = "range_start d"
    from copy have run: "data_read n d = data_copy n d" using r assms(2) by (simp add: data_read_def)
    have ne: "drop ?s (remaining d) \<noteq> []" using copy(1,2) by (simp add: range_is_empty_def)
    from data_copy_at [OF copy(1,2), of n] obtain x d' where x: "data_copy n d = (Ok x, d')"
      "x = take n (drop ?s (remaining d))" "borrowed d' = Some r"
      and d': "if n < length (remaining d) - ?s then \<not> range_is_empty d' \<and> remaining d' = remaining d \<and>
           range_end d' = length (remaining d) \<and> range_start d' = ?s + n
         else range_is_empty d' \<and> remaining d' = []"
      by (auto simp: succeeds_def r copy(2))
    let ?c' = "drop n (drop ?s (remaining d)) @ concat cs"
    have "content = x @ ?c'" unfolding copy(3) x(2) by (simp only: append_assoc [symmetric] append_take_drop_id)
    moreover have "data_at h rest d' ?c'"
      using d' h x(3) cs copy(4) unfolding data_at_def
      by (intro conjI exI [of _ r] exI [of _ cs]) (auto simp: add.commute split: if_splits)
    moreover have "x \<noteq> []" "length x \<le> n" using x(2) ne assms(2) by auto
    ultimately show ?thesis
      unfolding succeeds_def run using x(1) by blast
  next
    case finished
    from finished(1) have run: "data_read n d = data_fetch n d" using r assms(2) by (simp add: data_read_def)
    from data_fetch_end [OF finished(3,1) h finished(4), of n] obtain d' where
      d': "data_fetch n d = (Ok [], d')" "stream_at d' ([0, 0] @ enc_hash h @ rest)" "range_is_empty d'"
        "remaining d' = [0, 0] @ enc_hash h" "data_hash d' = Some h"
      by (auto simp: succeeds_def)
    then have "data_at h rest d' []"
      using h unfolding data_at_def by (auto simp: stream_at_def intro!: exI [of _ "[]"])
    moreover have "data_done h rest d'"
      using d'(2,4,5) by (auto simp: data_done_def stream_at_def)
    ultimately show ?thesis using d' finished(2) unfolding succeeds_def run by auto
  next
    case chunk
    from chunk(1) have run: "data_read n d = data_fetch n d" using r assms(2) by (simp add: data_read_def)
    from cs chunk(3) have c: "chunk_valid c" and cs': "\<forall>c \<in> set cs'. chunk_valid c" by auto
    from data_fetch_chunk [OF chunk(5) c chunk(2), of n] obtain x d' where
      x: "data_fetch n d = (Ok x, d')" "x = take n c" "stream_at d' (remaining d' @ enc_body cs' h @ rest)"
      and d': "if n < length c then \<not> range_is_empty d' \<and> range_end d' = length (remaining d') \<and>
           drop (range_start d') (remaining d') = drop n c
         else range_is_empty d' \<and> remaining d' = []"
      by (auto simp: succeeds_def)
    from x(3) obtain r' where r': "borrowed d' = Some r'" "reader_at True r' (enc_body cs' h @ rest)"
      by (auto simp: stream_at_def)
    let ?c' = "drop n c @ concat cs'"
    have "content = x @ ?c'" using chunk(4) x(2) by simp
    moreover have "data_at h rest d' ?c'"
      using d' h r' cs' unfolding data_at_def
      by (intro conjI exI [of _ r'] exI [of _ cs']) (auto split: if_splits)
    moreover have "x \<noteq> []" "length x \<le> n" using x(2) c assms(2) by (auto simp: chunk_valid_def)
    ultimately show ?thesis
      unfolding succeeds_def run using x(1) by blast
  qed
qed

interpretation data_reader: read_contract data_read "data_at h rest" "data_done h rest" for h rest
  by unfold_locales (rule data_read_at)

text \<open>Opening the borrow at the body of a blob, and ending it once all is read.\<close>

lemma data_reader_of_at:
  "hash_valid h \<Longrightarrow> \<forall>c \<in> set cs. chunk_valid c \<Longrightarrow> reader_at True r (enc_body cs h @ rest) \<Longrightarrow>
     data_at h rest (data_reader_of r) (concat cs)"
  by (auto simp: data_at_def data_reader_of_def range_is_empty_def)

section \<open>No input makes the data reader panic\<close>

definition data_safe :: "data_reader \<Rightarrow> bool" where
  "data_safe d \<longleftrightarrow> borrowed d \<noteq> None \<and> (range_is_empty d \<or> range_end d \<le> length (remaining d))"

lemma range_is_empty_update [simp]:
  "range_is_empty (d\<lparr>borrowed := b\<rparr>) = range_is_empty d" "range_is_empty (d\<lparr>remaining := bs\<rparr>) = range_is_empty d"
  "range_is_empty (d\<lparr>data_hash := x\<rparr>) = range_is_empty d"
  by (simp_all add: range_is_empty_def)

lemma read_exact_internal_guarded:
  assumes "data_safe d" and "range_is_empty d"
  shows "guarded (\<lambda>d. data_safe d \<and> range_is_empty d) (read_exact_internal n) (\<lambda>_ d. n \<le> length (remaining d)) d"
  using assms extend_from_reader_no_panic
  by (auto simp: guarded_def no_panic_def read_exact_internal_def data_safe_def dest!: extend_from_reader_Ok
      split: option.splits prod.splits res.splits) (metis fst_conv)

lemma data_copy_guarded:
  assumes "data_safe d" and "\<not> range_is_empty d"
  shows "guarded data_safe (data_copy n) (\<lambda>_ _. True) d"
  using assms by (auto simp: guarded_def data_copy_def slice_of_def data_safe_def range_is_empty_def Let_def min_def)

lemma data_take_hash_guarded:
  assumes "data_safe d" and "range_is_empty d" and "hash_length hash_id = Ok len"
  shows "guarded (\<lambda>d. data_safe d \<and> range_is_empty d) (data_take_hash hash_id len) (\<lambda>_ _. True) d"
  unfolding data_take_hash_def
proof (rule guarded_thenI [OF read_exact_internal_guarded [OF assms(1,2)]])
  fix d
  assume d: "data_safe d \<and> range_is_empty d" "3 + len \<le> length (remaining d)"
  have "hash_id = 1" "len = 32" using assms(3) by (auto simp: hash_length_def split: if_splits)
  with d show "guarded (\<lambda>d. data_safe d \<and> range_is_empty d) (io_get (\<lambda>d.
      io_bind (io_res (slice_of 3 (3 + len) (remaining d))) (\<lambda>data.
      io_bind (io_res (create_hash hash_id data)) (\<lambda>hash.
      io_then (io_modify (\<lambda>d. d\<lparr>data_hash := Some hash\<rparr>)) (io_return []))))) (\<lambda>_ _. True) d"
    by (auto simp: slice_of_def create_hash_def data_safe_def guarded_def)
qed

lemma data_finish_guarded:
  assumes "data_safe d" and "range_is_empty d"
  shows "guarded (\<lambda>d. data_safe d \<and> range_is_empty d) data_finish (\<lambda>_ _. True) d"
  unfolding data_finish_def
proof (rule guarded_thenI [OF read_exact_internal_guarded [OF assms]])
  fix d
  assume d: "data_safe d \<and> range_is_empty d" "3 \<le> length (remaining d)"
  show "guarded (\<lambda>d. data_safe d \<and> range_is_empty d) (io_get (\<lambda>d.
      io_bind (io_res (index_of 2 (remaining d))) (\<lambda>id. case hash_length id of
         Ok len \<Rightarrow> data_take_hash id len | Err _ \<Rightarrow> data_invalidate | Panic \<Rightarrow> io_res Panic))) (\<lambda>_ _. True) d"
  proof (cases "hash_length (remaining d ! 2)")
    case (Ok len)
    with d show ?thesis by (simp add: index_of_def data_take_hash_guarded)
  next
    case (Err e)
    with d show ?thesis
      by (auto simp: index_of_def data_invalidate_def guarded_def data_safe_def)
  next
    case Panic
    then show ?thesis by (simp add: hash_length_def split: if_splits)
  qed
qed

lemma data_fetch_guarded:
  assumes "data_safe d" and "range_is_empty d"
  shows "guarded data_safe (data_fetch n) (\<lambda>_ _. True) d"
  unfolding data_fetch_def
proof (rule guarded_thenI [OF guarded_mono [OF read_exact_internal_guarded [OF assms],
      where Q = "\<lambda>_ d. range_is_empty d \<and> 2 \<le> length (remaining d)"]], goal_cases)
  case (3 d1)
  let ?w = "u16_from_be_bytes (take 2 (remaining d1))"
  have "guarded data_safe (io_then (read_exact_internal (2 + unat ?w))
      (io_then (io_modify (\<lambda>d. d\<lparr>range_start := 2, range_end := 2 + unat ?w\<rparr>)) (data_copy n))) (\<lambda>_ _. True) d1"
    if "unat ?w \<noteq> 0"
  proof (rule guarded_thenI [OF guarded_mono [OF read_exact_internal_guarded,
        where Q = "\<lambda>_ d. range_is_empty d \<and> 2 + unat ?w \<le> length (remaining d)"]], goal_cases)
    case (5 d2)
    let ?d = "d2\<lparr>range_start := 2, range_end := 2 + unat ?w\<rparr>"
    have "data_safe ?d" "\<not> range_is_empty ?d"
      using 5 that by (auto simp: data_safe_def range_is_empty_def)
    from data_copy_guarded [OF this] show ?case by (simp add: guarded_def io_then_def io_bind_def)
  qed (use 3 in auto)
  moreover have "guarded data_safe data_finish (\<lambda>_ _. True) d1"
    using 3 by (auto intro!: guarded_mono [OF data_finish_guarded])
  ultimately show ?case using 3 by (simp add: slice_of_def Let_def)
qed auto

lemma data_read_guarded:
  assumes "data_safe d"
  shows "guarded data_safe (data_read n) (\<lambda>_ _. True) d"
  using assms data_copy_guarded data_fetch_guarded by (simp add: data_read_def)

lemma data_reader_of_safe: "data_safe (data_reader_of r)"
  by (simp add: data_safe_def data_reader_of_def range_is_empty_def)

lemma read_calls_guarded:
  "data_safe d \<Longrightarrow> guarded data_safe (read_calls data_read ns) (\<lambda>_ _. True) d"
proof (induction ns arbitrary: d)
  case (Cons n ns)
  then show ?case
    by (auto intro!: guarded_bindI [OF data_read_guarded] guarded_bindI [OF Cons.IH])
qed simp

text \<open>Reads of any sizes, each made whatever the ones before it returned, errors included.\<close>

fun read_attempts :: "nat list \<Rightarrow> data_reader \<Rightarrow> (error_kind, bytes) res list \<times> data_reader" where
  "read_attempts [] d = ([], d)"
| "read_attempts (n # ns) d =
     (case data_read n d of (x, d1) \<Rightarrow> case read_attempts ns d1 of (xs, d2) \<Rightarrow> (x # xs, d2))"

lemma read_attempts_safe:
  "data_safe d \<Longrightarrow> read_attempts ns d = (xs, d') \<Longrightarrow> Panic \<notin> set xs \<and> data_safe d'"
proof (induction ns arbitrary: d xs)
  case (Cons n ns)
  obtain x d1 where x: "data_read n d = (x, d1)" by fastforce
  with data_read_guarded [OF Cons.prems(1), of n] have "x \<noteq> Panic" "data_safe d1"
    by (auto simp: guarded_def split: res.splits)
  with x Cons.IH [of d1] Cons.prems(2) show ?case by (auto split: prod.splits)
qed simp

section \<open>Well-formed data readers\<close>

text \<open>
  The invariant of the fields, whatever happens: the range is inside the buffer, and a hash that is
  present has the length of its algorithm.
\<close>

definition hash_typed :: "data_reader \<Rightarrow> bool" where
  "hash_typed d \<longleftrightarrow> (\<forall>h. data_hash d = Some h \<longrightarrow> hash_valid h)"

lemma create_hash_valid: "create_hash hash_id bs = Ok h \<Longrightarrow> hash_valid h"
  by (auto simp: create_hash_def hash_valid_def split: if_splits)

lemma hash_typed_exact [agreeing]: "agree hash_typed (read_exact_internal n) (read_exact_internal n)"
  by (auto simp: agree_def hash_typed_def read_exact_internal_def split: option.splits prod.splits)

lemma hash_typed_copy [agreeing]: "agree hash_typed (data_copy n) (data_copy n)"
  by (auto simp: agree_def hash_typed_def data_copy_def Let_def split: res.splits)

lemma hash_typed_invalidate [agreeing]: "agree hash_typed data_invalidate data_invalidate"
  by (auto simp: agree_def hash_typed_def data_invalidate_def split: option.splits)

lemma hash_typed_store: "hash_valid h \<Longrightarrow>
    agree hash_typed (io_modify (\<lambda>d. d\<lparr>data_hash := Some h\<rparr>)) (io_modify (\<lambda>d. d\<lparr>data_hash := Some h\<rparr>))"
  by (auto simp: agree_def hash_typed_def)

lemma hash_typed_range [agreeing]:
  "agree hash_typed (io_modify (\<lambda>d. d\<lparr>range_start := a, range_end := b\<rparr>)) (io_modify (\<lambda>d. d\<lparr>range_start := a, range_end := b\<rparr>))"
  by (auto simp: agree_def hash_typed_def)

lemma hash_typed_created:
  "(\<And>h. hash_valid h \<Longrightarrow> agree hash_typed (k h) (k h)) \<Longrightarrow>
     agree hash_typed (io_bind (io_res (create_hash hash_id bs)) k) (io_bind (io_res (create_hash hash_id bs)) k)"
  by (cases "create_hash hash_id bs") (auto simp: agree_def io_bind_def dest: create_hash_valid)

lemma hash_typed_take [agreeing]: "agree hash_typed (data_take_hash i n) (data_take_hash i n)"
  unfolding data_take_hash_def by (intro agreeing hash_typed_created) (rule hash_typed_store)

lemma hash_typed_finish [agreeing]: "agree hash_typed data_finish data_finish"
  unfolding data_finish_def by (auto split: res.split intro!: agreeing)

lemma hash_typed_fetch [agreeing]: "agree hash_typed (data_fetch n) (data_fetch n)"
  unfolding data_fetch_def Let_def by (intro agreeing)

lemma hash_typed_read [agreeing]: "agree hash_typed (data_read n) (data_read n)"
  unfolding data_read_def by (intro agreeing)

lemma hash_typed_calls: "agree hash_typed (read_calls data_read ns) (read_calls data_read ns)"
proof (induction ns)
  case (Cons n ns)
  then show ?case unfolding read_calls.simps by (intro agreeing)
qed (simp add: agree_def)

lemma data_copy_length: "data_copy n d = (Ok bs, d') \<Longrightarrow> length bs \<le> n"
  by (auto simp: data_copy_def slice_of_def Let_def split: res.splits if_splits)

lemma data_read_length: "data_read n d = (Ok bs, d') \<Longrightarrow> length bs \<le> n"
proof -
  assume r: "data_read n d = (Ok bs, d')"
  have fetch: "data_fetch n d = (Ok bs, d') \<Longrightarrow> length bs \<le> n" for d
    unfolding data_fetch_def data_finish_def data_take_hash_def data_invalidate_def
    by (auto elim!: io_then_OkE io_bind_OkE dest!: data_copy_length simp: Let_def split: if_splits res.splits option.splits)
  from r fetch data_copy_length show ?thesis by (auto simp: data_read_def split: if_splits)
qed

lemma read_calls_length: "read_calls data_read ns d = (Ok bs, d') \<Longrightarrow> length bs \<le> sum_list ns"
proof (induction ns arbitrary: d bs d')
  case (Cons n ns)
  then show ?case by (auto elim!: io_bind_OkE dest!: data_read_length) fastforce
qed simp

section \<open>What the callers are promised\<close>

text \<open>
  C10: Whatever bytes a source delivers and however it fails, neither asking for the next event
  nor any sequence of reads of a blob makes the program panic, also when the reads go on after
  some have failed.
\<close>

theorem reader_never_panics:
  "no_panic next_event r \<and> Panic \<notin> set (fst (read_attempts ns (data_reader_of r)))"
  using read_attempts_safe [OF data_reader_of_safe, of ns r] next_event_no_panic
  by (cases "read_attempts ns (data_reader_of r)") simp

text \<open>
  C11: Inside a blob, a sequence of reads of any positive sizes delivers a prefix of its
  content, and all of it once there have been as many reads as bytes.
\<close>

theorem data_reads_prefix:
  assumes "hash_valid h" and "\<forall>c \<in> set cs. chunk_valid c" and "reader_at True r (enc_body cs h @ rest)"
    and "\<forall>n \<in> set ns. 0 < n"
  shows "\<exists>bs d content'. read_calls data_read ns (data_reader_of r) = (Ok bs, d) \<and> concat cs = bs @ content' \<and>
    (length (concat cs) \<le> length ns \<longrightarrow> bs = concat cs)"
  using data_reader.read_calls_law [OF data_reader_of_at [OF assms(1-3)] assms(4)]
  by (auto simp: succeeds_def)

theorem data_reads_prefix_witness:
  "\<exists>bs d content'. read_calls data_read [1, 1, 2]
      (data_reader_of \<lparr>source = Source (enc_body [[5, 6]] (Blake3 (replicate 32 1))) [Give 0], valid = True, got_header = True\<rparr>) =
        (Ok bs, d) \<and> concat [[5, 6]] = bs @ content' \<and> bs = [5, 6]"
  using data_reads_prefix [of "Blake3 (replicate 32 1)" "[[5, 6]]"
      "\<lparr>source = Source (enc_body [[5, 6]] (Blake3 (replicate 32 1))) [Give 0], valid = True, got_header = True\<rparr>" "[]" "[1, 1, 2]"]
  by (auto simp: hash_valid_def chunk_valid_def MAX_LENGTH_def reader_at_def steady_def)



end
