(* ===== verification/Archive_Roundtrip.thy ===== *)
theory Archive_Roundtrip
  imports Archive_Write Data_Reader
begin

text \<open>
  A whole archive, written with the blocking \<open>Writer\<close> and \<open>DataWriter\<close> and read with the
  blocking \<open>Reader\<close> and \<open>DataReader\<close>: a blob is written by \<open>write_data\<close>, \<open>write_all\<close> and
  \<open>finish\<close>, and read until a read is empty.
\<close>

definition write_blob :: "digest \<Rightarrow> writer blob_call" where
  "write_blob b3 bs w =
     (case write_data supported_hasher_blake3 w of
        (Err e, _) \<Rightarrow> Some (Err e)
      | (Panic, _) \<Rightarrow> Some Panic
      | (Ok d, _) \<Rightarrow>
          (case write_all_with data_write bs d of
             None \<Rightarrow> None
           | Some (Err e, _) \<Rightarrow> Some (Err e)
           | Some (Panic, _) \<Rightarrow> Some Panic
           | Some (Ok _, d') \<Rightarrow> Some (fst (finish_data b3 d'))))"

definition write_archive :: "digest \<Rightarrow> part list \<Rightarrow> sink \<Rightarrow> ((error_kind, writer) res) option" where
  "write_archive b3 ps s =
     (case writer_new s of
        (Ok w, _) \<Rightarrow> write_parts write_entry (write_blob b3) ps w
      | (Err e, _) \<Rightarrow> Some (Err e)
      | (Panic, _) \<Rightarrow> Some Panic)"

text \<open>\<open>n\<close> is the size of the buffer that the content of blobs is read with.\<close>

definition read_blob :: "nat \<Rightarrow> reader content_call" where
  "read_blob n r =
     (case read_to_end data_read n [] (data_reader_of r) of
        None \<Rightarrow> None
      | Some (x, d) \<Rightarrow> Some (map_res (\<lambda>bs. (bs, data_hash d)) x, release r d))"

definition read_archive :: "nat \<Rightarrow> source \<Rightarrow> ((error_kind, content list) res \<times> reader) option" where
  "read_archive n src = read_events next_event (read_blob n) [] (reader_new src)"

lemma write_blob_at:
  assumes "writer_at w a"
  shows "\<exists>w' x. write_blob b3 bs w = Some (Ok (w', Blake3 (b3 bs))) \<and>
    encodes b3 (PData bs) x \<and> writer_at w' (a @ x)"
proof -
  let ?base = "a @ [ENTRY_DATA]"
  from write_data_at [OF assms, of "[]"] obtain d w1 where
    d: "write_data supported_hasher_blake3 w = (Ok d, w1)" "blob_at [] ?base [] d"
    by (auto simp: succeeds_def supported_hasher_blake3_def)
  then have "blob_state [] ?base [] [] d" by (auto simp: blob_state_def intro: exI [of _ "[]"])
  from data_writer.write_all_then_law [OF this] obtain d' where
    d': "write_all_with data_write bs d = Some (Ok (), d')" "blob_state [] ?base bs [] d'" by auto
  then obtain cs where cs: "bs = concat cs" "blob_at [] ?base cs d'" by (auto simp: blob_state_def)
  from finish_data_at [OF cs(2), of b3] obtain w' d2 where
    "finish_data b3 d' = (Ok (w', Blake3 (b3 bs)), d2)"
    "writer_at w' (?base @ enc_body cs (Blake3 (b3 bs)))"
    by (auto simp: succeeds_def cs(1))
  with d d' cs show ?thesis
    by (intro exI [of _ w'] exI [of _ "enc_blob cs (Blake3 (b3 bs))"])
      (auto simp: write_blob_def blob_at_def enc_blob_def)
qed

interpretation blocking_writer: archive_writer write_entry "write_blob b3" writer_at b3 for b3
  by unfold_locales (fact write_entry_at write_blob_at)+

lemma read_blob_at:
  assumes "reader_at True r (enc_blob cs h @ rest)" and "hash_valid h" and "\<forall>c \<in> set cs. chunk_valid c"
    and "0 < n"
  shows "\<exists>r1 r2. next_event r = (Ok EvData, r1) \<and> read_blob n r1 = Some (Ok (concat cs, Some h), r2) \<and>
    reader_at True r2 rest"
proof -
  from next_event_blob [OF assms(1)] obtain r1 where
    r1: "next_event r = (Ok EvData, r1)" "reader_at True r1 (enc_body cs h @ rest)"
    by (auto simp: succeeds_def)
  from data_reader.read_to_end_law [OF data_reader_of_at [OF assms(2,3) r1(2)] assms(4), of "[]"] obtain d where
    "read_to_end data_read n [] (data_reader_of r1) = Some (Ok (concat cs), d)" "data_done h rest d" by auto
  with r1(1) show ?thesis by (auto simp: read_blob_def data_done_def release_def)
qed

text \<open>The contract holds whatever the size of the reads, so it is interpreted for \<open>Suc n\<close>.\<close>

interpretation blocking_reader: archive_reader next_event "read_blob (Suc n)" "reader_at True" for n
  by unfold_locales (fact next_event_end next_event_entry, fact next_event_entry, rule read_blob_at, assumption+, simp)

text \<open>
  C1: An archive written to a sink that makes progress, whatever its interruptions and
  partial writes, reads back, through any source that delivers its bytes, whatever the sizes
  of the reads, as the same entries and blobs, each blob with the digest of its content.
\<close>

theorem archive_roundtrip:
  assumes "blake3_documented b3" and "open_sink s" and "written s = []"
    and "\<forall>p \<in> set ps. part_valid p" and "0 < n"
  shows "\<exists>w. write_archive b3 ps s = Some (Ok w) \<and>
    (\<forall>src. steady src \<longrightarrow> avail src = written (writer_into_inner w) \<longrightarrow>
       (\<exists>r. read_archive n src = Some (Ok (map (read_back b3) ps), r)))"
proof -
  from writer_new_at [OF assms(2)] assms(3) obtain w0 s' where
    w0: "writer_new s = (Ok w0, s')" "writer_at w0 NCK00" by (auto simp: succeeds_def)
  from blocking_writer.write_parts_law [OF w0(2) assms(4), of b3] obtain w xs where
    w: "write_parts write_entry (write_blob b3) ps w0 = Some (Ok w)"
    and xs: "list_all2 (encodes b3) ps xs" and at: "writer_at w (NCK00 @ concat xs)" by auto
  have "\<exists>r. read_archive n src = Some (Ok (map (read_back b3) ps), r)"
    if "steady src" "avail src = written (writer_into_inner w)" for src
  proof -
    obtain m where n: "n = Suc m" using assms(5) by (cases n) auto
    have "reader_at False (reader_new src) (NCK00 @ concat xs)"
      using that at by (simp add: reader_at_def reader_new_def writer_at_def writer_into_inner_def)
    then obtain r' where r': "reader_at True r' (concat xs)" "next_event (reader_new src) = next_event r'"
      by (rule next_event_header)
    from blocking_reader.read_events_law [OF assms(1) xs r'(1), of m "[]"] show ?thesis
      by (auto simp: read_archive_def n read_events_start [OF r'(2)])
  qed
  with w w0 show ?thesis by (auto simp: write_archive_def)
qed

theorem archive_roundtrip_witness:
  "\<exists>w r. write_archive (\<lambda>_. replicate 32 7)
      [PEntry (entry_directory [47]), PData [1, 2, 3], PEntry (entry_link [97] [98] (Some EXECUTABLE))]
      (Sink [] None [Take 3, WFail Interrupted, Take 1]) = Some (Ok w) \<and>
    read_archive 2 (Source (written (writer_into_inner w)) [Give 0, Give 3]) =
      Some (Ok [CEntry (entry_directory [47]), CData [1, 2, 3] (Some (Blake3 (replicate 32 7))),
        CEntry (entry_link [97] [98] (Some EXECUTABLE))], r)"
proof -
  let ?ps = "[PEntry (entry_directory [47]), PData [1, 2, 3], PEntry (entry_link [97] [98] (Some EXECUTABLE))]"
  have "blake3_documented (\<lambda>_. replicate 32 7)" by (simp add: blake3_documented_def)
  moreover have "open_sink (Sink [] None [Take 3, WFail Interrupted, Take 1])" by (simp add: open_sink_def)
  moreover have "\<forall>p \<in> set ?ps. part_valid p"
    by (simp add: entry_valid_def entry_directory_def entry_link_def entry_new_def MAX_LENGTH_def
        flags_valid_def from_bits_truncate_def)
  ultimately obtain w where w: "write_archive (\<lambda>_. replicate 32 7) ?ps
      (Sink [] None [Take 3, WFail Interrupted, Take 1]) = Some (Ok w)"
    "\<forall>src. steady src \<longrightarrow> avail src = written (writer_into_inner w) \<longrightarrow>
       (\<exists>r. read_archive 2 src = Some (Ok (map (read_back (\<lambda>_. replicate 32 7)) ?ps), r))"
    using archive_roundtrip [of "\<lambda>_. replicate 32 7" "Sink [] None [Take 3, WFail Interrupted, Take 1]" ?ps 2]
    by auto
  from w(2) [rule_format, of "Source (written (writer_into_inner w)) [Give 0, Give 3]"]
  have "\<exists>r. read_archive 2 (Source (written (writer_into_inner w)) [Give 0, Give 3]) =
      Some (Ok (map (read_back (\<lambda>_. replicate 32 7)) ?ps), r)" by (simp add: steady_def)
  with w(1) show ?thesis by auto
qed

end
