(* ===== verification/Archive_Async.thy ===== *)
theory Archive_Async
  imports Archive_Roundtrip
begin

text \<open>
  The asynchronous halves of \<open>crates/archive/src/read.rs\<close> and \<open>write.rs\<close>. The operations of
  \<open>Reader\<close> and \<open>Writer\<close>, awaited, are tokio's loops in place of the standard library's;
  they agree with the blocking ones on sources and sinks that are never interrupted. The
  polled \<open>DataReader\<close> and \<open>DataWriter\<close> are state machines of their own.
\<close>

section \<open>Reader\<close>

definition extend_cleared_async :: "nat \<Rightarrow> (reader, bytes) io" where
  "extend_cleared_async len r =
     (if valid r then
        (case extend_from_reader_async len ([], source r) of
           (Ok _, (buf, s)) \<Rightarrow> (Ok buf, r\<lparr>source := s\<rparr>)
         | (Err e, (buf, s)) \<Rightarrow> (Err e, r\<lparr>source := s\<rparr>)
         | (Panic, (buf, s)) \<Rightarrow> (Panic, r\<lparr>source := s\<rparr>))
      else (Panic, r))"

definition read_u16_async :: "(reader, 16 word) io" where
  "read_u16_async = io_bind (with_reader (tokio_read_exact 2)) (\<lambda>buf. io_return (u16_from_be_bytes buf))"

definition read_length_prefixed_async :: "(reader, bytes) io" where
  "read_length_prefixed_async = io_bind read_u16_async (\<lambda>len. extend_cleared_async (unat len))"

definition read_os_string_async :: "(reader, bytes) io" where
  "read_os_string_async = read_length_prefixed_async"

definition read_required_type_async :: "(reader, byte) io" where
  "read_required_type_async =
     io_bind (with_reader (tokio_read_exact 1)) (\<lambda>id_buf. io_res (index_of 0 id_buf))"

definition read_type_async :: "(reader, byte option) io" where
  "read_type_async =
     io_bind (with_reader (src_read 1)) (\<lambda>id_buf.
       if id_buf = [] then io_return None
       else io_bind (io_res (index_of 0 id_buf)) (\<lambda>t. io_return (Some t)))"

definition read_hash_async :: "(reader, supported_hash) io" where
  "read_hash_async =
     io_bind read_required_type_async (\<lambda>id.
       case hash_length id of
         Ok len \<Rightarrow>
           io_bind (extend_cleared_async len) (\<lambda>buf.
           io_bind (io_res (slice_of 0 len buf)) (\<lambda>data. io_res (create_hash id data)))
       | Err _ \<Rightarrow> invalidate
       | Panic \<Rightarrow> io_res Panic)"

definition read_entry_async :: "(reader, read_event) io" where
  "read_entry_async =
     io_bind read_os_string_async (\<lambda>path.
     io_bind read_required_type_async (\<lambda>t.
       if t = TYPE_DATA then
         io_bind read_hash_async (\<lambda>hash.
         io_bind read_u16_async (\<lambda>flags.
         io_return (EvEntry (entry_data path hash (Some (from_bits_truncate flags))))))
       else if t = TYPE_LINK then
         io_bind read_os_string_async (\<lambda>source.
         io_bind read_u16_async (\<lambda>flags.
         io_return (EvEntry (entry_link path source (Some (from_bits_truncate flags))))))
       else if t = TYPE_DIR then io_return (EvEntry (entry_directory path))
       else invalidate))"

definition read_header_async :: "(reader, unit) io" where
  "read_header_async r =
     (if \<not> got_header r then
        io_bind (with_reader (tokio_read_exact 5)) (\<lambda>header.
          io_then (if header \<noteq> NCK00 then invalidate else io_return ())
            (io_modify (\<lambda>r. r\<lparr>got_header := True\<rparr>))) r
      else (Ok (), r))"

definition next_event_async :: "(reader, read_event) io" where
  "next_event_async =
     io_then read_header_async
     (io_bind read_type_async (\<lambda>t.
       case t of
         Some ty \<Rightarrow>
           if ty = ENTRY_DATA then io_return EvData
           else if ty = ENTRY_ENTRY then read_entry_async
           else invalidate
       | None \<Rightarrow> io_return EvNone))"

text \<open>
  \<open>within X s\<close>: the calls of a source behave in one of the ways \<open>X\<close>, and are never
  interrupted; \<open>calm X\<close> lifts this to readers.
\<close>

definition within :: "read_step set \<Rightarrow> source \<Rightarrow> bool" where
  "within X s \<longleftrightarrow> set (script s) \<subseteq> X - {RFail Interrupted}"

definition calm :: "read_step set \<Rightarrow> reader \<Rightarrow> bool" where
  "calm X r \<longleftrightarrow> within X (source r)"

lemma within_faults: "within X s \<Longrightarrow> Interrupted \<notin> faults s"
  by (auto simp: within_def faults_def)

lemma within_mono: "within X s \<Longrightarrow> set (script t) \<subseteq> set (script s) \<Longrightarrow> within X t"
  by (auto simp: within_def)

lemma agree_with_reader [agreeing]:
  assumes "agree (within X) m m'"
  shows "agree (calm X) (with_reader m) (with_reader m')"
  unfolding agree_def
proof (intro allI impI)
  fix r
  assume "calm X r"
  then have "m' (source r) = m (source r)" "within X (snd (m (source r)))"
    using assms by (auto simp: agree_def calm_def)
  with \<open>calm X r\<close> show "with_reader m' r = with_reader m r \<and> calm X (snd (with_reader m r))"
    by (simp add: with_reader_def calm_def case_prod_unfold)
qed

lemma agree_read_exact [agreeing]: "agree (within X) (read_exact n) (tokio_read_exact n)"
  using read_exact_script within_faults within_mono by (auto simp: agree_def tokio_read_exact_eq)

lemma agree_src_read [agreeing]: "agree (within X) (src_read n) (src_read n)"
  using src_read_script within_mono by (auto simp: agree_def)

lemma agree_invalidate [agreeing]: "agree (calm X) invalidate invalidate"
  by (simp add: agree_def invalidate_def calm_def)

lemma agree_got_header [agreeing]:
  "agree (calm X) (io_modify (\<lambda>r. r\<lparr>got_header := True\<rparr>)) (io_modify (\<lambda>r. r\<lparr>got_header := True\<rparr>))"
  by (simp add: agree_def calm_def)

lemma agree_extend [agreeing]: "agree (calm X) (extend_cleared n) (extend_cleared_async n)"
  unfolding agree_def
proof (intro allI impI)
  fix r
  assume r: "calm X r"
  then have s: "within X (source r)" by (simp add: calm_def)
  obtain x buf t where x: "extend_from_reader n ([], source r) = (x, (buf, t))" by (metis prod_cases3)
  with within_mono [OF s extend_from_reader_script [of n "[]" "source r"]] have t: "within X t" by simp
  from extend_async_eq [OF within_faults [OF s], of n "[]"] x obtain kept where
    "extend_from_reader_async n ([], source r) = (x, (buf @ kept, t))" "x = Err UnexpectedEof \<or> kept = []"
    by auto
  with x t r show "extend_cleared_async n r = extend_cleared n r \<and> calm X (snd (extend_cleared n r))"
    by (cases x) (auto simp: extend_cleared_def extend_cleared_async_def calm_def)
qed

lemma agree_read_u16 [agreeing]: "agree (calm X) read_u16 read_u16_async"
  unfolding read_u16_def read_u16_async_def by (intro agreeing)

lemma agree_read_os_string [agreeing]: "agree (calm X) read_os_string read_os_string_async"
  unfolding read_os_string_def read_os_string_async_def read_length_prefixed_def read_length_prefixed_async_def
  by (intro agreeing)

lemma agree_read_required_type [agreeing]: "agree (calm X) read_required_type read_required_type_async"
  unfolding read_required_type_def read_required_type_async_def by (intro agreeing)

lemma agree_read_type [agreeing]: "agree (calm X) read_type read_type_async"
  unfolding read_type_def read_type_async_def by (intro agreeing)

lemma agree_read_hash [agreeing]: "agree (calm X) read_hash read_hash_async"
  unfolding read_hash_def read_hash_async_def by (auto split: res.split intro!: agreeing)

lemma agree_read_entry [agreeing]: "agree (calm X) read_entry read_entry_async"
  unfolding read_entry_def read_entry_async_def by (intro agreeing)

lemma agree_read_header [agreeing]: "agree (calm X) read_header read_header_async"
proof -
  have "agree (calm X)
      (io_bind (with_reader (read_exact 5)) (\<lambda>header.
          io_then (if header \<noteq> NCK00 then invalidate else io_return ())
            (io_modify (\<lambda>r. r\<lparr>got_header := True\<rparr>))))
      (io_bind (with_reader (tokio_read_exact 5)) (\<lambda>header.
          io_then (if header \<noteq> NCK00 then invalidate else io_return ())
            (io_modify (\<lambda>r. r\<lparr>got_header := True\<rparr>))))"
    by (intro agreeing)
  then show ?thesis by (simp add: agree_def read_header_def read_header_async_def)
qed

lemma agree_next_event: "agree (calm X) next_event next_event_async"
  unfolding next_event_def next_event_async_def by (auto split: option.split intro!: agreeing)

section \<open>The polled data reader\<close>

text \<open>
  \<open>unless_pending m k\<close> is \<open>if m.is_pending() { return Poll::Pending; } k\<close>. An error of \<open>m\<close>
  is ignored: what follows indexes the buffer.
\<close>

definition unless_pending :: "('s, unit) pio \<Rightarrow> ('s, 'a) pio \<Rightarrow> ('s, 'a) pio" where
  "unless_pending m k s =
     (case m s of
        (Pending, s') \<Rightarrow> (Pending, s')
      | (Ready Panic, s') \<Rightarrow> (Ready Panic, s')
      | (Ready _, s') \<Rightarrow> k s')"

definition poll_read_exact :: "nat \<Rightarrow> (data_reader, unit) pio" where
  "poll_read_exact len d =
     (if len - length (remaining d) = 0 then (Ready (Ok ()), d)
      else case borrowed d of
        None \<Rightarrow> (Ready (Ok ()), d)
      | Some r \<Rightarrow>
          if valid r then
            (case poll_extend_from_reader len (remaining d, source r) of
               (x, (buf, s)) \<Rightarrow> (x, d\<lparr>borrowed := Some (r\<lparr>source := s\<rparr>), remaining := buf\<rparr>))
          else (Ready (Err InvalidData), d))"

text \<open>\<open>poll_read\<close> in the same parts as \<open>read\<close>: the hash, the end of the blob, the next chunk.\<close>

definition data_poll_hash :: "byte \<Rightarrow> nat \<Rightarrow> (data_reader, bytes) pio" where
  "data_poll_hash hash_id len =
     unless_pending (poll_read_exact (3 + len))
     (at_once (io_get (\<lambda>d. io_bind (io_res (slice_of 3 (3 + len) (remaining d))) (\<lambda>data.
      io_bind (io_res (create_hash hash_id data)) (\<lambda>hash.
      io_then (io_modify (\<lambda>d. d\<lparr>data_hash := Some hash\<rparr>))
      (io_return []))))))"

definition data_poll_finish :: "(data_reader, bytes) pio" where
  "data_poll_finish =
     unless_pending (poll_read_exact 3)
     (\<lambda>d. case index_of 2 (remaining d) of
        Ok hash_id \<Rightarrow>
          (case hash_length hash_id of
             Ok len \<Rightarrow> data_poll_hash hash_id len d
           | Err _ \<Rightarrow> at_once data_invalidate d
           | Panic \<Rightarrow> (Ready Panic, d))
      | Err e \<Rightarrow> (Ready (Err e), d)
      | Panic \<Rightarrow> (Ready Panic, d))"

definition data_poll_fetch :: "nat \<Rightarrow> (data_reader, bytes) pio" where
  "data_poll_fetch n =
     unless_pending (poll_read_exact 2)
     (\<lambda>d. case slice_of 0 2 (remaining d) of
        Ok prefix \<Rightarrow>
          let len = unat (u16_from_be_bytes prefix) in
          if len = 0 then data_poll_finish d
          else unless_pending (poll_read_exact (2 + len))
            (\<lambda>d. at_once (data_copy n) (d\<lparr>range_start := 2, range_end := 2 + len\<rparr>)) d
      | Err e \<Rightarrow> (Ready (Err e), d)
      | Panic \<Rightarrow> (Ready Panic, d))"

definition data_poll_read :: "nat \<Rightarrow> (data_reader, bytes) pio" where
  "data_poll_read n d =
     (if borrowed d = None \<or> n = 0 then (Ready (Ok []), d)
      else if \<not> range_is_empty d then at_once (data_copy n) d
      else data_poll_fetch n d)"

text \<open>
  A single poll of the source that fails, ends, or delivers one byte where two are needed is
  taken for success, and the buffer is then indexed out of bounds.
\<close>

lemma data_poll_read_short:
  assumes "borrowed d = Some r" and "valid r" and "0 < n" and "range_is_empty d" and "remaining d = []"
    and "src_poll_read 2 (source r) = (Ready x, s)" and "\<forall>bs. x = Ok bs \<longrightarrow> length bs < 2"
  shows "fst (data_poll_read n d) = Ready Panic"
  using assms
  by (cases x) (auto simp: data_poll_read_def data_poll_fetch_def unless_pending_def poll_read_exact_def
      poll_extend_from_reader_def slice_of_def)

section \<open>Polling a source that is either not ready or delivers all it is asked for\<close>

lemma polls_unless_pending:
  "polls P Q m s \<Longrightarrow> (\<And>s'. Q () s' \<Longrightarrow> polls P R k s') \<Longrightarrow> polls P R (unless_pending m k) s"
  by (cases "m s"; cases "fst (m s)") (auto simp: polls_def unless_pending_def split: res.splits poll.splits)

text \<open>\<open>stream_of d T\<close>: as \<open>stream_at\<close>, on such a source; \<open>waits\<close> bounds how often it is not ready.\<close>

definition prompt :: "reader \<Rightarrow> bool" where
  "prompt r \<longleftrightarrow> valid r \<and> got_header r \<and> set (script (source r)) \<subseteq> {RWait}"

definition stream_of :: "data_reader \<Rightarrow> bytes \<Rightarrow> bool" where
  "stream_of d T \<longleftrightarrow> (\<exists>r. borrowed d = Some r \<and> prompt r \<and> T = remaining d @ avail (source r))"

definition waits :: "data_reader \<Rightarrow> nat" where
  "waits d = (case borrowed d of Some r \<Rightarrow> length (script (source r)) | None \<Rightarrow> 0)"

lemma prompt_reader_at: "prompt r \<Longrightarrow> reader_at True r (avail (source r))"
  by (auto simp: prompt_def reader_at_def steady_def faults_def)

lemma poll_read_exact_polls:
  assumes "stream_of d T" and "len \<le> length T"
  shows "polls (\<lambda>d'. stream_of d' T \<and> same_range d d' \<and> remaining d' = remaining d \<and> waits d' < waits d)
    (\<lambda>_ d'. stream_of d' T \<and> same_range d d' \<and> remaining d' = take (max len (length (remaining d))) T \<and>
       waits d' \<le> waits d) (poll_read_exact len) d"
proof -
  from assms(1) obtain r where r: "borrowed d = Some r" "prompt r" "T = remaining d @ avail (source r)"
    by (auto simp: stream_of_def)
  show ?thesis
  proof (cases "len - length (remaining d) = 0")
    case True
    with assms(1) r show ?thesis by (simp add: polls_def poll_read_exact_def same_range_def)
  next
    case False
    show ?thesis
    proof (cases "source r")
      case (Source bs sc)
      have bs: "len - length (remaining d) \<le> length bs" using assms(2) r(3) Source by simp
      show ?thesis
      proof (cases sc)
        case Nil
        with Source False bs r show ?thesis
          by (auto simp: polls_def poll_read_exact_def poll_extend_from_reader_def prompt_def stream_of_def
              same_range_def waits_def)
      next
        case (Cons p ps)
        then have "p = RWait" using r(2) Source by (simp add: prompt_def)
        with Cons Source False r show ?thesis
          by (auto simp: polls_def poll_read_exact_def poll_extend_from_reader_def prompt_def stream_of_def
              same_range_def waits_def)
      qed
    qed
  qed
qed

lemma stream_of_at: "stream_of d T \<Longrightarrow> stream_at d T"
  using prompt_reader_at by (auto simp: stream_of_def stream_at_def)

text \<open>
  \<open>between T K d d'\<close>: from \<open>d\<close> the poll got as far as \<open>d'\<close>, on the same stream, outside any chunk,
  with one of the lengths \<open>K\<close> of bytes buffered.
\<close>

definition between :: "bytes \<Rightarrow> nat set \<Rightarrow> data_reader \<Rightarrow> data_reader \<Rightarrow> bool" where
  "between T K d d' \<longleftrightarrow> stream_of d' T \<and> range_is_empty d' \<and> data_hash d' = data_hash d \<and>
     length (remaining d') \<in> K \<and> waits d' \<le> waits d"

definition halted :: "bytes \<Rightarrow> nat set \<Rightarrow> data_reader \<Rightarrow> data_reader \<Rightarrow> bool" where
  "halted T K d d' \<longleftrightarrow> between T K d d' \<and> waits d' < waits d"

lemma remaining_prefix: "stream_of d T \<Longrightarrow> remaining d = take (length (remaining d)) T"
  by (auto simp: stream_of_def)

lemma poll_read_exact_between:
  assumes "between T K d0 d" and "len \<le> length T"
  shows "polls (halted T K d0) (\<lambda>_ d'. between T (insert len {k \<in> K. len \<le> k}) d0 d') (poll_read_exact len) d"
proof (rule polls_mono [OF poll_read_exact_polls [OF _ assms(2)]], goal_cases)
  case 1
  with assms(1) show ?case by (simp add: between_def)
next
  case (2 d')
  with assms(1) show ?case by (auto simp: between_def halted_def same_range_def range_is_empty_def)
next
  case (3 u d')
  from assms(1) have "length (remaining d) \<le> length T" by (auto simp: between_def stream_of_def)
  with 3 assms show ?case by (auto simp: between_def same_range_def range_is_empty_def max_def)
qed

lemma between_mono: "between T K d d' \<Longrightarrow> K \<subseteq> L \<Longrightarrow> between T L d d'"
  by (auto simp: between_def)

lemma halted_mono: "halted T K d d' \<Longrightarrow> K \<subseteq> L \<Longrightarrow> halted T L d d'"
  by (auto simp: halted_def between_def)

lemma data_poll_hash_polls:
  assumes "between T K d0 d" and "T = 0 # 0 # 1 # bs @ rest" and "length bs = 32" and "\<forall>k \<in> K. k \<le> 35"
  shows "polls (halted T K d0) (\<lambda>x d'. x = [] \<and> stream_of d' T \<and> range_is_empty d' \<and>
    remaining d' = 0 # 0 # 1 # bs \<and> data_hash d' = Some (Blake3 bs)) (data_poll_hash 1 32) d"
  unfolding data_poll_hash_def
proof (rule polls_unless_pending [OF poll_read_exact_between [OF assms(1)]], goal_cases)
  case 1
  show ?case using assms(2,3) by simp
next
  case (2 d')
  then have s: "stream_of d' T" "range_is_empty d'" and "length (remaining d') = 35"
    using assms(4) by (auto simp: between_def)
  with remaining_prefix [OF s(1)] assms(2,3) have rem: "remaining d' = 0 # 0 # 1 # bs" by simp
  with s show ?case
    by (intro polls_at_once)
      (auto simp: rem assms(3) slice_of_def create_hash_def range_is_empty_def stream_of_def
        io_then_def io_bind_def succeeds_def)
qed

lemma data_poll_finish_polls:
  assumes "between T K d0 d" and "T = [0, 0] @ enc_hash h @ rest" and "hash_valid h" and "\<forall>k \<in> K. k \<le> 35"
  shows "polls (halted T (insert 3 K) d0) (\<lambda>x d'. x = [] \<and> stream_of d' T \<and> range_is_empty d' \<and>
    remaining d' = [0, 0] @ enc_hash h \<and> data_hash d' = Some h) data_poll_finish d"
proof -
  obtain bs where h: "h = Blake3 bs" "length bs = 32"
    using assms(3) by (cases h) (simp add: hash_valid_def)
  have T: "T = 0 # 0 # 1 # bs @ rest" by (simp add: assms(2) h enc_hash_def)
  let ?K = "insert 3 {k \<in> K. 3 \<le> k}"
  show ?thesis
    unfolding data_poll_finish_def
  proof (rule polls_unless_pending [OF polls_mono [OF poll_read_exact_between [OF assms(1)],
        where Q' = "\<lambda>_ d'. between T ?K d0 d'"]], goal_cases)
    case 1
    show ?case by (simp add: T)
  next
    case (2 d')
    then show ?case by (rule halted_mono) auto
  next
    case (4 d')
    then have len: "3 \<le> length (remaining d')" and "stream_of d' T" by (auto simp: between_def)
    from remaining_prefix [OF this(2)] len have "remaining d' ! 2 = 1"
      by (metis (no_types, lifting) T nth_Cons_0 nth_Cons_numeral nth_take numeral_3_eq_3 One_nat_def
          Suc_le_lessD numeral_2_eq_2 nth_Cons_Suc)
    with len have "index_of 2 (remaining d') = Ok 1" by (simp add: index_of_def)
    moreover have "polls (halted T (insert 3 K) d0) (\<lambda>x d'. x = [] \<and> stream_of d' T \<and> range_is_empty d' \<and>
        remaining d' = [0, 0] @ enc_hash h \<and> data_hash d' = Some h) (data_poll_hash 1 32) d'"
      by (rule polls_mono [OF data_poll_hash_polls [OF 4 T h(2)]])
        (use assms(4) in \<open>auto simp: h enc_hash_def elim: halted_mono\<close>)
    ultimately show ?case by (simp add: polls_def hash_length_def)
  qed auto
qed

lemma take_two_zero: "take 2 ([0, 0] @ xs) = [0, 0 :: byte]"
  by simp

lemma data_poll_fetch_end:
  assumes "between T K d0 d" and "T = [0, 0] @ enc_hash h @ rest" and "hash_valid h" and "\<forall>k \<in> K. k \<le> 35"
  shows "polls (halted T (insert 2 (insert 3 K)) d0) (\<lambda>x d'. x = [] \<and> stream_of d' T \<and> range_is_empty d' \<and>
    remaining d' = [0, 0] @ enc_hash h \<and> data_hash d' = Some h) (data_poll_fetch n) d"
  unfolding data_poll_fetch_def
proof (rule polls_unless_pending [OF polls_mono [OF poll_read_exact_between [OF assms(1)],
      where Q' = "\<lambda>_ d'. between T (insert 2 {k \<in> K. 2 \<le> k}) d0 d'"]], goal_cases)
  case 1
  show ?case by (simp add: assms(2))
next
  case (2 d')
  then show ?case by (rule halted_mono) auto
next
  case (4 d')
  then have len: "2 \<le> length (remaining d')" and "stream_of d' T" by (auto simp: between_def)
  from remaining_prefix [OF this(2)] len have "take 2 (remaining d') = take 2 T"
    by (metis min.absorb1 take_take)
  with len have "slice_of 0 2 (remaining d') = Ok [0, 0]" by (simp add: slice_of_def assms(2))
  moreover have "polls (halted T (insert 2 (insert 3 K)) d0) (\<lambda>x d'. x = [] \<and> stream_of d' T \<and>
      range_is_empty d' \<and> remaining d' = [0, 0] @ enc_hash h \<and> data_hash d' = Some h) data_poll_finish d'"
    by (rule polls_mono [OF data_poll_finish_polls [OF 4 assms(2,3)]])
      (use assms(4) in \<open>auto elim: halted_mono\<close>)
  ultimately show ?case by (simp add: polls_def)
qed auto

lemma data_poll_fetch_chunk:
  assumes "between T K d0 d" and "T = enc_string c @ rest" and "chunk_valid c" and "K \<subseteq> {0, 2}"
  shows "polls (halted T {0, 2} d0) (\<lambda>x d'. x = take n c \<and> stream_of d' (remaining d' @ rest) \<and>
    data_hash d' = data_hash d0 \<and>
    (if n < length c then \<not> range_is_empty d' \<and> range_end d' = length (remaining d') \<and>
       drop (range_start d') (remaining d') = drop n c
     else range_is_empty d' \<and> remaining d' = [])) (data_poll_fetch n) d"
    (is "polls _ ?Q _ _")
proof -
  let ?w = "word_of_nat (length c) :: 16 word"
  have w: "unat ?w = length c" "length c \<noteq> 0"
    using assms(3) by (auto simp: unat_length_u16 chunk_valid_def)
  show ?thesis
    unfolding data_poll_fetch_def
  proof (rule polls_unless_pending [OF polls_mono [OF poll_read_exact_between [OF assms(1)],
        where Q' = "\<lambda>_ d'. between T {2} d0 d'"]], goal_cases)
    case 1
    show ?case by (simp add: assms(2) enc_string_def)
  next
    case (2 d')
    then show ?case using assms(4) by (rule halted_mono)
  next
    case (3 u d')
    then show ?case by (rule between_mono) (use assms(4) in auto)
  next
    case (4 d1)
    then have "length (remaining d1) = 2" and "stream_of d1 T" by (auto simp: between_def)
    with remaining_prefix [OF this(2)] have "remaining d1 = u16_to_be_bytes ?w"
      by (simp add: assms(2) enc_string_def)
    then have "slice_of 0 2 (remaining d1) = Ok (u16_to_be_bytes ?w)" by (simp add: slice_of_def)
    moreover have "polls (halted T {0, 2} d0) ?Q (unless_pending (poll_read_exact (2 + length c))
            (\<lambda>d. at_once (data_copy n) (d\<lparr>range_start := 2, range_end := 2 + length c\<rparr>))) d1"
    proof (rule polls_unless_pending [OF polls_mono [OF poll_read_exact_between [OF 4],
          where Q' = "\<lambda>_ d'. between T {2 + length c} d0 d'"]], goal_cases)
      case 1
      show ?case by (simp add: assms(2) enc_string_def)
    next
      case (2 d')
      then show ?case by (rule halted_mono) auto
    next
      case (3 u d')
      then show ?case by (rule between_mono) auto
    next
      case (4 d2)
      then have len: "length (remaining d2) = 2 + length c" and s2: "stream_of d2 T"
        and hash: "data_hash d2 = data_hash d0" by (auto simp: between_def)
      with remaining_prefix [OF s2] have r2: "remaining d2 = u16_to_be_bytes ?w @ c"
        by (simp add: assms(2) enc_string_def)
      let ?d = "d2\<lparr>range_start := 2, range_end := 2 + length c\<rparr>"
      from s2 obtain r where r: "borrowed d2 = Some r" "prompt r" "avail (source r) = rest"
        by (auto simp: stream_of_def r2 assms(2) enc_string_def)
      have "\<not> range_is_empty ?d" "range_end ?d = length (remaining ?d)"
        using w r2 by (auto simp: range_is_empty_def)
      from data_copy_at [OF this, of n] have "succeeds (data_copy n) ?Q ?d"
        by (rule succeeds_mono) (use r in \<open>auto simp: r2 hash stream_of_def split: if_splits\<close>)
      from polls_at_once [OF this] show ?case by (simp add: polls_def)
    qed
    ultimately show ?case using w by (simp add: polls_def Let_def)
  qed
qed

text \<open>
  \<open>poll_at h rest d content\<close>: as \<open>data_at\<close>, but a poll may have stopped after the prefix of a
  chunk or inside the end of the blob.
\<close>

definition poll_at :: "supported_hash \<Rightarrow> bytes \<Rightarrow> data_reader \<Rightarrow> bytes \<Rightarrow> bool" where
  "poll_at h rest d content \<longleftrightarrow> hash_valid h \<and>
     (\<exists>r. borrowed d = Some r \<and> prompt r) \<and> (\<exists>cs. (\<forall>c \<in> set cs. chunk_valid c) \<and>
       ((\<not> range_is_empty d \<and> range_end d = length (remaining d) \<and>
         content = drop (range_start d) (remaining d) @ concat cs \<and>
         stream_of d (remaining d @ enc_body cs h @ rest)) \<or>
        (range_is_empty d \<and> content = concat cs \<and> stream_of d (enc_body cs h @ rest) \<and>
         length (remaining d) \<in> (if cs = [] then {0, 2, 3} else {0, 2})) \<or>
        (range_is_empty d \<and> content = [] \<and> stream_of d ([0, 0] @ enc_hash h @ rest) \<and>
         remaining d = [0, 0] @ enc_hash h \<and> data_hash d = Some h)))"

definition poll_done :: "supported_hash \<Rightarrow> bytes \<Rightarrow> data_reader \<Rightarrow> bool" where
  "poll_done h rest d \<longleftrightarrow>
     (\<exists>r. borrowed d = Some r \<and> prompt r \<and> avail (source r) = rest) \<and> data_hash d = Some h"

lemma data_poll_read_at:
  assumes "poll_at h rest d content" and "0 < n"
  shows "polls (\<lambda>d'. poll_at h rest d' content \<and> waits d' < waits d)
    (\<lambda>bs d'. length bs \<le> n \<and> (bs = [] \<longrightarrow> content = [] \<and> poll_done h rest d') \<and>
      (\<exists>content'. content = bs @ content' \<and> poll_at h rest d' content')) (data_poll_read n) d"
    (is "polls ?P ?Q _ _")
proof -
  from assms(1) obtain r cs where h: "hash_valid h" and r: "borrowed d = Some r"
    and cs: "\<forall>c \<in> set cs. chunk_valid c"
    and k: "(\<not> range_is_empty d \<and> range_end d = length (remaining d) \<and>
         content = drop (range_start d) (remaining d) @ concat cs \<and>
         stream_of d (remaining d @ enc_body cs h @ rest)) \<or>
        (range_is_empty d \<and> content = concat cs \<and> stream_of d (enc_body cs h @ rest) \<and>
         length (remaining d) \<in> (if cs = [] then {0, 2, 3} else {0, 2})) \<or>
        (range_is_empty d \<and> content = [] \<and> stream_of d ([0, 0] @ enc_hash h @ rest) \<and>
         remaining d = [0, 0] @ enc_hash h \<and> data_hash d = Some h)"
    unfolding poll_at_def by blast
  note len_h = length_enc_hash [OF h]
  from k consider (copy) "\<not> range_is_empty d" "range_end d = length (remaining d)"
      "content = drop (range_start d) (remaining d) @ concat cs" "stream_of d (remaining d @ enc_body cs h @ rest)"
    | (finished) K where "content = []" "between ([0, 0] @ enc_hash h @ rest) K d d" "\<forall>k \<in> K. k \<le> 35"
        "K = {0, 2, 3} \<or> K = {35} \<and> data_hash d = Some h \<and> remaining d = [0, 0] @ enc_hash h"
    | (chunk) c cs' where "cs = c # cs'" "content = c @ concat cs'"
        "between (enc_string c @ enc_body cs' h @ rest) {0, 2} d d"
  proof (elim disjE conjE, goal_cases)
    case 1
    then show ?case by (intro copy)
  next
    case 2
    show ?case
    proof (cases cs)
      case Nil
      with 2 show ?thesis by (intro finished [of "{0, 2, 3}"]) (simp_all add: between_def enc_body_Nil)
    next
      case (Cons c cs')
      with 2 show ?thesis by (intro chunk [of c cs']) (simp_all add: between_def enc_body_Cons)
    qed
  next
    case 3
    then show ?case by (intro finished [of "{35}"]) (simp_all add: between_def len_h)
  qed
  then show ?thesis
  proof cases
    case copy
    let ?s = "range_start d" and ?c' = "drop n (drop (range_start d) (remaining d)) @ concat cs"
    have run: "data_poll_read n d = at_once (data_copy n) d" using copy(1) r assms(2) by (simp add: data_poll_read_def)
    have ne: "drop ?s (remaining d) \<noteq> []" using copy(1,2) by (simp add: range_is_empty_def)
    have "succeeds (data_copy n) ?Q d"
    proof (rule succeeds_mono [OF data_copy_at [OF copy(1,2), of n]])
      fix x d'
      assume x: "x = take n (drop ?s (remaining d)) \<and> borrowed d' = borrowed d \<and> data_hash d' = data_hash d \<and>
        (if n < range_end d - range_start d
         then \<not> range_is_empty d' \<and> remaining d' = remaining d \<and> range_end d' = range_end d \<and>
           range_start d' = range_start d + n
         else range_is_empty d' \<and> remaining d' = [])"
      then have "content = x @ ?c'" unfolding copy(3) by (simp only: append_assoc [symmetric] append_take_drop_id)
      moreover have "poll_at h rest d' ?c'"
      proof (cases "n < range_end d - range_start d")
        case True
        with x h cs r copy(2,4) show ?thesis
          by (auto simp: poll_at_def stream_of_def add.commute intro!: exI [of _ cs])
      next
        case False
        with x h cs r copy(2,4) show ?thesis
          by (auto simp: poll_at_def stream_of_def intro!: exI [of _ cs])
      qed
      moreover have "x \<noteq> []" "length x \<le> n" using x ne assms(2) by auto
      ultimately show "?Q x d'" by blast
    qed
    then show ?thesis unfolding polls_def run by (auto simp: succeeds_def at_once_def)
  next
    case finished
    let ?T = "[0, 0] @ enc_hash h @ rest"
    have run: "data_poll_read n d = data_poll_fetch n d"
      using finished(2) r assms(2) by (simp add: data_poll_read_def between_def)
    from data_poll_fetch_end [OF finished(2) refl h finished(3), of n]
    have "polls ?P ?Q (data_poll_fetch n) d"
    proof (rule polls_mono, goal_cases)
      case (1 d')
      then have "waits d' < waits d" "stream_of d' ?T" "range_is_empty d'" and hash: "data_hash d' = data_hash d"
        and K: "length (remaining d') \<in> insert 2 (insert 3 K)"
        by (auto simp: halted_def between_def)
      moreover have "poll_at h rest d' []"
      proof (cases "length (remaining d') \<le> 3")
        case True
        with finished(4) K have "length (remaining d') \<in> {0, 2, 3}" by auto
        with h calculation(2,3) show ?thesis
          unfolding poll_at_def by (auto simp: stream_of_def enc_body_def enc_chunks_def intro!: exI [of _ "[]"])
      next
        case False
        with finished(4) K have "length (remaining d') = 35" "data_hash d = Some h" by auto
        with remaining_prefix [OF calculation(2)] have "remaining d' = [0, 0] @ enc_hash h" by (simp add: len_h)
        with h calculation(2,3) hash \<open>data_hash d = Some h\<close> show ?thesis
          unfolding poll_at_def by (auto simp: stream_of_def intro!: exI [of _ "[]"])
      qed
      ultimately show ?case using finished(1) by simp
    next
      case (2 x d')
      then have "poll_at h rest d' []"
        using h unfolding poll_at_def by (auto simp: stream_of_def intro!: exI [of _ "[]"])
      moreover have "poll_done h rest d'" using 2 by (auto simp: poll_done_def stream_of_def)
      ultimately show ?case using 2 finished(1) by auto
    qed
    then show ?thesis by (simp add: polls_def run)
  next
    case chunk
    have run: "data_poll_read n d = data_poll_fetch n d"
      using chunk(3) r assms(2) by (simp add: data_poll_read_def between_def)
    from cs chunk(1) have c: "chunk_valid c" and cs': "\<forall>c \<in> set cs'. chunk_valid c" by auto
    from data_poll_fetch_chunk [OF chunk(3) refl c subset_refl, of n]
    have "polls ?P ?Q (data_poll_fetch n) d"
    proof (rule polls_mono, goal_cases)
      case (1 d')
      then have "stream_of d' (enc_body cs h @ rest)" "range_is_empty d'" "length (remaining d') \<in> {0, 2}"
        "waits d' < waits d"
        by (auto simp: halted_def between_def chunk(1) enc_body_Cons)
      moreover from this have "poll_at h rest d' content"
        using h cs chunk(1,2) unfolding poll_at_def by (auto simp: stream_of_def intro!: exI [of _ cs])
      ultimately show ?case by blast
    next
      case (2 x d')
      let ?c' = "drop n c @ concat cs'"
      from 2 have "content = x @ ?c'" by (simp add: chunk(2))
      moreover have "x \<noteq> []" "length x \<le> n" using 2 c assms(2) by (auto simp: chunk_valid_def)
      moreover have "poll_at h rest d' ?c'"
        using 2 h cs' unfolding poll_at_def
        by (auto simp: stream_of_def split: if_splits intro!: exI [of _ cs'])
      ultimately show ?case by blast
    qed
    then show ?thesis by (simp add: polls_def run)
  qed
qed

interpretation polled_data_reader:
  poll_read_contract data_poll_read "poll_at h rest" "poll_done h rest" waits for h rest
  by unfold_locales (rule data_poll_read_at)

lemma data_reader_of_polled:
  "hash_valid h \<Longrightarrow> \<forall>c \<in> set cs. chunk_valid c \<Longrightarrow> prompt r \<Longrightarrow> avail (source r) = enc_body cs h @ rest \<Longrightarrow>
     poll_at h rest (data_reader_of r) (concat cs)"
  by (auto simp: poll_at_def data_reader_of_def range_is_empty_def stream_of_def intro!: exI [of _ cs])

section \<open>Writer\<close>

definition writer_new_async :: "(sink, writer) io" where
  "writer_new_async = io_then (tokio_write_all NCK00) (io_get (\<lambda>s. io_return \<lparr>sink_of = s\<rparr>))"

definition write_length_prefixed_async :: "bytes \<Rightarrow> (writer, unit) io" where
  "write_length_prefixed_async buf =
     (if length buf > MAX_LENGTH then io_fail InvalidInput
      else
        io_then (on_sink (tokio_write_all (u16_to_be_bytes (word_of_nat (length buf)))))
        (io_then (on_sink (tokio_write_all buf))
        (io_return ())))"

fun write_target_async :: "entry_target \<Rightarrow> (writer, unit) io" where
  "write_target_async (TData hash flags) =
     (case hash_data hash of (hash_id, bs) \<Rightarrow>
       io_then (on_sink (tokio_write_all [TYPE_DATA, hash_id]))
       (io_then (on_sink (tokio_write_all bs))
       (on_sink (tokio_write_all (u16_to_be_bytes (flags_bits flags))))))"
| "write_target_async (TLink dest flags) =
     io_then (on_sink (tokio_write_all [TYPE_LINK]))
     (io_then (write_length_prefixed_async dest)
     (on_sink (tokio_write_all (u16_to_be_bytes (flags_bits flags)))))"
| "write_target_async TDirectory = on_sink (tokio_write_all [TYPE_DIR])"

definition write_entry_async :: "entry \<Rightarrow> (writer, unit) io" where
  "write_entry_async e =
     io_then (on_sink (tokio_write_all [ENTRY_ENTRY]))
     (io_then (write_length_prefixed_async (path e))
     (io_then (write_target_async (target e))
     (io_return ())))"

definition write_data_async :: "supported_hasher \<Rightarrow> (writer, data_writer) io" where
  "write_data_async hasher =
     io_then (on_sink (tokio_write_all [ENTRY_DATA]))
     (io_get (\<lambda>w. io_return
       \<lparr>dw_writer = w, dw_hash = hasher, dw_buffer = [], dw_start = 0, dw_end = 0\<rparr>))"

definition finish_data_async :: "digest \<Rightarrow> (data_writer, writer \<times> supported_hash) io" where
  "finish_data_async b3 =
     io_then (on_writer (tokio_write_all (u16_to_be_bytes 0)))
     (io_get (\<lambda>d. let hash = supported_finalize b3 (dw_hash d) in
       case hash_data hash of (hash_id, bs) \<Rightarrow>
         io_then (on_writer (tokio_write_all [hash_id]))
         (io_then (on_writer (tokio_write_all bs))
         (io_get (\<lambda>d. io_return (dw_writer d, hash))))))"

lemma agree_write_all [agreeing]: "agree calm_sink (write_all bs) (tokio_write_all bs)"
  using write_all_script by (auto simp: agree_def calm_sink_def tokio_write_all_eq)

lemma agree_length_prefixed [agreeing]:
  "agree calm_writer (write_length_prefixed bs) (write_length_prefixed_async bs)"
  unfolding write_length_prefixed_def write_length_prefixed_async_def by (intro agreeing)

lemma agree_write_target [agreeing]: "agree calm_writer (write_target t) (write_target_async t)"
  by (cases t) (auto split: prod.split intro!: agreeing)

lemma agree_write_entry: "agree calm_writer (write_entry e) (write_entry_async e)"
  unfolding write_entry_def write_entry_async_def by (intro agreeing)

lemma agree_writer_new: "agree calm_sink writer_new writer_new_async"
  unfolding writer_new_def writer_new_async_def by (intro agreeing)

lemma agree_write_data: "agree calm_writer (write_data h) (write_data_async h)"
  unfolding write_data_def write_data_async_def by (intro agreeing)

lemma agree_finish_data: "agree calm_data_writer (finish_data b3) (finish_data_async b3)"
  unfolding finish_data_def finish_data_async_def by (auto simp: Let_def split: prod.split intro!: agreeing)

section \<open>The polled data writer\<close>

definition poll_flush_step :: "(data_writer, nat option) pio" where
  "poll_flush_step d =
     (case slice_of (dw_start d) (dw_end d) (dw_buffer d) of
        Err e \<Rightarrow> (Ready (Err e), d)
      | Panic \<Rightarrow> (Ready Panic, d)
      | Ok bs \<Rightarrow>
          (case sink_poll_write bs (sink_of (dw_writer d)) of (p, s') \<Rightarrow>
             let d1 = d\<lparr>dw_writer := dw_writer d\<lparr>sink_of := s'\<rparr>\<rparr> in
             case p of
               Ready (Ok len) \<Rightarrow>
                 let d2 = d1\<lparr>dw_start := dw_start d1 + len\<rparr> in
                 if dw_pending d2 then (Ready (Ok None), d2)
                 else if dw_end d2 < 2 then (Ready Panic, d2)
                 else (Ready (Ok (Some (dw_end d2 - 2))), d2)
             | Ready (Err e) \<Rightarrow> (Ready (Err e), d1)
             | Ready Panic \<Rightarrow> (Ready Panic, d1)
             | Pending \<Rightarrow> (Pending, d1)))"

partial_function (option) data_poll_write :: "data_writer poll_write_call" where
  "data_poll_write buf d =
     (if buf = [] then Some (Ready (Ok 0), d)
      else if dw_pending d then
        (case poll_flush_step d of
           (Ready (Ok None), d') \<Rightarrow> data_poll_write buf d'
         | (Ready (Ok (Some n)), d') \<Rightarrow> Some (Ready (Ok n), d')
         | (Ready (Err e), d') \<Rightarrow> Some (Ready (Err e), d')
         | (Ready Panic, d') \<Rightarrow> Some (Ready Panic, d')
         | (Pending, d') \<Rightarrow> Some (Pending, d'))
      else data_poll_write buf (start_chunk buf d))"

text \<open>\<open>poll_flush\<close> and \<open>poll_shutdown\<close> are the sink's.\<close>

definition poll_on_sink :: "(sink, unit) pio \<Rightarrow> (data_writer, unit) pio" where
  "poll_on_sink m d =
     (case m (sink_of (dw_writer d)) of (x, s') \<Rightarrow> (x, d\<lparr>dw_writer := dw_writer d\<lparr>sink_of := s'\<rparr>\<rparr>))"

definition data_poll_flush :: "(sink, unit) pio \<Rightarrow> (data_writer, unit) pio" where
  "data_poll_flush sink_poll_flush = poll_on_sink sink_poll_flush"

definition data_poll_shutdown :: "(sink, unit) pio \<Rightarrow> (data_writer, unit) pio" where
  "data_poll_shutdown sink_poll_shutdown = poll_on_sink sink_poll_shutdown"

text \<open>A flush that is ready at once does what the blocking one does.\<close>

lemma data_poll_flush_once: "data_poll_flush (at_once fl) = at_once (data_flush fl)"
  by (auto simp: fun_eq_iff data_poll_flush_def poll_on_sink_def data_flush_def on_writer_def on_sink_def
      at_once_def split: prod.split)

lemma poll_flush_step_once:
  assumes "\<nexists>sc. wscript (sink_of (dw_writer d)) = WWait # sc"
  shows "poll_flush_step d = at_once flush_step d"
proof -
  have "sink_poll_write bs (sink_of (dw_writer d)) = at_once (sink_write bs) (sink_of (dw_writer d))" for bs
    using assms by (cases "(bs, sink_of (dw_writer d))" rule: sink_poll_write.cases) (auto simp: at_once_def)
  then show ?thesis
    by (auto simp: poll_flush_step_def flush_step_def at_once_def on_writer_def on_sink_def io_bind_def
        io_then_def Let_def split: res.split prod.split)
qed

lemma poll_flush_step_wait:
  assumes "wscript (sink_of (dw_writer d)) = WWait # sc" and "chunk_at pre base cs c d"
  shows "\<exists>d'. poll_flush_step d = (Pending, d') \<and> chunk_at pre base cs c d' \<and> data_patience d' < data_patience d \<and>
    (calm_data_writer d \<longrightarrow> calm_data_writer d')"
proof (cases "sink_of (dw_writer d)")
  case (Sink w rm ws)
  with assms show ?thesis
    by (auto simp: poll_flush_step_def slice_of_def chunk_at_def dw_pending_def writer_at_def open_sink_def
        data_patience_def patience_def calm_data_writer_def calm_writer_def calm_sink_def)
qed

lemma data_poll_write_chunk:
  assumes "chunk_at pre base cs c d" and "calm_data_writer d" and "buf \<noteq> []"
  shows "(\<exists>d'. data_poll_write buf d = Some (Ready (Ok (length c)), d') \<and> blob_at pre base (cs @ [c]) d' \<and>
      calm_data_writer d') \<or>
    (\<exists>d'. data_poll_write buf d = Some (Pending, d') \<and> chunk_at pre base cs c d' \<and> calm_data_writer d' \<and>
       data_patience d' < data_patience d)"
  using assms(1,2)
proof (induction "dw_end d - dw_start d" arbitrary: d rule: less_induct)
  case less
  have pending: "dw_pending d" using less.prems by (simp add: chunk_at_def)
  show ?case
  proof (cases "\<exists>sc. wscript (sink_of (dw_writer d)) = WWait # sc")
    case True
    then obtain sc where "wscript (sink_of (dw_writer d)) = WWait # sc" ..
    from poll_flush_step_wait [OF this less.prems(1)] less.prems(2) show ?thesis
      using pending assms(3) by (auto simp: data_poll_write.simps [of buf d])
  next
    case False
    then have once: "poll_flush_step d = at_once flush_step d" by (intro poll_flush_step_once) auto
    have calm: "calm_data_writer (snd (flush_step d))"
      using agree_flush_step less.prems(2) by (simp add: agree_def)
    from less.prems(1) show ?thesis
    proof (cases rule: flush_step_at)
      case (more d')
      from less.hyps [OF more(3,2)] calm more(1,4) pending assms(3) show ?thesis
        by (auto simp: data_poll_write.simps [of buf d] once at_once_def data_patience_def)
    next
      case (finished d')
      with calm pending assms(3) show ?thesis
        by (auto simp: data_poll_write.simps [of buf d] once at_once_def)
    next
      case (again d')
      with less.prems(2) flush_step_calm [OF less.prems(2)] show ?thesis by simp
    qed
  qed
qed

definition polled_blob_state :: "bytes \<Rightarrow> bytes \<Rightarrow> bytes \<Rightarrow> bytes \<Rightarrow> data_writer \<Rightarrow> bool" where
  "polled_blob_state pre base x buf d \<longleftrightarrow> blob_state pre base x buf d \<and> calm_data_writer d"

interpretation polled_data_writer:
  poll_write_contract data_poll_write "polled_blob_state pre base" data_patience for pre base
proof
  fix x buf d
  assume d: "polled_blob_state pre base x buf d" and buf: "buf \<noteq> []"
  let ?c = "take MAX_LENGTH buf"
  from d obtain cs where x: "x = concat cs" and "blob_at pre base cs d \<or> chunk_at pre base cs ?c d"
    by (auto simp: polled_blob_state_def blob_state_def)
  moreover have "data_poll_write buf d = data_poll_write buf (start_chunk buf d)" if "blob_at pre base cs d"
    using that buf by (subst data_poll_write.simps) (simp add: blob_at_def)
  ultimately obtain d1 where "chunk_at pre base cs ?c d1" and d1: "data_poll_write buf d = data_poll_write buf d1"
      "data_patience d1 = data_patience d" and "calm_data_writer d1"
    using start_chunk_at buf d
    by (auto simp: data_patience_def polled_blob_state_def calm_data_writer_def intro: that [of "start_chunk buf d"])
  from data_poll_write_chunk [OF this(1,4) buf]
  show "(\<exists>n d'. data_poll_write buf d = Some (Ready (Ok n), d') \<and> 0 < n \<and> n \<le> length buf \<and>
        polled_blob_state pre base (x @ take n buf) (drop n buf) d') \<or>
      (\<exists>d'. data_poll_write buf d = Some (Pending, d') \<and> polled_blob_state pre base x buf d' \<and>
        data_patience d' < data_patience d)"
  proof (elim disjE exE conjE, goal_cases)
    case (1 d')
    have "x @ take (length ?c) buf = concat (cs @ [?c])" by (simp add: x take_min_length)
    then have "polled_blob_state pre base (x @ take (length ?c) buf) (drop (length ?c) buf) d'"
      unfolding polled_blob_state_def blob_state_def using 1(2,3) by blast
    moreover have "0 < length ?c" "length ?c \<le> length buf" using buf by (simp_all add: MAX_LENGTH_def)
    ultimately show ?case using 1(1) d1 by metis
  next
    case (2 d')
    with x buf show ?case by (auto simp: d1 polled_blob_state_def blob_state_def)
  qed
qed (auto simp: polled_blob_state_def blob_state_def)

section \<open>A whole archive, asynchronously\<close>

definition write_blob_async :: "digest \<Rightarrow> writer blob_call" where
  "write_blob_async b3 bs w =
     (case write_data_async supported_hasher_blake3 w of
        (Err e, _) \<Rightarrow> Some (Err e)
      | (Panic, _) \<Rightarrow> Some Panic
      | (Ok d, _) \<Rightarrow>
          (case write_all_polled data_poll_write bs d of
             None \<Rightarrow> None
           | Some (Err e, _) \<Rightarrow> Some (Err e)
           | Some (Panic, _) \<Rightarrow> Some Panic
           | Some (Ok _, d') \<Rightarrow> Some (fst (finish_data_async b3 d'))))"

definition write_archive_async :: "digest \<Rightarrow> part list \<Rightarrow> sink \<Rightarrow> ((error_kind, writer) res) option" where
  "write_archive_async b3 ps s =
     (case writer_new_async s of
        (Ok w, _) \<Rightarrow> write_parts write_entry_async (write_blob_async b3) ps w
      | (Err e, _) \<Rightarrow> Some (Err e)
      | (Panic, _) \<Rightarrow> Some Panic)"

definition read_blob_async :: "nat \<Rightarrow> reader content_call" where
  "read_blob_async n r =
     (case read_to_end_polled data_poll_read n [] (data_reader_of r) of
        None \<Rightarrow> None
      | Some (x, d) \<Rightarrow> Some (map_res (\<lambda>bs. (bs, data_hash d)) x, release r d))"

definition read_archive_async :: "nat \<Rightarrow> source \<Rightarrow> ((error_kind, content list) res \<times> reader) option" where
  "read_archive_async n src = read_events next_event_async (read_blob_async n) [] (reader_new src)"

definition calm_writer_at :: "writer \<Rightarrow> bytes \<Rightarrow> bool" where
  "calm_writer_at w a \<longleftrightarrow> writer_at w a \<and> calm_writer w"

text \<open>What a call achieves, the call that agrees with it achieves too, and keeps the invariant.\<close>

lemma agree_succeeds:
  "agree I m m' \<Longrightarrow> I s \<Longrightarrow> succeeds m Q s \<Longrightarrow> succeeds m' (\<lambda>x s'. Q x s' \<and> I s') s"
  by (auto simp: agree_def succeeds_def)

text \<open>The consuming operations return the state they leave behind.\<close>

lemma writer_new_state: "writer_new s = (Ok w, s') \<Longrightarrow> sink_of w = s'"
  unfolding writer_new_def by (elim io_then_OkE) auto

lemma write_data_state: "write_data h w = (Ok d, w') \<Longrightarrow> dw_writer d = w'"
  unfolding write_data_def by (elim io_then_OkE) auto

lemma finish_data_state: "finish_data b3 d = (Ok (w, h), d') \<Longrightarrow> dw_writer d' = w"
  unfolding finish_data_def by (elim io_then_OkE) (auto simp: Let_def split: prod.splits elim!: io_then_OkE)

lemma write_data_async_at:
  assumes "calm_writer_at w a"
  obtains d w1 where "write_data_async supported_hasher_blake3 w = (Ok d, w1)"
    and "polled_blob_state [] (a @ [ENTRY_DATA]) [] [] d"
proof -
  from assms have w: "writer_at w a" "calm_writer w" by (simp_all add: calm_writer_at_def)
  from write_data_at [OF w(1), of "[]"] obtain d w1 where
    d: "write_data supported_hasher_blake3 w = (Ok d, w1)" "blob_at [] (a @ [ENTRY_DATA]) [] d"
    by (auto simp: succeeds_def supported_hasher_blake3_def)
  with agree_write_data [of supported_hasher_blake3] w(2)
  have "write_data_async supported_hasher_blake3 w = (Ok d, w1)" and "calm_writer w1"
    by (auto simp: agree_def)
  moreover from this(2) d(1) have "calm_data_writer d" by (simp add: calm_data_writer_def write_data_state)
  with d(2) have "polled_blob_state [] (a @ [ENTRY_DATA]) [] [] d"
    by (auto simp: polled_blob_state_def blob_state_def intro: exI [of _ "[]"])
  ultimately show thesis using that by blast
qed

lemma finish_data_async_at:
  assumes "polled_blob_state [] (a @ [ENTRY_DATA]) bs [] d"
  obtains w' d2 cs where "finish_data_async b3 d = (Ok (w', Blake3 (b3 bs)), d2)"
    and "\<forall>c \<in> set cs. chunk_valid c" and "concat cs = bs"
    and "calm_writer_at w' (a @ enc_blob cs (Blake3 (b3 bs)))"
    and "written (sink_of (dw_writer d)) = a @ ENTRY_DATA # enc_chunks cs"
proof -
  from assms obtain cs where cs: "bs = concat cs" "blob_at [] (a @ [ENTRY_DATA]) cs d"
    and calm: "calm_data_writer d"
    by (auto simp: polled_blob_state_def blob_state_def)
  from finish_data_at [OF cs(2), of b3] obtain w' d2 where
    fin: "finish_data b3 d = (Ok (w', Blake3 (b3 bs)), d2)"
    "writer_at w' ((a @ [ENTRY_DATA]) @ enc_body cs (Blake3 (b3 bs)))"
    by (auto simp: succeeds_def cs(1))
  with agree_finish_data [of b3] calm
  have "finish_data_async b3 d = (Ok (w', Blake3 (b3 bs)), d2)" "calm_data_writer d2"
    by (auto simp: agree_def)
  with fin finish_data_state [OF fin(1)] cs show thesis
    by (intro that [of w' d2 cs])
      (auto simp: blob_at_def enc_blob_def calm_writer_at_def calm_data_writer_def writer_at_def)
qed

lemma write_blob_async_at:
  assumes "calm_writer_at w a"
  shows "\<exists>w' x. write_blob_async b3 bs w = Some (Ok (w', Blake3 (b3 bs))) \<and>
    encodes b3 (PData bs) x \<and> calm_writer_at w' (a @ x)"
proof -
  from write_data_async_at [OF assms] obtain d w1 where
    d: "write_data_async supported_hasher_blake3 w = (Ok d, w1)" "polled_blob_state [] (a @ [ENTRY_DATA]) [] [] d" .
  from polled_data_writer.write_all_polled_law [OF polled_data_writer.next_buffer [OF d(2)]] obtain d' where
    d': "write_all_polled data_poll_write bs d = Some (Ok (), d')" "polled_blob_state [] (a @ [ENTRY_DATA]) bs [] d'"
    by auto
  from finish_data_async_at [OF d'(2), of b3] obtain w' d2 cs where
    "finish_data_async b3 d' = (Ok (w', Blake3 (b3 bs)), d2)" "\<forall>c \<in> set cs. chunk_valid c" "concat cs = bs"
    "calm_writer_at w' (a @ enc_blob cs (Blake3 (b3 bs)))" .
  with d d' show ?thesis
    by (intro exI [of _ w'] exI [of _ "enc_blob cs (Blake3 (b3 bs))"]) (auto simp: write_blob_async_def)
qed

interpretation async_writer: archive_writer write_entry_async "write_blob_async b3" calm_writer_at b3 for b3
proof (unfold_locales, goal_cases)
  case (1 w a e)
  then have "calm_writer w" "writer_at w a" by (simp_all add: calm_writer_at_def)
  from agree_succeeds [OF agree_write_entry this(1) write_entry_at [OF this(2) 1(2)]] show ?case
    by (auto simp: calm_writer_at_def elim: succeeds_mono)
next
  case (2 w a bs)
  then show ?case by (rule write_blob_async_at)
qed

text \<open>Readers: those past the header whose source only waits.\<close>

definition prompt_at :: "reader \<Rightarrow> bytes \<Rightarrow> bool" where
  "prompt_at r bs \<longleftrightarrow> prompt r \<and> avail (source r) = bs"

lemma prompt_at_reader_at: "prompt_at r bs \<Longrightarrow> reader_at True r bs \<and> calm {RWait} r"
  using prompt_reader_at by (auto simp: prompt_at_def calm_def within_def prompt_def)

lemma reader_at_prompt_at: "reader_at True r bs \<Longrightarrow> calm {RWait} r \<Longrightarrow> prompt_at r bs"
  by (auto simp: prompt_at_def reader_at_def prompt_def calm_def within_def)

lemma async_event:
  assumes "prompt_at r bs" and "succeeds next_event (\<lambda>ev r'. ev = e \<and> reader_at True r' rest) r"
  shows "succeeds next_event_async (\<lambda>ev r'. ev = e \<and> prompt_at r' rest) r"
  using agree_succeeds [OF agree_next_event _ assms(2), of "{RWait}"] prompt_at_reader_at [OF assms(1)]
  by (auto elim!: succeeds_mono intro: reader_at_prompt_at)

lemma read_blob_async_at:
  assumes "prompt_at r (enc_blob cs h @ rest)" and "hash_valid h" and "\<forall>c \<in> set cs. chunk_valid c"
    and "0 < n"
  shows "\<exists>r1 r2. next_event_async r = (Ok EvData, r1) \<and>
    read_blob_async n r1 = Some (Ok (concat cs, Some h), r2) \<and> prompt_at r2 rest"
proof -
  from prompt_at_reader_at [OF assms(1)] have "reader_at True r (enc_blob cs h @ rest)" by simp
  from async_event [OF assms(1) next_event_blob [OF this]] obtain r1 where
    r1: "next_event_async r = (Ok EvData, r1)" "prompt r1" "avail (source r1) = enc_body cs h @ rest"
    by (auto simp: succeeds_def prompt_at_def)
  from polled_data_reader.read_to_end_polled_law [OF data_reader_of_polled [OF assms(2,3) r1(2,3)] assms(4), of "[]"]
  obtain d where "read_to_end_polled data_poll_read n [] (data_reader_of r1) = Some (Ok (concat cs), d)"
    "poll_done h rest d" by auto
  with r1(1) show ?thesis by (auto simp: read_blob_async_def poll_done_def release_def prompt_at_def)
qed

interpretation async_reader: archive_reader next_event_async "read_blob_async (Suc n)" prompt_at for n
proof (unfold_locales, goal_cases)
  case (1 r)
  with prompt_at_reader_at [OF 1] show ?case by (intro async_event next_event_end) auto
next
  case (2 r e rest)
  with prompt_at_reader_at [OF 2(1)] show ?case by (intro async_event next_event_entry) auto
next
  case (3 r cs h rest)
  then show ?case by (intro read_blob_async_at) auto
qed

text \<open>The writer past the header, and what a reader makes of the bytes of an archive.\<close>

lemma writer_new_async_at:
  assumes "open_sink s" and "calm_sink s"
  obtains w s' where "writer_new_async s = (Ok w, s')" and "calm_writer_at w (written s @ NCK00)"
proof -
  from agree_succeeds [OF agree_writer_new assms(2) writer_new_at [OF assms(1)]] obtain w s' where
    w: "writer_new_async s = (Ok w, s')" "writer_at w (written s @ NCK00)" "calm_sink s'" by (auto simp: succeeds_def)
  with agreeD [OF agree_writer_new assms(2)] have "sink_of w = s'" by (intro writer_new_state) simp
  with w show thesis by (intro that [of w s']) (auto simp: calm_writer_at_def calm_writer_def)
qed

lemma next_event_header_async:
  assumes "avail src = NCK00 @ rest" and "set (script src) \<subseteq> {RWait}"
  obtains r' where "prompt_at r' rest" and "next_event_async (reader_new src) = next_event_async r'"
proof -
  have "reader_at False (reader_new src) (NCK00 @ rest)"
    using assms by (auto simp: reader_at_def reader_new_def steady_def faults_def)
  from read_header_at [OF this] obtain r' where
    r': "read_header (reader_new src) = (Ok (), r')" "reader_at True r' rest"
    by (auto simp: succeeds_def)
  have calm: "calm {RWait} (reader_new src)" using assms(2) by (auto simp: calm_def within_def reader_new_def)
  with agree_read_header [of "{RWait}"] r'(1)
  have h': "read_header_async (reader_new src) = (Ok (), r')" and "calm {RWait} r'" by (auto simp: agree_def)
  with r'(2) have p: "prompt_at r' rest" by (intro reader_at_prompt_at)
  have "read_header_async r' = (Ok (), r')" using r'(2) by (simp add: read_header_async_def reader_at_def)
  with h' have "next_event_async (reader_new src) = next_event_async r'" by (simp add: next_event_async_def)
  with p that show thesis by blast
qed

lemma archive_reads_back:
  assumes "blake3_documented b3" and "list_all2 (encodes b3) ps xs"
    and "avail src = NCK00 @ concat xs" and "set (script src) \<subseteq> {RWait}"
  shows "\<exists>r. read_archive_async (Suc n) src = Some (Ok (map (read_back b3) ps), r)"
proof -
  from next_event_header_async [OF assms(3,4)] obtain r' where
    p: "prompt_at r' (concat xs)" and first: "next_event_async (reader_new src) = next_event_async r'" .
  from async_reader.read_events_law [OF assms(1,2) p, of n "[]"] show ?thesis
    by (auto simp: read_archive_async_def read_events_start [OF first])
qed

text \<open>
  C8: An archive written asynchronously to a sink that makes progress, with any number of
  pending and partial writes, reads back asynchronously, from a source that is either not
  ready or delivers what it is asked for, as the same entries and blobs, each blob with the
  digest of its content.
\<close>

theorem archive_roundtrip_async:
  assumes "blake3_documented b3" and "open_sink s" and "calm_sink s" and "written s = []"
    and "\<forall>p \<in> set ps. part_valid p" and "0 < n"
  shows "\<exists>w. write_archive_async b3 ps s = Some (Ok w) \<and>
    (\<forall>src. set (script src) \<subseteq> {RWait} \<longrightarrow> avail src = written (writer_into_inner w) \<longrightarrow>
       (\<exists>r. read_archive_async n src = Some (Ok (map (read_back b3) ps), r)))"
proof -
  obtain m where n: "n = Suc m" using assms(6) by (cases n) auto
  from writer_new_async_at [OF assms(2,3)] assms(4) obtain w0 s' where
    w0: "writer_new_async s = (Ok w0, s')" "calm_writer_at w0 NCK00" by auto
  from async_writer.write_parts_law [OF w0(2) assms(5), of b3] obtain w xs where
    w: "write_parts write_entry_async (write_blob_async b3) ps w0 = Some (Ok w)"
    and xs: "list_all2 (encodes b3) ps xs" and "written (writer_into_inner w) = NCK00 @ concat xs"
    by (auto simp: calm_writer_at_def writer_at_def writer_into_inner_def)
  with archive_reads_back [OF assms(1) xs] w0(1) show ?thesis
    by (intro exI [of _ w]) (auto simp: write_archive_async_def n)
qed

section \<open>What the callers see\<close>

theorem archive_roundtrip_async_witness:
  "\<exists>w r. write_archive_async (\<lambda>_. replicate 32 7) [PEntry (entry_directory [47]), PData [1, 2, 3]]
      (Sink [] None [Take 3, WWait, Take 1]) = Some (Ok w) \<and>
    read_archive_async 2 (Source (written (writer_into_inner w)) [RWait, RWait]) =
      Some (Ok [CEntry (entry_directory [47]), CData [1, 2, 3] (Some (Blake3 (replicate 32 7)))], r)"
proof -
  let ?ps = "[PEntry (entry_directory [47]), PData [1, 2, 3]]" and ?s = "Sink [] None [Take 3, WWait, Take 1]"
  have "blake3_documented (\<lambda>_. replicate 32 7)" by (simp add: blake3_documented_def)
  moreover have "open_sink ?s" "calm_sink ?s" by (simp_all add: open_sink_def calm_sink_def)
  moreover have "\<forall>p \<in> set ?ps. part_valid p"
    by (simp add: entry_valid_def entry_directory_def entry_new_def MAX_LENGTH_def)
  ultimately obtain w where w: "write_archive_async (\<lambda>_. replicate 32 7) ?ps ?s = Some (Ok w)"
    "\<forall>src. set (script src) \<subseteq> {RWait} \<longrightarrow> avail src = written (writer_into_inner w) \<longrightarrow>
       (\<exists>r. read_archive_async 2 src = Some (Ok (map (read_back (\<lambda>_. replicate 32 7)) ?ps), r))"
    using archive_roundtrip_async [of "\<lambda>_. replicate 32 7" ?s ?ps 2] by auto
  from w(2) [rule_format, of "Source (written (writer_into_inner w)) [RWait, RWait]"]
  have "\<exists>r. read_archive_async 2 (Source (written (writer_into_inner w)) [RWait, RWait]) =
      Some (Ok (map (read_back (\<lambda>_. replicate 32 7)) ?ps), r)" by simp
  with w(1) show ?thesis by auto
qed

text \<open>
  C17: On a source that is never interrupted, the asynchronous \<open>Reader\<close> returns the same events
  and errors as the blocking one and leaves the same state.
\<close>

theorem reader_async_agrees:
  assumes "Interrupted \<notin> faults (source r)"
  shows "next_event_async r = next_event r"
  using assms agreeD [OF agree_next_event, of UNIV r] by (auto simp: calm_def within_def faults_def)

theorem reader_async_agrees_witness:
  "next_event_async (reader_new (Source [78, 67, 75, 48, 48, 2] [Give 2, RFail BrokenPipe])) =
    next_event (reader_new (Source [78, 67, 75, 48, 48, 2] [Give 2, RFail BrokenPipe]))"
  by (rule reader_async_agrees) (simp add: reader_new_def)

text \<open>
  C18: On a sink that is never interrupted, the asynchronous \<open>Writer\<close> writes the same bytes and
  returns the same results as the blocking one: when it is made, when it writes an entry, when a
  blob is opened, and when a blob is finished.
\<close>

theorem writer_async_agrees:
  assumes "calm_sink s" and "calm_writer w" and "calm_data_writer d"
  shows "writer_new_async s = writer_new s \<and> write_entry_async e w = write_entry e w \<and>
    write_data_async h w = write_data h w \<and> finish_data_async b3 d = finish_data b3 d"
  using agreeD [OF agree_writer_new assms(1)] agreeD [OF agree_write_entry assms(2)]
    agreeD [OF agree_write_data assms(2)] agreeD [OF agree_finish_data assms(3)] by simp

theorem writer_async_agrees_witness:
  "writer_new_async (Sink [] (Some 3) [Take 0]) = writer_new (Sink [] (Some 3) [Take 0]) \<and>
   write_entry_async (entry_directory [1]) \<lparr>sink_of = Sink [] (Some 3) [Take 0]\<rparr> =
     write_entry (entry_directory [1]) \<lparr>sink_of = Sink [] (Some 3) [Take 0]\<rparr> \<and>
   finish_data_async (\<lambda>_. replicate 32 7) \<lparr>dw_writer = \<lparr>sink_of = Sink [] (Some 9) [Take 1]\<rparr>, dw_hash = supported_hasher_blake3,
       dw_buffer = [], dw_start = 0, dw_end = 0\<rparr> =
     finish_data (\<lambda>_. replicate 32 7) \<lparr>dw_writer = \<lparr>sink_of = Sink [] (Some 9) [Take 1]\<rparr>, dw_hash = supported_hasher_blake3,
       dw_buffer = [], dw_start = 0, dw_end = 0\<rparr>"
  using writer_async_agrees [of "Sink [] (Some 3) [Take 0]" "\<lparr>sink_of = Sink [] (Some 3) [Take 0]\<rparr>"
      "\<lparr>dw_writer = \<lparr>sink_of = Sink [] (Some 9) [Take 1]\<rparr>, dw_hash = supported_hasher_blake3, dw_buffer = [], dw_start = 0, dw_end = 0\<rparr>"]
  by (simp add: calm_data_writer_def calm_writer_def calm_sink_def)

text \<open>
  The polled \<open>DataReader\<close> takes an error, the end of the input, or a read of one byte where
  two are needed for success, and then panics on its too short buffer.
\<close>

theorem data_poll_read_panics:
  assumes "borrowed d = Some r" and "valid r" and "0 < n" and "range_is_empty d" and "remaining d = []"
    and "src_poll_read 2 (source r) = (Ready x, s)" and "\<forall>bs. x = Ok bs \<longrightarrow> length bs < 2"
  shows "fst (data_poll_read n d) = Ready Panic"
  by (rule data_poll_read_short [OF assms])

theorem data_poll_read_panics_witness:
  "fst (data_poll_read 10 (data_reader_of \<lparr>source = Source [0, 3, 1, 2, 3] [Give 0], valid = True, got_header = True\<rparr>)) =
    Ready Panic"
  by (rule data_poll_read_panics [where x = "Ok [0]"]) (auto simp: data_reader_of_def range_is_empty_def)

end
