(* ===== verification/Archive_Tests.thy ===== *)
theory Archive_Tests
  imports Archive_Async
begin

text \<open>
  The tests of \<open>crates/archive/src/read.rs\<close> and \<open>write.rs\<close>, run on the model: their bytes are those
  of the source, an assertion that fails is a panic, and the blocking test and the asynchronous one
  are one program over the operations they use. The tests of \<open>write_data\<close> are for the chunk length
  of a test build, and are left out.
\<close>

section \<open>Tests as programs\<close>

type_synonym 'r test = "'r \<Rightarrow> ((error_kind, unit) res \<times> 'r) option"

definition assert_that :: "bool \<Rightarrow> 'r test" where
  "assert_that b r = Some (if b then Ok () else Panic, r)"

definition and_then :: "'r test \<Rightarrow> 'r test \<Rightarrow> 'r test" where
  "and_then s t r =
     (case s r of
        None \<Rightarrow> None
      | Some (Ok _, r') \<Rightarrow> t r'
      | Some (Err e, r') \<Rightarrow> Some (Err e, r')
      | Some (Panic, r') \<Rightarrow> Some (Panic, r'))"

definition on_event :: "('r, read_event) io \<Rightarrow> (read_event \<Rightarrow> 'r test) \<Rightarrow> 'r test" where
  "on_event nx f r =
     (case nx r of
        (Ok ev, r') \<Rightarrow> f ev r'
      | (Err e, r') \<Rightarrow> Some (Err e, r')
      | (Panic, r') \<Rightarrow> Some (Panic, r'))"

fun get_entry :: "read_event \<Rightarrow> (error_kind, entry) res" where
  "get_entry (EvEntry v) = Ok v"
| "get_entry _ = Panic"

definition expect_entry :: "entry \<Rightarrow> read_event \<Rightarrow> 'r test" where
  "expect_entry e ev = assert_that (get_entry ev = Ok e)"

definition expect_none :: "read_event \<Rightarrow> 'r test" where
  "expect_none ev = assert_that (read_event_is_none ev)"

definition expect_data :: "'r content_call \<Rightarrow> bytes \<Rightarrow> read_event \<Rightarrow> 'r test" where
  "expect_data blob data ev r =
     (case ev of
        EvData \<Rightarrow>
          (case blob r of
             None \<Rightarrow> None
           | Some (Ok (buf, _), r') \<Rightarrow> assert_that (data = buf) r'
           | Some (Err e, r') \<Rightarrow> Some (Err e, r')
           | Some (Panic, r') \<Rightarrow> Some (Panic, r'))
      | _ \<Rightarrow> assert_that False r)"

section \<open>The bytes\<close>

definition test1_digest :: bytes where
  "test1_digest = [53, 153, 237, 239, 40, 175, 166, 123, 155, 236, 152, 61, 87, 65, 109, 154,
     44, 195, 58, 22, 101, 39, 195, 246, 206, 42, 171, 239, 150, 246, 108, 82]"

definition data_digest :: bytes where
  "data_digest = [183, 131, 9, 179, 213, 252, 87, 101, 234, 79, 2, 166, 220, 29, 251, 99,
     55, 1, 144, 71, 0, 17, 241, 2, 83, 98, 220, 105, 30, 23, 136, 149]"

definition entries_expected :: bytes where
  "entries_expected =
     bytes_of ''NCK00'' @
     [0x02] @ [0x00, 0x09] @ bytes_of ''/tmp/test'' @ [0x01] @ [0x01] @ test1_digest @ [0x00, 0x01] @
     [0x02] @ [0x00, 0x09] @ bytes_of ''/tmp/test'' @ [0x02] @ [0x00, 0x0A] @ bytes_of ''../../test'' @ [0x00, 0x00] @
     [0x02] @ [0x00, 0x09] @ bytes_of ''/tmp/test'' @ [0x03]"

text \<open>The bytes from one value up to, not including, another.\<close>

definition byte_range :: "nat \<Rightarrow> nat \<Rightarrow> bytes" where
  "byte_range m n = map word_of_nat [m..<n]"

definition data_expected :: bytes where
  "data_expected =
     bytes_of ''NCK00'' @
     [0x01] @ [0x00, 0x20] @ byte_range 0 0x20 @ [0x00, 0x11] @ byte_range 0x20 0x31 @ [0x00, 0x00] @ [0x01] @ data_digest @
     [0x01] @ [0x00, 0x20] @ byte_range 0 0x20 @ [0x00, 0x12] @ byte_range 0x20 0x32 @ [0x00, 0x00] @ [0x01] @ data_digest"

section \<open>The tests of the reader\<close>

definition read_entries :: "('r, read_event) io \<Rightarrow> 'r test" where
  "read_entries nx =
     and_then (on_event nx (expect_entry (entry_data (bytes_of ''/tmp/test'') (Blake3 test1_digest) (Some EXECUTABLE))))
     (and_then (on_event nx (expect_entry (entry_link (bytes_of ''/tmp/test'') (bytes_of ''../../test'') None)))
     (and_then (on_event nx (expect_entry (entry_directory (bytes_of ''/tmp/test''))))
     (and_then (on_event nx expect_none)
     (on_event nx expect_none))))"

definition read_data :: "('r, read_event) io \<Rightarrow> ('r, read_event) io \<Rightarrow> 'r content_call \<Rightarrow> 'r test" where
  "read_data nx nx_last blob =
     and_then (on_event nx (expect_data blob (byte_range 0 49)))
     (and_then (on_event nx (expect_data blob (byte_range 0 50)))
     (on_event nx_last expect_none))"

text \<open>A slice delivers all that it is asked for.\<close>

definition slice_reader :: "bytes \<Rightarrow> reader" where
  "slice_reader bs = reader_new (Source bs [])"

definition read_entries_test :: "((error_kind, unit) res \<times> reader) option" where
  "read_entries_test = read_entries next_event (slice_reader entries_expected)"

definition read_entries_async_test :: "((error_kind, unit) res \<times> reader) option" where
  "read_entries_async_test = read_entries next_event_async (slice_reader entries_expected)"

text \<open>\<open>n\<close> is the size of the reads that \<open>read_to_end\<close> makes.\<close>

definition read_data_test :: "nat \<Rightarrow> ((error_kind, unit) res \<times> reader) option" where
  "read_data_test n = read_data next_event next_event (read_blob n) (slice_reader data_expected)"

text \<open>The asynchronous test ends with a blocking call.\<close>

definition read_data_async_test :: "nat \<Rightarrow> ((error_kind, unit) res \<times> reader) option" where
  "read_data_async_test n = read_data next_event_async next_event (read_blob_async n) (slice_reader data_expected)"

section \<open>The tests of the writer\<close>

definition make_blake :: "digest \<Rightarrow> bytes \<Rightarrow> supported_hash" where
  "make_blake b3 data = supported_finalize b3 (supported_update supported_hasher_blake3 data)"

definition write_entries :: "(sink, writer) io \<Rightarrow> (entry \<Rightarrow> (writer, unit) io) \<Rightarrow> digest \<Rightarrow> (error_kind, unit) res" where
  "write_entries new we b3 =
     (case new (Sink [] None []) of
        (Ok w, _) \<Rightarrow>
          (case io_then (we (entry_data (bytes_of ''/tmp/test'') (make_blake b3 (bytes_of ''test1'')) (Some EXECUTABLE)))
              (io_then (we (entry_link (bytes_of ''/tmp/test'') (bytes_of ''../../test'') None))
              (we (entry_directory (bytes_of ''/tmp/test'')))) w of
             (Ok _, w') \<Rightarrow> if entries_expected = written (writer_into_inner w') then Ok () else Panic
           | (Err e, _) \<Rightarrow> Err e
           | (Panic, _) \<Rightarrow> Panic)
      | (Err e, _) \<Rightarrow> Err e
      | (Panic, _) \<Rightarrow> Panic)"

definition write_entry_test :: "digest \<Rightarrow> (error_kind, unit) res" where
  "write_entry_test = write_entries writer_new write_entry"

definition write_entry_async_test :: "digest \<Rightarrow> (error_kind, unit) res" where
  "write_entry_async_test = write_entries writer_new_async write_entry_async"

section \<open>The tests pass\<close>

text \<open>The bytes are encodings; the entries have the digest that BLAKE3 has for \<open>test1\<close>.\<close>

definition test_entries :: "entry list" where
  "test_entries =
     [entry_data (bytes_of ''/tmp/test'') (Blake3 test1_digest) (Some EXECUTABLE),
      entry_link (bytes_of ''/tmp/test'') (bytes_of ''../../test'') None,
      entry_directory (bytes_of ''/tmp/test'')]"

lemma test_bytes: "bytes_of ''NCK00'' = NCK00" "length (bytes_of s) = length s"
  by (simp_all add: bytes_of_def NCK00_def)

lemma entries_expected_enc: "entries_expected = NCK00 @ concat (map enc_entry test_entries)"
  by (simp add: entries_expected_def test_entries_def enc_entry_def enc_string_def enc_hash_def entry_data_def
      entry_link_def entry_directory_def entry_new_def test_bytes ENTRY_ENTRY_def TYPE_DATA_def TYPE_LINK_def
      TYPE_DIR_def EXECUTABLE_def u16_to_be_bytes_def be_bytes_2 byte_of_nat_def)

lemma test_entries_valid: "e \<in> set test_entries \<Longrightarrow> entry_valid e"
  by (auto simp: test_entries_def entry_valid_def entry_data_def entry_link_def entry_directory_def entry_new_def
      test_bytes MAX_LENGTH_def hash_valid_def test1_digest_def flags_valid_def from_bits_truncate_def EXECUTABLE_def)

abbreviation test_chunks :: "nat \<Rightarrow> bytes list" where
  "test_chunks n \<equiv> [byte_range 0 32, byte_range 32 n]"

lemma data_expected_enc:
  "data_expected = NCK00 @ enc_blob (test_chunks 49) (Blake3 data_digest) @ enc_blob (test_chunks 50) (Blake3 data_digest)"
  by (simp add: data_expected_def enc_blob_def enc_body_def enc_chunks_def enc_string_def enc_hash_def byte_range_def
      test_bytes ENTRY_DATA_def u16_to_be_bytes_def be_bytes_2 byte_of_nat_def)

lemma test_chunks_valid: "32 < n \<Longrightarrow> n < 100 \<Longrightarrow> \<forall>c \<in> set (test_chunks n). chunk_valid c"
  by (simp add: chunk_valid_def byte_range_def MAX_LENGTH_def)

lemma test_chunks_concat: "32 < n \<Longrightarrow> concat (test_chunks n) = byte_range 0 n"
  using upt_add_eq_append [of 0 32 "n - 32"] by (simp add: byte_range_def flip: map_append)

context archive_reader
begin

lemma read_entries_pass:
  assumes "left r (concat (map enc_entry test_entries))"
  shows "\<exists>r'. read_entries nx r = Some (Ok (), r') \<and> left r' []"
proof -
  note valid = test_entries_valid [unfolded test_entries_def, simplified]
  from assms obtain r1 where r1: "nx r = (Ok (EvEntry (test_entries ! 0)), r1)" "left r1 (concat (map enc_entry (drop 1 test_entries)))"
    using entry_law [of r "test_entries ! 0"] valid by (auto simp: test_entries_def succeeds_def)
  from r1(2) obtain r2 where r2: "nx r1 = (Ok (EvEntry (test_entries ! 1)), r2)" "left r2 (concat (map enc_entry (drop 2 test_entries)))"
    using entry_law [of r1 "test_entries ! 1"] valid by (auto simp: test_entries_def succeeds_def)
  from r2(2) obtain r3 where r3: "nx r2 = (Ok (EvEntry (test_entries ! 2)), r3)" "left r3 []"
    using entry_law [of r2 "test_entries ! 2" "[]"] valid by (auto simp: test_entries_def succeeds_def)
  from end_law [OF r3(2)] obtain r4 where r4: "nx r3 = (Ok EvNone, r4)" "left r4 []" by (auto simp: succeeds_def)
  from end_law [OF r4(2)] obtain r5 where r5: "nx r4 = (Ok EvNone, r5)" "left r5 []" by (auto simp: succeeds_def)
  show ?thesis
    using r1(1) r2(1) r3(1) r4(1) r5
    by (simp add: read_entries_def and_then_def on_event_def expect_entry_def expect_none_def assert_that_def
        read_event_is_none_def test_entries_def)
qed

lemma read_data_pass:
  assumes "left r (enc_blob (test_chunks 49) (Blake3 data_digest) @ enc_blob (test_chunks 50) (Blake3 data_digest))"
  obtains r' where "left r' []" "read_data nx nx_last blob r = on_event nx_last expect_none r'"
proof -
  have h: "hash_valid (Blake3 data_digest)" by (simp add: hash_valid_def data_digest_def)
  have c: "\<forall>c \<in> set (test_chunks 49). chunk_valid c" "\<forall>c \<in> set (test_chunks 50). chunk_valid c"
    by (rule test_chunks_valid, simp, simp)+
  from blob_law [OF assms h c(1)] obtain r1 r2 where
    r2: "nx r = (Ok EvData, r1)" "blob r1 = Some (Ok (byte_range 0 49, Some (Blake3 data_digest)), r2)"
      "left r2 (enc_blob (test_chunks 50) (Blake3 data_digest) @ [])"
    using test_chunks_concat [of 49] by auto
  from blob_law [OF r2(3) h c(2)] obtain r3 r4 where
    r4: "nx r2 = (Ok EvData, r3)" "blob r3 = Some (Ok (byte_range 0 50, Some (Blake3 data_digest)), r4)" "left r4 []"
    using test_chunks_concat [of 50] by auto
  with r2(1,2) show thesis
    by (intro that [of r4]) (auto simp: read_data_def and_then_def on_event_def expect_data_def assert_that_def)
qed

end

lemma read_tests_pass:
  "\<exists>r. read_entries_test = Some (Ok (), r)"
  "0 < n \<Longrightarrow> \<exists>r. read_data_test n = Some (Ok (), r)"
proof -
  have start: "reader_at False (reader_new (Source bs [])) bs" for bs
    by (simp add: reader_at_def reader_new_def steady_def faults_def)
  obtain r where r: "reader_at True r (concat (map enc_entry test_entries))"
    "next_event (reader_new (Source entries_expected [])) = next_event r"
    using next_event_header [OF start [of entries_expected, unfolded entries_expected_enc]] by (metis entries_expected_enc)
  from blocking_reader.read_entries_pass [OF r(1)] r(2)
  show "\<exists>r. read_entries_test = Some (Ok (), r)"
    by (auto simp: read_entries_test_def slice_reader_def read_entries_def and_then_def on_event_def)
next
  assume n: "0 < n"
  then obtain m where m: "n = Suc m" by (cases n) auto
  have start: "reader_at False (reader_new (Source bs [])) bs" for bs
    by (simp add: reader_at_def reader_new_def steady_def faults_def)
  obtain r where r: "reader_at True r (enc_blob (test_chunks 49) (Blake3 data_digest) @ enc_blob (test_chunks 50) (Blake3 data_digest))"
    "next_event (reader_new (Source data_expected [])) = next_event r"
    using next_event_header [OF start [of data_expected, unfolded data_expected_enc]] by (metis data_expected_enc)
  obtain r' where r': "reader_at True r' []" "read_data next_event next_event (read_blob n) r = on_event next_event expect_none r'"
    using blocking_reader.read_data_pass [OF r(1)] unfolding m by metis
  from blocking_reader.end_law [OF r'(1)] have "\<exists>r2. on_event next_event expect_none r' = Some (Ok (), r2)"
    by (auto simp: succeeds_def on_event_def expect_none_def assert_that_def read_event_is_none_def)
  with r'(2) r(2) show "\<exists>r. read_data_test n = Some (Ok (), r)"
    by (simp add: read_data_test_def slice_reader_def read_data_def and_then_def on_event_def)
qed

lemma read_tests_pass_async:
  "\<exists>r. read_entries_async_test = Some (Ok (), r)"
  "0 < n \<Longrightarrow> \<exists>r. read_data_async_test n = Some (Ok (), r)"
proof -
  obtain r where r: "prompt_at r (concat (map enc_entry test_entries))"
    "next_event_async (reader_new (Source entries_expected [])) = next_event_async r"
    by (rule next_event_header_async [of "Source entries_expected []"]) (auto simp: entries_expected_enc)
  from async_reader.read_entries_pass [OF r(1)] r(2)
  show "\<exists>r. read_entries_async_test = Some (Ok (), r)"
    by (auto simp: read_entries_async_test_def slice_reader_def read_entries_def and_then_def on_event_def)
next
  assume n: "0 < n"
  then obtain m where m: "n = Suc m" by (cases n) auto
  obtain r where r: "prompt_at r (enc_blob (test_chunks 49) (Blake3 data_digest) @ enc_blob (test_chunks 50) (Blake3 data_digest))"
    "next_event_async (reader_new (Source data_expected [])) = next_event_async r"
    by (rule next_event_header_async [of "Source data_expected []"]) (auto simp: data_expected_enc)
  obtain r' where r': "prompt_at r' []" "read_data next_event_async next_event (read_blob_async n) r = on_event next_event expect_none r'"
    using async_reader.read_data_pass [OF r(1)] unfolding m by metis
  have "reader_at True r' []" using prompt_at_reader_at [OF r'(1)] by blast
  from blocking_reader.end_law [OF this] have "\<exists>r2. on_event next_event expect_none r' = Some (Ok (), r2)"
    by (auto simp: succeeds_def on_event_def expect_none_def assert_that_def read_event_is_none_def)
  with r'(2) r(2) show "\<exists>r. read_data_async_test n = Some (Ok (), r)"
    by (simp add: read_data_async_test_def slice_reader_def read_data_def and_then_def on_event_def)
qed

context archive_writer
begin

lemma write_three:
  assumes "wrote w a" and "entry_valid d" and "entry_valid e" and "entry_valid f"
  shows "succeeds (io_then (we d) (io_then (we e) (we f))) (\<lambda>_ w'. wrote w' (a @ concat (map enc_entry [d, e, f]))) w"
proof -
  have last: "wrote v (a @ enc_entry d @ enc_entry e) \<Longrightarrow>
      succeeds (we f) (\<lambda>_ w'. wrote w' (a @ concat (map enc_entry [d, e, f]))) v" for v
    using entry_law [of v "a @ enc_entry d @ enc_entry e"] assms(4) by simp
  have more: "wrote v (a @ enc_entry d) \<Longrightarrow> succeeds (we e) (\<lambda>_ w'. wrote w' (a @ enc_entry d @ enc_entry e)) v" for v
    using entry_law [of v "a @ enc_entry d"] assms(3) by simp
  show ?thesis
    by (rule succeeds_thenI [OF entry_law [OF assms(1,2)]], rule succeeds_thenI [OF more], assumption, rule last)
qed

end

lemma write_tests_pass:
  assumes "b3 (bytes_of ''test1'') = test1_digest"
  shows "write_entry_test b3 = Ok ()" and "write_entry_async_test b3 = Ok ()"
proof -
  have digest: "make_blake b3 (bytes_of ''test1'') = Blake3 test1_digest"
    by (simp add: make_blake_def supported_hasher_blake3_def assms)
  note valid = test_entries_valid [unfolded test_entries_def, simplified]
  let ?w = "\<lambda>we. io_then (we (entry_data (bytes_of ''/tmp/test'') (Blake3 test1_digest) (Some EXECUTABLE)))
    (io_then (we (entry_link (bytes_of ''/tmp/test'') (bytes_of ''../../test'') None)) (we (entry_directory (bytes_of ''/tmp/test''))))"
  have sink: "open_sink (Sink [] None [])" "calm_sink (Sink [] None [])" by (simp_all add: open_sink_def calm_sink_def)
  from writer_new_at [OF sink(1)] obtain w s where w: "writer_new (Sink [] None []) = (Ok w, s)" "writer_at w NCK00"
    by (auto simp: succeeds_def)
  from blocking_writer.write_three [OF w(2), of "test_entries ! 0" "test_entries ! 1" "test_entries ! 2"] valid obtain w' where
    "?w write_entry w = (Ok (), w')" "writer_at w' (NCK00 @ concat (map enc_entry test_entries))"
    by (auto simp: test_entries_def succeeds_def)
  with w(1) show "write_entry_test b3 = Ok ()"
    by (simp add: write_entry_test_def write_entries_def digest writer_at_def writer_into_inner_def entries_expected_enc)
  from writer_new_async_at [OF sink] obtain w s where
    w: "writer_new_async (Sink [] None []) = (Ok w, s)" "calm_writer_at w NCK00" by auto
  from async_writer.write_three [OF w(2), of "test_entries ! 0" "test_entries ! 1" "test_entries ! 2"] valid obtain w' where
    "?w write_entry_async w = (Ok (), w')" "calm_writer_at w' (NCK00 @ concat (map enc_entry test_entries))"
    by (auto simp: test_entries_def succeeds_def)
  with w(1) show "write_entry_async_test b3 = Ok ()"
    by (simp add: write_entry_async_test_def write_entries_def digest calm_writer_at_def writer_at_def writer_into_inner_def
        entries_expected_enc)
qed

end
