(* ===== verification/Pool.thy ===== *)
theory Pool
  imports Nck_Prelude "HOL-Library.Multiset"
begin

text \<open>
  \<open>crates/io/src/pool.rs\<close>, one operation at a time (theory \<open>Pool_Concurrent\<close> has their
  interleavings): a bounded pool is an array of cells, each with a state, and a counter that
  spreads the places where searches start.

  A cell that holds no value is \<open>None\<close> (\<open>MaybeUninit::uninit\<close>); taking a value from such a
  cell would be undefined behaviour, and is the value \<open>None\<close> of \<open>pool_take\<close>. The closures a
  pool is made with may have effects on a state \<open>'g\<close> of their own.
\<close>

section \<open>State\<close>

datatype slot = EMPTY | WRITING | AVAILABLE | TAKING | DESTROYED

record 'a pool_mem =
  skip :: "64 word"
  cells :: "'a option list"
  states :: "slot list"

record ('a, 'g) pool_ops =
  create :: "'g \<Rightarrow> 'a \<times> 'g"
  return_hook :: "('a \<Rightarrow> 'g \<Rightarrow> 'a option \<times> 'g) option"
  take_hook :: "('a \<Rightarrow> 'g \<Rightarrow> 'a \<times> 'g) option"
  max_loop :: nat

definition pool_new :: "nat \<Rightarrow> ('g \<Rightarrow> 'a \<times> 'g) \<Rightarrow> ('a, 'g) pool_ops \<times> 'a pool_mem" where
  "pool_new capacity mk =
     (\<lparr>create = mk, return_hook = None, take_hook = None, max_loop = capacity\<rparr>,
      \<lparr>skip = 0, cells = replicate capacity None, states = replicate capacity EMPTY\<rparr>)"

definition with_return_hook ::
    "('a \<Rightarrow> 'g \<Rightarrow> 'a option \<times> 'g) \<Rightarrow> ('a, 'g) pool_ops \<Rightarrow> ('a, 'g) pool_ops" where
  "with_return_hook hook ops = ops\<lparr>return_hook := Some hook\<rparr>"

definition with_take_hook :: "('a \<Rightarrow> 'g \<Rightarrow> 'a \<times> 'g) \<Rightarrow> ('a, 'g) pool_ops \<Rightarrow> ('a, 'g) pool_ops" where
  "with_take_hook hook ops = ops\<lparr>take_hook := Some hook\<rparr>"

definition with_max_search :: "nat \<Rightarrow> nat \<Rightarrow> ('a, 'g) pool_ops \<Rightarrow> ('a, 'g) pool_ops" where
  "with_max_search capacity n ops =
     ops\<lparr>max_loop := (if n \<le> capacity then n else capacity)\<rparr>"

definition pool_capacity :: "'a pool_mem \<Rightarrow> nat" where
  "pool_capacity m = length (states m)"

section \<open>Operations\<close>

text \<open>\<open>tid\<close> is the number of the calling thread. The counter wraps.\<close>

definition next_id :: "64 word \<Rightarrow> 'a pool_mem \<Rightarrow> 64 word \<times> 'a pool_mem" where
  "next_id tid m = (skip m, m\<lparr>skip := skip m + tid\<rparr>)"

definition slot_index :: "nat \<Rightarrow> 64 word \<Rightarrow> nat \<Rightarrow> nat" where
  "slot_index capacity start k = unat (word_of_nat k + start) mod capacity"

fun take_from :: "64 word \<Rightarrow> nat list \<Rightarrow> 'a pool_mem \<Rightarrow> 'a option option \<times> 'a pool_mem" where
  "take_from start [] m = (None, m)"
| "take_from start (k # ks) m =
     (let i = slot_index (length (states m)) start k in
      if states m ! i \<noteq> AVAILABLE then take_from start ks m
      else (Some (cells m ! i), m\<lparr>cells := (cells m)[i := None], states := (states m)[i := EMPTY]\<rparr>))"

definition pool_take ::
    "('a, 'g) pool_ops \<Rightarrow> 64 word \<Rightarrow> 'a pool_mem \<times> 'g \<Rightarrow> 'a option \<times> 'a pool_mem \<times> 'g" where
  "pool_take ops tid = (\<lambda>(m, g).
     case next_id tid m of (start, m1) \<Rightarrow>
     case take_from start [0..<max_loop ops] m1 of
       (None, m2) \<Rightarrow> (case create ops g of (v, g') \<Rightarrow> (Some v, m2, g'))
     | (Some None, m2) \<Rightarrow> (None, m2, g)
     | (Some (Some result), m2) \<Rightarrow>
         (case take_hook ops of
            Some hook \<Rightarrow> (case hook result g of (v, g') \<Rightarrow> (Some v, m2, g'))
          | None \<Rightarrow> (Some result, m2, g)))"

fun put_from :: "64 word \<Rightarrow> nat list \<Rightarrow> 'a \<Rightarrow> 'a pool_mem \<Rightarrow> 'a pool_mem" where
  "put_from start [] v m = m"
| "put_from start (k # ks) v m =
     (let i = slot_index (length (states m)) start k in
      case states m ! i of
        EMPTY \<Rightarrow> m\<lparr>cells := (cells m)[i := Some v], states := (states m)[i := AVAILABLE]\<rparr>
      | DESTROYED \<Rightarrow> m
      | _ \<Rightarrow> put_from start ks v m)"

definition run_return_hook :: "('a, 'g) pool_ops \<Rightarrow> 'a \<Rightarrow> 'g \<Rightarrow> 'a option \<times> 'g" where
  "run_return_hook ops v g =
     (case return_hook ops of Some hook \<Rightarrow> hook v g | None \<Rightarrow> (Some v, g))"

definition pool_return ::
    "('a, 'g) pool_ops \<Rightarrow> 64 word \<Rightarrow> 'a \<Rightarrow> 'a pool_mem \<times> 'g \<Rightarrow> 'a pool_mem \<times> 'g" where
  "pool_return ops tid v = (\<lambda>(m, g).
     case run_return_hook ops v g of
       (None, g') \<Rightarrow> (m, g')
     | (Some v', g') \<Rightarrow>
         (case next_id tid m of (start, m1) \<Rightarrow> (put_from start [0..<max_loop ops] v' m1, g')))"

text \<open>
  \<open>drop\<close>: one turn over the slots, and the loop until every slot is destroyed. A turn returns
  the values dropped and how many slots are left; a slot being written is waited for.
\<close>

fun drop_slot :: "slot \<Rightarrow> 'a option \<Rightarrow> slot \<times> 'a option \<times> 'a list \<times> nat" where
  "drop_slot DESTROYED c = (DESTROYED, c, [], 1)"
| "drop_slot EMPTY c = (DESTROYED, c, [], 1)"
| "drop_slot AVAILABLE c = (DESTROYED, None, (case c of Some v \<Rightarrow> [v] | None \<Rightarrow> []), 1)"
| "drop_slot WRITING c = (WRITING, c, [], 0)"
| "drop_slot TAKING c = (DESTROYED, c, [], 1)"

fun drop_turn :: "nat list \<Rightarrow> nat \<Rightarrow> 'a list \<Rightarrow> 'a pool_mem \<Rightarrow> nat \<times> 'a list \<times> 'a pool_mem" where
  "drop_turn [] except dropped m = (except, dropped, m)"
| "drop_turn (i # is) except dropped m =
     (case drop_slot (states m ! i) (cells m ! i) of (s, c, vs, n) \<Rightarrow>
        drop_turn is (except - n) (dropped @ vs)
          (m\<lparr>states := (states m)[i := s], cells := (cells m)[i := c]\<rparr>))"

partial_function (option) drop_loop :: "nat \<Rightarrow> 'a list \<Rightarrow> 'a pool_mem \<Rightarrow> ('a list \<times> 'a pool_mem) option" where
  "drop_loop except dropped m =
     (if except = 0 then Some (dropped, m)
      else case drop_turn [0..<length (states m)] (length (states m)) dropped m of
        (except', dropped', m') \<Rightarrow> drop_loop except' dropped' m')"

definition pool_drop :: "'a pool_mem \<Rightarrow> ('a list \<times> 'a pool_mem) option" where
  "pool_drop m = drop_loop (length (states m)) [] m"

section \<open>Well-formed pools\<close>

text \<open>
  Between operations no slot is being written or taken, and exactly the available ones hold
  a value. \<open>stored m\<close> is what the pool holds.
\<close>

definition pool_wf :: "'a pool_mem \<Rightarrow> bool" where
  "pool_wf m \<longleftrightarrow> length (cells m) = length (states m) \<and>
     (\<forall>i < length (states m). states m ! i \<in> {EMPTY, AVAILABLE, DESTROYED} \<and>
        (states m ! i = AVAILABLE \<longleftrightarrow> cells m ! i \<noteq> None))"

fun values_of :: "'a option list \<Rightarrow> 'a multiset" where
  "values_of [] = {#}"
| "values_of (None # cs) = values_of cs"
| "values_of (Some v # cs) = add_mset v (values_of cs)"

definition stored :: "'a pool_mem \<Rightarrow> 'a multiset" where
  "stored m = values_of (cells m)"

lemma pool_wf_new: "pool_wf (snd (pool_new capacity mk))"
  by (simp add: pool_wf_def pool_new_def)

lemma values_of_take:
  "i < length cs \<Longrightarrow> cs ! i = Some v \<Longrightarrow> values_of cs = add_mset v (values_of (cs[i := None]))"
  by (induction cs arbitrary: i rule: values_of.induct) (auto simp: nth_Cons' split: nat.splits if_splits)

lemma values_of_put:
  "i < length cs \<Longrightarrow> cs ! i = None \<Longrightarrow> values_of (cs[i := Some v]) = add_mset v (values_of cs)"
  by (induction cs arbitrary: i rule: values_of.induct) (auto simp: nth_Cons' split: nat.splits if_splits)

lemma stored_take:
  assumes "i < length (cells m)" and "cells m ! i = Some v"
  shows "stored m = add_mset v (stored (m\<lparr>cells := (cells m)[i := None], states := ss\<rparr>))"
  using values_of_take [OF assms] by (simp add: stored_def)

lemma stored_put:
  assumes "i < length (cells m)" and "cells m ! i = None"
  shows "stored (m\<lparr>cells := (cells m)[i := Some v], states := ss\<rparr>) = add_mset v (stored m)"
  using values_of_put [OF assms] by (simp add: stored_def)

lemma slot_index_less: "0 < capacity \<Longrightarrow> slot_index capacity start k < capacity"
  by (simp add: slot_index_def)

text \<open>A search is over slots of the pool.\<close>

definition searchable :: "nat list \<Rightarrow> 'a pool_mem \<Rightarrow> bool" where
  "searchable ks m \<longleftrightarrow> ks = [] \<or> 0 < length (states m)"

lemma take_from_cases:
  assumes "pool_wf m" and "searchable ks m"
  obtains (none) "take_from start ks m = (None, m)"
      and "\<forall>k \<in> set ks. states m ! slot_index (length (states m)) start k \<noteq> AVAILABLE"
  | (found) v m' where "take_from start ks m = (Some (Some v), m')" and "pool_wf m'"
      and "stored m = add_mset v (stored m')" and "length (states m') = length (states m)"
  using assms
proof (induction ks arbitrary: thesis)
  case Nil
  then show ?case by simp
next
  case (Cons k ks)
  let ?i = "slot_index (length (states m)) start k"
  have i: "?i < length (states m)" using Cons.prems(4) by (simp add: searchable_def slot_index_less)
  show ?case
  proof (cases "states m ! ?i = AVAILABLE")
    case False
    show ?thesis
    proof (rule Cons.IH)
      show "pool_wf m" "searchable ks m" using Cons.prems(3,4) by (auto simp: searchable_def)
    qed (use False Cons.prems(1,2) in \<open>auto simp: Let_def\<close>)
  next
    case True
    with i Cons.prems(3) obtain v where v: "cells m ! ?i = Some v" "?i < length (cells m)"
      by (auto simp: pool_wf_def)
    let ?m = "m\<lparr>cells := (cells m)[?i := None], states := (states m)[?i := EMPTY]\<rparr>"
    have "pool_wf ?m" using Cons.prems(3) i by (auto simp: pool_wf_def nth_list_update)
    with True v stored_take [OF v(2,1), where ss = "(states m)[?i := EMPTY]"] show ?thesis
      by (intro Cons.prems(2) [of v ?m]) (simp_all add: Let_def)
  qed
qed

lemma put_from_cases:
  assumes "pool_wf m" and "searchable ks m"
  obtains (full) "put_from start ks v m = m"
      and "(\<forall>k \<in> set ks. states m ! slot_index (length (states m)) start k \<noteq> EMPTY) \<or>
        DESTROYED \<in> set (states m)"
  | (put) m' where "put_from start ks v m = m'" and "pool_wf m'"
      and "stored m' = add_mset v (stored m)" and "length (states m') = length (states m)"
  using assms
proof (induction ks arbitrary: thesis)
  case Nil
  then show ?case by simp
next
  case (Cons k ks)
  let ?i = "slot_index (length (states m)) start k"
  have i: "?i < length (states m)" using Cons.prems(4) by (simp add: searchable_def slot_index_less)
  have s: "searchable ks m" using Cons.prems(4) by (auto simp: searchable_def)
  show ?case
  proof (cases "states m ! ?i")
    case EMPTY
    with i Cons.prems(3) have c: "cells m ! ?i = None" "?i < length (cells m)" by (auto simp: pool_wf_def)
    let ?m = "m\<lparr>cells := (cells m)[?i := Some v], states := (states m)[?i := AVAILABLE]\<rparr>"
    have "pool_wf ?m" using Cons.prems(3) i by (auto simp: pool_wf_def nth_list_update)
    with EMPTY stored_put [OF c(2,1), where v = v and ss = "(states m)[?i := AVAILABLE]"] show ?thesis
      by (intro Cons.prems(2) [of ?m]) (simp_all add: Let_def)
  next
    case DESTROYED
    with i have "DESTROYED \<in> set (states m)" by (metis nth_mem)
    with DESTROYED show ?thesis by (intro Cons.prems(1)) (simp_all add: Let_def)
  next
    case AVAILABLE
    show ?thesis
      by (rule Cons.IH) (use AVAILABLE Cons.prems s in \<open>auto simp: Let_def\<close>)
  next
    case WRITING
    with i Cons.prems(3) show ?thesis by (auto simp: pool_wf_def)
  next
    case TAKING
    with i Cons.prems(3) show ?thesis by (auto simp: pool_wf_def)
  qed
qed

section \<open>Taking and returning\<close>

definition usable :: "('a, 'g) pool_ops \<Rightarrow> 'a pool_mem \<Rightarrow> bool" where
  "usable ops m \<longleftrightarrow> pool_wf m \<and> max_loop ops \<le> length (states m)"

lemma usable_searchable: "usable ops m \<Longrightarrow> searchable [0..<max_loop ops] m"
  by (auto simp: usable_def searchable_def)

text \<open>
  \<open>take\<close> never reads a cell without a value. It yields either a value that was stored, after
  the take hook, or a new one, and then no slot searched was available.
\<close>

lemma pool_take_cases:
  assumes "usable ops m"
  obtains (stored) result m' where "stored m = add_mset result (stored m')" and "usable ops m'"
      and "pool_take ops tid (m, g) = (case take_hook ops of
         Some hook \<Rightarrow> (case hook result g of (v, g') \<Rightarrow> (Some v, m', g')) | None \<Rightarrow> (Some result, m', g))"
      and "length (states m') = length (states m)"
  | (created) m' where "stored m' = stored m" and "states m' = states m" and "usable ops m'"
      and "pool_take ops tid (m, g) = (case create ops g of (v, g') \<Rightarrow> (Some v, m', g'))"
      and "\<forall>k < max_loop ops. states m ! slot_index (length (states m)) (skip m) k \<noteq> AVAILABLE"
proof -
  let ?m = "m\<lparr>skip := skip m + tid\<rparr>"
  have m: "pool_wf ?m" "searchable [0..<max_loop ops] ?m" "stored ?m = stored m"
    using assms usable_searchable [OF assms] by (auto simp: usable_def pool_wf_def searchable_def stored_def)
  from m(1,2) show thesis
  proof (cases rule: take_from_cases [where start = "skip m"])
    case none
    with m assms show thesis
      by (intro created [of ?m]) (auto simp: pool_take_def next_id_def usable_def)
  next
    case (found v m')
    with m(3) assms show thesis
      by (intro stored [of v m']) (auto simp: pool_take_def next_id_def usable_def)
  qed
qed

lemma pool_return_cases:
  assumes "usable ops m"
  obtains (dropped) g' where "run_return_hook ops v g = (None, g')" and "pool_return ops tid v (m, g) = (m, g')"
  | (full) v' g' m' where "run_return_hook ops v g = (Some v', g')" and "pool_return ops tid v (m, g) = (m', g')"
      and "stored m' = stored m" and "usable ops m'" and "states m' = states m"
      and "(\<forall>k < max_loop ops. states m ! slot_index (length (states m)) (skip m) k \<noteq> EMPTY) \<or>
        DESTROYED \<in> set (states m)"
  | (put) v' g' m' where "run_return_hook ops v g = (Some v', g')" and "pool_return ops tid v (m, g) = (m', g')"
      and "stored m' = add_mset v' (stored m)" and "usable ops m'" and "length (states m') = length (states m)"
proof -
  obtain ov g' where hook: "run_return_hook ops v g = (ov, g')" by fastforce
  show thesis
  proof (cases ov)
    case None
    with hook show thesis by (intro dropped [of g']) (auto simp: pool_return_def)
  next
    case (Some v')
    let ?m = "m\<lparr>skip := skip m + tid\<rparr>"
    have m: "pool_wf ?m" "searchable [0..<max_loop ops] ?m" "stored ?m = stored m"
      using assms usable_searchable [OF assms] by (auto simp: usable_def pool_wf_def searchable_def stored_def)
    from m(1,2) show thesis
    proof (cases rule: put_from_cases [where start = "skip m" and v = v'])
      case full
      with m hook Some assms show thesis
        by (intro that(2) [of v' g' ?m]) (auto simp: pool_return_def next_id_def usable_def)
    next
      case (put m')
      with m hook Some assms show thesis
        by (intro that(3) [of v' g' m']) (auto simp: pool_return_def next_id_def usable_def)
    qed
  qed
qed

text \<open>When the capacity divides \<open>2 ^ 64\<close>, a full search visits every slot, wherever it starts.\<close>

lemma slot_index_dvd:
  assumes "capacity dvd 2 ^ 64"
  shows "slot_index capacity start k = (k + unat start) mod capacity"
proof -
  have "unat (word_of_nat k + start :: 64 word) = (k mod 2 ^ 64 + unat start) mod 2 ^ 64"
    by (simp add: unat_word_ariths unat_of_nat)
  also have "\<dots> = (k + unat start) mod 2 ^ 64" by (rule mod_add_left_eq)
  finally show ?thesis by (simp only: slot_index_def mod_mod_cancel [OF assms])
qed

lemma search_complete:
  assumes "capacity dvd 2 ^ 64" and "i < capacity"
  obtains k where "k < capacity" and "slot_index capacity start k = i"
proof -
  let ?s = "unat start mod capacity" and ?k = "(i + capacity - unat start mod capacity) mod capacity"
  have s: "?s < capacity" using assms(2) by (intro mod_less_divisor) simp
  have "(?k + unat start) mod capacity = (i + capacity - ?s + ?s) mod capacity"
    by (metis mod_add_left_eq mod_add_right_eq)
  also have "i + capacity - ?s + ?s = i + capacity" using s by simp
  also have "(i + capacity) mod capacity = i" using assms(2) by simp
  finally show thesis using assms by (intro that [of ?k]) (simp_all add: slot_index_dvd)
qed

section \<open>Dropping\<close>

lemma values_of_None: "set cs \<subseteq> {None} \<Longrightarrow> values_of cs = {#}"
  by (induction cs rule: values_of.induct) auto

text \<open>
  A turn from slot \<open>n\<close> on, the slots before it being destroyed: it destroys the others too,
  and drops exactly what was stored.
\<close>

definition droppable :: "'a pool_mem \<Rightarrow> bool" where
  "droppable m \<longleftrightarrow> length (cells m) = length (states m) \<and>
     (\<forall>i < length (states m). states m ! i \<noteq> WRITING \<and> (states m ! i = AVAILABLE \<longleftrightarrow> cells m ! i \<noteq> None))"

lemma drop_slot_step:
  assumes "droppable m" and "n < length (states m)"
    and "drop_slot (states m ! n) (cells m ! n) = (s, c, vs, k)"
  shows "s = DESTROYED \<and> c = None \<and> k = 1 \<and>
    stored m = mset vs + stored (m\<lparr>states := (states m)[n := s], cells := (cells m)[n := c]\<rparr>)"
proof (cases "states m ! n")
  case AVAILABLE
  with assms obtain v where v: "cells m ! n = Some v" "n < length (cells m)" by (auto simp: droppable_def)
  with AVAILABLE assms(3) values_of_take [OF v(2,1)] show ?thesis by (auto simp: stored_def)
next
  case WRITING
  with assms show ?thesis by (auto simp: droppable_def)
next
  case TAKING
  with assms have c: "cells m ! n = None" by (auto simp: droppable_def)
  with TAKING assms(3) have "(cells m)[n := None] = cells m" by (metis list_update_id)
  with c TAKING assms(3) show ?thesis by (auto simp: stored_def)
next
  case EMPTY
  with assms have c: "cells m ! n = None" by (auto simp: droppable_def)
  then have "(cells m)[n := None] = cells m" by (metis list_update_id)
  with c EMPTY assms(3) show ?thesis by (auto simp: stored_def)
next
  case DESTROYED
  with assms have c: "cells m ! n = None" by (auto simp: droppable_def)
  then have "(cells m)[n := None] = cells m" by (metis list_update_id)
  with c DESTROYED assms(3) show ?thesis by (auto simp: stored_def)
qed

lemma drop_turn_droppable:
  assumes "droppable m" and "n \<le> length (states m)" and "\<forall>i < n. states m ! i = DESTROYED"
  shows "\<exists>d m'. drop_turn [n..<length (states m)] (length (states m) - n) dropped m = (0, dropped @ d, m') \<and>
    mset d = stored m \<and> set (states m') \<subseteq> {DESTROYED} \<and> length (states m') = length (states m)"
  using assms
proof (induction "length (states m) - n" arbitrary: n m dropped)
  case 0
  then have all: "\<forall>i < length (states m). states m ! i = DESTROYED" by simp
  with 0 have "\<forall>i < length (cells m). cells m ! i = None" by (auto simp: droppable_def)
  then have "stored m = {#}" unfolding stored_def by (intro values_of_None) (auto simp: in_set_conv_nth)
  with 0 all show ?case by (auto simp: in_set_conv_nth)
next
  case (Suc l)
  then have n: "n < length (states m)" and l: "l = length (states m) - Suc n" by simp_all
  obtain s c vs k where step: "drop_slot (states m ! n) (cells m ! n) = (s, c, vs, k)"
    by (metis prod_cases4)
  note sl = drop_slot_step [OF Suc.prems(1) n step]
  let ?m = "m\<lparr>states := (states m)[n := s], cells := (cells m)[n := c]\<rparr>"
  have "droppable ?m" using Suc.prems(1) n sl by (auto simp: droppable_def nth_list_update)
  moreover have "\<forall>i < Suc n. states ?m ! i = DESTROYED" using Suc.prems(3) n sl by (auto simp: less_Suc_eq)
  ultimately obtain d m' where
    "drop_turn [Suc n..<length (states m)] (length (states m) - Suc n) (dropped @ vs) ?m = (0, (dropped @ vs) @ d, m')"
    "mset d = stored ?m" "set (states m') \<subseteq> {DESTROYED}" "length (states m') = length (states m)"
    using Suc.hyps(1) [of ?m "Suc n" "dropped @ vs"] l n by auto
  with step sl n show ?case
    by (intro exI [of _ "vs @ d"] exI [of _ m']) (simp add: upt_conv_Cons)
qed

lemma pool_drop_droppable:
  assumes "droppable m"
  shows "\<exists>d m'. pool_drop m = Some (d, m') \<and> mset d = stored m \<and> set (states m') \<subseteq> {DESTROYED}"
proof (cases "states m = []")
  case True
  with assms show ?thesis by (simp add: pool_drop_def drop_loop.simps droppable_def stored_def)
next
  case False
  from drop_turn_droppable [OF assms, of 0 "[]"] obtain d m' where
    "drop_turn [0..<length (states m)] (length (states m)) [] m = (0, d, m')"
    "mset d = stored m" "set (states m') \<subseteq> {DESTROYED}" by auto
  with False show ?thesis by (simp add: pool_drop_def drop_loop.simps [of "length (states m)"] drop_loop.simps [of 0])
qed

lemma pool_wf_droppable: "pool_wf m \<Longrightarrow> droppable m"
  by (auto simp: pool_wf_def droppable_def)

section \<open>What the callers are promised\<close>

lemma stored_nonempty_available:
  assumes "pool_wf m" and "stored m \<noteq> {#}"
  shows "\<exists>i < length (states m). states m ! i = AVAILABLE"
proof (rule ccontr)
  assume "\<not> ?thesis"
  with assms(1) have "\<forall>i < length (cells m). cells m ! i = None" by (auto simp: pool_wf_def)
  then have "stored m = {#}" unfolding stored_def by (intro values_of_None) (auto simp: in_set_conv_nth)
  with assms(2) show False by simp
qed

text \<open>
  A pool whose capacity divides \<open>2 ^ 64\<close> and whose search is not shortened never creates a
  value while it holds one: \<open>take\<close> hands out one of the stored values, once.
\<close>

theorem pool_take_reuses:
  assumes "usable ops m" and "max_loop ops = length (states m)" and "length (states m) dvd 2 ^ 64"
    and "stored m \<noteq> {#}" and "take_hook ops = None"
  shows "\<exists>v m'. pool_take ops tid (m, g) = (Some v, m', g) \<and> stored m = add_mset v (stored m') \<and> usable ops m'"
  using assms(1)
proof (cases rule: pool_take_cases [where g = g and tid = tid])
  case (stored v m')
  with assms(5) show ?thesis by simp
next
  case (created m')
  from assms(1,4) obtain i where i: "i < length (states m)" "states m ! i = AVAILABLE"
    using stored_nonempty_available by (auto simp: usable_def)
  from search_complete [OF assms(3) i(1), of "skip m"] obtain k where
    "k < length (states m)" "slot_index (length (states m)) (skip m) k = i" .
  with created(5) i(2) assms(2) show ?thesis by metis
qed

theorem pool_take_reuses_witness:
  "\<exists>v m'. pool_take \<lparr>create = \<lambda>g. (0 :: nat, g), return_hook = None, take_hook = None, max_loop = 2\<rparr> 3
      (\<lparr>skip = 7, cells = [None, Some 5], states = [EMPTY, AVAILABLE]\<rparr>, ()) = (Some v, m', ()) \<and> {#5#} = add_mset v (stored m')"
  using pool_take_reuses [of "\<lparr>create = \<lambda>g. (0 :: nat, g), return_hook = None, take_hook = None, max_loop = 2\<rparr>"
      "\<lparr>skip = 7, cells = [None, Some 5], states = [EMPTY, AVAILABLE]\<rparr>" 3 "()"]
  by (auto simp: usable_def pool_wf_def stored_def less_2_cases_iff numeral_2_eq_2 less_Suc_eq)

text \<open>
  Dropping a pool ends: every slot is destroyed, and what is dropped is exactly what was
  stored.
\<close>

theorem pool_drop_complete:
  assumes "pool_wf m"
  shows "\<exists>dropped m'. pool_drop m = Some (dropped, m') \<and> mset dropped = stored m \<and> set (states m') \<subseteq> {DESTROYED}"
  by (rule pool_drop_droppable [OF pool_wf_droppable [OF assms]])

theorem pool_drop_complete_witness:
  "\<exists>dropped m'. pool_drop \<lparr>skip = 0, cells = [Some 4, None], states = [AVAILABLE, EMPTY]\<rparr> = (Some (dropped, m')) \<and>
    mset dropped = {#4 :: nat#}"
  using pool_drop_complete [of "\<lparr>skip = 0, cells = [Some (4 :: nat), None], states = [AVAILABLE, EMPTY]\<rparr>"]
  by (auto simp: pool_wf_def stored_def less_Suc_eq)

end
