(* ===== verification/Pooled_Item.thy ===== *)
theory Pooled_Item
  imports Pool
begin

text \<open>
  \<open>crates/io/src/pool/pooled_item.rs\<close> and \<open>owned_pooled_item.rs\<close>: a value on loan from a
  pool. A pool is known to its items as a \<open>PoolReturn\<close> only, which is the contract
  \<open>return_contract\<close>; the state \<open>'s\<close> is whatever the return of a value changes.
\<close>

section \<open>PoolReturn\<close>

locale return_contract =
  fixes ret :: "'a \<Rightarrow> 's \<Rightarrow> 's" and inv :: "'s \<Rightarrow> bool" and contents_of :: "'s \<Rightarrow> 'a multiset"
    and accept :: "'a \<Rightarrow> 's \<Rightarrow> 'a option"
  assumes ret_inv: "inv s \<Longrightarrow> inv (ret v s)"
    and ret_contents: "inv s \<Longrightarrow> contents_of (ret v s) = contents_of s \<or>
      (\<exists>v'. accept v s = Some v' \<and> contents_of (ret v s) = add_mset v' (contents_of s))"

definition null_return :: "'a \<Rightarrow> 's \<Rightarrow> 's" where
  "null_return v s = s"

interpretation null_pool: return_contract null_return "\<lambda>_. True" "\<lambda>_. {#}" "\<lambda>_ _. None"
  by unfold_locales (simp_all add: null_return_def)

interpretation pool_state: return_contract "pool_return ops tid" "\<lambda>s. usable ops (fst s)" "\<lambda>s. stored (fst s)"
    "\<lambda>v s. fst (run_return_hook ops v (snd s))" for ops tid
proof
  fix s :: "'a pool_mem \<times> 'b" and v
  assume "usable ops (fst s)"
  then show "usable ops (fst (pool_return ops tid v s))"
    by (cases s; cases rule: pool_return_cases [where m = "fst s" and g = "snd s" and v = v and tid = tid and ops = ops]) auto
next
  fix s :: "'a pool_mem \<times> 'b" and v
  assume "usable ops (fst s)"
  then show "stored (fst (pool_return ops tid v s)) = stored (fst s) \<or>
      (\<exists>v'. fst (run_return_hook ops v (snd s)) = Some v' \<and>
        stored (fst (pool_return ops tid v s)) = add_mset v' (stored (fst s)))"
    by (cases s; cases rule: pool_return_cases [where m = "fst s" and g = "snd s" and v = v and tid = tid and ops = ops]) auto
qed

section \<open>Pooled\<close>

record ('a, 's) pooled =
  pooled_value :: "'a option"
  pooled_pool :: "'a \<Rightarrow> 's \<Rightarrow> 's"

definition pooled_new :: "'a \<Rightarrow> ('a \<Rightarrow> 's \<Rightarrow> 's) \<Rightarrow> ('a, 's) pooled" where
  "pooled_new value pool = \<lparr>pooled_value = Some value, pooled_pool = pool\<rparr>"

text \<open>\<open>unwrap\<close>, which \<open>get\<close>, \<open>deref\<close> and \<open>as_ref\<close> are.\<close>

definition pooled_get :: "('a, 's) pooled \<Rightarrow> ('e, 'a) res" where
  "pooled_get p = (case pooled_value p of Some v \<Rightarrow> Ok v | None \<Rightarrow> Panic)"

text \<open>A change of the value through \<open>get_mut\<close>, \<open>deref_mut\<close> or \<open>as_mut\<close>.\<close>

definition pooled_get_mut :: "('a \<Rightarrow> 'a) \<Rightarrow> ('a, 's) pooled \<Rightarrow> ('e, ('a, 's) pooled) res" where
  "pooled_get_mut f p =
     (case pooled_value p of Some v \<Rightarrow> Ok (p\<lparr>pooled_value := Some (f v)\<rparr>) | None \<Rightarrow> Panic)"

definition pooled_drop :: "('a, 's) pooled \<Rightarrow> 's \<Rightarrow> 's" where
  "pooled_drop p s = (case pooled_value p of Some old \<Rightarrow> pooled_pool p old s | None \<Rightarrow> s)"

text \<open>The operations that consume the item drop what is left of it.\<close>

definition pooled_forget :: "('a, 's) pooled \<Rightarrow> 's \<Rightarrow> ('e, 'a) res \<times> 's" where
  "pooled_forget p s =
     (case pooled_value p of
        Some v \<Rightarrow> (Ok v, pooled_drop (p\<lparr>pooled_value := None\<rparr>) s)
      | None \<Rightarrow> (Panic, pooled_drop p s))"

definition pooled_apply_result ::
    "('a \<Rightarrow> ('e, 'a) res) \<Rightarrow> ('a, 's) pooled \<Rightarrow> 's \<Rightarrow> ('e, ('a, 's) pooled) res \<times> 's" where
  "pooled_apply_result f p s =
     (case pooled_value p of
        None \<Rightarrow> (Panic, pooled_drop p s)
      | Some value \<Rightarrow>
          (case f value of
             Ok value' \<Rightarrow> (Ok (p\<lparr>pooled_value := Some value'\<rparr>), s)
           | Err e \<Rightarrow> (Err e, pooled_drop (p\<lparr>pooled_value := None\<rparr>) s)
           | Panic \<Rightarrow> (Panic, pooled_drop (p\<lparr>pooled_value := None\<rparr>) s)))"

definition pooled_debug :: "('a \<Rightarrow> string) \<Rightarrow> ('a, 's) pooled \<Rightarrow> string" where
  "pooled_debug fmt p =
     (case pooled_value p of Some v \<Rightarrow> fmt v | None \<Rightarrow> ''EmptyPooledItem'')"

definition pooled_eq :: "('a, 's) pooled \<Rightarrow> ('a, 's) pooled \<Rightarrow> bool" where
  "pooled_eq p q \<longleftrightarrow> pooled_value p = pooled_value q"

text \<open>The accessors of the traits unwrap the value as \<open>get\<close> and \<open>get_mut\<close> do.\<close>

definition unwrap_value :: "'a option \<Rightarrow> ('e, 'a) res" where
  "unwrap_value v = (case v of Some x \<Rightarrow> Ok x | None \<Rightarrow> Panic)"

definition pooled_deref :: "('a, 's) pooled \<Rightarrow> ('e, 'a) res" where
  "pooled_deref p = unwrap_value (pooled_value p)"

definition pooled_deref_mut :: "('a \<Rightarrow> 'a) \<Rightarrow> ('a, 's) pooled \<Rightarrow> ('e, ('a, 's) pooled) res" where
  "pooled_deref_mut f p = map_res (\<lambda>v. p\<lparr>pooled_value := Some (f v)\<rparr>) (unwrap_value (pooled_value p))"

definition pooled_as_ref :: "('a, 's) pooled \<Rightarrow> ('e, 'a) res" where
  "pooled_as_ref p = unwrap_value (pooled_value p)"

definition pooled_as_mut :: "('a \<Rightarrow> 'a) \<Rightarrow> ('a, 's) pooled \<Rightarrow> ('e, ('a, 's) pooled) res" where
  "pooled_as_mut f p = map_res (\<lambda>v. p\<lparr>pooled_value := Some (f v)\<rparr>) (unwrap_value (pooled_value p))"

text \<open>\<open>hash\<close> feeds the hasher the value as an option, as \<open>eq\<close> compares it.\<close>

definition pooled_hash :: "('a option \<Rightarrow> 'h \<Rightarrow> 'h) \<Rightarrow> ('a, 's) pooled \<Rightarrow> 'h \<Rightarrow> 'h" where
  "pooled_hash hash_option p state = hash_option (pooled_value p) state"

lemma pooled_accessors:
  "pooled_deref p = pooled_get p" "pooled_as_ref p = pooled_get p"
  "pooled_deref_mut f p = pooled_get_mut f p" "pooled_as_mut f p = pooled_get_mut f p"
  by (cases "pooled_value p"; simp add: pooled_deref_def pooled_as_ref_def pooled_deref_mut_def pooled_as_mut_def
      pooled_get_def pooled_get_mut_def unwrap_value_def)+

lemma pooled_hash_eq: "pooled_eq p q \<Longrightarrow> pooled_hash h p state = pooled_hash h q state"
  by (simp add: pooled_eq_def pooled_hash_def)

definition pooled_clone :: "('a, 's) pooled \<Rightarrow> ('a, 's) pooled" where
  "pooled_clone p = \<lparr>pooled_value = pooled_value p, pooled_pool = null_return\<rparr>"

text \<open>\<open>Pool::take\<close>: a value of the pool, on loan.\<close>

definition pool_lend ::
    "('a, 'g) pool_ops \<Rightarrow> 64 word \<Rightarrow> 'a pool_mem \<times> 'g \<Rightarrow>
       ('a, 'a pool_mem \<times> 'g) pooled option \<times> 'a pool_mem \<times> 'g" where
  "pool_lend ops tid s =
     (case pool_take ops tid s of
        (Some v, s') \<Rightarrow> (Some (pooled_new v (pool_return ops tid)), s')
      | (None, s') \<Rightarrow> (None, s'))"

text \<open>
  An item on loan holds a value until it is consumed: none of its operations panics, and
  each leaves it with a value or consumes it.
\<close>

definition on_loan :: "('a, 's) pooled \<Rightarrow> bool" where
  "on_loan p \<longleftrightarrow> pooled_value p \<noteq> None"

lemma on_loan_new: "on_loan (pooled_new v pool)"
  by (simp add: on_loan_def pooled_new_def)

lemma on_loan_get: "on_loan p \<Longrightarrow> \<exists>v. pooled_get p = Ok v"
  by (auto simp: on_loan_def pooled_get_def)

lemma on_loan_get_mut: "on_loan p \<Longrightarrow> \<exists>p'. pooled_get_mut f p = Ok p' \<and> on_loan p'"
  by (auto simp: on_loan_def pooled_get_mut_def)

lemma on_loan_forget: "on_loan p \<Longrightarrow> \<exists>v. pooled_forget p s = (Ok v, s)"
  by (auto simp: on_loan_def pooled_forget_def pooled_drop_def)

lemma on_loan_apply_result:
  "on_loan p \<Longrightarrow> snd (pooled_apply_result f p s) = s \<and>
     (\<forall>p'. fst (pooled_apply_result f p s) = Ok p' \<longrightarrow> on_loan p' \<and> pooled_pool p' = pooled_pool p)"
  by (auto simp: on_loan_def pooled_apply_result_def pooled_drop_def split: option.splits res.splits)

lemma clone_drop: "pooled_drop (pooled_clone p) s = s"
  by (simp add: pooled_drop_def pooled_clone_def null_return_def split: option.split)

context return_contract
begin

text \<open>Dropping an item of a pool that meets the contract.\<close>

lemma drop_inv: "inv s \<Longrightarrow> pooled_pool p = ret \<Longrightarrow> inv (pooled_drop p s)"
  by (auto simp: pooled_drop_def ret_inv split: option.split)

lemma drop_contents:
  "inv s \<Longrightarrow> pooled_pool p = ret \<Longrightarrow> contents_of (pooled_drop p s) = contents_of s \<or>
     (\<exists>v v'. pooled_value p = Some v \<and> accept v s = Some v' \<and>
        contents_of (pooled_drop p s) = add_mset v' (contents_of s))"
  using ret_contents by (auto simp: pooled_drop_def split: option.split)

end

section \<open>OwnedPooled\<close>

text \<open>
  An item that owns its handle on the pool. \<open>ret\<close> is \<open>return_value\<close> of the handle's type.
\<close>

record ('a, 'p) owned_pooled =
  owned_value :: "'a option"
  owned_pool :: 'p

definition owned_new :: "'a \<Rightarrow> 'p \<Rightarrow> ('a, 'p) owned_pooled" where
  "owned_new value pool = \<lparr>owned_value = Some value, owned_pool = pool\<rparr>"

definition owned_get :: "('a, 'p) owned_pooled \<Rightarrow> ('e, 'a) res" where
  "owned_get p = unwrap_value (owned_value p)"

definition owned_get_mut :: "('a \<Rightarrow> 'a) \<Rightarrow> ('a, 'p) owned_pooled \<Rightarrow> ('e, ('a, 'p) owned_pooled) res" where
  "owned_get_mut f p = map_res (\<lambda>v. p\<lparr>owned_value := Some (f v)\<rparr>) (unwrap_value (owned_value p))"

definition owned_drop :: "('p \<Rightarrow> 'a \<Rightarrow> 's \<Rightarrow> 's) \<Rightarrow> ('a, 'p) owned_pooled \<Rightarrow> 's \<Rightarrow> 's" where
  "owned_drop ret p s = (case owned_value p of Some old \<Rightarrow> ret (owned_pool p) old s | None \<Rightarrow> s)"

definition owned_forget ::
    "('p \<Rightarrow> 'a \<Rightarrow> 's \<Rightarrow> 's) \<Rightarrow> ('a, 'p) owned_pooled \<Rightarrow> 's \<Rightarrow> ('e, 'a) res \<times> 's" where
  "owned_forget ret p s = (unwrap_value (owned_value p), owned_drop ret (p\<lparr>owned_value := None\<rparr>) s)"

definition owned_debug :: "('a \<Rightarrow> string) \<Rightarrow> ('a, 'p) owned_pooled \<Rightarrow> string" where
  "owned_debug fmt p = (case owned_value p of Some v \<Rightarrow> fmt v | None \<Rightarrow> ''EmptyPooledItem'')"

definition owned_deref :: "('a, 'p) owned_pooled \<Rightarrow> ('e, 'a) res" where
  "owned_deref p = unwrap_value (owned_value p)"

definition owned_deref_mut :: "('a \<Rightarrow> 'a) \<Rightarrow> ('a, 'p) owned_pooled \<Rightarrow> ('e, ('a, 'p) owned_pooled) res" where
  "owned_deref_mut f p = map_res (\<lambda>v. p\<lparr>owned_value := Some (f v)\<rparr>) (unwrap_value (owned_value p))"

definition owned_as_ref :: "('a, 'p) owned_pooled \<Rightarrow> ('e, 'a) res" where
  "owned_as_ref p = unwrap_value (owned_value p)"

definition owned_as_mut :: "('a \<Rightarrow> 'a) \<Rightarrow> ('a, 'p) owned_pooled \<Rightarrow> ('e, ('a, 'p) owned_pooled) res" where
  "owned_as_mut f p = map_res (\<lambda>v. p\<lparr>owned_value := Some (f v)\<rparr>) (unwrap_value (owned_value p))"

definition owned_eq :: "('a, 'p) owned_pooled \<Rightarrow> ('a, 'p) owned_pooled \<Rightarrow> bool" where
  "owned_eq p q \<longleftrightarrow> owned_value p = owned_value q"

definition owned_hash :: "('a option \<Rightarrow> 'h \<Rightarrow> 'h) \<Rightarrow> ('a, 'p) owned_pooled \<Rightarrow> 'h \<Rightarrow> 'h" where
  "owned_hash hash_option p state = hash_option (owned_value p) state"

text \<open>
  An owned item behaves as a borrowed one whose pool is the handle: the two refine each other, so
  that what is shown of dropping a borrowed item holds of it.
\<close>

definition borrowed_item :: "('p \<Rightarrow> 'a \<Rightarrow> 's \<Rightarrow> 's) \<Rightarrow> ('a, 'p) owned_pooled \<Rightarrow> ('a, 's) pooled" where
  "borrowed_item ret p = \<lparr>pooled_value = owned_value p, pooled_pool = ret (owned_pool p)\<rparr>"

lemma owned_refines:
  "borrowed_item ret (owned_new v pool) = pooled_new v (ret pool)"
  "owned_get p = pooled_get (borrowed_item ret p)"
  "map_res (borrowed_item ret) (owned_get_mut f p) = pooled_get_mut f (borrowed_item ret p)"
  "owned_drop ret p = pooled_drop (borrowed_item ret p)"
  "owned_debug fmt p = pooled_debug fmt (borrowed_item ret p)"
  "owned_eq p q \<longleftrightarrow> pooled_eq (borrowed_item ret p) (borrowed_item ret q)"
  by (cases "owned_value p"; simp add: borrowed_item_def owned_new_def pooled_new_def owned_get_def pooled_get_def
      owned_get_mut_def pooled_get_mut_def owned_drop_def pooled_drop_def owned_debug_def pooled_debug_def
      owned_eq_def pooled_eq_def unwrap_value_def fun_eq_iff)+

text \<open>A forgotten item goes to the caller and not to the pool, and a dropped one to the pool once.\<close>

lemma owned_forget_keeps: "owned_forget ret (owned_new v pool) s = (Ok v, s)"
  by (simp add: owned_forget_def owned_new_def owned_drop_def unwrap_value_def)

lemma owned_accessors:
  "owned_deref p = owned_get p" "owned_as_ref p = owned_get p"
  "owned_deref_mut f p = owned_get_mut f p" "owned_as_mut f p = owned_get_mut f p"
  by (simp_all add: owned_deref_def owned_as_ref_def owned_get_def owned_deref_mut_def owned_as_mut_def owned_get_mut_def)

lemma owned_hash_eq: "owned_eq p q \<Longrightarrow> owned_hash h p state = owned_hash h q state"
  by (simp add: owned_eq_def owned_hash_def)

context return_contract
begin

lemma owned_drop_inv: "inv s \<Longrightarrow> inv (owned_drop (\<lambda>_. ret) p s)"
  using drop_inv [of s "borrowed_item (\<lambda>_. ret) p"] by (simp add: owned_refines borrowed_item_def)

end

text \<open>
  Taking a value and dropping it keeps the pool well-formed; the drop adds to the pool at
  most the value dropped, as the return hook changed it, and takes nothing away.
\<close>

theorem pool_loan_drop:
  assumes "usable ops m"
  shows "\<exists>p m' g'. pool_lend ops tid (m, g) = (Some p, m', g') \<and> usable ops m' \<and> stored m' \<subseteq># stored m \<and>
    (\<forall>q. pooled_pool q = pooled_pool p \<longrightarrow> on_loan q \<longrightarrow>
       usable ops (fst (pooled_drop q (m', g'))) \<and>
       (stored (fst (pooled_drop q (m', g'))) = stored m' \<or>
        (\<exists>v v'. pooled_get q = (Ok v :: (unit, _) res) \<and> fst (run_return_hook ops v g') = Some v' \<and>
           stored (fst (pooled_drop q (m', g'))) = add_mset v' (stored m'))))"
proof -
  obtain v m' g' where take: "pool_take ops tid (m, g) = (Some v, m', g')" and m': "usable ops m'"
    and sub: "stored m' \<subseteq># stored m"
    using assms
  proof (cases rule: pool_take_cases [where g = g and tid = tid])
    case (stored result m')
    obtain v g' where "pool_take ops tid (m, g) = (Some v, m', g')"
      using stored(3) by (cases "take_hook ops") (auto split: prod.splits)
    from that [OF this stored(2)] stored(1) show thesis by simp
  next
    case (created m')
    obtain v g' where "pool_take ops tid (m, g) = (Some v, m', g')"
      using created(4) by (cases "create ops g") auto
    from that [OF this created(3)] created(1) show thesis by simp
  qed
  let ?p = "pooled_new v (pool_return ops tid)"
  have "usable ops (fst (pooled_drop q (m', g'))) \<and>
       (stored (fst (pooled_drop q (m', g'))) = stored m' \<or>
        (\<exists>v v'. pooled_get q = (Ok v :: (unit, _) res) \<and> fst (run_return_hook ops v g') = Some v' \<and>
           stored (fst (pooled_drop q (m', g'))) = add_mset v' (stored m')))"
    if "pooled_pool q = pooled_pool ?p" for q
    using that pool_state.drop_inv [of ops "(m', g')" q tid] pool_state.drop_contents [of ops "(m', g')" q tid] m'
    by (auto simp: pooled_new_def pooled_get_def)
  with take m' sub show ?thesis by (auto simp: pool_lend_def)
qed

theorem pool_loan_drop_witness:
  "\<exists>p m' g'. pool_lend \<lparr>create = \<lambda>g. (0 :: nat, g), return_hook = None, take_hook = None, max_loop = 1\<rparr> 3
      (\<lparr>skip = 7, cells = [None], states = [EMPTY]\<rparr>, ()) = (Some p, m', g') \<and> stored m' \<subseteq># {#}"
  using pool_loan_drop [of "\<lparr>create = \<lambda>g. (0 :: nat, g), return_hook = None, take_hook = None, max_loop = 1\<rparr>"
      "\<lparr>skip = 7, cells = [None], states = [EMPTY]\<rparr>" 3 "()"]
  by (auto simp: usable_def pool_wf_def stored_def)

end
