(* ===== verification/Pool_Tests.thy ===== *)
theory Pool_Tests
  imports Pooled_Item
begin

text \<open>
  The tests of \<open>crates/io/src/pool.rs\<close> that use a pool from one thread, run on the model, whatever
  the number of the thread. An assertion that fails is a panic. The test with threads is what
  theory \<open>Pool_Concurrent\<close> is about.
\<close>

section \<open>Tests as programs\<close>

type_synonym 'g test_state = "64 word pool_mem \<times> 'g"
type_synonym 'g pool_test = "'g test_state \<Rightarrow> (unit, unit) res \<times> 'g test_state"

text \<open>A test makes its pool, and drops it at the end.\<close>

definition zero_pool :: "(64 word, 'g) pool_ops \<times> 64 word pool_mem" where
  "zero_pool = pool_new 16 (\<lambda>g. (0, g))"

definition with_pool :: "'g pool_test \<Rightarrow> 'g \<Rightarrow> (unit, unit) res option" where
  "with_pool t g = (case t (snd (zero_pool :: (64 word, 'g) pool_ops \<times> _), g) of (r, m, _) \<Rightarrow> map_option (\<lambda>_. r) (pool_drop m))"

text \<open>A value of the pool, as it is in the scope of a test.\<close>

definition lending ::
    "(64 word, 'g) pool_ops \<Rightarrow> 64 word \<Rightarrow> ((64 word, 'g test_state) pooled \<Rightarrow> 'g pool_test) \<Rightarrow> 'g pool_test" where
  "lending ops tid f s =
     (case pool_lend ops tid s of
        (None, s') \<Rightarrow> (Panic, s')
      | (Some p, s') \<Rightarrow> f p s')"

fun repeat_test :: "nat \<Rightarrow> 'g pool_test \<Rightarrow> 'g pool_test" where
  "repeat_test 0 t s = (Ok (), s)"
| "repeat_test (Suc n) t s =
     (case t s of
        (Ok _, s') \<Rightarrow> repeat_test n t s'
      | (Err e, s') \<Rightarrow> (Err e, s')
      | (Panic, s') \<Rightarrow> (Panic, s'))"

definition forgetting :: "(64 word \<Rightarrow> bool) \<Rightarrow> (64 word, 'g test_state) pooled \<Rightarrow> 'g pool_test" where
  "forgetting P p s =
     (case pooled_forget p s of
        (Ok v, s') \<Rightarrow> (if P v then Ok () else Panic, s')
      | (Err e, s') \<Rightarrow> (Err e, s')
      | (Panic, s') \<Rightarrow> (Panic, s'))"

section \<open>The tests\<close>

definition take_return_test :: "64 word \<Rightarrow> (unit, unit) res option" where
  "take_return_test tid = with_pool (lending (fst zero_pool) tid (\<lambda>p s. (Ok (), pooled_drop p s))) ()"

definition forget_test :: "64 word \<Rightarrow> (unit, unit) res option" where
  "forget_test tid =
     with_pool (\<lambda>s.
       case lending (fst zero_pool) tid (forgetting (\<lambda>_. True)) s of
         (Ok _, m, g) \<Rightarrow> (if \<forall>i \<in> {0..<pool_capacity m}. states m ! i = EMPTY then Ok () else Panic, m, g)
       | r \<Rightarrow> r) ()"

definition even_hook :: "64 word \<Rightarrow> 'g \<Rightarrow> 64 word option \<times> 'g" where
  "even_hook v g = (if v mod 2 = 0 then Some v else None, g)"

definition return_hook_test :: "64 word \<Rightarrow> (unit, unit) res option" where
  "return_hook_test tid =
     (let ops = with_return_hook even_hook (fst zero_pool) in
      with_pool (\<lambda>s.
        let s1 = fold (pool_return ops tid) (map word_of_nat [0..<pool_capacity (fst s) * 2]) s in
        repeat_test (pool_capacity (fst s))
          (lending ops tid (\<lambda>p s. case (pooled_get p :: (unit, _) res) of
             Ok v \<Rightarrow> if v mod 2 = 0 then forgetting (\<lambda>_. True) p s else (Panic, pooled_drop p s)
           | r \<Rightarrow> (Panic, pooled_drop p s))) s1) ())"

text \<open>The state of the hook is \<open>COUNTER\<close>.\<close>

definition count_hook :: "64 word \<Rightarrow> 64 word \<Rightarrow> 64 word \<times> 64 word" where
  "count_hook v n = (n, n + 1)"

definition take_hook_test :: "64 word \<Rightarrow> (unit, unit) res option" where
  "take_hook_test tid =
     (let ops = with_take_hook count_hook (fst zero_pool) in
      with_pool (\<lambda>s.
        let s1 = fold (pool_return ops tid) (replicate (pool_capacity (fst s) * 2) 0) s in
        case repeat_test (pool_capacity (fst s)) (lending ops tid (forgetting (\<lambda>v. v \<noteq> 0))) s1 of
          (Ok _, s2) \<Rightarrow> repeat_test (pool_capacity (fst s)) (lending ops tid (forgetting (\<lambda>v. v = 0))) s2
        | r \<Rightarrow> r) 1)"

section \<open>Full and empty pools\<close>

text \<open>A pool of sixteen slots that is searched whole and is not being dropped.\<close>

definition roomy :: "('a, 'g) pool_ops \<Rightarrow> 'a pool_mem \<Rightarrow> bool" where
  "roomy ops m \<longleftrightarrow> usable ops m \<and> DESTROYED \<notin> set (states m) \<and> length (states m) = 16 \<and> max_loop ops = 16"

lemma roomy_droppable: "roomy ops m \<Longrightarrow> \<exists>x. pool_drop m = Some x"
  using pool_drop_droppable [OF pool_wf_droppable] by (fastforce simp: roomy_def usable_def)

lemma put_from_states: "set (states (put_from start ks v m)) \<subseteq> insert AVAILABLE (set (states m))"
  by (induction ks) (auto simp: Let_def dest: set_update_subset_insert [THEN subsetD] split: slot.splits)

lemma take_from_states: "set (states (snd (take_from start ks m))) \<subseteq> insert EMPTY (set (states m))"
  by (induction ks) (auto simp: Let_def dest: set_update_subset_insert [THEN subsetD])

lemma pool_return_states: "set (states (fst (pool_return ops tid v (m, g)))) \<subseteq> insert AVAILABLE (set (states m))"
  using put_from_states [of "skip m" "[0..<max_loop ops]" _ "m\<lparr>skip := skip m + tid\<rparr>"]
  by (auto simp: pool_return_def next_id_def split: prod.splits option.splits)

lemma pool_take_states: "set (states (fst (snd (pool_take ops tid (m, g))))) \<subseteq> insert EMPTY (set (states m))"
  using take_from_states [of "skip m" "[0..<max_loop ops]" "m\<lparr>skip := skip m + tid\<rparr>"]
  by (auto simp: pool_take_def next_id_def split: prod.splits option.splits)

lemma size_values_of: "size (values_of cs) = length (filter (\<lambda>c. c \<noteq> None) cs)"
  by (induction cs rule: values_of.induct) auto

lemma empty_cell:
  assumes "roomy ops m" and "i < 16"
  shows "states m ! i = EMPTY \<longleftrightarrow> cells m ! i = None"
proof -
  have "states m ! i \<noteq> DESTROYED" using assms nth_mem [of i "states m"] by (metis roomy_def)
  with assms show ?thesis by (auto simp: roomy_def usable_def pool_wf_def)
qed

lemma size_stored:
  assumes "roomy ops m"
  shows "size (stored m) \<le> 16" and "(\<exists>i < 16. states m ! i = EMPTY) \<longleftrightarrow> size (stored m) < 16"
proof -
  have len: "length (cells m) = 16" using assms by (simp add: roomy_def usable_def pool_wf_def)
  note cell = empty_cell [OF assms]
  show "size (stored m) \<le> 16" using length_filter_le [of _ "cells m"] by (simp add: stored_def size_values_of len)
  have "size (stored m) < 16 \<longleftrightarrow> (\<exists>c \<in> set (cells m). c = None)"
    using length_filter_less [of _ "cells m" "\<lambda>c. c \<noteq> None"] filter_True [of "cells m" "\<lambda>c. c \<noteq> None"] len
    by (fastforce simp: stored_def size_values_of)
  then show "(\<exists>i < 16. states m ! i = EMPTY) \<longleftrightarrow> size (stored m) < 16"
    by (auto simp: in_set_conv_nth len cell)
qed

lemma whole_search:
  assumes "i < 16"
  obtains k where "k < 16" and "slot_index 16 start k = i"
proof -
  have "(16 :: nat) dvd 2 ^ 64" by (rule dvdI [of _ _ "2 ^ 60"]) simp
  from search_complete [OF this assms] that show thesis by blast
qed

lemma return_roomy:
  assumes "roomy ops m" and "run_return_hook ops v g = (Some v', g')"
  shows "\<exists>m'. pool_return ops tid v (m, g) = (m', g') \<and> roomy ops m' \<and>
    stored m' = (if size (stored m) < 16 then add_mset v' (stored m) else stored m)"
proof -
  have roomy: "roomy ops m'" if "usable ops m'" "length (states m') = 16" "pool_return ops tid v (m, g) = (m', g')" for m'
    using that pool_return_states [of ops tid v m g] assms(1) by (auto simp: roomy_def)
  from assms(1) have "usable ops m" by (simp add: roomy_def)
  then show ?thesis
  proof (cases rule: pool_return_cases [where g = g and v = v and tid = tid])
    case (dropped g')
    with assms(2) show ?thesis by simp
  next
    case (full v'' g'' m')
    have "\<not> (\<exists>i < 16. states m ! i = EMPTY)"
      using full(6) assms(1) whole_search [of _ "skip m"] by (metis roomy_def)
    with size_stored(2) [OF assms(1)] full assms roomy show ?thesis by (auto simp: roomy_def)
  next
    case (put v'' g'' m')
    with assms roomy have m': "roomy ops m'" by (auto simp: roomy_def)
    from size_stored(1) [OF m'] put(3) have "size (stored m) < 16" by simp
    with put assms m' show ?thesis by auto
  qed
qed

lemma take_roomy:
  assumes "roomy ops m"
  shows "\<exists>v m' g'. pool_take ops tid (m, g) = (Some v, m', g') \<and> roomy ops m' \<and>
    (if stored m = {#} then stored m' = {#} \<and> create ops g = (v, g') else
       \<exists>result. stored m = add_mset result (stored m') \<and>
         (case take_hook ops of Some hook \<Rightarrow> hook result g = (v, g') | None \<Rightarrow> v = result \<and> g' = g))"
proof -
  have roomy: "roomy ops m'" if "usable ops m'" "length (states m') = 16" "pool_take ops tid (m, g) = (x, m', g')" for x m' g'
    using that pool_take_states [of ops tid m g] assms by (auto simp: roomy_def)
  from assms have u: "usable ops m" by (simp add: roomy_def)
  then show ?thesis
  proof (cases rule: pool_take_cases [where g = g and tid = tid])
    case (stored result m')
    obtain v g' where take: "pool_take ops tid (m, g) = (Some v, m', g')"
      and hook: "case take_hook ops of Some hook \<Rightarrow> hook result g = (v, g') | None \<Rightarrow> v = result \<and> g' = g"
      using stored(3) by (cases "take_hook ops") (auto split: prod.splits)
    have "roomy ops m'" using roomy [OF stored(2) _ take] stored(4) assms by (simp add: roomy_def)
    with take hook stored(1) show ?thesis
      by (intro exI [of _ v] exI [of _ m'] exI [of _ g']) auto
  next
    case (created m')
    obtain v g' where v: "create ops g = (v, g')" by fastforce
    have "\<not> (\<exists>i < 16. states m ! i = AVAILABLE)"
      using created(5) assms whole_search [of _ "skip m"] by (metis roomy_def)
    with stored_nonempty_available [of m] assms have "stored m = {#}" by (auto simp: roomy_def usable_def)
    with created v roomy assms show ?thesis by (auto simp: roomy_def)
  qed
qed

text \<open>\<open>passes t I J\<close>: from a state with \<open>I\<close> the test succeeds, and leaves a state with \<open>J\<close>.\<close>

definition passes :: "'g pool_test \<Rightarrow> ('g test_state \<Rightarrow> bool) \<Rightarrow> ('g test_state \<Rightarrow> bool) \<Rightarrow> bool" where
  "passes t I J \<longleftrightarrow> (\<forall>s. I s \<longrightarrow> (\<exists>s'. t s = (Ok (), s') \<and> J s'))"

lemma repeat_passes:
  "(\<And>k. k < n \<Longrightarrow> passes t (I k) (I (Suc k))) \<Longrightarrow> passes (repeat_test n t) (I 0) (I n)"
proof (induction n arbitrary: I)
  case (Suc n)
  have "passes t (I 0) (I 1)" using Suc.prems [of 0] by simp
  moreover have "passes (repeat_test n t) (I 1) (I (Suc n))"
    using Suc.IH [of "\<lambda>k. I (Suc k)"] Suc.prems by simp
  ultimately show ?case by (fastforce simp: passes_def)
qed (simp add: passes_def)

lemma forgetting_take:
  assumes "pool_take ops tid s = (Some v, s')"
  shows "lending ops tid (forgetting P) s = (if P v then Ok () else Panic, s')"
  using assms by (simp add: lending_def pool_lend_def forgetting_def pooled_forget_def pooled_new_def pooled_drop_def)

lemma stored_new: "stored (snd zero_pool) = {#}"
  using values_of_None [of "replicate 16 None"] by (auto simp: zero_pool_def pool_new_def stored_def)

lemma roomy_new: "max_loop ops = 16 \<Longrightarrow> roomy ops (snd zero_pool)"
  using pool_wf_new [of 16] by (auto simp: roomy_def usable_def zero_pool_def pool_new_def)

lemma zero_pool_ops [simp]: "max_loop (fst zero_pool) = 16" "create (fst zero_pool) g = (0, g)"
  "take_hook (fst zero_pool) = None" "return_hook (fst zero_pool) = None"
  by (simp_all add: zero_pool_def pool_new_def)

lemma with_pool_passes:
  fixes g :: 'g
  assumes "passes t (\<lambda>s. s = (snd (zero_pool :: (64 word, 'g) pool_ops \<times> _), g)) (\<lambda>s. roomy (ops :: (64 word, 'g) pool_ops) (fst s))"
  shows "with_pool t g = Some (Ok ())"
proof -
  from assms obtain m g' where "t (snd (zero_pool :: (64 word, 'g) pool_ops \<times> _), g) = (Ok (), m, g')" "roomy ops m"
    by (auto simp: passes_def)
  with roomy_droppable [of ops m] show ?thesis by (auto simp: with_pool_def)
qed

section \<open>The tests pass\<close>

lemma take_return_passes: "take_return_test tid = Some (Ok ())"
  unfolding take_return_test_def
proof (rule with_pool_passes [of _ _ "fst zero_pool"])
  let ?m = "snd (zero_pool :: (64 word, unit) pool_ops \<times> _)"
  let ?ops = "fst zero_pool :: (64 word, unit) pool_ops"
  have m: "roomy ?ops ?m" by (rule roomy_new) simp
  from take_roomy [OF m, of tid "()"] obtain v m' where take: "pool_take ?ops tid (?m, ()) = (Some v, m', ())"
    and m': "roomy ?ops m'" by auto
  have "run_return_hook ?ops v () = (Some v, ())" by (simp add: run_return_hook_def)
  from return_roomy [OF m' this, of tid] obtain m2 where "pool_return ?ops tid v (m', ()) = (m2, ())" "roomy ?ops m2" by blast
  with take show "passes (lending ?ops tid (\<lambda>p s. (Ok (), pooled_drop p s))) (\<lambda>s. s = (?m, ())) (\<lambda>s. roomy ?ops (fst s))"
    by (auto simp: passes_def lending_def pool_lend_def pooled_new_def pooled_drop_def)
qed

lemma forget_passes: "forget_test tid = Some (Ok ())"
  unfolding forget_test_def
proof (rule with_pool_passes [of _ _ "fst zero_pool"])
  let ?m = "snd (zero_pool :: (64 word, unit) pool_ops \<times> _)"
  let ?ops = "fst zero_pool :: (64 word, unit) pool_ops"
  have m: "roomy ?ops ?m" "stored ?m = {#}" by (rule roomy_new, simp, rule stored_new)
  from take_roomy [OF m(1), of tid "()"] m(2) obtain v m' where take: "pool_take ?ops tid (?m, ()) = (Some v, m', ())"
    and m': "roomy ?ops m'" "stored m' = {#}" by auto
  have "states m' ! i = EMPTY" if "i < 16" for i
  proof -
    have "cells m' ! i = None"
      using m' that values_of_take [of i "cells m'"] by (cases "cells m' ! i") (auto simp: stored_def roomy_def usable_def pool_wf_def)
    with empty_cell [OF m'(1) that] show ?thesis by simp
  qed
  with take m'(1)
  show "passes (\<lambda>s. case lending ?ops tid (forgetting (\<lambda>_. True)) s of
      (Ok _, m, g) \<Rightarrow> (if \<forall>i \<in> {0..<pool_capacity m}. states m ! i = EMPTY then Ok () else Panic, m, g) | r \<Rightarrow> r)
      (\<lambda>s. s = (?m, ())) (\<lambda>s. roomy ?ops (fst s))"
    by (auto simp: passes_def forgetting_take pool_capacity_def roomy_def)
qed

lemma return_all_roomy:
  assumes "roomy ops m" and "\<And>v. fst (run_return_hook ops v g) = keep v" and "\<And>v. snd (run_return_hook ops v g) = g"
    and "\<forall>v \<in># stored m. P v" and "\<And>v w. v \<in> set vs \<Longrightarrow> keep v = Some w \<Longrightarrow> P w"
  shows "\<exists>m'. fold (pool_return ops tid) vs (m, g) = (m', g) \<and> roomy ops m' \<and> (\<forall>v \<in># stored m'. P v) \<and>
    size (stored m') = min 16 (size (stored m) + length (filter (\<lambda>v. keep v \<noteq> None) vs))"
  using assms
proof (induction vs arbitrary: m)
  case Nil
  then show ?case using size_stored(1) [OF Nil(1)] by simp
next
  case (Cons v vs)
  obtain m1 where m1: "pool_return ops tid v (m, g) = (m1, g)" "roomy ops m1" "\<forall>v \<in># stored m1. P v"
    "size (stored m1) = min 16 (size (stored m) + (if keep v = None then 0 else 1))"
  proof (cases "keep v")
    case None
    then have "run_return_hook ops v g = (None, g)" using Cons.prems(2,3) by (metis prod.collapse)
    then have "pool_return ops tid v (m, g) = (m, g)" by (simp add: pool_return_def)
    with None Cons.prems(1,4) size_stored(1) [OF Cons.prems(1)] show thesis by (intro that [of m]) auto
  next
    case (Some w)
    then have "run_return_hook ops v g = (Some w, g)" using Cons.prems(2,3) by (metis prod.collapse)
    from return_roomy [OF Cons.prems(1) this, of tid] obtain m' where
      "pool_return ops tid v (m, g) = (m', g)" "roomy ops m'"
      "stored m' = (if size (stored m) < 16 then add_mset w (stored m) else stored m)" by blast
    with Some Cons.prems(4,5) size_stored(1) [OF Cons.prems(1)] show thesis by (intro that [of m']) auto
  qed
  from Cons.IH [OF m1(2) Cons.prems(2,3) m1(3)] Cons.prems(5) obtain m' where
    "fold (pool_return ops tid) vs (m1, g) = (m', g)" "roomy ops m'" "\<forall>v \<in># stored m'. P v"
    "size (stored m') = min 16 (size (stored m1) + length (filter (\<lambda>v. keep v \<noteq> None) vs))" by auto
  with m1 show ?case by (intro exI [of _ m']) auto
qed

lemma return_hook_passes: "return_hook_test tid = Some (Ok ())"
proof -
  let ?m = "snd (zero_pool :: (64 word, unit) pool_ops \<times> _)"
  define ops :: "(64 word, unit) pool_ops" where "ops = with_return_hook even_hook (fst zero_pool)"
  have ops: "max_loop ops = 16" "create ops = (\<lambda>g. (0, g))" "take_hook ops = None" "run_return_hook ops = even_hook"
    by (simp_all add: ops_def with_return_hook_def fun_eq_iff run_return_hook_def)
  let ?I = "\<lambda>s. roomy ops (fst s) \<and> (\<forall>v \<in># stored (fst s). v mod 2 = 0)"
  let ?t = "lending ops tid (\<lambda>p s. case (pooled_get p :: (unit, _) res) of
    Ok v \<Rightarrow> if v mod 2 = 0 then forgetting (\<lambda>_. True) p s else (Panic, pooled_drop p s) | r \<Rightarrow> (Panic, pooled_drop p s))"
  have "passes ?t ?I ?I"
    unfolding passes_def
  proof (intro allI impI)
    fix s :: "unit test_state"
    assume s: "?I s"
    obtain m where m: "s = (m, ())" by (cases s) simp
    from take_roomy [of ops m tid "()"] s m obtain v m' where take: "pool_take ops tid s = (Some v, m', ())" "roomy ops m'"
      and v: "if stored m = {#} then stored m' = {#} \<and> v = 0 else stored m = add_mset v (stored m')"
      by (auto simp: ops split: if_splits)
    from v s m have "v mod 2 = 0 \<and> (\<forall>v \<in># stored m'. v mod 2 = 0)" by (auto split: if_splits)
    with take show "\<exists>s'. ?t s = (Ok (), s') \<and> ?I s'"
      by (simp add: lending_def pool_lend_def pooled_new_def pooled_get_def forgetting_def pooled_forget_def pooled_drop_def)
  qed
  from repeat_passes [of 16 ?t "\<lambda>_. ?I", OF this] have loop: "passes (repeat_test 16 ?t) ?I ?I" by simp
  have m: "roomy ops ?m" "\<forall>v \<in># stored ?m. v mod 2 = 0" by (rule roomy_new) (simp_all add: ops stored_new)
  have fill: "\<exists>m'. fold (pool_return ops tid) vs (?m, ()) = (m', ()) \<and> roomy ops m' \<and> (\<forall>v \<in># stored m'. v mod 2 = 0)" for vs
  proof -
    let ?keep = "\<lambda>v :: 64 word. if v mod 2 = 0 then Some v else None"
    have even: "w mod 2 = 0" if "v \<in> set vs" "?keep v = Some w" for v w using that(2) by (auto split: if_splits)
    have "\<exists>m'. fold (pool_return ops tid) vs (?m, ()) = (m', ()) \<and> roomy ops m' \<and> (\<forall>v \<in># stored m'. v mod 2 = 0) \<and>
        size (stored m') = min 16 (size (stored ?m) + length (filter (\<lambda>v. ?keep v \<noteq> None) vs))"
    proof (rule return_all_roomy [OF m(1) _ _ m(2)])
      show "fst (run_return_hook ops v ()) = ?keep v" for v by (simp add: ops even_hook_def)
    qed (fact even | simp)+
    then show ?thesis by blast
  qed
  from fill [of "map word_of_nat [0..<32]"] obtain m' where
    "fold (pool_return ops tid) (map word_of_nat [0..<32]) (?m, ()) = (m', ())" "?I (m', ())" by auto
  with loop m(1) show ?thesis
    unfolding return_hook_test_def Let_def ops_def [symmetric]
    by (intro with_pool_passes [of _ _ ops]) (auto simp: passes_def pool_capacity_def roomy_def)
qed

lemma take_hook_passes: "take_hook_test tid = Some (Ok ())"
proof -
  let ?m = "snd (zero_pool :: (64 word, 64 word) pool_ops \<times> _)"
  define ops :: "(64 word, 64 word) pool_ops" where "ops = with_take_hook count_hook (fst zero_pool)"
  have ops: "max_loop ops = 16" "create ops = (\<lambda>g. (0, g))" "take_hook ops = Some count_hook" "run_return_hook ops = (\<lambda>v g. (Some v, g))"
    by (simp_all add: ops_def with_take_hook_def fun_eq_iff run_return_hook_def)
  let ?I = "\<lambda>k (s :: 64 word test_state). roomy ops (fst s) \<and> size (stored (fst s)) = 16 - k \<and> snd s = word_of_nat (Suc k)"
  let ?J = "\<lambda>s :: 64 word test_state. roomy ops (fst s) \<and> stored (fst s) = {#}"
  have "passes (lending ops tid (forgetting (\<lambda>v. v \<noteq> 0))) (?I k) (?I (Suc k))" if k: "k < 16" for k
    unfolding passes_def
  proof (intro allI impI)
    fix s :: "64 word test_state"
    assume s: "?I k s"
    obtain m g where m: "s = (m, g)" by fastforce
    have "stored m \<noteq> {#}" using s m k by auto
    with take_roomy [of ops m tid g] s m obtain result m' where
      take: "pool_take ops tid s = (Some g, m', g + 1)" "roomy ops m'" "stored m = add_mset result (stored m')"
      by (auto simp: ops count_hook_def)
    have "unat (word_of_nat (Suc k) :: 64 word) = Suc k" unfolding unat_of_nat using k by simp
    then have "g \<noteq> 0" using s m by (metis nat.distinct(1) snd_conv unat_0)
    then have "lending ops tid (forgetting (\<lambda>v. v \<noteq> 0)) s = (Ok (), m', g + 1)" using forgetting_take [OF take(1)] by simp
    moreover have "?I (Suc k) (m', g + 1)" using take(2,3) s m k by auto
    ultimately show "\<exists>s'. lending ops tid (forgetting (\<lambda>v. v \<noteq> 0)) s = (Ok (), s') \<and> ?I (Suc k) s'" by blast
  qed
  from repeat_passes [of 16 _ ?I, OF this] have first: "passes (repeat_test 16 (lending ops tid (forgetting (\<lambda>v. v \<noteq> 0)))) (?I 0) (?I 16)" .
  have "passes (lending ops tid (forgetting (\<lambda>v. v = 0))) ?J ?J"
    unfolding passes_def
  proof (intro allI impI)
    fix s :: "64 word test_state"
    assume s: "?J s"
    obtain m g where m: "s = (m, g)" by fastforce
    with take_roomy [of ops m tid g] s obtain m' where
      take: "pool_take ops tid s = (Some 0, m', g)" "roomy ops m'" "stored m' = {#}" by (auto simp: ops)
    then show "\<exists>s'. lending ops tid (forgetting (\<lambda>v. v = 0)) s = (Ok (), s') \<and> ?J s'"
      by (simp add: forgetting_take [OF take(1)])
  qed
  from repeat_passes [of 16 _ "\<lambda>_. ?J", OF this] have second: "passes (repeat_test 16 (lending ops tid (forgetting (\<lambda>v. v = 0)))) ?J ?J" by simp
  have m: "roomy ops ?m" by (rule roomy_new) (simp add: ops)
  have "\<exists>m'. fold (pool_return ops tid) (replicate 32 0) (?m, 1) = (m', 1) \<and> roomy ops m' \<and> (\<forall>v \<in># stored m'. True) \<and>
      size (stored m') = min 16 (size (stored ?m) + length (filter (\<lambda>v. Some v \<noteq> None) (replicate 32 (0 :: 64 word))))"
    by (rule return_all_roomy [OF m]) (simp_all add: ops)
  then obtain m1 where m1: "fold (pool_return ops tid) (replicate 32 0) (?m, 1) = (m1, 1)" "?I 0 (m1, 1)"
    by (auto simp: stored_new)
  from first [unfolded passes_def, rule_format, OF m1(2)] obtain s2 where s2: "repeat_test 16 (lending ops tid (forgetting (\<lambda>v. v \<noteq> 0))) (m1, 1) = (Ok (), s2)" "?I 16 s2"
    by blast
  from s2(2) have "?J s2" by simp
  from second [unfolded passes_def, rule_format, OF this] obtain s3 where
    "repeat_test 16 (lending ops tid (forgetting (\<lambda>v. v = 0))) s2 = (Ok (), s3)" "?J s3" by blast
  with m1(1) s2(1) m show ?thesis
    unfolding take_hook_test_def Let_def ops_def [symmetric]
    by (intro with_pool_passes [of _ _ ops]) (auto simp: passes_def pool_capacity_def roomy_def)
qed

end
