(* ===== verification/Printable.thy ===== *)
theory Printable
  imports Nck_Prelude
begin

text \<open>
  \<open>crates/io/src/lib.rs\<close>: byte buffers as text, for debugging output; with the hexadecimal
  formatting of the standard library, which other components use for file names.
\<close>

section \<open>Hexadecimal\<close>

definition hex_digit :: "nat \<Rightarrow> char" where
  "hex_digit d = ''0123456789abcdef'' ! d"

text \<open>\<open>{:x}\<close>, and \<open>{:0>2x}\<close>, which fills with zeros on the left to two characters.\<close>

fun hex :: "nat \<Rightarrow> string" where
  "hex n = (if n < 16 then [hex_digit n] else hex (n div 16) @ [hex_digit (n mod 16)])"

declare hex.simps [simp del]

definition fill_left :: "char \<Rightarrow> nat \<Rightarrow> string \<Rightarrow> string" where
  "fill_left c n s = replicate (n - length s) c @ s"

definition hex_byte :: "byte \<Rightarrow> string" where
  "hex_byte b = fill_left (CHR ''0'') 2 (hex (unat b))"

lemma hex_digit_inject: "c < 16 \<Longrightarrow> d < 16 \<Longrightarrow> hex_digit c = hex_digit d \<longleftrightarrow> c = d"
proof -
  have "distinct ''0123456789abcdef''" by simp
  moreover assume "c < 16" "d < 16"
  ultimately show ?thesis unfolding hex_digit_def by (intro nth_eq_iff_index_eq) simp_all
qed

lemma hex_not_Nil [simp]: "hex n \<noteq> []"
  by (subst hex.simps) simp

lemma hex_inject: "hex m = hex n \<Longrightarrow> m = n"
proof (induction m arbitrary: n rule: hex.induct)
  case (1 m)
  have d: "m mod 16 < 16" "n mod 16 < 16" by simp_all
  show ?case
  proof (cases "m < 16"; cases "n < 16")
    assume "m < 16" "n < 16"
    with "1.prems" show ?thesis by (simp add: hex.simps [of m] hex.simps [of n] hex_digit_inject)
  next
    assume "m < 16" "\<not> n < 16"
    with "1.prems" show ?thesis by (simp add: hex.simps [of m] hex.simps [of n] Cons_eq_append_conv)
  next
    assume "\<not> m < 16" "n < 16"
    with "1.prems" show ?thesis by (simp add: hex.simps [of m] hex.simps [of n] append_eq_Cons_conv)
  next
    assume mn: "\<not> m < 16" "\<not> n < 16"
    with "1.prems" have "hex (m div 16) = hex (n div 16)" "m mod 16 = n mod 16"
      using hex_digit_inject [OF d] by (simp_all add: hex.simps [of m] hex.simps [of n])
    with "1.IH" mn(1) show ?thesis by (metis mult_div_mod_eq)
  qed
qed

lemma unat_byte_bound: "unat (b :: byte) < 256"
  using unsigned_less [where w = b and ?'a = nat] by simp

lemma hex_byte_digits: "hex_byte b = [hex_digit (unat b div 16), hex_digit (unat b mod 16)]"
proof (cases "unat b < 16")
  case True
  then show ?thesis by (simp add: hex_byte_def fill_left_def hex.simps [of "unat b"] hex_digit_def)
next
  case False
  moreover have "unat b div 16 < 16" using unat_byte_bound [of b] by simp
  ultimately show ?thesis
    by (simp add: hex_byte_def fill_left_def hex.simps [of "unat b"] hex.simps [of "unat b div 16"])
qed

lemma length_hex_byte [simp]: "length (hex_byte b) = 2"
  by (simp add: hex_byte_digits)

lemma hex_byte_inject [simp]: "hex_byte a = hex_byte b \<longleftrightarrow> a = b"
proof
  assume "hex_byte a = hex_byte b"
  moreover have "unat a div 16 < 16" "unat b div 16 < 16" using unat_byte_bound [of a] unat_byte_bound [of b] by simp_all
  ultimately have "unat a div 16 = unat b div 16" "unat a mod 16 = unat b mod 16"
    by (simp_all add: hex_byte_digits hex_digit_inject)
  then have "unat a = unat b" by (metis mult_div_mod_eq)
  then show "a = b" by (simp add: word_unat_eq_iff)
qed simp

section \<open>PrintableBuffer and EscapedBuffer\<close>

definition byte_char :: "byte \<Rightarrow> char" where
  "byte_char b = char_of (unat b)"

fun escape_display :: "byte \<Rightarrow> string" where
  "escape_display b =
     (if b = 0 then [CHR 0x5C, CHR ''0'']
      else if b = 13 then [CHR 0x5C, CHR ''r'']
      else if b = 10 then [CHR 0x5C, CHR ''n'']
      else if b = 9 then [CHR 0x5C, CHR ''t'']
      else if b = 92 then [CHR 0x5C]
      else if 0x20 \<le> b \<and> b \<le> 0x7E then [byte_char b]
      else [CHR 0x5C, CHR ''x''] @ hex_byte b)"

fun escape_debug :: "byte \<Rightarrow> string" where
  "escape_debug b =
     (if b = 0 then [CHR 0x5C, CHR ''0'']
      else if b = 13 then [CHR 0x5C, CHR ''r'']
      else if b = 10 then [CHR 0x5C, CHR ''n'']
      else if b = 9 then [CHR 0x5C, CHR ''t'']
      else if b = 92 then [CHR 0x5C]
      else if b = 34 then [CHR 0x5C, CHR 0x22]
      else if 0x20 \<le> b \<and> b \<le> 0x7E then [byte_char b]
      else [CHR 0x5C, CHR ''x''] @ hex_byte b)"

declare escape_display.simps [simp del] escape_debug.simps [simp del]

definition printable_display :: "bytes \<Rightarrow> string" where
  "printable_display bs = concat (map escape_display bs)"

definition printable_debug :: "bytes \<Rightarrow> string" where
  "printable_debug bs = [CHR ''b'', CHR 0x22] @ concat (map escape_debug bs) @ [CHR 0x22]"

definition escaped_debug :: "bytes \<Rightarrow> string" where
  "escaped_debug bs = [CHR ''b'', CHR 0x22] @ concat (map (\<lambda>b. [CHR 0x5C, CHR ''x''] @ hex_byte b) bs) @ [CHR 0x22]"

text \<open>
  The escaped form determines the buffer.
\<close>

theorem escaped_debug_inject:
  "escaped_debug a = escaped_debug b \<longleftrightarrow> a = b"
proof
  have "concat (map (\<lambda>b. [CHR 0x5C, CHR ''x''] @ hex_byte b) a) = concat (map (\<lambda>b. [CHR 0x5C, CHR ''x''] @ hex_byte b) b) \<Longrightarrow> a = b"
  proof (induction a arbitrary: b)
    case Nil
    then show ?case by (cases b) auto
  next
    case (Cons x a)
    then obtain y b' where b: "b = y # b'" by (cases b) auto
    with Cons.prems have "hex_byte x = hex_byte y \<and>
        concat (map (\<lambda>b. [CHR 0x5C, CHR ''x''] @ hex_byte b) a) = concat (map (\<lambda>b. [CHR 0x5C, CHR ''x''] @ hex_byte b) b')"
      by (intro append_eq_append_conv [THEN iffD1]) auto
    with Cons.IH b show ?case by simp
  qed
  then show "escaped_debug a = escaped_debug b \<Longrightarrow> a = b" by (simp add: escaped_debug_def)
qed simp

text \<open>
  The printable forms are ambiguous: a backslash is printed as it is, so a backslash and a
  zero digit look like a zero byte.
\<close>

theorem printable_ambiguous:
  "printable_debug [92, 48] = printable_debug [0] \<and> printable_display [92, 48] = printable_display [0]"
proof -
  have "byte_char 48 = CHR ''0''" by code_simp
  then show ?thesis
    by (simp add: printable_debug_def printable_display_def escape_debug.simps escape_display.simps)
qed

text \<open>Without backslashes the escapes form a prefix code.\<close>

lemma escape_debug_cases:
  assumes "b \<noteq> 92"
  obtains (named) x where "escape_debug b = [CHR 0x5C, x]"
      and "(b, x) \<in> {(0, CHR ''0''), (13, CHR ''r''), (10, CHR ''n''), (9, CHR ''t''), (34, CHR 0x22)}"
  | (plain) "escape_debug b = [byte_char b]" and "byte_char b \<noteq> CHR 0x5C"
  | (code) "escape_debug b = [CHR 0x5C, CHR ''x''] @ hex_byte b"
proof -
  have "byte_char b = CHR 0x5C \<Longrightarrow> b = 92"
  proof -
    assume "byte_char b = CHR 0x5C"
    then have "of_char (char_of (unat b) :: char) = (92 :: nat)" by (simp add: byte_char_def)
    then have "unat b mod 256 = 92" by simp
    then have "unat b = unat (92 :: byte)" using unat_byte_bound [of b] by simp
    then show "b = 92" by (simp only: word_unat_eq_iff)
  qed
  with assms that show thesis by (cases "b \<in> {0, 13, 10, 9, 34}"; cases "0x20 \<le> b \<and> b \<le> 0x7E")
      (auto simp: escape_debug.simps)
qed

lemma byte_char_inject [simp]: "byte_char a = byte_char b \<longleftrightarrow> a = b"
proof
  assume "byte_char a = byte_char b"
  then have "of_char (char_of (unat a) :: char) = (of_char (char_of (unat b) :: char) :: nat)"
    by (simp add: byte_char_def)
  then have "unat a = unat b" using unat_byte_bound [of a] unat_byte_bound [of b] by simp
  then show "a = b" by (simp add: word_unat_eq_iff)
qed simp

lemma escape_debug_prefix:
  assumes "a \<noteq> 92" and "b \<noteq> 92" and "escape_debug a @ s = escape_debug b @ t"
  shows "a = b \<and> s = t"
  using assms(1)
proof (cases rule: escape_debug_cases)
  case named
  from assms(2) show ?thesis by (cases rule: escape_debug_cases) (use named assms(3) in auto)
next
  case plain
  from assms(2) show ?thesis by (cases rule: escape_debug_cases) (use plain assms(3) in auto)
next
  case code
  from assms(2) show ?thesis
  proof (cases rule: escape_debug_cases)
    case named
    with code assms(3) show ?thesis by auto
  next
    case plain
    with code assms(3) show ?thesis by auto
  next
    case code
    with \<open>escape_debug a = _\<close> assms(3) have "hex_byte a @ s = hex_byte b @ t" by simp
    then show ?thesis by (simp add: append_eq_append_conv [OF disjI1])
  qed
qed

text \<open>
  Buffers without backslashes can be told apart by their printable form.
\<close>

theorem printable_debug_inject:
  assumes "92 \<notin> set a" and "92 \<notin> set b" and "printable_debug a = printable_debug b"
  shows "a = b"
proof -
  have "a = b" if "concat (map escape_debug a) = concat (map escape_debug b)"
    using that assms(1,2)
  proof (induction a arbitrary: b)
    case Nil
    then show ?case by (cases b) (auto simp: escape_debug.simps split: if_splits)
  next
    case (Cons x a)
    have "escape_debug x \<noteq> []" by (simp add: escape_debug.simps)
    with Cons.prems(1) obtain y b' where b: "b = y # b'" by (cases b) auto
    with Cons.prems escape_debug_prefix [of x y "concat (map escape_debug a)" "concat (map escape_debug b')"]
    have "x = y" "concat (map escape_debug a) = concat (map escape_debug b')" by auto
    with Cons b show ?case by auto
  qed
  with assms(3) show ?thesis by (simp add: printable_debug_def)
qed

theorem printable_debug_inject_witness:
  "printable_debug [0, 34, 200] \<noteq> printable_debug [0, 34, 201]"
proof
  assume "printable_debug [0, 34, 200] = printable_debug [0, 34, 201]"
  then have "[0, 34, 200] = [0, 34, 201 :: byte]" by (intro printable_debug_inject) simp_all
  then show False by simp
qed

end
