(* ===== verification/Buffer_Pool.thy ===== *)
theory Buffer_Pool
  imports Pooled_Item
begin

text \<open>
  The pool of byte buffers of \<open>crates/io/src/pool.rs\<close>, \<open>BUFFER_POOL\<close>, with its hooks, which
  keep the total capacity of the pooled buffers in \<open>CURRENT_SIZE\<close> (a word that wraps, as
  atomics do). The capacity that \<open>BytesMut::with_capacity\<close> reserves is a parameter \<open>alloc\<close>.
\<close>

section \<open>The pool\<close>

record buffer =
  contents :: bytes
  buf_capacity :: nat

definition MB :: nat where "MB = 131072"
definition MAX_TOTAL_BUFFERS :: nat where "MAX_TOTAL_BUFFERS = 128 * MB"
definition MAX_SINGLE_BUFFER :: nat where "MAX_SINGLE_BUFFER = 16 * MB"
definition DEFAULT_BUFFER_LEN :: nat where "DEFAULT_BUFFER_LEN = 16384"

definition buffer_create :: "(nat \<Rightarrow> nat) \<Rightarrow> 64 word \<Rightarrow> buffer \<times> 64 word" where
  "buffer_create alloc used = (\<lparr>contents = [], buf_capacity = alloc DEFAULT_BUFFER_LEN\<rparr>, used)"

definition buffer_take_hook :: "buffer \<Rightarrow> 64 word \<Rightarrow> buffer \<times> 64 word" where
  "buffer_take_hook v used = (v, used - word_of_nat (buf_capacity v))"

text \<open>
  The hook of a return reads \<open>CURRENT_SIZE\<close> and adds to it in two accesses: here they are made
  without another thread between them, in theory \<open>Buffer_Concurrent\<close> apart.
\<close>

definition buffer_refused :: "buffer \<Rightarrow> 64 word \<Rightarrow> bool" where
  "buffer_refused v used \<longleftrightarrow>
     (let capacity = buf_capacity v in
      capacity > MAX_SINGLE_BUFFER \<or> unat (used + word_of_nat capacity) > MAX_TOTAL_BUFFERS)"

definition buffer_counted :: "buffer \<Rightarrow> 64 word \<Rightarrow> 64 word" where
  "buffer_counted v used = used + word_of_nat (buf_capacity v)"

definition buffer_cleared :: "buffer \<Rightarrow> buffer" where
  "buffer_cleared v = v\<lparr>contents := []\<rparr>"

definition buffer_return_hook :: "buffer \<Rightarrow> 64 word \<Rightarrow> buffer option \<times> 64 word" where
  "buffer_return_hook v used =
     (if buffer_refused v used then (None, used) else (Some (buffer_cleared v), buffer_counted v used))"

lemmas buffer_hook_defs = buffer_return_hook_def buffer_refused_def buffer_counted_def buffer_cleared_def

definition BUFFER_POOL :: "(nat \<Rightarrow> nat) \<Rightarrow> (buffer, 64 word) pool_ops \<times> buffer pool_mem" where
  "BUFFER_POOL alloc =
     (case pool_new 128 (buffer_create alloc) of (ops, mem) \<Rightarrow>
        (with_return_hook buffer_return_hook (with_take_hook buffer_take_hook (with_max_search 128 16 ops)), mem))"

abbreviation buffer_ops :: "(nat \<Rightarrow> nat) \<Rightarrow> (buffer, 64 word) pool_ops" where
  "buffer_ops alloc \<equiv> fst (BUFFER_POOL alloc)"

lemma buffer_ops_simps [simp]:
  "create (buffer_ops alloc) = buffer_create alloc"
  "take_hook (buffer_ops alloc) = Some buffer_take_hook"
  "return_hook (buffer_ops alloc) = Some buffer_return_hook"
  "max_loop (buffer_ops alloc) = 16"
  by (simp_all add: BUFFER_POOL_def pool_new_def with_return_hook_def with_take_hook_def with_max_search_def)

lemma run_buffer_hook [simp]: "run_return_hook (buffer_ops alloc) = buffer_return_hook"
  by (simp add: run_return_hook_def fun_eq_iff)

section \<open>Its invariant\<close>

text \<open>The capacity of the pooled buffers, and how far \<open>CURRENT_SIZE\<close> is beyond it.\<close>

definition pooled_capacity :: "buffer pool_mem \<Rightarrow> nat" where
  "pooled_capacity m = \<Sum>\<^sub># (image_mset buf_capacity (stored m))"

definition lost_capacity :: "buffer pool_mem \<times> 64 word \<Rightarrow> nat" where
  "lost_capacity = (\<lambda>(m, used). unat used - pooled_capacity m)"

definition buffers_ok :: "(nat \<Rightarrow> nat) \<Rightarrow> buffer pool_mem \<times> 64 word \<Rightarrow> bool" where
  "buffers_ok alloc = (\<lambda>(m, used). usable (buffer_ops alloc) m \<and>
     (\<forall>b \<in># stored m. contents b = [] \<and> buf_capacity b \<le> MAX_SINGLE_BUFFER) \<and>
     pooled_capacity m \<le> unat used \<and> unat used \<le> MAX_TOTAL_BUFFERS)"

lemma buffers_ok_initial: "buffers_ok alloc (snd (BUFFER_POOL alloc), 0)"
proof -
  have "values_of (replicate n None) = ({#} :: buffer multiset)" for n
    by (rule values_of_None) auto
  then show ?thesis
    using pool_wf_new [of 128 "buffer_create alloc"]
    by (auto simp: buffers_ok_def usable_def BUFFER_POOL_def pooled_capacity_def stored_def pool_new_def
        with_return_hook_def with_take_hook_def with_max_search_def)
qed

lemma size_sub:
  assumes "c \<le> unat (used :: 64 word)"
  shows "unat (used - word_of_nat c) = unat used - c"
proof -
  have "c < 2 ^ 64" using assms unsigned_less [where w = used and ?'a = nat] by simp
  then have "unat (word_of_nat c :: 64 word) = c" by (simp add: unat_of_nat)
  with assms show ?thesis by (simp add: unat_sub word_le_nat_alt)
qed

lemma size_add:
  assumes "c \<le> MAX_SINGLE_BUFFER" and "unat (used :: 64 word) \<le> MAX_TOTAL_BUFFERS"
  shows "unat (used + word_of_nat c) = unat used + c"
  using assms by (simp add: unat_word_ariths unat_of_nat MAX_SINGLE_BUFFER_def MAX_TOTAL_BUFFERS_def MB_def)

lemma buffer_take_ok:
  assumes "buffers_ok alloc (m, used)"
  shows "\<exists>b s'. pool_take (buffer_ops alloc) tid (m, used) = (Some b, s') \<and> contents b = [] \<and>
    buffers_ok alloc s' \<and> lost_capacity s' = lost_capacity (m, used)"
proof -
  from assms have ok: "usable (buffer_ops alloc) m" "pooled_capacity m \<le> unat used" "unat used \<le> MAX_TOTAL_BUFFERS"
    and bs: "\<forall>b \<in># stored m. contents b = [] \<and> buf_capacity b \<le> MAX_SINGLE_BUFFER"
    by (auto simp: buffers_ok_def)
  from ok(1) show ?thesis
  proof (cases rule: pool_take_cases [where g = used and tid = tid])
    case (stored b m')
    then have cap: "pooled_capacity m = buf_capacity b + pooled_capacity m'" by (simp add: pooled_capacity_def)
    with ok have "unat (used - word_of_nat (buf_capacity b)) = unat used - buf_capacity b"
      by (intro size_sub) simp
    with stored cap ok bs show ?thesis
      by (auto simp: buffer_take_hook_def buffers_ok_def lost_capacity_def)
  next
    case (created m')
    then have "pooled_capacity m' = pooled_capacity m" by (simp add: pooled_capacity_def)
    with created ok bs show ?thesis
      by (auto simp: buffer_create_def buffers_ok_def lost_capacity_def)
  qed
qed

lemma buffer_return_ok:
  assumes "buffers_ok alloc (m, used)"
  shows "buffers_ok alloc (pool_return (buffer_ops alloc) tid b (m, used)) \<and>
    lost_capacity (m, used) \<le> lost_capacity (pool_return (buffer_ops alloc) tid b (m, used))"
proof -
  from assms have ok: "usable (buffer_ops alloc) m" "pooled_capacity m \<le> unat used" "unat used \<le> MAX_TOTAL_BUFFERS"
    and bs: "\<forall>b \<in># stored m. contents b = [] \<and> buf_capacity b \<le> MAX_SINGLE_BUFFER"
    by (auto simp: buffers_ok_def)
  have hook: "v' = b\<lparr>contents := []\<rparr> \<and> buf_capacity b \<le> MAX_SINGLE_BUFFER \<and> unat g' = unat used + buf_capacity b \<and>
      unat g' \<le> MAX_TOTAL_BUFFERS"
    if "buffer_return_hook b used = (Some v', g')" for v' g'
    using that size_add [OF _ ok(3), of "buf_capacity b"]
    by (auto simp: buffer_hook_defs Let_def split: if_splits)
  from ok(1) show ?thesis
  proof (cases rule: pool_return_cases [where g = used and tid = tid and v = b])
    case (dropped g')
    then have "g' = used" by (auto simp: buffer_hook_defs Let_def split: if_splits)
    with dropped assms show ?thesis by simp
  next
    case (full v' g' m')
    then have "pooled_capacity m' = pooled_capacity m" by (simp add: pooled_capacity_def)
    with full hook [of v' g'] ok bs show ?thesis by (auto simp: buffers_ok_def lost_capacity_def)
  next
    case (put v' g' m')
    with hook [of v' g'] have "pooled_capacity m' = buf_capacity b + pooled_capacity m" by (simp add: pooled_capacity_def)
    with put hook [of v' g'] ok bs show ?thesis by (auto simp: buffers_ok_def lost_capacity_def)
  qed
qed

section \<open>Runs\<close>

datatype pool_call = TakeBuffer "64 word" | ReturnBuffer "64 word" buffer

fun run_calls ::
    "(nat \<Rightarrow> nat) \<Rightarrow> pool_call list \<Rightarrow> buffer pool_mem \<times> 64 word \<Rightarrow> buffer option list \<times> buffer pool_mem \<times> 64 word" where
  "run_calls alloc [] s = ([], s)"
| "run_calls alloc (TakeBuffer tid # cs) s =
     (case pool_take (buffer_ops alloc) tid s of (b, s1) \<Rightarrow>
      case run_calls alloc cs s1 of (bs, s2) \<Rightarrow> (b # bs, s2))"
| "run_calls alloc (ReturnBuffer tid b # cs) s = run_calls alloc cs (pool_return (buffer_ops alloc) tid b s)"

lemma run_calls_ok:
  "buffers_ok alloc s \<Longrightarrow> buffers_ok alloc (snd (run_calls alloc cs s)) \<and>
     lost_capacity s \<le> lost_capacity (snd (run_calls alloc cs s)) \<and>
     (\<forall>b \<in> set (fst (run_calls alloc cs s)). \<exists>v. b = Some v \<and> contents v = [])"
proof (induction alloc cs s rule: run_calls.induct)
  case (1 alloc s)
  then show ?case by simp
next
  case (2 alloc tid cs s)
  obtain m used where s: "s = (m, used)" by fastforce
  from buffer_take_ok [OF "2.prems" [unfolded s], of tid] obtain b s' where
    b: "pool_take (buffer_ops alloc) tid s = (Some b, s')" "contents b = []" "buffers_ok alloc s'"
      "lost_capacity s' = lost_capacity s" by (auto simp: s)
  with "2.IH" [OF b(1) [symmetric] b(3)] show ?case by (auto split: prod.splits)
next
  case (3 alloc tid b cs s)
  obtain m used where s: "s = (m, used)" by fastforce
  from buffer_return_ok [OF "3.prems" [unfolded s], of tid b] "3.IH" show ?case by (auto simp: s)
qed

text \<open>
  Used by one thread at a time: whatever buffers are returned to \<open>BUFFER_POOL\<close>, every buffer taken
  is empty, no uninitialised cell is read, and the pooled buffers' capacity stays below
  \<open>CURRENT_SIZE\<close>, which stays below the limit.
\<close>

theorem buffer_pool_runs:
  "case run_calls alloc cs (snd (BUFFER_POOL alloc), 0) of (bs, (m, used)) \<Rightarrow>
     list_all (\<lambda>b. case b of Some v \<Rightarrow> contents v = [] | None \<Rightarrow> False) bs \<and>
     pooled_capacity m \<le> unat used \<and> unat used \<le> MAX_TOTAL_BUFFERS"
  using run_calls_ok [OF buffers_ok_initial, of alloc cs]
  by (auto simp: buffers_ok_def list_all_iff split: prod.splits option.split)

text \<open>
  A buffer that the return hook accepts while none of the searched slots is empty is
  dropped, but stays counted in \<open>CURRENT_SIZE\<close>, and no later use of the pool gets its capacity
  back.
\<close>

theorem buffer_pool_leak:
  assumes "buffers_ok alloc (m, used)" and "buf_capacity b \<le> MAX_SINGLE_BUFFER"
    and "unat used + buf_capacity b \<le> MAX_TOTAL_BUFFERS"
    and "\<forall>k < 16. states m ! slot_index (length (states m)) (skip m) k = AVAILABLE"
  shows "\<exists>m' used'. pool_return (buffer_ops alloc) tid b (m, used) = (m', used') \<and> stored m' = stored m \<and>
    lost_capacity (snd (run_calls alloc cs (m', used'))) \<ge> lost_capacity (m, used) + buf_capacity b"
proof -
  from assms(1) have "usable (buffer_ops alloc) m" by (simp add: buffers_ok_def)
  then have wf: "usable (buffer_ops alloc) m" and len: "0 < length (states m)" by (auto simp: usable_def)
  have u: "unat (used + word_of_nat (buf_capacity b)) = unat used + buf_capacity b"
    using assms(1,2) by (intro size_add) (auto simp: buffers_ok_def)
  have hook: "buffer_return_hook b used = (Some (b\<lparr>contents := []\<rparr>), used + word_of_nat (buf_capacity b))"
    using assms(2,3) by (auto simp: buffer_hook_defs Let_def u)
  let ?v = "b\<lparr>contents := []\<rparr>" and ?m = "m\<lparr>skip := skip m + tid\<rparr>"
  have "put_from (skip m) ks ?v ?m = ?m" if "\<forall>k \<in> set ks. k < 16" for ks
    using that assms(4) by (induction ks) (auto simp: Let_def)
  from this [of "[0..<16]"] have put: "put_from (skip m) [0..<16] ?v ?m = ?m" by simp
  have ret: "pool_return (buffer_ops alloc) tid b (m, used) = (?m, used + word_of_nat (buf_capacity b))"
    using hook put by (simp add: pool_return_def next_id_def)
  from buffer_return_ok [OF assms(1), of tid b]
  have "buffers_ok alloc (?m, used + word_of_nat (buf_capacity b))" by (simp add: ret)
  from run_calls_ok [OF this, of cs]
  have "lost_capacity (?m, used + word_of_nat (buf_capacity b)) \<le>
      lost_capacity (snd (run_calls alloc cs (?m, used + word_of_nat (buf_capacity b))))" by simp
  moreover have "lost_capacity (?m, used + word_of_nat (buf_capacity b)) = lost_capacity (m, used) + buf_capacity b"
    using assms(1) by (simp add: lost_capacity_def u pooled_capacity_def stored_def buffers_ok_def)
  ultimately show ?thesis using ret by (auto simp: stored_def)
qed

lemma values_of_replicate: "values_of (replicate n (Some v)) = replicate_mset n v"
  by (induction n) auto

theorem buffer_pool_leak_witness:
  "\<exists>m' used'. pool_return (buffer_ops id) 1 \<lparr>contents = [5], buf_capacity = 100\<rparr>
      (\<lparr>skip = 3, cells = replicate 16 (Some \<lparr>contents = [], buf_capacity = 10\<rparr>),
        states = replicate 16 AVAILABLE\<rparr>, 160) = (m', used') \<and>
    lost_capacity (snd (run_calls id [TakeBuffer 1, TakeBuffer 2] (m', used'))) \<ge> 100"
proof -
  let ?m = "\<lparr>skip = 3, cells = replicate 16 (Some \<lparr>contents = [], buf_capacity = 10\<rparr>),
    states = replicate 16 AVAILABLE\<rparr> :: buffer pool_mem"
  let ?b = "\<lparr>contents = [5], buf_capacity = 100\<rparr>"
  have "pool_wf ?m" by (simp add: pool_wf_def)
  then have ok: "buffers_ok id (?m, 160)"
    by (simp add: buffers_ok_def usable_def stored_def values_of_replicate pooled_capacity_def
        MAX_SINGLE_BUFFER_def MAX_TOTAL_BUFFERS_def MB_def)
  have idx: "slot_index 16 3 k < 16" for k by (rule slot_index_less) simp
  have "\<exists>m' used'. pool_return (buffer_ops id) 1 ?b (?m, 160) = (m', used') \<and> stored m' = stored ?m \<and>
    lost_capacity (snd (run_calls id [TakeBuffer 1, TakeBuffer 2] (m', used'))) \<ge>
      lost_capacity (?m, 160) + buf_capacity ?b"
    by (rule buffer_pool_leak [OF ok])
      (simp_all add: MAX_SINGLE_BUFFER_def MAX_TOTAL_BUFFERS_def MB_def idx)
  then show ?thesis by auto
qed

end
