(* ===== verification/Pool_Concurrent.thy ===== *)
theory Pool_Concurrent
  imports Pool
begin

text \<open>
  The interleavings of \<open>take\<close> and \<open>return_value\<close> of \<open>crates/io/src/pool.rs\<close>. A step is one
  atomic access of one thread: the \<open>fetch_add\<close>, one compare-and-exchange, or the access to a
  cell that a successful one guards; the accesses are taken to be sequentially consistent.
  The hooks run on values that a thread owns, outside the protocol, and are not part of it.
\<close>

section \<open>Steps\<close>

datatype 'a pc =
    Idle
  | TakeSearch "64 word" nat \<comment> \<open>the start and the turn of the loop of \<open>take\<close>\<close>
  | TakeRead nat
  | TakeRelease nat "'a option"
  | RetSearch 'a "64 word" nat
  | RetWrite 'a nat
  | RetPublish nat

record 'a thread =
  pc :: "'a pc"
  held :: "'a multiset"

definition compare_exchange :: "nat \<Rightarrow> slot \<Rightarrow> slot \<Rightarrow> 'a pool_mem \<Rightarrow> 'a pool_mem" where
  "compare_exchange i current new m =
     (if states m ! i = current then m\<lparr>states := (states m)[i := new]\<rparr> else m)"

text \<open>The last two arguments are the values created and dropped in the step.\<close>

inductive thread_step ::
    "nat \<Rightarrow> 'a pool_mem \<Rightarrow> 'a thread \<Rightarrow> 'a pool_mem \<Rightarrow> 'a thread \<Rightarrow> 'a multiset \<Rightarrow> 'a multiset \<Rightarrow> bool"
  for n where
  start_take: "pc t = Idle \<Longrightarrow> next_id tid m = (start, m') \<Longrightarrow>
     thread_step n m t m' (t\<lparr>pc := TakeSearch start 0\<rparr>) {#} {#}"
| create_value: "pc t = TakeSearch start k \<Longrightarrow> \<not> k < n \<Longrightarrow>
     thread_step n m t m (t\<lparr>pc := Idle, held := add_mset v (held t)\<rparr>) {#v#} {#}"
| take_miss: "pc t = TakeSearch start k \<Longrightarrow> k < n \<Longrightarrow> i = slot_index (length (states m)) start k \<Longrightarrow>
     states m ! i \<noteq> AVAILABLE \<Longrightarrow>
     thread_step n m t m (t\<lparr>pc := TakeSearch start (Suc k)\<rparr>) {#} {#}"
| take_hit: "pc t = TakeSearch start k \<Longrightarrow> k < n \<Longrightarrow> i = slot_index (length (states m)) start k \<Longrightarrow>
     states m ! i = AVAILABLE \<Longrightarrow>
     thread_step n m t (compare_exchange i AVAILABLE TAKING m) (t\<lparr>pc := TakeRead i\<rparr>) {#} {#}"
| take_read: "pc t = TakeRead i \<Longrightarrow>
     thread_step n m t (m\<lparr>cells := (cells m)[i := None]\<rparr>) (t\<lparr>pc := TakeRelease i (cells m ! i)\<rparr>) {#} {#}"
| take_release: "pc t = TakeRelease i c \<Longrightarrow>
     thread_step n m t (compare_exchange i TAKING EMPTY m)
       (t\<lparr>pc := Idle, held := (case c of Some v \<Rightarrow> add_mset v (held t) | None \<Rightarrow> held t)\<rparr>) {#} {#}"
| start_return: "pc t = Idle \<Longrightarrow> held t = add_mset v h \<Longrightarrow> next_id tid m = (start, m') \<Longrightarrow>
     thread_step n m t m' (t\<lparr>pc := RetSearch v start 0, held := h\<rparr>) {#} {#}"
| return_full: "pc t = RetSearch v start k \<Longrightarrow> \<not> k < n \<Longrightarrow>
     thread_step n m t m (t\<lparr>pc := Idle\<rparr>) {#} {#v#}"
| return_destroyed: "pc t = RetSearch v start k \<Longrightarrow> k < n \<Longrightarrow> i = slot_index (length (states m)) start k \<Longrightarrow>
     states m ! i = DESTROYED \<Longrightarrow>
     thread_step n m t m (t\<lparr>pc := Idle\<rparr>) {#} {#v#}"
| return_miss: "pc t = RetSearch v start k \<Longrightarrow> k < n \<Longrightarrow> i = slot_index (length (states m)) start k \<Longrightarrow>
     states m ! i \<noteq> EMPTY \<Longrightarrow> states m ! i \<noteq> DESTROYED \<Longrightarrow>
     thread_step n m t m (t\<lparr>pc := RetSearch v start (Suc k)\<rparr>) {#} {#}"
| return_hit: "pc t = RetSearch v start k \<Longrightarrow> k < n \<Longrightarrow> i = slot_index (length (states m)) start k \<Longrightarrow>
     states m ! i = EMPTY \<Longrightarrow>
     thread_step n m t (compare_exchange i EMPTY WRITING m) (t\<lparr>pc := RetWrite v i\<rparr>) {#} {#}"
| return_write: "pc t = RetWrite v i \<Longrightarrow>
     thread_step n m t (m\<lparr>cells := (cells m)[i := Some v]\<rparr>) (t\<lparr>pc := RetPublish i\<rparr>) {#} {#}"
| return_publish: "pc t = RetPublish i \<Longrightarrow>
     thread_step n m t (compare_exchange i WRITING AVAILABLE m) (t\<lparr>pc := Idle\<rparr>) {#} {#}"

text \<open>A system: the pool, its threads, and all values created and dropped so far.\<close>

record 'a system =
  mem :: "'a pool_mem"
  threads :: "'a thread list"
  born :: "'a multiset"
  gone :: "'a multiset"

inductive system_step :: "nat \<Rightarrow> 'a system \<Rightarrow> 'a system \<Rightarrow> bool" for n where
  system_stepI: "j < length (threads s) \<Longrightarrow> thread_step n (mem s) (threads s ! j) m' t' c d \<Longrightarrow>
     system_step n s \<lparr>mem = m', threads = (threads s)[j := t'], born = born s + c, gone = gone s + d\<rparr>"

definition system_init :: "nat \<Rightarrow> nat \<Rightarrow> 'a system" where
  "system_init capacity procs =
     \<lparr>mem = \<lparr>skip = 0, cells = replicate capacity None, states = replicate capacity EMPTY\<rparr>,
      threads = replicate procs \<lparr>pc = Idle, held = {#}\<rparr>, born = {#}, gone = {#}\<rparr>"

definition reachable :: "nat \<Rightarrow> nat \<Rightarrow> nat \<Rightarrow> 'a system \<Rightarrow> bool" where
  "reachable capacity procs n s \<longleftrightarrow> (system_step n)\<^sup>*\<^sup>* (system_init capacity procs) s"

inductive_cases system_stepE: "system_step n s s'"

section \<open>Ownership\<close>

fun owns :: "'a pc \<Rightarrow> nat \<Rightarrow> bool" where
  "owns (TakeRead i) j \<longleftrightarrow> i = j"
| "owns (TakeRelease i _) j \<longleftrightarrow> i = j"
| "owns (RetWrite _ i) j \<longleftrightarrow> i = j"
| "owns (RetPublish i) j \<longleftrightarrow> i = j"
| "owns _ _ \<longleftrightarrow> False"

text \<open>What a thread inside a critical section relies on.\<close>

fun pc_ok :: "'a pool_mem \<Rightarrow> 'a pc \<Rightarrow> bool" where
  "pc_ok m (TakeRead i) \<longleftrightarrow> i < length (states m) \<and> states m ! i = TAKING \<and> cells m ! i \<noteq> None"
| "pc_ok m (TakeRelease i c) \<longleftrightarrow> i < length (states m) \<and> states m ! i = TAKING \<and> cells m ! i = None \<and> c \<noteq> None"
| "pc_ok m (RetWrite v i) \<longleftrightarrow> i < length (states m) \<and> states m ! i = WRITING \<and> cells m ! i = None"
| "pc_ok m (RetPublish i) \<longleftrightarrow> i < length (states m) \<and> states m ! i = WRITING \<and> cells m ! i \<noteq> None"
| "pc_ok m _ \<longleftrightarrow> True"

definition slots_ok :: "'a pool_mem \<Rightarrow> bool" where
  "slots_ok m \<longleftrightarrow> length (cells m) = length (states m) \<and>
     (\<forall>i < length (states m). (states m ! i = AVAILABLE \<longrightarrow> cells m ! i \<noteq> None) \<and>
        (states m ! i \<in> {EMPTY, DESTROYED} \<longrightarrow> cells m ! i = None))"

text \<open>A busy slot has an owner, so no slot is lost.\<close>

definition owned :: "'a system \<Rightarrow> bool" where
  "owned s \<longleftrightarrow> (\<forall>i < length (states (mem s)). states (mem s) ! i \<in> {TAKING, WRITING} \<longrightarrow>
     (\<exists>j < length (threads s). owns (pc (threads s ! j)) i))"

definition exclusive :: "'a thread list \<Rightarrow> bool" where
  "exclusive ts \<longleftrightarrow> (\<forall>j k i. j < length ts \<longrightarrow> k < length ts \<longrightarrow> owns (pc (ts ! j)) i \<longrightarrow>
     owns (pc (ts ! k)) i \<longrightarrow> j = k)"

definition system_ok :: "'a system \<Rightarrow> bool" where
  "system_ok s \<longleftrightarrow> slots_ok (mem s) \<and> (\<forall>t \<in> set (threads s). pc_ok (mem s) (pc t)) \<and>
     exclusive (threads s) \<and> owned s"

text \<open>Where every value is: with a thread, or in the pool.\<close>

fun in_transit :: "'a pc \<Rightarrow> 'a multiset" where
  "in_transit (TakeRelease _ (Some v)) = {#v#}"
| "in_transit (RetSearch v _ _) = {#v#}"
| "in_transit (RetWrite v _) = {#v#}"
| "in_transit _ = {#}"

definition thread_values :: "'a thread \<Rightarrow> 'a multiset" where
  "thread_values t = held t + in_transit (pc t)"

fun threads_values :: "'a thread list \<Rightarrow> 'a multiset" where
  "threads_values [] = {#}"
| "threads_values (t # ts) = thread_values t + threads_values ts"

definition conserved :: "'a system \<Rightarrow> bool" where
  "conserved s \<longleftrightarrow> born s = stored (mem s) + threads_values (threads s) + gone s"

section \<open>The invariant\<close>

lemma owner_busy: "pc_ok m p \<Longrightarrow> owns p i \<Longrightarrow> i < length (states m) \<and> states m ! i \<in> {TAKING, WRITING}"
  by (cases p) auto

text \<open>Changing a slot that a thread does not own does not concern the thread.\<close>

lemma pc_ok_frame:
  assumes "pc_ok m p" and "\<not> owns p i"
  shows "pc_ok (m\<lparr>states := (states m)[i := x]\<rparr>) p" and "pc_ok (m\<lparr>cells := (cells m)[i := c]\<rparr>) p"
  using assms by (cases p; simp)+

lemma pc_ok_skip [simp]: "pc_ok (m\<lparr>skip := y\<rparr>) p = pc_ok m p"
  by (cases p) auto

definition searches_within :: "nat \<Rightarrow> 'a pool_mem \<Rightarrow> bool" where
  "searches_within n m \<longleftrightarrow> n \<le> length (states m)"

lemma searched_slot:
  "searches_within n m \<Longrightarrow> k < n \<Longrightarrow> i = slot_index (length (states m)) start k \<Longrightarrow> i < length (states m)"
  by (auto simp: searches_within_def intro: slot_index_less)

lemma stored_states [simp]: "stored (m\<lparr>states := x\<rparr>) = stored m" "stored (m\<lparr>skip := y\<rparr>) = stored m"
  by (simp_all add: stored_def)

text \<open>One step: the slots, the thread itself, the other threads, ownership, and the values.\<close>

lemma thread_step_length: "thread_step n m t m' t' c d \<Longrightarrow> length (states m') = length (states m)"
  by (induction rule: thread_step.induct) (auto simp: next_id_def compare_exchange_def)

lemma thread_step_slots:
  "thread_step n m t m' t' c d \<Longrightarrow> slots_ok m \<Longrightarrow> pc_ok m (pc t) \<Longrightarrow> searches_within n m \<Longrightarrow>
     slots_ok m' \<and> pc_ok m' (pc t')"
proof (induction rule: thread_step.induct)
  case (take_hit t start k i m)
  then show ?case using searched_slot [OF take_hit(7,2,3)]
    by (auto simp: slots_ok_def compare_exchange_def nth_list_update)
next
  case (return_hit t v start k i m)
  then show ?case using searched_slot [OF return_hit(7,2,3)]
    by (auto simp: slots_ok_def compare_exchange_def nth_list_update)
qed (auto simp: slots_ok_def compare_exchange_def next_id_def nth_list_update)

lemma thread_step_others:
  assumes "thread_step n m t m' t' c d" and "pc_ok m p" and "\<forall>i. owns p i \<longrightarrow> \<not> owns (pc t) i"
  shows "pc_ok m' p"
  using assms
proof (induction rule: thread_step.induct)
  case (take_hit t start k i m)
  then have "\<not> owns p i" using owner_busy [of m p i] by auto
  with take_hit show ?case by (simp add: compare_exchange_def pc_ok_frame)
next
  case (return_hit t v start k i m)
  then have "\<not> owns p i" using owner_busy [of m p i] by auto
  with return_hit show ?case by (simp add: compare_exchange_def pc_ok_frame)
qed (auto simp: compare_exchange_def next_id_def intro!: pc_ok_frame)

lemma thread_step_acquires:
  "thread_step n m t m' t' c d \<Longrightarrow> owns (pc t') i \<Longrightarrow>
     owns (pc t) i \<or> states m ! i \<in> {EMPTY, AVAILABLE}"
  by (induction rule: thread_step.induct) auto

lemma thread_step_owned:
  "thread_step n m t m' t' c d \<Longrightarrow> pc_ok m (pc t) \<Longrightarrow> states m' ! i \<in> {TAKING, WRITING} \<Longrightarrow> i < length (states m) \<Longrightarrow>
     owns (pc t') i \<or> states m ! i \<in> {TAKING, WRITING} \<and> \<not> owns (pc t) i"
  by (induction rule: thread_step.induct)
    (auto simp: compare_exchange_def next_id_def nth_list_update split: if_splits)

lemma thread_step_values:
  "thread_step n m t m' t' c d \<Longrightarrow> slots_ok m \<Longrightarrow> pc_ok m (pc t) \<Longrightarrow>
     stored m + thread_values t + c = stored m' + thread_values t' + d"
proof (induction rule: thread_step.induct)
  case (take_read t i m)
  then obtain v where "cells m ! i = Some v" "i < length (cells m)" by (auto simp: slots_ok_def)
  with take_read stored_take [OF this(2,1), where ss = "states m"] show ?case by (simp add: thread_values_def)
next
  case (return_write t v i m)
  then have "cells m ! i = None" "i < length (cells m)" by (auto simp: slots_ok_def)
  with return_write stored_put [OF this(2,1), where v = v and ss = "states m"] show ?case by (simp add: thread_values_def)
qed (auto simp: thread_values_def compare_exchange_def next_id_def split: option.split)

lemma threads_values_update:
  "j < length ts \<Longrightarrow> threads_values (ts[j := t]) + thread_values (ts ! j) = threads_values ts + thread_values t"
  by (induction ts arbitrary: j) (auto simp: nth_Cons' ac_simps split: nat.split)

text \<open>The invariant, and conservation, along a step of the system.\<close>

lemma system_step_ok:
  assumes "system_step n s s'" and "system_ok s" and "searches_within n (mem s)"
  shows "system_ok s' \<and> searches_within n (mem s') \<and> (conserved s \<longrightarrow> conserved s')"
proof -
  let ?ts = "threads s"
  from assms(1) obtain j m' t' c d where j: "j < length ?ts"
    and step: "thread_step n (mem s) (?ts ! j) m' t' c d"
    and s': "s' = \<lparr>mem = m', threads = ?ts[j := t'], born = born s + c, gone = gone s + d\<rparr>"
    by (auto elim: system_stepE)
  let ?t = "?ts ! j"
  from assms(2) have slots: "slots_ok (mem s)" and pcs: "\<forall>t \<in> set ?ts. pc_ok (mem s) (pc t)"
    and excl: "exclusive ?ts" and own: "owned s" by (auto simp: system_ok_def)
  have tok: "pc_ok (mem s) (pc ?t)" using pcs j by simp
  have free: "\<not> owns (pc ?t) i" if "k < length ?ts" "k \<noteq> j" "owns (pc (?ts ! k)) i" for k i
    using excl that j unfolding exclusive_def by blast
  have others: "pc_ok m' (pc (?ts ! k))" if "k < length ?ts" "k \<noteq> j" for k
    using thread_step_others [OF step, of "pc (?ts ! k)"] pcs free [OF that] that by auto
  have excl': "exclusive (?ts[j := t'])"
  proof -
    have new: "k = j" if "k < length ?ts" "owns (pc (?ts ! k)) i" "owns (pc t') i" for k i
    proof (rule ccontr)
      assume "k \<noteq> j"
      with free that have "\<not> owns (pc ?t) i" by blast
      with thread_step_acquires [OF step that(3)] have "states (mem s) ! i \<in> {EMPTY, AVAILABLE}" by blast
      with owner_busy [of "mem s" "pc (?ts ! k)" i] pcs that show False by auto
    qed
    show ?thesis
      unfolding exclusive_def
    proof (intro allI impI, goal_cases)
      case (1 a b i)
      then show ?case using excl new j by (auto simp: nth_list_update exclusive_def split: if_splits)
    qed
  qed
  have own': "owned s'"
    unfolding owned_def
  proof (intro allI impI)
    fix i
    assume i: "i < length (states (mem s'))" "states (mem s') ! i \<in> {TAKING, WRITING}"
    then have "i < length (states (mem s))" using thread_step_length [OF step] by (simp add: s')
    from thread_step_owned [OF step tok _ this] i consider "owns (pc t') i"
      | "states (mem s) ! i \<in> {TAKING, WRITING}" "\<not> owns (pc ?t) i" by (auto simp: s')
    then show "\<exists>k < length (threads s'). owns (pc (threads s' ! k)) i"
    proof cases
      case 1
      with j show ?thesis by (auto simp: s' intro!: exI [of _ j])
    next
      case 2
      with own \<open>i < length (states (mem s))\<close> obtain k where k: "k < length ?ts" "owns (pc (?ts ! k)) i"
        unfolding owned_def by blast
      with 2(2) have "k \<noteq> j" by auto
      with k show ?thesis by (auto simp: s' intro!: exI [of _ k])
    qed
  qed
  have ok: "slots_ok m'" "pc_ok m' (pc t')" using thread_step_slots [OF step slots tok assms(3)] by auto
  have "\<forall>t \<in> set (?ts[j := t']). pc_ok m' (pc t)"
    using ok(2) others j by (auto simp: all_set_conv_all_nth nth_list_update)
  with ok(1) excl' own' have "system_ok s'" by (simp add: s' system_ok_def)
  moreover have "searches_within n (mem s')"
    using assms(3) thread_step_length [OF step] by (simp add: s' searches_within_def)
  moreover have "conserved s'" if "conserved s"
  proof -
    have "born s + c + thread_values ?t = stored m' + thread_values t' + d + threads_values ?ts + gone s"
      using that thread_step_values [OF step slots tok] by (simp add: conserved_def ac_simps)
    also have "\<dots> = stored m' + (threads_values (?ts[j := t']) + thread_values ?t) + (gone s + d)"
      using threads_values_update [OF j, of t'] by (simp add: ac_simps)
    finally show ?thesis by (simp add: s' conserved_def ac_simps)
  qed
  ultimately show ?thesis by blast
qed

lemma system_init_ok:
  "n \<le> capacity \<Longrightarrow> system_ok (system_init capacity procs) \<and> conserved (system_init capacity procs) \<and>
     searches_within n (mem (system_init capacity procs))"
proof -
  have "threads_values (replicate procs \<lparr>pc = Idle, held = {#}\<rparr>) = {#}"
    by (induction procs) (auto simp: thread_values_def)
  moreover have "values_of (replicate capacity None) = {#}" by (rule values_of_None) auto
  moreover assume "n \<le> capacity"
  ultimately show ?thesis
    by (auto simp: system_init_def system_ok_def slots_ok_def exclusive_def owned_def conserved_def stored_def
        searches_within_def)
qed

lemma reachable_ok:
  assumes "reachable capacity procs n s" and "n \<le> capacity"
  shows "system_ok s \<and> conserved s \<and> searches_within n (mem s)"
  using assms(1) unfolding reachable_def
proof (induction rule: rtranclp_induct)
  case base
  from system_init_ok [OF assms(2)] show ?case by blast
next
  case (step s s')
  with system_step_ok show ?case by blast
qed

section \<open>What the protocol guarantees\<close>

text \<open>
  C2: However the operations of any number of threads interleave, no thread reads a cell that
  holds no value, no two threads are inside the same cell, and a cell that is being taken or
  written has a thread that will release it.
\<close>

theorem pool_mutual_exclusion:
  assumes "reachable capacity procs n s" and "n \<le> capacity"
  shows "(\<forall>j < length (threads s). \<forall>i. pc (threads s ! j) = TakeRead i \<longrightarrow> cells (mem s) ! i \<noteq> None) \<and>
    (\<forall>j < length (threads s). \<forall>k < length (threads s). \<forall>i.
       owns (pc (threads s ! j)) i \<longrightarrow> owns (pc (threads s ! k)) i \<longrightarrow> j = k) \<and>
    (\<forall>i < length (states (mem s)). states (mem s) ! i \<in> {TAKING, WRITING} \<longrightarrow>
       (\<exists>j < length (threads s). owns (pc (threads s ! j)) i))"
proof -
  from reachable_ok [OF assms] have ok: "system_ok s" by simp
  have "cells (mem s) ! i \<noteq> None" if "j < length (threads s)" "pc (threads s ! j) = TakeRead i" for j i
    using ok that nth_mem [OF that(1)] unfolding system_ok_def by (metis pc_ok.simps(1))
  with ok show ?thesis by (auto simp: system_ok_def exclusive_def owned_def)
qed

text \<open>
  C21: No value is duplicated or lost: what was ever created is, as a multiset, what the pool
  stores, what the threads hold or are moving, and what was dropped for want of a slot.
\<close>

theorem pool_conservation:
  assumes "reachable capacity procs n s" and "n \<le> capacity"
  shows "born s = stored (mem s) + threads_values (threads s) + gone s"
  using reachable_ok [OF assms] by (simp add: conserved_def)

lemma reachable_step: "reachable capacity procs n s \<Longrightarrow> system_step n s s' \<Longrightarrow> reachable capacity procs n s'"
  unfolding reachable_def by (rule rtranclp.rtrancl_into_rtrancl)

lemma system_stepI':
  "thread_step n m t m' t' c d \<Longrightarrow> mem s = m \<Longrightarrow> j < length (threads s) \<Longrightarrow> threads s ! j = t \<Longrightarrow>
     s' = \<lparr>mem = m', threads = (threads s)[j := t'], born = born s + c, gone = gone s + d\<rparr> \<Longrightarrow> system_step n s s'"
  using system_stepI by metis

text \<open>
  A pool of one slot and two threads: the first has created a value and is returning it, and
  owns the slot; the second has started to search.
\<close>

definition one_writing :: "nat system" where
  "one_writing = \<lparr>mem = \<lparr>skip = 17, cells = [None], states = [WRITING]\<rparr>,
     threads = [\<lparr>pc = RetWrite 9 0, held = {#}\<rparr>, \<lparr>pc = TakeSearch 10 0, held = {#}\<rparr>],
     born = {#9#}, gone = {#}\<rparr>"

lemma start_take': "thread_step n m \<lparr>pc = Idle, held = h\<rparr> (m\<lparr>skip := skip m + tid\<rparr>)
    \<lparr>pc = TakeSearch (skip m) 0, held = h\<rparr> {#} {#}"
  using thread_step.start_take [of "\<lparr>pc = Idle, held = h\<rparr>" tid m _ _ n] by (simp add: next_id_def)

lemma start_return': "thread_step n m \<lparr>pc = Idle, held = add_mset v h\<rparr> (m\<lparr>skip := skip m + tid\<rparr>)
    \<lparr>pc = RetSearch v (skip m) 0, held = h\<rparr> {#} {#}"
  using thread_step.start_return [of "\<lparr>pc = Idle, held = add_mset v h\<rparr>" v h tid m _ _ n] by (simp add: next_id_def)

lemma one_writing_reachable: "reachable 1 2 1 one_writing"
proof -
  let ?t = "\<lambda>p h. \<lparr>pc = p, held = h\<rparr> :: nat thread"
    and ?m = "\<lambda>w s. \<lparr>skip = w, cells = [None], states = [s]\<rparr> :: nat pool_mem"
  let ?s = "\<lambda>w st p h b q. \<lparr>mem = ?m w st, threads = [?t p h, ?t q {#}], born = b, gone = {#}\<rparr> :: nat system"
  have "reachable 1 2 1 (system_init 1 2)" by (simp add: reachable_def)
  then have 0: "reachable 1 2 1 (?s 0 EMPTY Idle {#} {#} Idle)"
    by (simp add: system_init_def numeral_2_eq_2)
  have "thread_step 1 (?m 0 EMPTY) (?t Idle {#}) (?m 5 EMPTY) (?t (TakeSearch 0 0) {#}) {#} {#}"
    using start_take' [of 1 "?m 0 EMPTY" _ 5] by simp
  from reachable_step [OF 0 system_stepI' [OF this, of _ 0]]
  have 1: "reachable 1 2 1 (?s 5 EMPTY (TakeSearch 0 0) {#} {#} Idle)" by simp
  have "thread_step 1 (?m 5 EMPTY) (?t (TakeSearch 0 0) {#}) (?m 5 EMPTY) (?t (TakeSearch 0 1) {#}) {#} {#}"
    using thread_step.take_miss [of "?t (TakeSearch 0 0) {#}" 0 0 1 0 "?m 5 EMPTY"] by (simp add: slot_index_def)
  from reachable_step [OF 1 system_stepI' [OF this, of _ 0]]
  have 2: "reachable 1 2 1 (?s 5 EMPTY (TakeSearch 0 1) {#} {#} Idle)" by simp
  have "thread_step 1 (?m 5 EMPTY) (?t (TakeSearch 0 1) {#}) (?m 5 EMPTY) (?t Idle {#9#}) {#9#} {#}"
    using thread_step.create_value [of "?t (TakeSearch 0 1) {#}" 0 1 1 "?m 5 EMPTY" 9] by simp
  from reachable_step [OF 2 system_stepI' [OF this, of _ 0]]
  have 3: "reachable 1 2 1 (?s 5 EMPTY Idle {#9#} {#9#} Idle)" by simp
  have "thread_step 1 (?m 5 EMPTY) (?t Idle {#9#}) (?m 10 EMPTY) (?t (RetSearch 9 5 0) {#}) {#} {#}"
    using start_return' [of 1 "?m 5 EMPTY" 9 "{#}" 5] by simp
  from reachable_step [OF 3 system_stepI' [OF this, of _ 0]]
  have 4: "reachable 1 2 1 (?s 10 EMPTY (RetSearch 9 5 0) {#} {#9#} Idle)" by simp
  have "thread_step 1 (?m 10 EMPTY) (?t (RetSearch 9 5 0) {#}) (?m 10 WRITING) (?t (RetWrite 9 0) {#}) {#} {#}"
    using thread_step.return_hit [of "?t (RetSearch 9 5 0) {#}" 9 5 0 1 0 "?m 10 EMPTY"]
    by (simp add: slot_index_def compare_exchange_def)
  from reachable_step [OF 4 system_stepI' [OF this, of _ 0]]
  have 5: "reachable 1 2 1 (?s 10 WRITING (RetWrite 9 0) {#} {#9#} Idle)" by simp
  have "thread_step 1 (?m 10 WRITING) (?t Idle {#}) (?m 17 WRITING) (?t (TakeSearch 10 0) {#}) {#} {#}"
    using start_take' [of 1 "?m 10 WRITING" _ 7] by simp
  from reachable_step [OF 5 system_stepI' [OF this, of _ 1]]
  show ?thesis by (simp add: one_writing_def)
qed

theorem pool_mutual_exclusion_witness:
  "\<not> owns (pc (threads one_writing ! 1)) 0 \<and> (\<exists>j < 2. owns (pc (threads one_writing ! j)) 0)"
  using pool_mutual_exclusion [OF one_writing_reachable]
  by (auto simp: one_writing_def less_2_cases_iff)

theorem pool_conservation_witness:
  "born one_writing = stored (mem one_writing) + threads_values (threads one_writing) + gone one_writing"
  by (rule pool_conservation [OF one_writing_reachable]) simp

end
