(* ===== verification/Buffer_Concurrent.thy ===== *)
theory Buffer_Concurrent
  imports Buffer_Pool Pool_Concurrent
begin

text \<open>
  \<open>BUFFER_POOL\<close> of \<open>crates/io/src/pool.rs\<close> used by several threads: the protocol of the slots
  (theory \<open>Pool_Concurrent\<close>) together with the hooks, which read and change \<open>CURRENT_SIZE\<close> one
  atomic access at a time. Between the access that checks the limit and the one that counts the
  buffer other threads may do the same, so that the limit is a soft one.
\<close>

section \<open>Steps\<close>

text \<open>
  Where a thread is when it is in a hook: before the \<open>fetch_sub\<close> of a take, before the \<open>load\<close> and
  before the \<open>fetch_add\<close> of a return, and between the hook and the search for a slot.
\<close>

datatype hook_pc = NoHook | Subtract buffer | LoadSize buffer | AddSize buffer | PutBack buffer

record buffer_thread =
  proto :: "buffer thread"
  hook :: hook_pc

definition searching :: "'a pc \<Rightarrow> bool" where
  "searching p \<longleftrightarrow> (\<exists>start. p = TakeSearch start 0)"

text \<open>
  The last argument is what a \<open>take\<close> returns in the step. What a thread does with the buffers that
  it owns is up to it (\<open>own\<close>): it fills them, grows them, keeps them or drops them.
\<close>

inductive buffer_step ::
    "(nat \<Rightarrow> nat) \<Rightarrow> nat \<Rightarrow> buffer pool_mem \<Rightarrow> 64 word \<Rightarrow> buffer_thread \<Rightarrow>
       buffer pool_mem \<Rightarrow> 64 word \<Rightarrow> buffer_thread \<Rightarrow> buffer list \<Rightarrow> bool"
  for alloc n where
  own: "hook t = NoHook \<Longrightarrow> pc (proto t) = Idle \<Longrightarrow>
     buffer_step alloc n m used t m used (t\<lparr>proto := (proto t)\<lparr>held := h\<rparr>\<rparr>) []"
| begin_take: "hook t = NoHook \<Longrightarrow> pc (proto t) = Idle \<Longrightarrow> thread_step n m (proto t) m' p {#} {#} \<Longrightarrow> searching (pc p) \<Longrightarrow>
     buffer_step alloc n m used t m' used (t\<lparr>proto := p\<rparr>) []"
| create_buffer: "hook t = NoHook \<Longrightarrow> thread_step n m (proto t) m p {#v#} {#} \<Longrightarrow> v = fst (buffer_create alloc used) \<Longrightarrow>
     buffer_step alloc n m used t m used (t\<lparr>proto := p\<rparr>) [v]"
| inside: "hook t = NoHook \<Longrightarrow> pc (proto t) \<noteq> Idle \<Longrightarrow> \<nexists>i c. pc (proto t) = TakeRelease i c \<Longrightarrow>
     thread_step n m (proto t) m' p {#} d \<Longrightarrow>
     buffer_step alloc n m used t m' used (t\<lparr>proto := p\<rparr>) []"
| release: "hook t = NoHook \<Longrightarrow> pc (proto t) = TakeRelease i (Some v) \<Longrightarrow> thread_step n m (proto t) m' p {#} {#} \<Longrightarrow>
     buffer_step alloc n m used t m' used \<lparr>proto = p, hook = Subtract v\<rparr> []"
| run_take_hook: "hook t = Subtract v \<Longrightarrow> buffer_take_hook v used = (v', used') \<Longrightarrow>
     buffer_step alloc n m used t m used' (t\<lparr>hook := NoHook\<rparr>) [v']"
| begin_return: "hook t = NoHook \<Longrightarrow> pc (proto t) = Idle \<Longrightarrow> held (proto t) = add_mset v h \<Longrightarrow>
     buffer_step alloc n m used t m used \<lparr>proto = (proto t)\<lparr>held := h\<rparr>, hook = LoadSize v\<rparr> []"
| load_refused: "hook t = LoadSize v \<Longrightarrow> buffer_refused v used \<Longrightarrow>
     buffer_step alloc n m used t m used (t\<lparr>hook := NoHook\<rparr>) []"
| load_passed: "hook t = LoadSize v \<Longrightarrow> \<not> buffer_refused v used \<Longrightarrow>
     buffer_step alloc n m used t m used (t\<lparr>hook := AddSize v\<rparr>) []"
| add_size: "hook t = AddSize v \<Longrightarrow>
     buffer_step alloc n m used t m (buffer_counted v used) (t\<lparr>hook := PutBack (buffer_cleared v)\<rparr>) []"
| put_back: "hook t = PutBack v \<Longrightarrow>
     thread_step n m ((proto t)\<lparr>held := add_mset v (held (proto t))\<rparr>) m' p {#} {#} \<Longrightarrow> pc p = RetSearch v start 0 \<Longrightarrow>
     buffer_step alloc n m used t m' used \<lparr>proto = p, hook = NoHook\<rparr> []"

record buffer_system =
  slots :: "buffer pool_mem"
  current_size :: "64 word"
  users :: "buffer_thread list"
  delivered :: "buffer list"

inductive buffers_step :: "(nat \<Rightarrow> nat) \<Rightarrow> buffer_system \<Rightarrow> buffer_system \<Rightarrow> bool" for alloc where
  buffers_stepI: "j < length (users s) \<Longrightarrow>
     buffer_step alloc (max_loop (buffer_ops alloc)) (slots s) (current_size s) (users s ! j) m' used' t' out \<Longrightarrow>
     buffers_step alloc s
       \<lparr>slots = m', current_size = used', users = (users s)[j := t'], delivered = delivered s @ out\<rparr>"

inductive_cases buffers_stepE: "buffers_step alloc s s'"

definition idle_user :: buffer_thread where
  "idle_user = \<lparr>proto = \<lparr>pc = Idle, held = {#}\<rparr>, hook = NoHook\<rparr>"

definition buffers_init :: "(nat \<Rightarrow> nat) \<Rightarrow> nat \<Rightarrow> buffer_system" where
  "buffers_init alloc procs =
     \<lparr>slots = snd (BUFFER_POOL alloc), current_size = 0, users = replicate procs idle_user, delivered = []\<rparr>"

definition buffers_reachable :: "(nat \<Rightarrow> nat) \<Rightarrow> nat \<Rightarrow> buffer_system \<Rightarrow> bool" where
  "buffers_reachable alloc procs s \<longleftrightarrow> (buffers_step alloc)\<^sup>*\<^sup>* (buffers_init alloc procs) s"

section \<open>The protocol below\<close>

text \<open>The system of the slots; who holds what does not matter to its invariant.\<close>

definition slot_system :: "buffer_system \<Rightarrow> buffer system" where
  "slot_system s = \<lparr>mem = slots s, threads = map proto (users s), born = {#}, gone = {#}\<rparr>"

lemma system_ok_pcs:
  assumes "mem s' = mem s" and "map pc (threads s') = map pc (threads s)"
  shows "system_ok s' = system_ok s"
proof -
  let ?ps = "map pc (threads s)"
  have len: "length (threads s') = length (threads s)" using arg_cong [OF assms(2), of length] by simp
  have pc: "pc (threads s' ! j) = pc (threads s ! j)" if "j < length (threads s)" for j
    using arg_cong [OF assms(2), of "\<lambda>ps. ps ! j"] that len by simp
  have "(\<forall>t \<in> set (threads s'). pc_ok (mem s) (pc t)) = (\<forall>p \<in> set ?ps. pc_ok (mem s) p)"
    unfolding assms(2) [symmetric] by simp
  moreover have "exclusive (threads s') = exclusive (threads s)"
    by (simp add: exclusive_def len pc cong: imp_cong)
  moreover have "owned s' = owned s" by (simp add: owned_def assms(1) len pc cong: conj_cong)
  ultimately show ?thesis by (simp add: system_ok_def assms(1))
qed

lemma slot_system_same:
  assumes "j < length (users s)" and "system_ok (slot_system s)" and "pc (proto t) = pc (proto (users s ! j))"
  shows "system_ok (slot_system (s\<lparr>slots := slots s, users := (users s)[j := t]\<rparr>))"
proof -
  have "map pc (map proto ((users s)[j := t])) = map pc (map proto (users s))"
    using assms(1,3) by (simp add: map_update list_update_same_conv)
  then have "system_ok (slot_system (s\<lparr>slots := slots s, users := (users s)[j := t]\<rparr>)) = system_ok (slot_system s)"
    by (intro system_ok_pcs) (simp_all add: slot_system_def)
  with assms(2) show ?thesis by simp
qed

lemma slot_system_step:
  assumes "j < length (users s)" and "thread_step n (slots s) p m' p' c d" and "pc p = pc (proto (users s ! j))"
    and "system_ok (slot_system s)" and "searches_within n (slots s)" and "proto t = p'"
  shows "system_ok (slot_system (s\<lparr>slots := m', users := (users s)[j := t]\<rparr>)) \<and> searches_within n m'"
proof -
  let ?s = "(slot_system s)\<lparr>threads := (threads (slot_system s))[j := p]\<rparr>"
  let ?s' = "\<lparr>mem = m', threads = (threads ?s)[j := p'], born = born ?s + c, gone = gone ?s + d\<rparr>"
  have same: "map pc (threads ?s) = map pc (threads (slot_system s))"
    using assms(1,3) by (simp add: slot_system_def map_update list_update_same_conv)
  have "system_ok ?s" using system_ok_pcs [OF _ same] assms(4) by simp
  moreover have "system_step n ?s ?s'"
    using assms(1,2) by (intro system_stepI) (simp_all add: slot_system_def)
  ultimately have "system_ok ?s' \<and> searches_within n (mem ?s')"
    using system_step_ok [of n ?s ?s'] assms(5) by (simp add: slot_system_def)
  moreover have "system_ok (slot_system (s\<lparr>slots := m', users := (users s)[j := t]\<rparr>)) = system_ok ?s'"
    using assms(6) by (intro system_ok_pcs) (simp_all add: slot_system_def map_update)
  ultimately show ?thesis by simp
qed

section \<open>The account\<close>

text \<open>
  The buffers that a thread has counted in \<open>CURRENT_SIZE\<close> beside those in the slots, and the one
  that it will still count, having passed the check.
\<close>

definition counted :: "buffer_thread \<Rightarrow> buffer multiset" where
  "counted t = in_transit (pc (proto t)) + (case hook t of Subtract v \<Rightarrow> {#v#} | PutBack v \<Rightarrow> {#v#} | _ \<Rightarrow> {#})"

definition promised :: "buffer_thread \<Rightarrow> buffer multiset" where
  "promised t = (case hook t of AddSize v \<Rightarrow> {#v#} | _ \<Rightarrow> {#})"

fun total_of :: "('t \<Rightarrow> buffer multiset) \<Rightarrow> 't list \<Rightarrow> buffer multiset" where
  "total_of f [] = {#}"
| "total_of f (t # ts) = f t + total_of f ts"

definition capacity_of :: "buffer multiset \<Rightarrow> nat" where
  "capacity_of M = \<Sum>\<^sub># (image_mset buf_capacity M)"

lemma capacity_of_simps [simp]:
  "capacity_of {#} = 0" "capacity_of (M + N) = capacity_of M + capacity_of N"
  "capacity_of (add_mset v M) = buf_capacity v + capacity_of M"
  by (simp_all add: capacity_of_def)

lemma total_update: "j < length ts \<Longrightarrow> total_of f (ts[j := t]) + f (ts ! j) = total_of f ts + f t"
  by (induction ts arbitrary: j) (auto simp: nth_Cons' ac_simps split: nat.split)

lemma total_bound:
  "\<forall>t \<in> set ts. capacity_of (f t) \<le> b \<Longrightarrow> capacity_of (total_of f ts) \<le> length ts * b"
  by (induction ts) auto

lemma part_of_total: "j < length ts \<Longrightarrow> capacity_of (f (ts ! j)) \<le> capacity_of (total_of f ts)"
proof (induction ts arbitrary: j)
  case (Cons t ts)
  then show ?case by (cases j) (auto intro: trans_le_add2)
qed simp

text \<open>A buffer that is in the pool or on its way there is empty and not too large.\<close>

definition poolable :: "buffer \<Rightarrow> bool" where
  "poolable v \<longleftrightarrow> contents v = [] \<and> buf_capacity v \<le> MAX_SINGLE_BUFFER"

definition thread_fits :: "buffer_thread \<Rightarrow> bool" where
  "thread_fits t \<longleftrightarrow> (hook t = NoHook \<or> pc (proto t) = Idle) \<and> (\<forall>v \<in># counted t. poolable v) \<and>
     (\<forall>v \<in># promised t. buf_capacity v \<le> MAX_SINGLE_BUFFER)"

definition soft_limit :: "buffer_system \<Rightarrow> nat" where
  "soft_limit s = MAX_TOTAL_BUFFERS + (length (users s) - 1) * MAX_SINGLE_BUFFER"

definition account_ok :: "buffer_system \<Rightarrow> bool" where
  "account_ok s \<longleftrightarrow> (\<forall>t \<in> set (users s). thread_fits t) \<and> (\<forall>v \<in># stored (slots s). poolable v) \<and>
     (\<forall>v \<in> set (delivered s). contents v = []) \<and>
     pooled_capacity (slots s) + capacity_of (total_of counted (users s)) \<le> unat (current_size s) \<and>
     unat (current_size s) + capacity_of (total_of promised (users s)) \<le> soft_limit s"

text \<open>What a step inside the protocol does to the buffers in the slots and in transit.\<close>

lemma inside_held:
  "thread_step n m t m' t' c d \<Longrightarrow> pc t \<noteq> Idle \<Longrightarrow> \<nexists>i x. pc t = TakeRelease i x \<Longrightarrow> held t' = held t + c"
  by (induction rule: thread_step.induct) auto

lemma inside_values:
  assumes "thread_step n m t m' t' c d" and "slots_ok m" and "pc_ok m (pc t)" and "pc t \<noteq> Idle"
    and "\<nexists>i x. pc t = TakeRelease i x"
  shows "stored m + in_transit (pc t) = stored m' + in_transit (pc t') + d"
  using thread_step_values [OF assms(1-3)] inside_held [OF assms(1,4,5)]
  by (simp add: thread_values_def ac_simps)

lemma start_facts:
  "thread_step n m t m' t' c d \<Longrightarrow> pc t = Idle \<Longrightarrow> stored m' = stored m"
  by (induction rule: thread_step.induct) (auto simp: next_id_def)

lemma release_facts:
  "thread_step n m t m' t' c d \<Longrightarrow> pc t = TakeRelease i x \<Longrightarrow> stored m' = stored m \<and> pc t' = Idle"
  by (induction rule: thread_step.induct) (auto simp: compare_exchange_def)

lemma create_facts:
  "thread_step n m t m' t' c d \<Longrightarrow> c = {#v#} \<Longrightarrow> m' = m \<and> pc t' = Idle \<and> in_transit (pc t) = {#} \<and> pc t \<noteq> Idle"
  by (induction rule: thread_step.induct) auto

section \<open>The invariant\<close>

definition buffers_inv :: "(nat \<Rightarrow> nat) \<Rightarrow> buffer_system \<Rightarrow> bool" where
  "buffers_inv alloc s \<longleftrightarrow> system_ok (slot_system s) \<and>
     searches_within (max_loop (buffer_ops alloc)) (slots s) \<and> account_ok s"

lemma buffer_step_kind:
  assumes "buffer_step alloc n m used t m' used' t' out"
  shows "m' = m \<and> pc (proto t') = pc (proto t) \<or>
    (\<exists>p c d. pc p = pc (proto t) \<and> thread_step n m p m' (proto t') c d)"
  using assms
proof cases
  case (put_back v p start)
  then show ?thesis by (intro disjI2 exI [of _ "(proto t)\<lparr>held := add_mset v (held (proto t))\<rparr>"]) auto
qed auto

lemma buffer_step_protocol:
  assumes "buffer_step alloc n (slots s) used (users s ! j) m' used' t' out" and "j < length (users s)"
    and "system_ok (slot_system s)" and "searches_within n (slots s)"
  shows "system_ok (slot_system (s\<lparr>slots := m', users := (users s)[j := t']\<rparr>)) \<and> searches_within n m'"
  using buffer_step_kind [OF assms(1)]
proof (elim disjE exE conjE)
  assume "m' = slots s" "pc (proto t') = pc (proto (users s ! j))"
  with slot_system_same [OF assms(2,3)] assms(4) show ?thesis by blast
next
  fix p c d
  assume "pc p = pc (proto (users s ! j))" "thread_step n (slots s) p m' (proto t') c d"
  from slot_system_step [OF assms(2) this(2,1) assms(3,4) refl] show ?thesis .
qed

lemma pooled_capacity_of: "pooled_capacity m = capacity_of (stored m)"
  by (simp add: pooled_capacity_def capacity_of_def)

lemma size_plus:
  assumes "c \<le> MAX_SINGLE_BUFFER" and "unat (used :: 64 word) \<le> MAX_TOTAL_BUFFERS + k * MAX_SINGLE_BUFFER" and "k \<le> 2 ^ 40"
  shows "unat (used + word_of_nat c) = unat used + c"
proof -
  have "k * MAX_SINGLE_BUFFER \<le> 2 ^ 40 * MAX_SINGLE_BUFFER" using assms(3) by simp
  with assms(1,2) show ?thesis
    by (simp add: unat_word_ariths unat_of_nat MAX_SINGLE_BUFFER_def MAX_TOTAL_BUFFERS_def MB_def)
qed

lemma buffer_step_values:
  assumes "buffer_step alloc n m used t m' used' t' out" and "slots_ok m" and "pc_ok m (pc (proto t))" and "thread_fits t"
    and "\<forall>v \<in># stored m. poolable v"
  shows "thread_fits t' \<and> (\<forall>v \<in># stored m'. poolable v) \<and> (\<forall>v \<in> set out. contents v = [])"
  using assms(1)
proof cases
  case (inside p d)
  with inside_values [OF inside(7) assms(2,3)] have eq: "stored m + in_transit (pc (proto t)) = stored m' + in_transit (pc p) + d" by simp
  have "poolable v" if "v \<in># stored m' + in_transit (pc p) + d" for v
    using that assms(4,5) inside unfolding eq [symmetric] by (auto simp: thread_fits_def counted_def)
  with inside show ?thesis by (simp add: thread_fits_def counted_def promised_def)
next
  case (create_buffer p v)
  from create_facts [OF \<open>thread_step n m (proto t) m p {#v#} {#}\<close> refl] create_buffer assms(5) show ?thesis
    by (simp add: thread_fits_def counted_def promised_def buffer_create_def)
next
  case (put_back v p start)
  with start_facts [OF \<open>thread_step n m ((proto t)\<lparr>held := add_mset v (held (proto t))\<rparr>) m' p {#} {#}\<close>] assms(4,5) show ?thesis
    by (auto simp: thread_fits_def counted_def promised_def)
next
  case (release i v p)
  with release_facts [OF \<open>thread_step n m (proto t) m' p {#} {#}\<close> \<open>pc (proto t) = TakeRelease i (Some v)\<close>] assms(4,5) show ?thesis
    by (auto simp: thread_fits_def counted_def promised_def)
next
  case (begin_take p)
  with start_facts [OF \<open>thread_step n m (proto t) m' p {#} {#}\<close> \<open>pc (proto t) = Idle\<close>] assms(5) show ?thesis
    by (auto simp: thread_fits_def counted_def promised_def searching_def)
next
  case (load_passed v)
  with assms(4,5) show ?thesis by (auto simp: thread_fits_def counted_def promised_def buffer_refused_def Let_def)
next
  case (add_size v)
  with assms(4,5) show ?thesis
    by (auto simp: thread_fits_def counted_def promised_def buffer_cleared_def poolable_def)
next
  case (run_take_hook v v')
  with assms(4,5) show ?thesis
    by (auto simp: thread_fits_def counted_def promised_def buffer_take_hook_def poolable_def)
qed (use assms(4,5) in \<open>auto simp: thread_fits_def counted_def promised_def\<close>)

text \<open>
  The account of one step: \<open>r\<close> is what the other threads have counted, \<open>q\<close> what they will count.
\<close>

lemma buffer_step_account:
  assumes "buffer_step alloc n m used t m' used' t' out" and "slots_ok m" and "pc_ok m (pc (proto t))" and "thread_fits t"
    and "capacity_of (stored m) + r + capacity_of (counted t) \<le> unat used"
    and "unat used + q + capacity_of (promised t) \<le> MAX_TOTAL_BUFFERS + k * MAX_SINGLE_BUFFER"
    and "q \<le> k * MAX_SINGLE_BUFFER" and "k \<le> 2 ^ 40"
  shows "capacity_of (stored m') + r + capacity_of (counted t') \<le> unat used' \<and>
    unat used' + q + capacity_of (promised t') \<le> MAX_TOTAL_BUFFERS + k * MAX_SINGLE_BUFFER"
  using assms(1)
proof cases
  case (inside p d)
  with inside_values [OF inside(7) assms(2,3)]
  have "capacity_of (stored m) + capacity_of (in_transit (pc (proto t))) =
      capacity_of (stored m') + capacity_of (in_transit (pc p)) + capacity_of d"
    by (simp flip: capacity_of_simps(2))
  with inside assms(5,6) show ?thesis by (simp add: counted_def promised_def)
next
  case (create_buffer p v)
  from create_facts [OF \<open>thread_step n m (proto t) m p {#v#} {#}\<close> refl] create_buffer assms(5,6) show ?thesis
    by (simp add: counted_def promised_def)
next
  case (put_back v p start)
  with assms(4) have "pc (proto t) = Idle" by (simp add: thread_fits_def)
  with put_back start_facts [OF \<open>thread_step n m ((proto t)\<lparr>held := add_mset v (held (proto t))\<rparr>) m' p {#} {#}\<close>] assms(5,6) show ?thesis by (simp add: counted_def promised_def)
next
  case (release i v p)
  with release_facts [OF \<open>thread_step n m (proto t) m' p {#} {#}\<close> \<open>pc (proto t) = TakeRelease i (Some v)\<close>] assms(5,6) show ?thesis by (simp add: counted_def promised_def)
next
  case (begin_take p)
  with start_facts [OF \<open>thread_step n m (proto t) m' p {#} {#}\<close> \<open>pc (proto t) = Idle\<close>] assms(5,6) show ?thesis by (auto simp: counted_def promised_def searching_def)
next
  case (run_take_hook v v')
  then have v: "v' = v" "used' = used - word_of_nat (buf_capacity v)" by (auto simp: buffer_take_hook_def)
  from run_take_hook assms(4) have "pc (proto t) = Idle" by (simp add: thread_fits_def)
  moreover from run_take_hook assms(5) have "buf_capacity v \<le> unat used" by (simp add: counted_def)
  ultimately show ?thesis
    using run_take_hook assms(5,6) size_sub [of "buf_capacity v" used]
    by (simp add: counted_def promised_def v) linarith
next
  case (load_passed v)
  then have v: "buf_capacity v \<le> MAX_SINGLE_BUFFER" "unat (used + word_of_nat (buf_capacity v)) \<le> MAX_TOTAL_BUFFERS"
    by (auto simp: buffer_refused_def Let_def)
  have "unat used \<le> MAX_TOTAL_BUFFERS + k * MAX_SINGLE_BUFFER" using assms(6) by simp
  with v size_plus [OF v(1) _ assms(8)] have "unat used + buf_capacity v \<le> MAX_TOTAL_BUFFERS" by simp
  with load_passed assms(5,7) show ?thesis by (simp add: counted_def promised_def)
next
  case (add_size v)
  with assms(4) have v: "buf_capacity v \<le> MAX_SINGLE_BUFFER" "pc (proto t) = Idle"
    by (simp_all add: thread_fits_def promised_def)
  have "unat used \<le> MAX_TOTAL_BUFFERS + k * MAX_SINGLE_BUFFER" using assms(6) by simp
  with size_plus [OF v(1) _ assms(8)] have "unat used' = unat used + buf_capacity v"
    using add_size by (simp add: buffer_counted_def)
  with add_size assms(5,6) v(2) show ?thesis by (simp add: counted_def promised_def buffer_cleared_def)
qed (use assms(5,6) in \<open>simp_all add: counted_def promised_def\<close>)

lemma others_promised:
  assumes "\<forall>t \<in> set ts. thread_fits t" and "j < length ts"
  shows "capacity_of (total_of promised ts) - capacity_of (promised (ts ! j)) \<le> (length ts - 1) * MAX_SINGLE_BUFFER"
proof -
  have "capacity_of (promised t) \<le> MAX_SINGLE_BUFFER" if "thread_fits t" for t
    using that by (cases "hook t") (auto simp: thread_fits_def promised_def)
  with assms show ?thesis
  proof (induction ts arbitrary: j)
    case (Cons t ts)
    then have rest: "capacity_of (total_of promised ts) \<le> length ts * MAX_SINGLE_BUFFER" by (intro total_bound) auto
    show ?case
    proof (cases j)
      case 0
      with rest show ?thesis by simp
    next
      case (Suc i)
      with Cons have "capacity_of (total_of promised ts) - capacity_of (promised (ts ! i)) \<le> (length ts - 1) * MAX_SINGLE_BUFFER"
        "capacity_of (promised t) \<le> MAX_SINGLE_BUFFER" "0 < length ts" by auto
      then show ?thesis using Suc by (cases "length ts") auto
    qed
  qed simp
qed

lemma buffers_step_inv:
  assumes "buffers_step alloc s s'" and "buffers_inv alloc s" and "length (users s) \<le> 2 ^ 40"
  shows "buffers_inv alloc s' \<and> length (users s') = length (users s)"
proof -
  let ?n = "max_loop (buffer_ops alloc)" and ?ts = "users s"
  from assms(1) obtain j m' used' t' out where j: "j < length ?ts"
    and step: "buffer_step alloc ?n (slots s) (current_size s) (?ts ! j) m' used' t' out"
    and s': "s' = \<lparr>slots = m', current_size = used', users = ?ts[j := t'], delivered = delivered s @ out\<rparr>"
    by (auto elim: buffers_stepE)
  let ?t = "?ts ! j"
  from assms(2) have ok: "system_ok (slot_system s)" "searches_within ?n (slots s)" and account: "account_ok s"
    by (simp_all add: buffers_inv_def)
  from ok(1) j have slots: "slots_ok (slots s)" and pc: "pc_ok (slots s) (pc (proto ?t))"
    by (auto simp: system_ok_def slot_system_def)
  from account j have fits: "\<forall>t \<in> set ?ts. thread_fits t" "thread_fits ?t" and stored: "\<forall>v \<in># stored (slots s). poolable v"
    and empty: "\<forall>v \<in> set (delivered s). contents v = []"
    by (simp_all add: account_ok_def)
  define r where "r = capacity_of (total_of counted ?ts) - capacity_of (counted ?t)"
  define q where "q = capacity_of (total_of promised ?ts) - capacity_of (promised ?t)"
  have split: "capacity_of (total_of f ?ts) = (capacity_of (total_of f ?ts) - capacity_of (f ?t)) + capacity_of (f ?t)"
    "capacity_of (total_of f (?ts[j := t'])) = (capacity_of (total_of f ?ts) - capacity_of (f ?t)) + capacity_of (f t')" for f
    using arg_cong [OF total_update [OF j, of f t'], of capacity_of] part_of_total [OF j, of f] by simp_all
  have q: "q \<le> (length ?ts - 1) * MAX_SINGLE_BUFFER"
    unfolding q_def using fits(1) j by (rule others_promised)
  have "capacity_of (stored (slots s)) + r + capacity_of (counted ?t) \<le> unat (current_size s)"
    "unat (current_size s) + q + capacity_of (promised ?t) \<le> MAX_TOTAL_BUFFERS + (length ?ts - 1) * MAX_SINGLE_BUFFER"
    using account split(1) [of counted] split(1) [of promised]
    by (simp_all add: account_ok_def soft_limit_def pooled_capacity_of r_def q_def)
  from buffer_step_account [OF step slots pc fits(2) this q] assms(3)
  have new: "capacity_of (stored m') + r + capacity_of (counted t') \<le> unat used'"
    "unat used' + q + capacity_of (promised t') \<le> MAX_TOTAL_BUFFERS + (length ?ts - 1) * MAX_SINGLE_BUFFER" by simp_all
  from buffer_step_values [OF step slots pc fits(2) stored] have v: "thread_fits t'" "\<forall>v \<in># stored m'. poolable v"
    "\<forall>v \<in> set out. contents v = []" by blast+
  have "\<forall>t \<in> set (?ts[j := t']). thread_fits t" using fits(1) v(1) by (auto dest: set_update_subset_insert [THEN subsetD])
  then have "account_ok s'"
    using v(2,3) empty new split(2) [of counted] split(2) [of promised]
    by (auto simp: account_ok_def soft_limit_def pooled_capacity_of s' r_def q_def)
  moreover from buffer_step_protocol [OF step j ok] have "system_ok (slot_system s')" "searches_within ?n (slots s')"
    by (simp_all add: s' slot_system_def)
  ultimately show ?thesis by (simp add: buffers_inv_def s')
qed

lemma buffers_init_inv: "buffers_inv alloc (buffers_init alloc procs)"
proof -
  have mem: "slots (buffers_init alloc procs) = mem (system_init 128 procs)"
    by (simp add: buffers_init_def BUFFER_POOL_def pool_new_def system_init_def)
  have "system_ok (slot_system (buffers_init alloc procs)) = system_ok (system_init 128 procs :: buffer system)"
    by (rule system_ok_pcs) (simp_all add: slot_system_def mem, simp add: buffers_init_def system_init_def idle_user_def)
  with system_init_ok [of 16 128 procs, where ?'a = buffer and ?'b = buffer and ?'c = buffer] have "system_ok (slot_system (buffers_init alloc procs))"
    "searches_within 16 (slots (buffers_init alloc procs))"
    by (simp_all add: mem)
  moreover have "total_of f (replicate procs idle_user) = {#}" if "f idle_user = {#}" for f
    using that by (induction procs) auto
  then have "total_of counted (replicate procs idle_user) = {#}" "total_of promised (replicate procs idle_user) = {#}"
    by (simp_all add: counted_def promised_def idle_user_def)
  moreover have "stored (slots (buffers_init alloc procs)) = {#}"
    unfolding mem by (auto simp: system_init_def stored_def intro: values_of_None)
  ultimately show ?thesis
    by (auto simp: buffers_inv_def account_ok_def pooled_capacity_of buffers_init_def thread_fits_def idle_user_def
        counted_def promised_def soft_limit_def)
qed

lemma buffers_reachable_inv:
  assumes "buffers_reachable alloc procs s" and "procs \<le> 2 ^ 40"
  shows "buffers_inv alloc s \<and> length (users s) = procs"
  using assms(1) unfolding buffers_reachable_def
proof (induction rule: rtranclp_induct)
  case base
  show ?case using buffers_init_inv by (simp add: buffers_init_def)
next
  case (step s s')
  with buffers_step_inv [of alloc s s'] assms(2) show ?case by simp
qed

section \<open>What the pool guarantees to its users\<close>

text \<open>
  C23: However the takes and returns of any number of threads interleave (up to 2 ^ 40 of them,
  so that the count cannot wrap), whatever they do with their buffers and with the hooks of
  \<open>BUFFER_POOL\<close> taken one atomic access at a time: every buffer that a take returns
  is empty, no uninitialised cell is read, the pooled buffers' capacity stays below
  \<open>CURRENT_SIZE\<close>, and that exceeds the limit by at most one largest buffer for each
  thread but one; used by one thread the limit is a hard one.
\<close>

theorem buffer_pool_shared:
  assumes "buffers_reachable alloc procs s" and "procs \<le> 2 ^ 40"
  shows "(\<forall>v \<in> set (delivered s). contents v = []) \<and>
    (\<forall>t \<in> set (users s). \<forall>i. pc (proto t) = TakeRead i \<longrightarrow> cells (slots s) ! i \<noteq> None) \<and>
    pooled_capacity (slots s) \<le> unat (current_size s) \<and>
    unat (current_size s) \<le> MAX_TOTAL_BUFFERS + (procs - 1) * MAX_SINGLE_BUFFER"
proof -
  from buffers_reachable_inv [OF assms] have inv: "buffers_inv alloc s" "length (users s) = procs" by blast+
  then have "\<forall>t \<in> set (users s). pc_ok (slots s) (pc (proto t))"
    by (simp add: buffers_inv_def system_ok_def slot_system_def)
  then have "\<forall>t \<in> set (users s). \<forall>i. pc (proto t) = TakeRead i \<longrightarrow> cells (slots s) ! i \<noteq> None"
    by (metis pc_ok.simps(1))
  with inv show ?thesis by (simp add: buffers_inv_def account_ok_def soft_limit_def)
qed

text \<open>
  The limit is exceeded: nine threads return a largest buffer each, all of them pass the check, and
  then all of them count their buffers.
\<close>

definition user_at :: "hook_pc \<Rightarrow> buffer_thread" where
  "user_at h = \<lparr>proto = \<lparr>pc = Idle, held = {#}\<rparr>, hook = h\<rparr>"

definition big_buffer :: buffer where
  "big_buffer = \<lparr>contents = [], buf_capacity = MAX_SINGLE_BUFFER\<rparr>"

definition buffers_at :: "(nat \<Rightarrow> nat) \<Rightarrow> 64 word \<Rightarrow> buffer_thread list \<Rightarrow> buffer_system" where
  "buffers_at alloc used ts = \<lparr>slots = snd (BUFFER_POOL alloc), current_size = used, users = ts, delivered = []\<rparr>"

lemma user_steps:
  assumes "buffers_reachable alloc procs (buffers_at alloc used (xs @ t # ys))"
    and "buffer_step alloc 16 (snd (BUFFER_POOL alloc)) used t (snd (BUFFER_POOL alloc)) used' t' []"
  shows "buffers_reachable alloc procs (buffers_at alloc used' (xs @ t' # ys))"
proof -
  have "buffers_step alloc (buffers_at alloc used (xs @ t # ys)) (buffers_at alloc used' (xs @ t' # ys))"
    using buffers_stepI [of "length xs" "buffers_at alloc used (xs @ t # ys)" alloc _ used' t' "[]"] assms(2)
    by (simp add: buffers_at_def)
  with assms(1) show ?thesis unfolding buffers_reachable_def by (rule rtranclp.rtrancl_into_rtrancl)
qed

lemma replicate_next: "replicate (Suc k) x @ ys = replicate k x @ x # ys"
  by (induction k) auto

lemma all_pass:
  "k \<le> procs \<Longrightarrow> buffers_reachable alloc procs
     (buffers_at alloc 0 (replicate k (user_at (AddSize big_buffer)) @ replicate (procs - k) (user_at NoHook)))"
proof (induction k)
  case 0
  show ?case by (simp add: buffers_reachable_def buffers_init_def buffers_at_def user_at_def idle_user_def)
next
  case (Suc k)
  let ?xs = "replicate k (user_at (AddSize big_buffer))" and ?ys = "replicate (procs - Suc k) (user_at NoHook)"
  let ?t = "\<lparr>proto = \<lparr>pc = Idle, held = {#big_buffer#}\<rparr>, hook = NoHook\<rparr>" and ?m = "snd (BUFFER_POOL alloc)"
  have "procs - k = Suc (procs - Suc k)" using Suc.prems by simp
  with Suc have 0: "buffers_reachable alloc procs (buffers_at alloc 0 (?xs @ user_at NoHook # ?ys))" by simp
  have "buffer_step alloc 16 ?m 0 (user_at NoHook) ?m 0 ?t []"
    using own [of "user_at NoHook" alloc 16 ?m 0 "{#big_buffer#}"] by (simp add: user_at_def)
  from user_steps [OF 0 this] have 1: "buffers_reachable alloc procs (buffers_at alloc 0 (?xs @ ?t # ?ys))" .
  have "buffer_step alloc 16 ?m 0 ?t ?m 0 (user_at (LoadSize big_buffer)) []"
    using begin_return [of ?t big_buffer "{#}" alloc 16 ?m 0] by (simp add: user_at_def)
  from user_steps [OF 1 this] have 2: "buffers_reachable alloc procs (buffers_at alloc 0 (?xs @ user_at (LoadSize big_buffer) # ?ys))" .
  have "\<not> buffer_refused big_buffer 0"
    by (simp add: buffer_refused_def big_buffer_def Let_def MAX_SINGLE_BUFFER_def MAX_TOTAL_BUFFERS_def MB_def)
  then have "buffer_step alloc 16 ?m 0 (user_at (LoadSize big_buffer)) ?m 0 (user_at (AddSize big_buffer)) []"
    using load_passed [of "user_at (LoadSize big_buffer)" big_buffer 0 alloc 16 ?m] by (simp add: user_at_def)
  from user_steps [OF 2 this] show ?case unfolding replicate_next .
qed

lemma all_count:
  "k \<le> procs \<Longrightarrow> buffers_reachable alloc procs
     (buffers_at alloc (word_of_nat (k * MAX_SINGLE_BUFFER))
       (replicate k (user_at (PutBack big_buffer)) @ replicate (procs - k) (user_at (AddSize big_buffer))))"
proof (induction k)
  case 0
  show ?case using all_pass [of procs procs alloc] by simp
next
  case (Suc k)
  let ?xs = "replicate k (user_at (PutBack big_buffer))" and ?ys = "replicate (procs - Suc k) (user_at (AddSize big_buffer))"
  let ?m = "snd (BUFFER_POOL alloc)" and ?u = "word_of_nat (k * MAX_SINGLE_BUFFER) :: 64 word"
  have "procs - k = Suc (procs - Suc k)" using Suc.prems by simp
  with Suc have 0: "buffers_reachable alloc procs (buffers_at alloc ?u (?xs @ user_at (AddSize big_buffer) # ?ys))" by simp
  have "buffer_cleared big_buffer = big_buffer" by (simp add: buffer_cleared_def big_buffer_def)
  then have "buffer_step alloc 16 ?m ?u (user_at (AddSize big_buffer)) ?m (buffer_counted big_buffer ?u) (user_at (PutBack big_buffer)) []"
    using add_size [of "user_at (AddSize big_buffer)" big_buffer alloc 16 ?m ?u] by (simp add: user_at_def)
  moreover have "buffer_counted big_buffer ?u = word_of_nat (Suc k * MAX_SINGLE_BUFFER)"
    by (simp add: buffer_counted_def big_buffer_def algebra_simps)
  ultimately show ?case using user_steps [OF 0] unfolding replicate_next by simp
qed

theorem buffer_pool_shared_witness:
  "\<exists>s. buffers_reachable id 9 s \<and> MAX_TOTAL_BUFFERS < unat (current_size s) \<and>
    unat (current_size s) \<le> MAX_TOTAL_BUFFERS + 8 * MAX_SINGLE_BUFFER"
proof -
  let ?s = "buffers_at id (word_of_nat (9 * MAX_SINGLE_BUFFER)) (replicate 9 (user_at (PutBack big_buffer)))"
  have run: "buffers_reachable id 9 ?s" using all_count [of 9 9 id] by simp
  moreover have "MAX_TOTAL_BUFFERS < unat (current_size ?s)"
    by (simp add: buffers_at_def MAX_SINGLE_BUFFER_def MAX_TOTAL_BUFFERS_def MB_def unat_of_nat)
  ultimately show ?thesis using buffer_pool_shared [OF run] by auto
qed

end
