(* ===== verification/String_Types.thy ===== *)
theory String_Types
  imports Nck_Prelude "HOL-Library.Char_ord"
begin

text \<open>
  \<open>crates/daemon/src/string_types.rs\<close>: values that are deserialized from text. A \<open>str\<close> is the
  list of its bytes. \<open>serde\<close> calls \<open>visit_str\<close>; the error it is given is its message.
\<close>

section \<open>Numerals\<close>

text \<open>
  \<open>u32::from_str_radix\<close> of the standard library, for a radix up to ten: one plus sign may lead,
  at least one digit must follow, and a value of \<open>2 ^ 32\<close> or more is an error.
\<close>

definition digit_of :: "nat \<Rightarrow> char \<Rightarrow> nat option" where
  "digit_of radix c =
     (let n = of_char c in if 48 \<le> n \<and> n < 48 + radix \<and> n < 58 then Some (n - 48) else None)"

fun u32_digits :: "nat \<Rightarrow> nat \<Rightarrow> string \<Rightarrow> nat option" where
  "u32_digits radix acc [] = Some acc"
| "u32_digits radix acc (c # cs) =
     (case digit_of radix c of
        None \<Rightarrow> None
      | Some d \<Rightarrow> if acc * radix + d < 2 ^ 32 then u32_digits radix (acc * radix + d) cs else None)"

fun strip_plus :: "string \<Rightarrow> string" where
  "strip_plus [] = []"
| "strip_plus (c # cs) = (if c = CHR ''+'' then cs else c # cs)"

definition u32_from_str_radix :: "nat \<Rightarrow> string \<Rightarrow> 32 word option" where
  "u32_from_str_radix radix v =
     (if strip_plus v = [] then None else map_option word_of_nat (u32_digits radix 0 (strip_plus v)))"

section \<open>The visitors\<close>

datatype mode = Mode "32 word"

definition mode_visit_str :: "string \<Rightarrow> (string, mode) res" where
  "mode_visit_str v =
     (if v = [] then Err ''expected filesystem mode''
      else if hd v = CHR ''0'' then
        (case u32_from_str_radix 8 v of
           Some n \<Rightarrow> Ok (Mode n)
         | None \<Rightarrow> Err ''expected octal filesystem mode'')
      else
        (case u32_from_str_radix 10 v of
           Some n \<Rightarrow> Ok (Mode n)
         | None \<Rightarrow> Err ''expected decimal filesystem mode''))"

text \<open>\<open>deserialize_str\<close> of the format is a parameter: it hands the visitor a text, or fails.\<close>

definition mode_deserialize :: "((string \<Rightarrow> (string, mode) res) \<Rightarrow> ('e, mode) res) \<Rightarrow> ('e, mode) res" where
  "mode_deserialize deserialize_str = deserialize_str mode_visit_str"

definition mode_expecting :: string where
  "mode_expecting = ''a filesystem mode''"

datatype 'a url_value = UrlValue 'a

fun url_value_into_inner :: "'a url_value \<Rightarrow> 'a" where
  "url_value_into_inner (UrlValue v) = v"

fun url_value_as_ref :: "'a url_value \<Rightarrow> 'a" where
  "url_value_as_ref (UrlValue v) = v"

fun url_value_deref :: "'a url_value \<Rightarrow> 'a" where
  "url_value_deref (UrlValue v) = v"

text \<open>\<open>T::from_str\<close> and the text of its error are parameters.\<close>

definition url_value_visit_str ::
    "(string \<Rightarrow> ('e, 'a) res) \<Rightarrow> ('e \<Rightarrow> string) \<Rightarrow> string \<Rightarrow> (string, 'a url_value) res" where
  "url_value_visit_str from_str display v =
     (case from_str v of
        Ok x \<Rightarrow> Ok (UrlValue x)
      | Err e \<Rightarrow> Err (display e)
      | Panic \<Rightarrow> Panic)"

definition url_value_deserialize ::
    "((string \<Rightarrow> (string, 'a url_value) res) \<Rightarrow> ('d, 'a url_value) res) \<Rightarrow> (string \<Rightarrow> ('e, 'a) res) \<Rightarrow> ('e \<Rightarrow> string) \<Rightarrow>
      ('d, 'a url_value) res" where
  "url_value_deserialize deserialize_str from_str display = deserialize_str (url_value_visit_str from_str display)"

text \<open>The name of a type in words; type names are ASCII here.\<close>

definition is_uppercase :: "char \<Rightarrow> bool" where
  "is_uppercase c \<longleftrightarrow> 65 \<le> (of_char c :: nat) \<and> (of_char c :: nat) \<le> 90"

definition to_lowercase :: "char \<Rightarrow> char" where
  "to_lowercase c = (if is_uppercase c then char_of ((of_char c :: nat) + 32) else c)"

fun expecting_words :: "bool \<Rightarrow> string \<Rightarrow> string" where
  "expecting_words last_upper [] = []"
| "expecting_words last_upper (c # cs) =
     (if is_uppercase c \<and> \<not> last_upper then [CHR '' '', to_lowercase c] else [to_lowercase c])
     @ expecting_words (is_uppercase c) cs"

definition url_value_expecting :: "string \<Rightarrow> string" where
  "url_value_expecting tn = ''a '' @ expecting_words True tn"

section \<open>What is accepted\<close>

text \<open>The value of a numeral, without a bound.\<close>

definition numeral_text :: "nat \<Rightarrow> string \<Rightarrow> bool" where
  "numeral_text radix v \<longleftrightarrow> v \<noteq> [] \<and> (\<forall>c \<in> set v. digit_of radix c \<noteq> None)"

definition numeral_value :: "nat \<Rightarrow> string \<Rightarrow> nat" where
  "numeral_value radix v = foldl (\<lambda>acc c. acc * radix + the (digit_of radix c)) 0 v"

lemma foldl_value_ge: "0 < radix \<Longrightarrow> acc \<le> foldl (\<lambda>acc c. acc * radix + f c) (acc :: nat) v"
proof (induction v arbitrary: acc)
  case (Cons c v)
  have "acc \<le> acc * radix + f c" using Cons.prems by (metis One_nat_def Suc_leI le_add1 mult.right_neutral mult_le_mono2 order_trans)
  also have "\<dots> \<le> foldl (\<lambda>acc c. acc * radix + f c) (acc * radix + f c) v" using Cons by blast
  finally show ?case by simp
qed simp

lemma u32_digits_iff:
  assumes "0 < radix" and "acc < 2 ^ 32"
  shows "u32_digits radix acc v = Some n \<longleftrightarrow> (\<forall>c \<in> set v. digit_of radix c \<noteq> None) \<and>
    foldl (\<lambda>acc c. acc * radix + the (digit_of radix c)) acc v = n \<and> n < 2 ^ 32"
  using assms(2)
proof (induction v arbitrary: acc)
  case Nil
  then show ?case by auto
next
  case (Cons c v)
  show ?case
  proof (cases "digit_of radix c")
    case None
    then show ?thesis by simp
  next
    case (Some d)
    show ?thesis
    proof (cases "acc * radix + d < 2 ^ 32")
      case True
      with Some Cons.IH [OF True] show ?thesis by simp
    next
      case False
      with foldl_value_ge [OF assms(1), of "acc * radix + d" "\<lambda>c. the (digit_of radix c)" v] Some
      show ?thesis by auto
    qed
  qed
qed

lemma u32_from_str_radix_iff:
  assumes "0 < radix"
  shows "u32_from_str_radix radix v = Some w \<longleftrightarrow>
    numeral_text radix (strip_plus v) \<and> numeral_value radix (strip_plus v) = unat w"
proof -
  have small: "unat w < 2 ^ 32" using unsigned_less [of w] by simp
  have "word_of_nat n = w \<longleftrightarrow> n = unat w" if "n < 2 ^ 32" for n
    using that by (auto simp: unat_of_nat)
  with u32_digits_iff [OF assms, of 0 "strip_plus v"] small show ?thesis
    by (auto simp: u32_from_str_radix_def numeral_text_def numeral_value_def)
qed

lemma strip_plus_zero: "v \<noteq> [] \<Longrightarrow> hd v = CHR ''0'' \<Longrightarrow> strip_plus v = v"
  by (cases v) auto

text \<open>
  A mode is accepted exactly when it is an octal numeral with a leading zero, or a decimal
  numeral without one and perhaps with a plus sign, and its value fits in 32 bits; it then has
  that value, so no mode is silently truncated.
\<close>

theorem mode_accepted:
  "mode_visit_str v = Ok (Mode w) \<longleftrightarrow>
    (\<exists>ds. v = CHR ''0'' # ds \<and> numeral_text 8 v \<and> numeral_value 8 v = unat w) \<or>
    (\<exists>c ds. v = c # ds \<and> c \<noteq> CHR ''0'' \<and> numeral_text 10 (strip_plus v) \<and>
       numeral_value 10 (strip_plus v) = unat w)"
proof (cases v)
  case Nil
  then show ?thesis by (simp add: mode_visit_str_def)
next
  case (Cons c ds)
  then have "mode_visit_str v = Ok (Mode w) \<longleftrightarrow> u32_from_str_radix (if c = CHR ''0'' then 8 else 10) v = Some w"
    by (simp add: mode_visit_str_def split: option.split)
  also have "\<dots> \<longleftrightarrow> numeral_text (if c = CHR ''0'' then 8 else 10) (strip_plus v) \<and>
      numeral_value (if c = CHR ''0'' then 8 else 10) (strip_plus v) = unat w"
    by (rule u32_from_str_radix_iff) simp
  finally show ?thesis using Cons by auto
qed

lemma mode_0755: "mode_visit_str ''0755'' = Ok (Mode 493)"
  by (simp add: mode_visit_str_def u32_from_str_radix_def digit_of_def)

lemma mode_755: "mode_visit_str ''755'' = Ok (Mode 755)"
  by (simp add: mode_visit_str_def u32_from_str_radix_def digit_of_def)

end
