(* ===== verification/Kernel.thy ===== *)
theory Kernel
  imports Nck_Prelude
begin

text \<open>
  System calls as events. The kernel is what the program cannot know: a function from all the
  calls so far, the last one included, to the answer of that call. The state records the calls,
  so that a theorem over every kernel is one over every behaviour of the operating system, and
  what a program does to the system is the list of the calls it made.
\<close>

type_synonym errno = nat
type_synonym pid = int

definition ESRCH :: errno where "ESRCH = 3"
definition EINTR :: errno where "EINTR = 4"
definition ECHILD :: errno where "ECHILD = 10"
definition EAGAIN :: errno where "EAGAIN = 11"
definition EFAULT :: errno where "EFAULT = 14"
definition ENOSYS :: errno where "ENOSYS = 38"

text \<open>
  An \<open>std::io::Error\<close> is made from a kind, or from an error number that it keeps; the kind of a
  number is as in the standard library, for the kinds that the program tells apart.
\<close>

datatype os_error = Plain error_kind | Errno errno

definition decode_error_kind :: "errno \<Rightarrow> error_kind" where
  "decode_error_kind e =
     (if e = EINTR then Interrupted
      else if e = EAGAIN then WouldBlock
      else if e = 2 then NotFound
      else if e = 1 \<or> e = 13 then PermissionDenied
      else if e = 17 then AlreadyExists
      else if e = 22 then InvalidInput
      else if e = 32 then BrokenPipe
      else if e = 103 then ConnectionAborted
      else if e = 104 then ConnectionReset
      else if e = 107 then NotConnected
      else if e = 111 then ConnectionRefused
      else RawOs e)"

fun os_kind :: "os_error \<Rightarrow> error_kind" where
  "os_kind (Plain k) = k"
| "os_kind (Errno e) = decode_error_kind e"

fun raw_os_error :: "os_error \<Rightarrow> errno option" where
  "raw_os_error (Plain k) = None"
| "raw_os_error (Errno e) = Some e"

datatype signal = SIGHUP | SIGINT | SIGQUIT | SIGKILL | SIGTERM | SIGCHLD

datatype wait_status =
    Exited | Signaled | Stopped | PtraceEvent | PtraceSyscall | Continued | StillAlive

text \<open>The argument of \<open>clone3\<close>, and what a command leaves.\<close>

record clone3_args =
  clone_flags :: "64 word"
  clone_pidfd :: "64 word"
  clone_child_tid :: "64 word"
  clone_parent_tid :: "64 word"
  clone_exit_signal :: "64 word"
  clone_stack :: "64 word"
  clone_stack_size :: "64 word"
  clone_tls :: "64 word"
  clone_set_tid :: "64 word"
  clone_set_tid_size :: "64 word"
  clone_cgroup :: "64 word"

record mount_attr =
  attr_set :: "64 word"
  attr_clr :: "64 word"
  propagation :: "64 word"
  userns_fd :: "64 word"

record cmd_output =
  out_status :: int
  out_stdout :: bytes
  out_stderr :: bytes

datatype file_call =
    Exists bytes
  | IsDirectory bytes
  | IsFile bytes
  | ReadToString bytes
  | OpenDirectory bytes
  | CreateDirectory bytes
  | CreateDirectories bytes
  | WriteFile bytes bytes
  | OpenAppend bytes
  | WriteAll bytes bytes \<comment> \<open>to the end of the file opened at a path\<close>
  | SetMode bytes nat
  | SymLink bytes bytes

datatype mount_call =
    Mount "bytes option" bytes "bytes option" "64 word" "bytes option"
      \<comment> \<open>source, target, type, flags, data\<close>
  | Umount bytes "32 word"
  | OpenTree int bytes "32 word"
  | MountSetattr int bytes "32 word" mount_attr
  | MoveMount int bytes int bytes
  | PivotRoot bytes bytes
  | FChDir int

datatype memory_call = SysConfPageSize | GetRLimitStack | MMap nat | MProtect nat nat

datatype call =
    Kill pid signal
  | WaitPid pid
  | Sleep nat \<comment> \<open>milliseconds\<close>
  | ReadClock
  | SetGroups "nat list"
  | SetResGid nat nat nat
  | SetResUid nat nat nat
  | SetName string
  | Clone3 clone3_args
  | CloneFn nat "32 word" \<comment> \<open>the top of the stack, and the flags\<close>
  | Memory memory_call
  | Exec bytes "string list"
  | Which string
  | SocketPair
  | Dup nat
  | SetNonBlocking nat
  | Register nat \<comment> \<open>with the reactor\<close>
  | GetGid
  | SignalsNew
  | NextSignal
  | FileOp file_call
  | MountOp mount_call

record kernel =
  history :: "call list"
  unit_answer :: "call list \<Rightarrow> errno option"
  io_answer :: "call list \<Rightarrow> os_error option"
  wait_answer :: "call list \<Rightarrow> errno + wait_status"
  clock_at :: "call list \<Rightarrow> nat"
  ret_answer :: "call list \<Rightarrow> int \<times> errno" \<comment> \<open>of a raw call: its value, and \<open>errno\<close>\<close>
  num_answer :: "call list \<Rightarrow> errno + nat"
  exec_answer :: "call list \<Rightarrow> os_error + cmd_output"
  path_answer :: "call list \<Rightarrow> bytes option"
  text_answer :: "call list \<Rightarrow> os_error + string"
  test_answer :: "call list \<Rightarrow> bool"

text \<open>A kernel on which calls succeed and children go on, to run the definitions on.\<close>

definition some_kernel :: kernel where
  "some_kernel = \<lparr>history = [], unit_answer = \<lambda>_. None, io_answer = \<lambda>_. None, wait_answer = \<lambda>_. Inr StillAlive,
     clock_at = \<lambda>h. sum_list (map (\<lambda>c. case c of Sleep ms \<Rightarrow> ms | _ \<Rightarrow> 1) h),
     ret_answer = \<lambda>_. (17, 0), num_answer = \<lambda>_. Inr 65536,
     exec_answer = \<lambda>_. Inr \<lparr>out_status = 0, out_stdout = [], out_stderr = []\<rparr>, path_answer = \<lambda>_. Some [47],
     text_answer = \<lambda>_. Inr [], test_answer = \<lambda>_. True\<rparr>"

definition record_call :: "call \<Rightarrow> 'k kernel_scheme \<Rightarrow> 'k kernel_scheme" where
  "record_call c k = k\<lparr>history := history k @ [c]\<rparr>"

definition unit_call :: "call \<Rightarrow> ('k kernel_scheme, errno, unit) op" where
  "unit_call c k =
     (let k' = record_call c k in
      case unit_answer k (history k') of None \<Rightarrow> (Ok (), k') | Some e \<Rightarrow> (Err e, k'))"

definition io_call :: "call \<Rightarrow> ('k kernel_scheme, os_error, unit) op" where
  "io_call c k =
     (let k' = record_call c k in
      case io_answer k (history k') of None \<Rightarrow> (Ok (), k') | Some e \<Rightarrow> (Err e, k'))"

text \<open>A call whose answer is read by \<open>f\<close>.\<close>

definition ask :: "('k kernel_scheme \<Rightarrow> call list \<Rightarrow> 'a) \<Rightarrow> call \<Rightarrow> 'k kernel_scheme \<Rightarrow> 'a \<times> 'k kernel_scheme" where
  "ask f c k = (let k' = record_call c k in (f k (history k'), k'))"

definition sum_call ::
    "('k kernel_scheme \<Rightarrow> call list \<Rightarrow> 'e + 'a) \<Rightarrow> call \<Rightarrow> ('k kernel_scheme, 'e, 'a) op" where
  "sum_call f c k =
     (case ask f c k of (Inr x, k') \<Rightarrow> (Ok x, k') | (Inl e, k') \<Rightarrow> (Err e, k'))"

definition wait_call :: "pid \<Rightarrow> ('k kernel_scheme, errno, wait_status) op" where
  "wait_call p = sum_call wait_answer (WaitPid p)"

definition read_clock :: "'k kernel_scheme \<Rightarrow> nat \<times> 'k kernel_scheme" where
  "read_clock = ask clock_at ReadClock"

definition sleep :: "nat \<Rightarrow> 'k kernel_scheme \<Rightarrow> 'k kernel_scheme" where
  "sleep ms k = record_call (Sleep ms) k"

text \<open>
  \<open>std::time::Instant\<close> never goes back, and \<open>std::thread::sleep\<close> takes at least the time it is
  given.
\<close>

definition clock_lawful :: "'k kernel_scheme \<Rightarrow> bool" where
  "clock_lawful k \<longleftrightarrow>
     (\<forall>h c. clock_at k h \<le> clock_at k (h @ [c])) \<and>
     (\<forall>h ms. clock_at k h + ms \<le> clock_at k (h @ [Sleep ms]))"

section \<open>What a call leaves\<close>

text \<open>\<open>same_kernel k k' cs\<close>: the calls \<open>cs\<close> lead from \<open>k\<close> to \<open>k'\<close>, which answers as \<open>k\<close> does.\<close>

definition made :: "'k kernel_scheme \<Rightarrow> call list \<Rightarrow> 'k kernel_scheme \<Rightarrow> bool" where
  "made k cs k' \<longleftrightarrow> k' = k\<lparr>history := history k @ cs\<rparr>"

lemma made_refl [simp]: "made k [] k"
  by (simp add: made_def)

lemma made_trans: "made k cs k1 \<Longrightarrow> made k1 ds k2 \<Longrightarrow> made k (cs @ ds) k2"
  by (simp add: made_def)

lemma made_record: "made k [c] (record_call c k)"
  by (simp add: made_def record_call_def)

lemma sum_call_simps [simp]:
  "f k (history k @ [c]) = Inr x \<Longrightarrow> sum_call f c k = (Ok x, record_call c k)"
  "f k (history k @ [c]) = Inl e \<Longrightarrow> sum_call f c k = (Err e, record_call c k)"
  by (simp_all add: sum_call_def ask_def record_call_def)

lemma made_fields:
  assumes "made k cs k'"
  shows "history k' = history k @ cs" "unit_answer k' = unit_answer k" "wait_answer k' = wait_answer k"
    "clock_at k' = clock_at k" "clock_lawful k' = clock_lawful k"
    "num_answer k' = num_answer k" "ret_answer k' = ret_answer k" "exec_answer k' = exec_answer k"
  using assms by (simp_all add: made_def clock_lawful_def)

lemma clock_mono: "clock_lawful k \<Longrightarrow> clock_at k h \<le> clock_at k (h @ cs)"
proof (induction cs rule: rev_induct)
  case (snoc c cs)
  have "clock_at k (h @ cs) \<le> clock_at k ((h @ cs) @ [c])" using snoc.prems unfolding clock_lawful_def by blast
  with snoc show ?case by simp
qed simp

section \<open>Sequences of calls\<close>

fun unit_calls :: "call list \<Rightarrow> ('k kernel_scheme, errno, unit) op" where
  "unit_calls [] = io_return ()"
| "unit_calls (c # cs) = io_then (unit_call c) (unit_calls cs)"

lemma unit_call_cases:
  obtains (ok) "unit_call c k = (Ok (), record_call c k)" "unit_answer k (history k @ [c]) = None"
  | (err) e where "unit_call c k = (Err e, record_call c k)" "unit_answer k (history k @ [c]) = Some e"
  by (cases "unit_answer k (history k @ [c])") (auto simp: unit_call_def record_call_def intro: that)

lemma then_return [simp]: "io_then m (io_return ()) = m"
  by (auto simp: fun_eq_iff io_then_def io_bind_def split: prod.splits res.splits)

text \<open>The calls are made in order, up to the first that fails.\<close>

lemma unit_calls_run:
  assumes "unit_calls cs k = (r, k')"
  shows "\<exists>n \<le> length cs. made k (take n cs) k' \<and>
    (\<forall>i. i + 1 < n \<longrightarrow> unit_answer k (history k @ take (i + 1) cs) = None) \<and>
    (r = Ok () \<and> n = length cs \<and> (0 < n \<longrightarrow> unit_answer k (history k @ cs) = None) \<or>
     0 < n \<and> (\<exists>e. r = Err e \<and> unit_answer k (history k @ take n cs) = Some e))"
  using assms
proof (induction cs arbitrary: k)
  case (Cons c cs)
  let ?k1 = "record_call c k"
  have k1: "made k [c] ?k1" by (rule made_record)
  note f = made_fields [OF k1]
  show ?case
  proof (cases rule: unit_call_cases [of c k])
    case ok
    with Cons.prems have "unit_calls cs ?k1 = (r, k')" by simp
    from Cons.IH [OF this] obtain n where n: "n \<le> length cs" "made ?k1 (take n cs) k'"
      "\<forall>i. i + 1 < n \<longrightarrow> unit_answer k (history k @ c # take (i + 1) cs) = None"
      "r = Ok () \<and> n = length cs \<and> (0 < n \<longrightarrow> unit_answer k (history k @ c # cs) = None) \<or>
        0 < n \<and> (\<exists>e. r = Err e \<and> unit_answer k (history k @ c # take n cs) = Some e)"
      unfolding f by auto
    have "unit_answer k (history k @ take (i + 1) (c # cs)) = None" if "i + 1 < Suc n" for i
      using that n(3) ok(2) by (cases i) simp_all
    moreover have "made k (take (Suc n) (c # cs)) k'" using made_trans [OF k1 n(2)] by simp
    moreover have "r = Ok () \<and> Suc n = length (c # cs) \<and> unit_answer k (history k @ c # cs) = None \<or>
        (\<exists>e. r = Err e \<and> unit_answer k (history k @ take (Suc n) (c # cs)) = Some e)"
      using n(4) ok(2) by (cases cs) auto
    ultimately show ?thesis using n(1) by (intro exI [of _ "Suc n"]) auto
  next
    case (err e)
    with Cons.prems k1 show ?thesis by (intro exI [of _ 1]) simp
  qed
qed simp

section \<open>Traces\<close>

text \<open>
  \<open>traces m Q k\<close>: the calls that \<open>m\<close> makes from \<open>k\<close>, and its result, satisfy \<open>Q\<close>. The rules forget
  what the kernel answered.
\<close>

definition traces :: "('k kernel_scheme, 'e, 'a) op \<Rightarrow> (('e, 'a) res \<Rightarrow> call list \<Rightarrow> bool) \<Rightarrow> 'k kernel_scheme \<Rightarrow> bool" where
  "traces m Q k \<longleftrightarrow> (case m k of (r, k') \<Rightarrow> \<exists>cs. made k cs k' \<and> Q r cs)"

named_theorems trace_rules "the calls of an operation"

lemma tracesD: "traces m Q k \<Longrightarrow> m k = (r, k') \<Longrightarrow> \<exists>cs. made k cs k' \<and> Q r cs"
  by (simp add: traces_def)

lemma tracesI: "m k = (r, k') \<Longrightarrow> made k cs k' \<Longrightarrow> Q r cs \<Longrightarrow> traces m Q k"
  by (auto simp: traces_def)

lemma traces_mono: "traces m P k \<Longrightarrow> (\<And>r cs. P r cs \<Longrightarrow> Q r cs) \<Longrightarrow> traces m Q k"
  unfolding traces_def by (auto split: prod.splits)

lemma traces_return [trace_rules]: "Q (Ok x) [] \<Longrightarrow> traces (io_return x) Q k"
  by (rule tracesI [OF _ made_refl]) simp_all

lemma traces_fail [trace_rules]: "Q (Err e) [] \<Longrightarrow> traces (io_fail e) Q k"
  by (rule tracesI [OF _ made_refl]) simp_all

lemma traces_if [trace_rules]:
  "(P \<Longrightarrow> traces m Q k) \<Longrightarrow> (\<not> P \<Longrightarrow> traces n Q k) \<Longrightarrow> traces (if P then m else n) Q k"
  by simp

lemma traces_unit [trace_rules]: "Q (Ok ()) [c] \<Longrightarrow> (\<And>e. Q (Err e) [c]) \<Longrightarrow> traces (unit_call c) Q k"
  by (cases rule: unit_call_cases [of c k]) (auto intro: tracesI made_record)

lemma traces_io [trace_rules]: "Q (Ok ()) [c] \<Longrightarrow> (\<And>e. Q (Err e) [c]) \<Longrightarrow> traces (io_call c) Q k"
  by (cases "io_answer k (history k @ [c])")
    (auto simp: io_call_def record_call_def made_def intro!: tracesI [where cs = "[c]"])

lemma traces_sum [trace_rules]: "(\<And>x. Q (Ok x) [c]) \<Longrightarrow> (\<And>e. Q (Err e) [c]) \<Longrightarrow> traces (sum_call f c) Q k"
  by (cases "f k (history k @ [c])") (auto intro: tracesI made_record)

lemma traces_bind [trace_rules]:
  assumes "traces m (\<lambda>r cs. case r of
      Ok x \<Rightarrow> \<forall>k1. made k cs k1 \<longrightarrow> traces (f x) (\<lambda>r' ds. Q r' (cs @ ds)) k1
    | Err e \<Rightarrow> Q (Err e) cs
    | Panic \<Rightarrow> Q Panic cs) k"
  shows "traces (io_bind m f) Q k"
proof -
  obtain r k1 where m: "m k = (r, k1)" by fastforce
  from tracesD [OF assms this] obtain cs where cs: "made k cs k1" and Q: "case r of
      Ok x \<Rightarrow> \<forall>k1. made k cs k1 \<longrightarrow> traces (f x) (\<lambda>r' ds. Q r' (cs @ ds)) k1
    | Err e \<Rightarrow> Q (Err e) cs
    | Panic \<Rightarrow> Q Panic cs" by blast
  show ?thesis
  proof (cases r)
    case (Ok x)
    obtain r' k2 where f: "f x k1 = (r', k2)" by fastforce
    from Q cs Ok have "traces (f x) (\<lambda>r' ds. Q r' (cs @ ds)) k1" by simp
    from tracesD [OF this f] obtain ds where "made k1 ds k2" "Q r' (cs @ ds)" by blast
    with made_trans [OF cs] m Ok f show ?thesis by (intro tracesI [where r = r']) simp_all
  qed (use m cs Q in \<open>auto intro: tracesI\<close>)
qed

lemma traces_then [trace_rules]:
  assumes "traces m (\<lambda>r cs. case r of
      Ok _ \<Rightarrow> \<forall>k1. made k cs k1 \<longrightarrow> traces f (\<lambda>r' ds. Q r' (cs @ ds)) k1
    | Err e \<Rightarrow> Q (Err e) cs
    | Panic \<Rightarrow> Q Panic cs) k"
  shows "traces (io_then m f) Q k"
  unfolding io_then_def by (rule traces_bind [OF assms])

lemma traces_on_error [trace_rules]:
  "traces m (\<lambda>r cs. Q (map_err f r) cs) k \<Longrightarrow> traces (on_error f m) Q k"
  by (auto simp: traces_def on_error_def split: prod.splits)

text \<open>\<open>all_calls P m\<close>: whatever the kernel answers, \<open>m\<close> makes only calls that satisfy \<open>P\<close>.\<close>

definition all_calls :: "(call \<Rightarrow> bool) \<Rightarrow> ('k kernel_scheme, 'e, 'a) op \<Rightarrow> bool" where
  "all_calls P m \<longleftrightarrow> (\<forall>k. traces m (\<lambda>_ cs. \<forall>c \<in> set cs. P c) k)"

named_theorems calls "operations that make only certain calls"

lemma all_callsD: "all_calls P m \<Longrightarrow> m k = (r, k') \<Longrightarrow> \<exists>cs. made k cs k' \<and> (\<forall>c \<in> set cs. P c)"
  by (auto simp: all_calls_def dest: tracesD)

lemma all_calls_basic [calls, simp]: "all_calls P (io_return x)" "all_calls P (io_fail e)"
  by (simp_all add: all_calls_def traces_return traces_fail)

lemma all_calls_unit [calls]: "P c \<Longrightarrow> all_calls P (unit_call c)"
  by (simp add: all_calls_def traces_unit)

lemma all_calls_io [calls]: "P c \<Longrightarrow> all_calls P (io_call c)"
  by (simp add: all_calls_def traces_io)

lemma all_calls_sum [calls]: "P c \<Longrightarrow> all_calls P (sum_call f c)"
  by (simp add: all_calls_def traces_sum)

lemma all_calls_on_error [calls]: "all_calls P m \<Longrightarrow> all_calls P (on_error f m)"
  by (simp add: all_calls_def traces_on_error)

lemma all_calls_bind [calls]:
  assumes "all_calls P m" and "\<And>x. all_calls P (f x)"
  shows "all_calls P (io_bind m f)"
proof -
  have rest: "traces (f x) (\<lambda>_ ds. \<forall>c \<in> set cs \<union> set ds. P c) k1" if "\<forall>c \<in> set cs. P c" for x cs k1
    using assms(2) [of x] that unfolding all_calls_def by (force intro: traces_mono)
  have "traces (io_bind m f) (\<lambda>_ cs. \<forall>c \<in> set cs. P c) k" for k
  proof (rule traces_bind)
    have "traces m (\<lambda>_ cs. \<forall>c \<in> set cs. P c) k" using assms(1) by (simp add: all_calls_def)
    then show "traces m (\<lambda>r cs. case r of
        Ok x \<Rightarrow> \<forall>k1. made k cs k1 \<longrightarrow> traces (f x) (\<lambda>_ ds. \<forall>c \<in> set (cs @ ds). P c) k1
      | Err e \<Rightarrow> \<forall>c \<in> set cs. P c
      | Panic \<Rightarrow> \<forall>c \<in> set cs. P c) k"
      by (rule traces_mono) (auto simp: rest split: res.split)
  qed
  then show ?thesis by (simp add: all_calls_def)
qed

lemma all_calls_then [calls]: "all_calls P m \<Longrightarrow> all_calls P f \<Longrightarrow> all_calls P (io_then m f)"
  unfolding io_then_def by (rule all_calls_bind)

lemma all_calls_if [calls]: "(b \<Longrightarrow> all_calls P m) \<Longrightarrow> (\<not> b \<Longrightarrow> all_calls P n) \<Longrightarrow> all_calls P (if b then m else n)"
  by simp

lemma all_calls_option [calls]:
  "all_calls P m \<Longrightarrow> (\<And>x. v = Some x \<Longrightarrow> all_calls P (f x)) \<Longrightarrow> all_calls P (case v of None \<Rightarrow> m | Some x \<Rightarrow> f x)"
  by (simp split: option.split)

lemma all_calls_ask:
  assumes "P c" and "\<And>x. all_calls P (f x)"
  shows "all_calls P (\<lambda>k. case ask g c k of (x, k') \<Rightarrow> f x k')"
  unfolding all_calls_def
proof
  fix k
  obtain r k2 where f: "f (g k (history k @ [c])) (record_call c k) = (r, k2)" by fastforce
  from all_callsD [OF assms(2) f] obtain cs where "made (record_call c k) cs k2" "\<forall>c \<in> set cs. P c" by blast
  with made_trans [OF made_record] assms(1) f show "traces (\<lambda>k. case ask g c k of (x, k') \<Rightarrow> f x k') (\<lambda>_ cs. \<forall>c \<in> set cs. P c) k"
    by (intro tracesI [of _ k r k2 "[c] @ cs"]) (auto simp: ask_def record_call_def Let_def)
qed

end
