(* ===== verification/File_System.thy ===== *)
theory File_System
  imports Nck_Prelude
begin

text \<open>
  The part of the file system that the program uses, as the standard library and POSIX
  document it: paths as bytes, nodes, and the system calls. Any call may also fail for
  reasons of its own; a script in the state says which calls do, so that error paths are
  ordinary runs. \<open>overwrite\<close> says whether a rename may replace an existing file (some file
  systems refuse).
\<close>

datatype node = NFile bytes | NDir | NLink bytes

record fs =
  nodes :: "bytes \<Rightarrow> node option"
  sys_faults :: "error_kind option list"
  overwrite :: bool

text \<open>The path \<open>p\<close> is below the directory \<open>d\<close>.\<close>

definition below :: "bytes \<Rightarrow> bytes \<Rightarrow> bool" where
  "below d p \<longleftrightarrow> take (length d + 1) p = d @ [47]"

definition path_join :: "bytes \<Rightarrow> bytes \<Rightarrow> bytes" where
  "path_join parent name =
     (if name \<noteq> [] \<and> name ! 0 = 47 then name
      else if parent = [] \<or> last parent = 47 then parent @ name
      else parent @ [47] @ name)"

definition syscall :: "(fs, 'a) io \<Rightarrow> (fs, 'a) io" where
  "syscall m s =
     (case sys_faults s of
        [] \<Rightarrow> m s
      | None # rest \<Rightarrow> m (s\<lparr>sys_faults := rest\<rparr>)
      | Some e # rest \<Rightarrow> (Err e, s\<lparr>sys_faults := rest\<rparr>))"

text \<open>The error numbers of \<open>ENOTDIR\<close>, \<open>EISDIR\<close> and \<open>ENOTEMPTY\<close>.\<close>

definition ENOTDIR :: error_kind where "ENOTDIR = RawOs 20"
definition EISDIR :: error_kind where "EISDIR = RawOs 21"
definition ENOTEMPTY :: error_kind where "ENOTEMPTY = RawOs 39"

definition create_new :: "bytes \<Rightarrow> (fs, unit) io" where
  "create_new p = syscall (\<lambda>s.
     if nodes s p = None then (Ok (), s\<lparr>nodes := (nodes s)(p \<mapsto> NFile [])\<rparr>) else (Err AlreadyExists, s))"

definition create_dir :: "bytes \<Rightarrow> (fs, unit) io" where
  "create_dir p = syscall (\<lambda>s.
     if nodes s p = None then (Ok (), s\<lparr>nodes := (nodes s)(p \<mapsto> NDir)\<rparr>) else (Err AlreadyExists, s))"

definition create_dir_all :: "bytes \<Rightarrow> (fs, unit) io" where
  "create_dir_all p = syscall (\<lambda>s.
     case nodes s p of
       None \<Rightarrow> (Ok (), s\<lparr>nodes := (\<lambda>q. if nodes s q = None \<and> (q = p \<or> below q p) then Some NDir else nodes s q)\<rparr>)
     | Some NDir \<Rightarrow> (Ok (), s)
     | Some _ \<Rightarrow> (Err AlreadyExists, s))"

definition symlink_metadata :: "bytes \<Rightarrow> (fs, node) io" where
  "symlink_metadata p = syscall (\<lambda>s. case nodes s p of Some n \<Rightarrow> (Ok n, s) | None \<Rightarrow> (Err NotFound, s))"

definition remove_file :: "bytes \<Rightarrow> (fs, unit) io" where
  "remove_file p = syscall (\<lambda>s.
     case nodes s p of
       None \<Rightarrow> (Err NotFound, s)
     | Some NDir \<Rightarrow> (Err EISDIR, s)
     | Some _ \<Rightarrow> (Ok (), s\<lparr>nodes := (nodes s)(p := None)\<rparr>))"

definition remove_dir_all :: "bytes \<Rightarrow> (fs, unit) io" where
  "remove_dir_all p = syscall (\<lambda>s.
     case nodes s p of
       None \<Rightarrow> (Err NotFound, s)
     | Some NDir \<Rightarrow> (Ok (), s\<lparr>nodes := (\<lambda>q. if q = p \<or> below p q then None else nodes s q)\<rparr>)
     | Some _ \<Rightarrow> (Err ENOTDIR, s))"

text \<open>Renaming moves what is below a directory with it.\<close>

definition moved :: "bytes \<Rightarrow> bytes \<Rightarrow> (bytes \<Rightarrow> node option) \<Rightarrow> bytes \<Rightarrow> node option" where
  "moved a b ns q =
     (if q = b \<or> below b q then ns (a @ drop (length b) q)
      else if q = a \<or> below a q then None
      else ns q)"

definition move_node :: "bytes \<Rightarrow> bytes \<Rightarrow> (fs, unit) io" where
  "move_node a b s =
     (if a = b then (Ok (), s) else (Ok (), s\<lparr>nodes := moved a b (nodes s)\<rparr>))"

definition empty_dir :: "fs \<Rightarrow> bytes \<Rightarrow> bool" where
  "empty_dir s b \<longleftrightarrow> (\<forall>q. below b q \<longrightarrow> nodes s q = None)"

definition rename :: "bytes \<Rightarrow> bytes \<Rightarrow> (fs, unit) io" where
  "rename a b = syscall (\<lambda>s.
     case nodes s a of
       None \<Rightarrow> (Err NotFound, s)
     | Some n \<Rightarrow>
         (case nodes s b of
            None \<Rightarrow> move_node a b s
          | Some m \<Rightarrow>
              if \<not> overwrite s then (Err AlreadyExists, s)
              else if n = NDir \<and> m \<noteq> NDir then (Err ENOTDIR, s)
              else if n \<noteq> NDir \<and> m = NDir then (Err EISDIR, s)
              else if n = NDir \<and> \<not> empty_dir s b then (Err ENOTEMPTY, s)
              else move_node a b s))"

text \<open>
  Opening follows symbolic links, at most forty as on Linux, relative to the directory of the
  link. The handle is the path arrived at: the files that the program opens by a name are not
  renamed while they are open. Writing through a handle whose file has been removed succeeds
  and leaves nothing.
\<close>

definition ELOOP :: error_kind where "ELOOP = RawOs 40"

fun resolve :: "nat \<Rightarrow> (bytes \<Rightarrow> node option) \<Rightarrow> bytes \<Rightarrow> bytes option" where
  "resolve 0 ns p = None"
| "resolve (Suc k) ns p =
     (case ns p of
        Some (NLink t) \<Rightarrow> resolve k ns (path_join (rev (dropWhile (\<lambda>b. b \<noteq> 47) (rev p))) t)
      | _ \<Rightarrow> Some p)"

definition open_read :: "bytes \<Rightarrow> (fs, bytes) io" where
  "open_read p = syscall (\<lambda>s.
     case resolve 41 (nodes s) p of
       None \<Rightarrow> (Err ELOOP, s)
     | Some q \<Rightarrow> (case nodes s q of Some _ \<Rightarrow> (Ok q, s) | None \<Rightarrow> (Err NotFound, s)))"

definition open_truncate :: "bytes \<Rightarrow> (fs, bytes) io" where
  "open_truncate p = syscall (\<lambda>s.
     case resolve 41 (nodes s) p of
       None \<Rightarrow> (Err ELOOP, s)
     | Some q \<Rightarrow>
         (case nodes s q of
            Some NDir \<Rightarrow> (Err EISDIR, s)
          | _ \<Rightarrow> (Ok q, s\<lparr>nodes := (nodes s)(q \<mapsto> NFile [])\<rparr>)))"

definition append_file :: "bytes \<Rightarrow> bytes \<Rightarrow> (fs, unit) io" where
  "append_file q bs = syscall (\<lambda>s.
     case nodes s q of
       Some (NFile content) \<Rightarrow> (Ok (), s\<lparr>nodes := (nodes s)(q \<mapsto> NFile (content @ bs))\<rparr>)
     | _ \<Rightarrow> (Ok (), s))"

text \<open>\<open>std::fs::copy\<close>: the content is written after the target has been truncated.\<close>

definition copy_file :: "bytes \<Rightarrow> bytes \<Rightarrow> (fs, unit) io" where
  "copy_file a b =
     io_bind (open_read a) (\<lambda>q.
     io_get (\<lambda>s. case nodes s q of
         Some (NFile content) \<Rightarrow> io_bind (open_truncate b) (\<lambda>r. append_file r content)
       | _ \<Rightarrow> io_fail InvalidInput))"

section \<open>Facts\<close>

lemma below_length: "below d p \<Longrightarrow> length d < length p"
  by (auto simp: below_def dest!: arg_cong [where f = length])

lemma not_below_same [simp]: "\<not> below p p"
  using below_length [of p p] by auto

text \<open>A call fails by itself, or does what it does on the state with one fault less.\<close>

definition rest_faults :: "fs \<Rightarrow> fs" where
  "rest_faults s = s\<lparr>sys_faults := tl (sys_faults s)\<rparr>"

lemma rest_faults_simps [simp]:
  "nodes (rest_faults s) = nodes s" "overwrite (rest_faults s) = overwrite s"
  by (simp_all add: rest_faults_def)

lemma rest_faults_Nil: "sys_faults s = [] \<Longrightarrow> rest_faults s = s"
  by (cases s) (simp add: rest_faults_def)

lemma syscall_run:
  "syscall m s = (case sys_faults s of Some e # _ \<Rightarrow> (Err e, rest_faults s) | _ \<Rightarrow> m (rest_faults s))"
proof (cases "sys_faults s")
  case Nil
  then show ?thesis by (simp add: syscall_def rest_faults_Nil)
next
  case (Cons f rest)
  then show ?thesis by (cases f) (simp_all add: syscall_def rest_faults_def)
qed

text \<open>Without faults.\<close>

definition faultless :: "fs \<Rightarrow> bool" where
  "faultless s \<longleftrightarrow> set (sys_faults s) \<subseteq> {None}"

lemma syscall_faultless: "faultless s \<Longrightarrow> syscall m s = m (rest_faults s) \<and> faultless (rest_faults s)"
  by (cases "sys_faults s") (auto simp: faultless_def syscall_run, auto simp: rest_faults_def)

lemma syscall_cases:
  obtains (fault) e where "syscall m s = (Err e, rest_faults s)" and "\<not> faultless s"
      and "sys_faults s = Some e # sys_faults (rest_faults s)"
  | (run) "syscall m s = m (rest_faults s)"
proof (cases "sys_faults s")
  case Nil
  then show thesis by (intro run) (simp add: syscall_run)
next
  case (Cons f rest)
  then show thesis by (cases f) (auto simp: syscall_run faultless_def rest_faults_def intro: that)
qed

lemma faultless_rest: "faultless s \<Longrightarrow> faultless (rest_faults s)"
  using syscall_faultless by blast

lemma faultless_nodes [simp]: "faultless (s\<lparr>nodes := x\<rparr>) = faultless s"
  by (simp add: faultless_def)

text \<open>What a path that is no link resolves to.\<close>

lemma resolve_plain: "\<forall>t. ns p \<noteq> Some (NLink t) \<Longrightarrow> resolve (Suc k) ns p = Some p"
  by (auto split: option.split node.split)

lemmas resolve_41 = resolve_plain [of _ _ 40, simplified]

lemma open_read_faultless:
  assumes "faultless s" and "\<forall>t. nodes s p \<noteq> Some (NLink t)"
  shows "open_read p s = (if nodes s p = None then Err NotFound else Ok p, rest_faults s)"
  using resolve_41 [of "nodes s" p] assms(2)
  by (auto simp: open_read_def syscall_faultless [OF assms(1)] split: option.split)

lemma open_read_nodes: "nodes (snd (open_read p s)) = nodes s"
  by (simp add: open_read_def syscall_run split: list.split option.split)

text \<open>Files have nothing below them.\<close>

definition leaf :: "(bytes \<Rightarrow> node option) \<Rightarrow> bytes \<Rightarrow> bool" where
  "leaf ns p \<longleftrightarrow> (\<forall>q. below p q \<longrightarrow> ns q = None)"

lemma moved_leaf:
  assumes "leaf ns a" and "leaf ns b" and "a \<noteq> b" and "\<not> below b a" and "\<not> below a b"
  shows "moved a b ns = ns(a := None, b := ns a)"
proof
  fix q
  show "moved a b ns q = (ns(a := None, b := ns a)) q"
  proof (cases "below b q")
    case True
    then have "take (length b + 1) q = b @ [47]" by (simp add: below_def)
    then have "q = (b @ [47]) @ drop (length b + 1) q" by (metis append_take_drop_id)
    then have "drop (length b) q = [47] @ drop (length b + 1) q" by (metis append_assoc append_eq_conv_conj)
    then have "below a (a @ drop (length b) q)" by (simp add: below_def)
    then have "ns (a @ drop (length b) q) = None" using assms(1) by (simp add: leaf_def)
    moreover have "ns q = None" "q \<noteq> a" "q \<noteq> b" using assms(2,4) True by (auto simp: leaf_def)
    ultimately show ?thesis using True by (simp add: moved_def)
  next
    case False
    with assms show ?thesis by (auto simp: moved_def leaf_def)
  qed
qed

end
