(* ===== verification/Mounts.thy ===== *)
theory Mounts
  imports Kernel File_System
begin

unbundle bit_operations_syntax

text \<open>
  \<open>crates/daemon/src/build/linux/fs.rs\<close>: mounts. The functions are sequences of system calls,
  here events of the model of the kernel. A path is its bytes.
\<close>

section \<open>Types of mounts and devices\<close>

datatype mount_type = Bind | Proc | SysFs | TmpFs | DevPts | Overlay | Fuse

fun mount_type_name :: "mount_type \<Rightarrow> bytes" where
  "mount_type_name Bind = bytes_of ''bind''"
| "mount_type_name Proc = bytes_of ''proc''"
| "mount_type_name SysFs = bytes_of ''sysfs''"
| "mount_type_name TmpFs = bytes_of ''tmpfs''"
| "mount_type_name DevPts = bytes_of ''devpts''"
| "mount_type_name Overlay = bytes_of ''overlay''"
| "mount_type_name Fuse = bytes_of ''fuse''"

datatype device_type = Null | Zero | Full | Random | URandom | Tty | Ptmx

definition S_IFCHR :: "32 word" where "S_IFCHR = 0x2000"

definition device_flag :: "device_type \<Rightarrow> 32 word" where
  "device_flag d = S_IFCHR"

text \<open>\<open>makedev\<close> of the C library.\<close>

definition makedev :: "64 word \<Rightarrow> 64 word \<Rightarrow> 64 word" where
  "makedev major minor =
     push_bit 32 (major AND 0xfffff000) OR push_bit 8 (major AND 0xfff) OR
     push_bit 12 (minor AND 0xffffff00) OR (minor AND 0xff)"

fun device_number :: "device_type \<Rightarrow> 64 word" where
  "device_number Null = makedev 1 3"
| "device_number Zero = makedev 1 5"
| "device_number Full = makedev 1 7"
| "device_number Random = makedev 1 8"
| "device_number URandom = makedev 1 9"
| "device_number Tty = makedev 5 0"
| "device_number Ptmx = makedev 5 2"

section \<open>Mounting\<close>

definition MS_BIND :: "64 word" where "MS_BIND = 0x1000"
definition MS_REC :: "64 word" where "MS_REC = 0x4000"
definition MS_PRIVATE :: "64 word" where "MS_PRIVATE = 0x40000"
definition MS_SLAVE :: "64 word" where "MS_SLAVE = 0x80000"
definition MS_SHARED :: "64 word" where "MS_SHARED = 0x100000"
definition MNT_DETACH :: "32 word" where "MNT_DETACH = 2"
definition AT_RECURSIVE :: "32 word" where "AT_RECURSIVE = 0x8000"
definition AT_EMPTY_PATH :: "32 word" where "AT_EMPTY_PATH = 0x1000"
definition OPEN_TREE_CLONE :: "32 word" where "OPEN_TREE_CLONE = 1"
definition OPEN_TREE_CLOEXEC :: "32 word" where "OPEN_TREE_CLOEXEC = 0x80000"
definition EBADF :: int where "EBADF = 9"
definition EINVAL :: errno where "EINVAL = 22"
definition UNKNOWN_ERRNO :: errno where "UNKNOWN_ERRNO = 0"

definition mount_at ::
    "bytes option \<Rightarrow> bytes \<Rightarrow> bytes option \<Rightarrow> 64 word \<Rightarrow> bytes option \<Rightarrow> ('k kernel_scheme, errno, unit) op" where
  "mount_at source target fstype flags data = unit_call (MountOp (Mount source target fstype flags data))"

definition unmount :: "bytes \<Rightarrow> 32 word \<Rightarrow> ('k kernel_scheme, errno, unit) op" where
  "unmount path flags = unit_call (MountOp (Umount path flags))"

definition overlay ::
    "bytes \<Rightarrow> bytes \<Rightarrow> bytes \<Rightarrow> bytes \<Rightarrow> 64 word \<Rightarrow> ('k kernel_scheme, errno, unit) op" where
  "overlay lower work upper target flags =
     (let opts = bytes_of ''lowerdir='' @ lower @ bytes_of '',upperdir='' @ upper @ bytes_of '',workdir='' @ work
      in mount_at None target (Some (mount_type_name Overlay)) flags (Some opts))"

text \<open>The raw calls. A path with a zero byte is refused before the call.\<close>

definition with_nix_path :: "bytes \<Rightarrow> ('s, errno, 'a) op \<Rightarrow> ('s, errno, 'a) op" where
  "with_nix_path p m = (if 0 \<in> set p then io_fail EINVAL else m)"

definition raw_unit :: "call \<Rightarrow> ('k kernel_scheme, errno, unit) op" where
  "raw_unit c k =
     (case ask ret_answer c k of ((ret, e), k') \<Rightarrow>
        (if ret = 0 then Ok () else if ret = - 1 then Err e else Err UNKNOWN_ERRNO, k'))"

definition dir_or_bad :: "int option \<Rightarrow> int" where
  "dir_or_bad d = (case d of Some fd \<Rightarrow> fd | None \<Rightarrow> - EBADF)"

definition mount_setattr ::
    "int option \<Rightarrow> bytes \<Rightarrow> 32 word \<Rightarrow> mount_attr \<Rightarrow> ('k kernel_scheme, errno, unit) op" where
  "mount_setattr dir path flags attr =
     with_nix_path path (raw_unit (MountOp (MountSetattr (dir_or_bad dir) path flags attr)))"

definition open_tree :: "int option \<Rightarrow> bytes \<Rightarrow> bool \<Rightarrow> ('k kernel_scheme, errno, int) op" where
  "open_tree dir path recursive =
     with_nix_path path (\<lambda>k.
       let flags = OPEN_TREE_CLOEXEC OR OPEN_TREE_CLONE OR AT_EMPTY_PATH OR (if recursive then AT_RECURSIVE else 0) in
       case ask ret_answer (MountOp (OpenTree (dir_or_bad dir) path flags)) k of ((ret, e), k') \<Rightarrow>
         (if ret = - 1 then Err e else Ok (signed_take_bit 31 ret), k'))"

definition move_mount :: "int option \<Rightarrow> bytes \<Rightarrow> int option \<Rightarrow> bytes \<Rightarrow> ('k kernel_scheme, errno, unit) op" where
  "move_mount source_dir source dest_dir dest =
     with_nix_path source (with_nix_path dest
       (raw_unit (MountOp (MoveMount (dir_or_bad source_dir) source (dir_or_bad dest_dir) dest))))"

text \<open>\<open>clone_mount\<close> of \<open>crates/io/src/fs.rs\<close>.\<close>

definition clone_mount :: "int option \<Rightarrow> bytes \<Rightarrow> ('k kernel_scheme, errno, int) op" where
  "clone_mount dfd path =
     with_nix_path path (\<lambda>k.
       case ask ret_answer (MountOp (OpenTree (dir_or_bad dfd) path
           (OPEN_TREE_CLOEXEC OR OPEN_TREE_CLONE OR (AT_RECURSIVE OR AT_EMPTY_PATH)))) k of ((ret, e), k') \<Rightarrow>
         (if signed_take_bit 31 ret = - 1 then Err e else Ok (signed_take_bit 31 ret), k'))"

text \<open>The parent of a path without dot components: none of the root and of the empty path.\<close>

definition strip_slashes :: "bytes \<Rightarrow> bytes" where
  "strip_slashes p = rev (dropWhile (\<lambda>b. b = 47) (rev p))"

definition path_parent :: "bytes \<Rightarrow> bytes option" where
  "path_parent p =
     (let q = strip_slashes p in
      if q = [] then None
      else
        (let d = rev (dropWhile (\<lambda>b. b \<noteq> 47) (rev q)) in
         Some (if strip_slashes d = [] \<and> d \<noteq> [] then [47] else strip_slashes d)))"

definition raw_or_zero :: "os_error \<Rightarrow> errno" where
  "raw_or_zero e = (case raw_os_error e of Some n \<Rightarrow> n | None \<Rightarrow> 0)"

definition file_op :: "file_call \<Rightarrow> ('k kernel_scheme, errno, unit) op" where
  "file_op c = on_error raw_or_zero (io_call (FileOp c))"

definition test_op :: "file_call \<Rightarrow> (bool \<Rightarrow> ('k kernel_scheme, 'e, 'a) op) \<Rightarrow> ('k kernel_scheme, 'e, 'a) op" where
  "test_op c f k = (case ask test_answer (FileOp c) k of (b, k') \<Rightarrow> f b k')"

definition bind_mount ::
    "bytes \<Rightarrow> bytes \<Rightarrow> 64 word option \<Rightarrow> int option \<Rightarrow> ('k kernel_scheme, errno, unit) op" where
  "bind_mount src dest additional_flags ns_fd =
     (case ns_fd of
        Some ns_fd \<Rightarrow>
          io_bind (open_tree None src True) (\<lambda>fd_tree.
          let attr = \<lparr>attr_set = 1048576, attr_clr = 0, propagation = 0, userns_fd = word_of_int ns_fd\<rparr> in
          io_then (mount_setattr (Some fd_tree) [] (AT_RECURSIVE OR AT_EMPTY_PATH) attr)
          (move_mount (Some fd_tree) [] None dest))
      | None \<Rightarrow>
          io_then
            (case path_parent dest of
               Some parent \<Rightarrow> file_op (CreateDirectories parent)
             | None \<Rightarrow> io_return ())
          (io_then
            (test_op (IsDirectory src) (\<lambda>is_dir.
               if is_dir then
                 test_op (IsDirectory dest) (\<lambda>found.
                   if \<not> found then file_op (CreateDirectory dest) else io_return ())
               else
                 test_op (IsFile dest) (\<lambda>found.
                   if \<not> found then file_op (WriteFile dest []) else io_return ())))
          (mount_at (Some src) dest (Some (mount_type_name Bind))
             (MS_REC OR MS_BIND OR (case additional_flags of Some f \<Rightarrow> f | None \<Rightarrow> 0)) None)))"

definition pivot :: "bytes \<Rightarrow> ('k kernel_scheme, errno, unit) op" where
  "pivot new_root =
     io_then (mount_at (Some new_root) new_root None (MS_PRIVATE OR MS_BIND OR MS_REC) None)
     (io_bind (sum_call num_answer (FileOp (OpenDirectory new_root))) (\<lambda>newroot.
      io_then (unit_call (MountOp (PivotRoot new_root new_root)))
     (io_then (mount_at None [47] None (MS_SLAVE OR MS_REC) None)
     (io_then (unmount [47] MNT_DETACH)
      (unit_call (MountOp (FChDir (int newroot))))))))"

end
