(* ===== verification/User_Ns.thy ===== *)
theory User_Ns
  imports Kernel String_Types Printable
begin

text \<open>
  \<open>crates/daemon/src/build/linux/user_ns.rs\<close>: mapping the ids of a user namespace with the
  programs \<open>newuidmap\<close> and \<open>newgidmap\<close>, and whether such namespaces are allowed.
\<close>

section \<open>Errors and configuration\<close>

datatype mapping_error =
    BinaryNotFound
  | ExecuteFailed os_error
  | FailureStatus int string string
  | NoIDMapping

datatype user_namespace_error =
    NoUserNamespace
  | ReadUnprivilegedUsernsClone os_error
  | ParseUnprivilegedUsernsClone
  | UnknownUnprivilegedUsernsClone "8 word"
  | IDMapping mapping_error

record linux_id_mapping =
  container_id :: "32 word"
  host_id :: "32 word"
  mapping_size :: "32 word"

definition id_mapping_new :: "32 word \<Rightarrow> 32 word \<Rightarrow> 32 word \<Rightarrow> linux_id_mapping" where
  "id_mapping_new container host n = \<lparr>container_id = container, host_id = host, mapping_size = n\<rparr>"

record user_namespace_config =
  newuidmap :: bytes
  newgidmap :: bytes
  uid_mappings :: "linux_id_mapping list"
  gid_mappings :: "linux_id_mapping list"

section \<open>Operations\<close>

definition which :: "string \<Rightarrow> 'k kernel_scheme \<Rightarrow> bytes option \<times> 'k kernel_scheme" where
  "which name = ask path_answer (Which name)"

definition lookup_map_binaries :: "('k kernel_scheme, mapping_error, bytes \<times> bytes) op" where
  "lookup_map_binaries k =
     (case which ''newuidmap'' k of (uidmap, k1) \<Rightarrow>
      case which ''newgidmap'' k1 of (gidmap, k2) \<Rightarrow>
        (case (uidmap, gidmap) of
           (Some u, Some g) \<Rightarrow> (Ok (u, g), k2)
         | _ \<Rightarrow> (Err BinaryNotFound, k2)))"

definition config_new :: "('k kernel_scheme, user_namespace_error, user_namespace_config) op" where
  "config_new =
     io_bind (on_error IDMapping lookup_map_binaries) (\<lambda>(u, g).
     io_return \<lparr>newuidmap = u, newgidmap = g, uid_mappings = [], gid_mappings = []\<rparr>)"

text \<open>\<open>to_string\<close> of the integers.\<close>

fun decimal :: "nat \<Rightarrow> string" where
  "decimal n = (if n < 10 then [char_of (48 + n)] else decimal (n div 10) @ [char_of (48 + n mod 10)])"

declare decimal.simps [simp del]

definition pid_text :: "pid \<Rightarrow> string" where
  "pid_text p = (if p < 0 then ''-'' @ decimal (nat (- p)) else decimal (nat p))"

definition mapping_args :: "linux_id_mapping list \<Rightarrow> string list" where
  "mapping_args mappings =
     concat (map (\<lambda>m. [decimal (unat (container_id m)), decimal (unat (host_id m)), decimal (unat (mapping_size m))]) mappings)"

definition write_id_mapping :: "pid \<Rightarrow> linux_id_mapping list \<Rightarrow> bytes \<Rightarrow> ('k kernel_scheme, mapping_error, unit) op" where
  "write_id_mapping p mappings map_binary k =
     (if mappings = [] then (Err NoIDMapping, k)
      else
        (case sum_call exec_answer (Exec map_binary (pid_text p # mapping_args mappings)) k of
           (Err e, k') \<Rightarrow> (Err (ExecuteFailed e), k')
         | (Panic, k') \<Rightarrow> (Panic, k')
         | (Ok status, k') \<Rightarrow>
             (if out_status status \<noteq> 0 then
                Err (FailureStatus (out_status status) (printable_display (out_stdout status))
                  (printable_display (out_stderr status)))
              else Ok (), k')))"

definition write_uid_mapping :: "user_namespace_config \<Rightarrow> pid \<Rightarrow> ('k kernel_scheme, user_namespace_error, unit) op" where
  "write_uid_mapping cfg p = on_error IDMapping (write_id_mapping p (uid_mappings cfg) (newuidmap cfg))"

definition write_gid_mapping :: "user_namespace_config \<Rightarrow> pid \<Rightarrow> ('k kernel_scheme, user_namespace_error, unit) op" where
  "write_gid_mapping cfg p = on_error IDMapping (write_id_mapping p (gid_mappings cfg) (newgidmap cfg))"

definition write_mappings :: "user_namespace_config \<Rightarrow> pid \<Rightarrow> ('k kernel_scheme, user_namespace_error, unit) op" where
  "write_mappings cfg p = io_then (write_gid_mapping cfg p) (write_uid_mapping cfg p)"

text \<open>
  The system control is an ASCII file; \<open>trim\<close> removes the white space around its text, and the
  text must then be a numeral of one byte.
\<close>

definition is_space :: "char \<Rightarrow> bool" where
  "is_space c \<longleftrightarrow> of_char c \<in> {9, 10, 11, 12, 13, 32 :: nat}"

definition trim :: "string \<Rightarrow> string" where
  "trim v = rev (dropWhile is_space (rev (dropWhile is_space v)))"

definition u8_from_str :: "string \<Rightarrow> 8 word option" where
  "u8_from_str v =
     (case u32_from_str_radix 10 v of
        Some w \<Rightarrow> if w < 256 then Some (ucast w) else None
      | None \<Rightarrow> None)"

definition user_ns_sysctl :: bytes where
  "user_ns_sysctl = bytes_of ''/proc/sys/kernel/unprivileged_userns_clone''"

definition unprivileged_user_ns_enabled :: "('k kernel_scheme, user_namespace_error, bool) op" where
  "unprivileged_user_ns_enabled k =
     (case ask test_answer (FileOp (Exists user_ns_sysctl)) k of (found, k1) \<Rightarrow>
        if \<not> found then (Ok True, k1)
        else
          (case sum_call text_answer (FileOp (ReadToString user_ns_sysctl)) k1 of
             (Err e, k2) \<Rightarrow> (Err (ReadUnprivilegedUsernsClone e), k2)
           | (Panic, k2) \<Rightarrow> (Panic, k2)
           | (Ok content, k2) \<Rightarrow>
               (case u8_from_str (trim content) of
                  None \<Rightarrow> Err ParseUnprivilegedUsernsClone
                | Some v \<Rightarrow>
                    if v = 0 then Ok False
                    else if v = 1 then Ok True
                    else Err (UnknownUnprivilegedUsernsClone v), k2)))"

section \<open>Arguments that can be read back\<close>

lemma digit_char: "d < 10 \<Longrightarrow> digit_of 10 (char_of (48 + d)) = Some d"
  by (simp add: digit_of_def Let_def)

lemma decimal_numeral: "numeral_text 10 (decimal n) \<and> numeral_value 10 (decimal n) = n"
proof (induction n rule: decimal.induct)
  case (1 n)
  then show ?case
    by (cases "n < 10") (simp_all add: decimal.simps [of n] numeral_text_def numeral_value_def digit_char)
qed

lemma decimal_no_plus: "strip_plus (decimal n) = decimal n"
proof -
  from decimal_numeral [of n] obtain c cs where "decimal n = c # cs" "digit_of 10 c \<noteq> None"
    by (cases "decimal n") (auto simp: numeral_text_def)
  then show ?thesis by (auto simp: digit_of_def)
qed

lemma parse_decimal: "u32_from_str_radix 10 (decimal (unat w)) = Some (w :: 32 word)"
  by (simp add: u32_from_str_radix_iff decimal_no_plus decimal_numeral)

fun parse_mappings :: "string list \<Rightarrow> linux_id_mapping list option" where
  "parse_mappings [] = Some []"
| "parse_mappings (c # h # n # args) =
     (case (u32_from_str_radix 10 c, u32_from_str_radix 10 h, u32_from_str_radix 10 n, parse_mappings args) of
        (Some c', Some h', Some n', Some ms) \<Rightarrow> Some (id_mapping_new c' h' n' # ms)
      | _ \<Rightarrow> None)"
| "parse_mappings _ = None"

lemma parse_mapping_args: "parse_mappings (mapping_args ms) = Some ms"
  by (induction ms) (simp_all add: mapping_args_def parse_decimal id_mapping_new_def)

section \<open>Writing the mappings\<close>

definition exec_ok :: "'k kernel_scheme \<Rightarrow> call list \<Rightarrow> bool" where
  "exec_ok k h \<longleftrightarrow> (case exec_answer k h of Inr status \<Rightarrow> out_status status = 0 | Inl _ \<Rightarrow> False)"

definition map_command :: "pid \<Rightarrow> linux_id_mapping list \<Rightarrow> bytes \<Rightarrow> call" where
  "map_command p mappings binary = Exec binary (pid_text p # mapping_args mappings)"

lemma write_id_mapping_cases:
  obtains (none) "mappings = []" "write_id_mapping p mappings binary k = (Err NoIDMapping, k)"
  | (mapped) "mappings \<noteq> []" "exec_ok k (history k @ [map_command p mappings binary])"
      "write_id_mapping p mappings binary k = (Ok (), record_call (map_command p mappings binary) k)"
  | (failed) e where "mappings \<noteq> []" "\<not> exec_ok k (history k @ [map_command p mappings binary])"
      "write_id_mapping p mappings binary k = (Err e, record_call (map_command p mappings binary) k)"
proof (cases "mappings = []")
  case True
  then show thesis by (intro none) (simp_all add: write_id_mapping_def)
next
  case False
  show thesis
  proof (cases "exec_answer k (history k @ [map_command p mappings binary])")
    case (Inl e)
    with False show ?thesis
      by (intro failed) (simp_all add: write_id_mapping_def exec_ok_def map_command_def)
  next
    case (Inr status)
    with False show ?thesis
      by (cases "out_status status = 0")
        (auto simp: write_id_mapping_def exec_ok_def map_command_def intro: mapped failed)
  qed
qed

lemma all_calls_write_id [calls]: "(\<And>args. P (Exec binary args)) \<Longrightarrow> all_calls P (write_id_mapping p mappings binary)"
  unfolding all_calls_def
proof
  fix k assume P: "\<And>args. P (Exec binary args)"
  show "traces (write_id_mapping p mappings binary) (\<lambda>_ cs. \<forall>c \<in> set cs. P c) k"
  proof (cases rule: write_id_mapping_cases [of mappings p binary k])
    case none
    then show ?thesis by (intro tracesI [OF _ made_refl]) simp_all
  qed (rule tracesI [OF _ made_record], assumption, simp add: map_command_def P)+
qed

lemma all_calls_write_mappings [calls]: "(\<And>binary args. P (Exec binary args)) \<Longrightarrow> all_calls P (write_mappings cfg p)"
  unfolding write_mappings_def write_gid_mapping_def write_uid_mapping_def by (intro calls)

text \<open>
  The mappings of a process are written for its groups first and then its users, by one run
  of the program each, whose arguments are the process and three decimal numerals for each
  mapping, from which the mappings can be read back; it succeeds exactly when there are mappings
  of both kinds and both programs succeed, and the users are not mapped when the groups failed.
\<close>

theorem write_mappings_runs:
  assumes "write_mappings cfg p k = (r, k')"
  defines "g \<equiv> map_command p (gid_mappings cfg) (newgidmap cfg)" and "u \<equiv> map_command p (uid_mappings cfg) (newuidmap cfg)"
  shows "\<exists>cs. made k cs k' \<and> cs \<in> {[], [g], [g, u]} \<and>
    (u \<in> set (drop 1 cs) \<longrightarrow> exec_ok k (history k @ [g])) \<and>
    (r = Ok () \<longleftrightarrow> gid_mappings cfg \<noteq> [] \<and> uid_mappings cfg \<noteq> [] \<and>
      exec_ok k (history k @ [g]) \<and> exec_ok k (history k @ [g, u])) \<and>
    (r = Ok () \<longrightarrow> cs = [g, u]) \<and>
    (\<exists>args. g = Exec (newgidmap cfg) (pid_text p # args) \<and> parse_mappings args = Some (gid_mappings cfg)) \<and>
    (\<exists>args. u = Exec (newuidmap cfg) (pid_text p # args) \<and> parse_mappings args = Some (uid_mappings cfg))"
proof -
  have args: "\<exists>args. map_command p ms binary = Exec binary (pid_text p # args) \<and> parse_mappings args = Some ms" for ms binary
    using parse_mapping_args [of ms] by (auto simp: map_command_def)
  let ?k1 = "record_call g k"
  have k1: "made k [g] ?k1" "history ?k1 = history k @ [g]" "exec_answer ?k1 = exec_answer k"
    by (simp_all add: made_def record_call_def)
  show ?thesis
  proof (cases rule: write_id_mapping_cases [of "gid_mappings cfg" p "newgidmap cfg" k])
    case none
    with assms(1) args show ?thesis
      by (intro exI [of _ "[]"]) (auto simp: write_mappings_def write_gid_mapping_def on_error_def io_then_def io_bind_def g_def u_def)
  next
    case (failed e)
    with assms(1) args k1(1) show ?thesis
      by (intro exI [of _ "[g]"]) (auto simp: write_mappings_def write_gid_mapping_def on_error_def io_then_def io_bind_def g_def u_def)
  next
    case mapped
    then have rest: "write_uid_mapping cfg p ?k1 = (r, k')"
      using assms(1) by (simp add: write_mappings_def write_gid_mapping_def on_error_def io_then_def io_bind_def g_def)
    have two: "made k [g, u] (record_call u ?k1)" using made_trans [OF k1(1) made_record] by simp
    show ?thesis
    proof (cases rule: write_id_mapping_cases [of "uid_mappings cfg" p "newuidmap cfg" ?k1])
      case none
      with rest mapped args k1 show ?thesis
        by (intro exI [of _ "[g]"]) (auto simp: write_uid_mapping_def on_error_def g_def u_def)
    next
      case (failed e)
      with rest mapped args two k1(2,3) show ?thesis
        by (intro exI [of _ "[g, u]"]) (auto simp: write_uid_mapping_def on_error_def g_def u_def exec_ok_def)
    next
      case inner: mapped
      with rest mapped args two k1(2,3) show ?thesis
        by (intro exI [of _ "[g, u]"]) (auto simp: write_uid_mapping_def on_error_def g_def u_def exec_ok_def)
    qed
  qed
qed

definition root_mapping :: user_namespace_config where
  "root_mapping = \<lparr>newuidmap = [117], newgidmap = [103], uid_mappings = [id_mapping_new 0 100000 1],
     gid_mappings = [id_mapping_new 0 1000 1]\<rparr>"

theorem write_mappings_runs_witness:
  "\<exists>k'. write_mappings root_mapping 7 some_kernel = (Ok (), k') \<and>
    made some_kernel [Exec [103] [''7'', ''0'', ''1000'', ''1''], Exec [117] [''7'', ''0'', ''100000'', ''1'']] k'"
proof -
  obtain r k' where run: "write_mappings root_mapping 7 some_kernel = (r, k')" by fastforce
  have calls: "map_command 7 (gid_mappings root_mapping) (newgidmap root_mapping) = Exec [103] [''7'', ''0'', ''1000'', ''1'']"
    "map_command 7 (uid_mappings root_mapping) (newuidmap root_mapping) = Exec [117] [''7'', ''0'', ''100000'', ''1'']"
    by (simp_all add: map_command_def root_mapping_def mapping_args_def id_mapping_new_def pid_text_def decimal.simps
        char_of_eq_iff take_bit_nat_def)
  have "exec_ok some_kernel h" for h by (simp add: exec_ok_def some_kernel_def)
  with write_mappings_runs [OF run] show ?thesis unfolding calls run by (auto simp: root_mapping_def)
qed

text \<open>Whether unprivileged namespaces are allowed.\<close>

lemma userns_missing:
  "\<not> test_answer k (history k @ [FileOp (Exists user_ns_sysctl)]) \<Longrightarrow> fst (unprivileged_user_ns_enabled k) = Ok True"
  by (simp add: unprivileged_user_ns_enabled_def ask_def record_call_def)

lemma userns_flag:
  "u8_from_str (trim ''1\<newline>'') = Some 1" "u8_from_str (trim ''0\<newline>'') = Some 0" "u8_from_str (trim ''256'') = None"
  by (simp_all add: u8_from_str_def trim_def is_space_def u32_from_str_radix_def digit_of_def)

end
