(* ===== verification/Root_Fs.thy ===== *)
theory Root_Fs
  imports Mounts User_Ns
begin

text \<open>
  \<open>crates/daemon/src/build/linux/rootfs.rs\<close>: the root file system of a sandbox, set up by system
  calls. Formatted writing makes one write for each part of the text that is not empty.
\<close>

section \<open>Users and groups\<close>

record root_fs =
  fs_root :: bytes
  fs_etc :: bytes
  fs_dev :: bytes
  fs_tmp :: bytes
  fs_sys :: bytes
  fs_proc :: bytes

definition root_fs_new :: "bytes \<Rightarrow> root_fs" where
  "root_fs_new root =
     \<lparr>fs_root = root, fs_etc = path_join root (bytes_of ''etc''), fs_dev = path_join root (bytes_of ''dev''),
       fs_tmp = path_join root (bytes_of ''tmp''), fs_sys = path_join root (bytes_of ''sys''),
       fs_proc = path_join root (bytes_of ''proc'')\<rparr>"

definition write_to_file :: "bytes \<Rightarrow> bytes \<Rightarrow> ('k kernel_scheme, os_error, unit) op" where
  "write_to_file p bs = (if bs = [] then io_return () else io_call (FileOp (WriteAll p bs)))"

fun write_parts :: "bytes \<Rightarrow> bytes list \<Rightarrow> ('k kernel_scheme, os_error, unit) op" where
  "write_parts p [] = io_return ()"
| "write_parts p (x # xs) = io_then (write_to_file p x) (write_parts p xs)"

fun write_users :: "bytes \<Rightarrow> bool \<Rightarrow> string list \<Rightarrow> ('k kernel_scheme, os_error, unit) op" where
  "write_users p first [] = io_return ()"
| "write_users p first (user # users) =
     io_then (if \<not> first then write_to_file p (bytes_of '','') else io_return ())
     (io_then (write_to_file p (bytes_of user)) (write_users p False users))"

definition add_group :: "root_fs \<Rightarrow> string \<Rightarrow> nat \<Rightarrow> string list \<Rightarrow> ('k kernel_scheme, os_error, unit) op" where
  "add_group r name gid user_list =
     (let etc_group = path_join (fs_etc r) (bytes_of ''group'') in
      io_then (io_call (FileOp (OpenAppend etc_group)))
      (io_then (write_parts etc_group (map bytes_of [name, '':!:'', decimal gid, '':'']))
      (io_then (write_users etc_group True user_list)
      (write_to_file etc_group [10]))))"

definition add_user :: "root_fs \<Rightarrow> string \<Rightarrow> nat \<Rightarrow> nat \<Rightarrow> string option \<Rightarrow> ('k kernel_scheme, os_error, unit) op" where
  "add_user r name uid gid home =
     (let etc_passwd = path_join (fs_etc r) (bytes_of ''passwd'');
          home = (case home of Some h \<Rightarrow> h | None \<Rightarrow> ''/'') in
      io_then (io_call (FileOp (OpenAppend etc_passwd)))
      (write_parts etc_passwd (map bytes_of [name, '':x:'', decimal uid, '':'', decimal gid, '':'', home] @
         [bytes_of '':/sbin/nologin'' @ [10]])))"

section \<open>Installing\<close>

datatype install_error = IoError os_error | NixError errno

definition file_step :: "file_call \<Rightarrow> ('k kernel_scheme, install_error, unit) op" where
  "file_step c = on_error IoError (io_call (FileOp c))"

definition mount_step ::
    "bytes option \<Rightarrow> bytes \<Rightarrow> mount_type \<Rightarrow> bytes option \<Rightarrow> ('k kernel_scheme, install_error, unit) op" where
  "mount_step source target ty data = on_error NixError (mount_at source target (Some (mount_type_name ty)) 0 data)"

definition bind_step :: "string \<Rightarrow> bytes \<Rightarrow> ('k kernel_scheme, install_error, unit) op" where
  "bind_step src dest = on_error NixError (bind_mount (bytes_of src) dest None None)"

text \<open>An error that is dropped, and one for which there is a fallback.\<close>

definition ignore_error :: "('s, 'e, unit) op \<Rightarrow> ('s, 'f, unit) op" where
  "ignore_error m s = (case m s of (Panic, s') \<Rightarrow> (Panic, s') | (_, s') \<Rightarrow> (Ok (), s'))"

definition if_err :: "('s, 'e, unit) op \<Rightarrow> ('s, 'f, unit) op \<Rightarrow> ('s, 'f, unit) op \<Rightarrow> ('s, 'f, unit) op" where
  "if_err m fallback otherwise s =
     (case m s of
        (Err _, s') \<Rightarrow> fallback s'
      | (Ok _, s') \<Rightarrow> otherwise s'
      | (Panic, s') \<Rightarrow> (Panic, s'))"

fun steps :: "('s, 'e, unit) op list \<Rightarrow> ('s, 'e, unit) op" where
  "steps [] = io_return ()"
| "steps (m # ms) = io_then m (steps ms)"

definition in_dir :: "bytes \<Rightarrow> string \<Rightarrow> bytes" where
  "in_dir d name = path_join d (bytes_of name)"

definition install_etc :: "root_fs \<Rightarrow> ('k kernel_scheme, install_error, unit) op" where
  "install_etc r = steps
     [file_step (CreateDirectory (fs_root r)),
      file_step (SetMode (fs_root r) 508),
      file_step (CreateDirectories (fs_etc r)),
      ignore_error (add_group r ''root'' 0 []),
      ignore_error (add_group r ''nogroup'' 65534 []),
      ignore_error (add_user r ''root'' 0 0 None),
      ignore_error (add_user r ''nobody'' 65534 65534 None),
      file_step (WriteFile (in_dir (fs_etc r) ''hosts'')
        (bytes_of ''127.0.0.1 localhost'' @ [10] @ bytes_of ''::1 localhost'' @ [10]))]"

definition install_pts :: "root_fs \<Rightarrow> ('k kernel_scheme, install_error, unit) op" where
  "install_pts r =
     (let dev_pts = in_dir (fs_dev r) ''pts'' in
      io_then (file_step (CreateDirectories dev_pts))
      (test_op (Exists (bytes_of ''/dev/pts/ptmx'')) (\<lambda>found.
         if found then
           if_err (mount_at None dev_pts (Some (mount_type_name DevPts)) 0 (Some (bytes_of ''newinstance,mode=0620'')))
             (steps [bind_step ''/dev/pts'' dev_pts, bind_step ''/dev/ptmx'' (in_dir (fs_dev r) ''ptmx'')])
             (steps [file_step (SymLink (bytes_of ''/dev/pts/ptmx'') (in_dir (fs_dev r) ''ptmx'')),
                file_step (SetMode (in_dir (fs_dev r) ''pts/ptmx'') 400)])
         else io_return ())))"

definition install_mounts :: "root_fs \<Rightarrow> ('k kernel_scheme, install_error, unit) op" where
  "install_mounts r = steps
     [file_step (CreateDirectories (in_dir (fs_dev r) ''shm'')),
      mount_step None (in_dir (fs_dev r) ''shm'') TmpFs None,
      file_step (CreateDirectories (fs_sys r)),
      if_err (mount_at None (fs_sys r) (Some (mount_type_name SysFs)) 0 None)
        (bind_step ''/sys'' (fs_sys r)) (io_return ()),
      file_step (CreateDirectories (fs_proc r)),
      mount_step None (fs_proc r) Proc None]"

definition install_devices :: "root_fs \<Rightarrow> ('k kernel_scheme, install_error, unit) op" where
  "install_devices r = steps
     ([bind_step ''/dev/null'' (in_dir (fs_dev r) ''null''),
       bind_step ''/dev/zero'' (in_dir (fs_dev r) ''zero''),
       bind_step ''/dev/full'' (in_dir (fs_dev r) ''full''),
       bind_step ''/dev/random'' (in_dir (fs_dev r) ''random''),
       bind_step ''/dev/urandom'' (in_dir (fs_dev r) ''urandom'')] @
      [file_step (SymLink (bytes_of ''/proc/self/fd'') (in_dir (fs_dev r) ''fd'')),
       file_step (SymLink (bytes_of ''/proc/self/fd/0'') (in_dir (fs_dev r) ''stdin'')),
       file_step (SymLink (bytes_of ''/proc/self/fd/1'') (in_dir (fs_dev r) ''stdout'')),
       file_step (SymLink (bytes_of ''/proc/self/fd/2'') (in_dir (fs_dev r) ''stderr''))])"

definition install :: "root_fs \<Rightarrow> ('k kernel_scheme, install_error, unit) op" where
  "install r = steps [install_etc r, install_pts r, install_mounts r, install_devices r]"

section \<open>What is touched\<close>

text \<open>The path that a call changes; the root may not end in a slash.\<close>

fun changed_file :: "file_call \<Rightarrow> bytes option" where
  "changed_file (CreateDirectory p) = Some p"
| "changed_file (CreateDirectories p) = Some p"
| "changed_file (WriteFile p _) = Some p"
| "changed_file (OpenAppend p) = Some p"
| "changed_file (WriteAll p _) = Some p"
| "changed_file (SetMode p _) = Some p"
| "changed_file (SymLink _ p) = Some p"
| "changed_file _ = None"

fun changed_path :: "call \<Rightarrow> bytes option" where
  "changed_path (FileOp c) = changed_file c"
| "changed_path (MountOp (Mount _ target _ _ _)) = Some target"
| "changed_path (MountOp (Umount target _)) = Some target"
| "changed_path (MountOp (MoveMount _ _ _ target)) = Some target"
| "changed_path (MountOp (PivotRoot new old)) = Some new"
| "changed_path _ = None"

definition confined :: "bytes \<Rightarrow> call \<Rightarrow> bool" where
  "confined root c \<longleftrightarrow> (\<forall>p. changed_path c = Some p \<longrightarrow> p = root \<or> below root p)"

definition within :: "bytes \<Rightarrow> bytes \<Rightarrow> bool" where
  "within root p \<longleftrightarrow> p = root \<or> below root p"

lemma confined_iff [simp]: "confined root c \<longleftrightarrow> (case changed_path c of None \<Rightarrow> True | Some p \<Rightarrow> within root p)"
  by (auto simp: confined_def within_def split: option.split)

lemma all_calls_test [calls]:
  "P (FileOp c) \<Longrightarrow> (\<And>b. all_calls P (f b)) \<Longrightarrow> all_calls P (test_op c f)"
  unfolding test_op_def by (rule all_calls_ask)

lemma all_calls_ignore [calls]: "all_calls P m \<Longrightarrow> all_calls P (ignore_error m)"
  by (force simp: all_calls_def traces_def ignore_error_def split: prod.splits res.splits)

lemma all_calls_if_err [calls]:
  assumes "all_calls P m" and "all_calls P f" and "all_calls P g"
  shows "all_calls P (if_err m f g)"
  unfolding all_calls_def
proof
  fix k
  obtain r k1 where m: "m k = (r, k1)" by fastforce
  from all_callsD [OF assms(1) m] obtain cs where cs: "made k cs k1" "\<forall>c \<in> set cs. P c" by blast
  obtain rf kf rg kg where f: "f k1 = (rf, kf)" and g: "g k1 = (rg, kg)" by fastforce
  from all_callsD [OF assms(2) f] all_callsD [OF assms(3) g] obtain ds es where
    "made k1 ds kf" "\<forall>c \<in> set ds. P c" "made k1 es kg" "\<forall>c \<in> set es. P c" by blast
  then have "\<exists>cs. made k cs kf \<and> (\<forall>c \<in> set cs. P c)" "\<exists>cs. made k cs kg \<and> (\<forall>c \<in> set cs. P c)"
    using cs(2) made_trans [OF cs(1)] by (metis Un_iff set_append)+
  with cs m f g show "traces (if_err m f g) (\<lambda>_ cs. \<forall>c \<in> set cs. P c) k"
    by (cases r) (auto simp: if_err_def traces_def)
qed

lemma all_calls_steps [calls]: "(\<And>m. m \<in> set ms \<Longrightarrow> all_calls P m) \<Longrightarrow> all_calls P (steps ms)"
  by (induction ms) (auto intro: calls)

lemma all_calls_write [calls]: "P (FileOp (WriteAll p bs)) \<Longrightarrow> all_calls P (write_to_file p bs)"
  by (simp add: write_to_file_def all_calls_io)

lemma all_calls_parts [calls]: "(\<And>bs. P (FileOp (WriteAll p bs))) \<Longrightarrow> all_calls P (write_parts p xs)"
  by (induction xs) (auto intro: calls)

lemma all_calls_users [calls]: "(\<And>bs. P (FileOp (WriteAll p bs))) \<Longrightarrow> all_calls P (write_users p first users)"
  by (induction users arbitrary: first) (auto intro!: calls)

lemma all_calls_mount [calls]: "P (MountOp (Mount s t ty fl d)) \<Longrightarrow> all_calls P (mount_at s t ty fl d)"
  by (simp add: mount_at_def all_calls_unit)

lemma bind_confined:
  assumes "within root dest" and "path_parent dest = Some parent" and "within root parent"
  shows "all_calls (confined root) (bind_mount src dest fl None)"
  unfolding bind_mount_def file_op_def using assms by (auto intro!: calls)

text \<open>Paths below a root that does not end in a slash.\<close>

definition plain_dir :: "bytes \<Rightarrow> bool" where
  "plain_dir d \<longleftrightarrow> d \<noteq> [] \<and> last d \<noteq> 47"

definition plain_name :: "bytes \<Rightarrow> bool" where
  "plain_name n \<longleftrightarrow> n \<noteq> [] \<and> 47 \<notin> set n"

lemma join_plain: "plain_dir d \<Longrightarrow> n \<noteq> [] \<Longrightarrow> hd n \<noteq> 47 \<Longrightarrow> path_join d n = d @ 47 # n"
  by (cases n) (simp_all add: plain_dir_def path_join_def)

lemma plain_name_hd: "plain_name n \<Longrightarrow> n \<noteq> [] \<and> hd n \<noteq> 47"
  by (cases n) (auto simp: plain_name_def)

lemma plain_join: "plain_dir d \<Longrightarrow> plain_name n \<Longrightarrow> plain_dir (path_join d n)"
  using join_plain [of d n] plain_name_hd [of n]
  by (cases n rule: rev_cases) (auto simp: plain_dir_def plain_name_def)

lemma dropWhile_none: "\<forall>x \<in> set xs. P x \<Longrightarrow> \<not> P y \<Longrightarrow> dropWhile P (xs @ y # ys) = y # ys"
  by (simp add: dropWhile_append2)

lemma parent_join:
  assumes "plain_dir d" and "plain_name n"
  shows "path_parent (path_join d n) = Some d"
proof -
  have join: "path_join d n = d @ 47 # n" using assms plain_name_hd by (intro join_plain) auto
  have no_slash: "\<forall>b \<in> set (rev n). b \<noteq> 47" using assms(2) by (auto simp: plain_name_def)
  have strip: "strip_slashes p = p" if "plain_dir p" for p
    using that by (cases "rev p") (auto simp: strip_slashes_def plain_dir_def last_rev [symmetric])
  have "rev (dropWhile (\<lambda>b. b \<noteq> 47) (rev (d @ 47 # n))) = d @ [47]"
    by (simp add: dropWhile_none [OF no_slash])
  moreover have "strip_slashes (d @ [47]) = d"
    using strip [OF assms(1)] by (simp add: strip_slashes_def)
  moreover have "strip_slashes (d @ 47 # n) = d @ 47 # n"
    using strip [OF plain_join [OF assms]] join by simp
  ultimately show ?thesis using assms(1) by (simp add: path_parent_def join plain_dir_def)
qed

lemma within_iff: "within root p \<longleftrightarrow> p = root \<or> (\<exists>q. p = root @ 47 # q)"
proof -
  have "\<exists>q. p = root @ 47 # q" if "take (length root + 1) p = root @ [47]"
    using that append_take_drop_id [of "length root + 1" p] by (metis append.assoc append_Cons append_Nil)
  then show ?thesis by (auto simp: within_def below_def)
qed

lemma within_join: "plain_dir d \<Longrightarrow> within root d \<Longrightarrow> n \<noteq> [] \<Longrightarrow> hd n \<noteq> 47 \<Longrightarrow> within root (path_join d n)"
  by (auto simp: join_plain within_iff)

section \<open>Installing stays below the root\<close>

text \<open>A directory of the new root, and what is put into one.\<close>

definition inner :: "bytes \<Rightarrow> bytes \<Rightarrow> bool" where
  "inner root d \<longleftrightarrow> plain_dir d \<and> within root d"

lemma inner_within [simp]: "inner root d \<Longrightarrow> within root d"
  by (simp add: inner_def)

lemma inner_join: "inner root d \<Longrightarrow> plain_name n \<Longrightarrow> inner root (path_join d n)"
  using plain_name_hd [of n] by (auto simp: inner_def intro: plain_join within_join)

lemma bind_step_confined:
  "inner root d \<Longrightarrow> plain_name (bytes_of n) \<Longrightarrow> all_calls (confined root) (bind_step src (in_dir d n))"
  unfolding bind_step_def in_dir_def
  by (rule all_calls_on_error, rule bind_confined [where parent = d])
    (auto simp: inner_def parent_join intro: inner_join [unfolded inner_def, THEN conjunct2] inner_within inner_join)

lemma file_step_confined:
  "(case changed_file c of None \<Rightarrow> True | Some p \<Rightarrow> within root p) \<Longrightarrow> all_calls (confined root) (file_step c)"
  unfolding file_step_def by (auto intro!: calls)

lemma steps_confined: "list_all (all_calls P) ms \<Longrightarrow> all_calls P (steps ms)"
  by (rule all_calls_steps) (simp add: list_all_iff)

lemma account_confined:
  assumes "inner root (fs_etc r)"
  shows "all_calls (confined root) (add_group r name gid users)" "all_calls (confined root) (add_user r name uid gid home)"
proof -
  have "within root (path_join (fs_etc r) (bytes_of ''group''))" "within root (path_join (fs_etc r) (bytes_of ''passwd''))"
    using assms by (auto intro!: within_join simp: inner_def bytes_of_def)
  then show "all_calls (confined root) (add_group r name gid users)" "all_calls (confined root) (add_user r name uid gid home)"
    unfolding add_group_def add_user_def Let_def by (auto intro!: calls)
qed

text \<open>
  C37: Installing the root file system of a sandbox changes nothing outside: every file that it
  creates, writes or links, every mode that it changes and every mount that it makes is at the
  root or below it, whatever the kernel answers and wherever it stops.
\<close>

theorem install_confined:
  assumes "plain_dir root" and "install (root_fs_new root) k = (r, k')"
  shows "\<exists>cs. made k cs k' \<and> (\<forall>c \<in> set cs. \<forall>p. changed_path c = Some p \<longrightarrow> p = root \<or> below root p)"
proof -
  let ?r = "root_fs_new root"
  have root: "inner root root" using assms(1) by (simp add: inner_def within_def)
  have names: "plain_name (bytes_of ''etc'')" "plain_name (bytes_of ''dev'')" "plain_name (bytes_of ''sys'')"
      "plain_name (bytes_of ''proc'')" "plain_name (bytes_of ''pts'')" "plain_name (bytes_of ''shm'')"
      "plain_name (bytes_of ''ptmx'')" "plain_name (bytes_of ''null'')" "plain_name (bytes_of ''zero'')"
      "plain_name (bytes_of ''full'')" "plain_name (bytes_of ''random'')" "plain_name (bytes_of ''urandom'')"
      "plain_name (bytes_of ''fd'')" "plain_name (bytes_of ''stdin'')" "plain_name (bytes_of ''stdout'')"
      "plain_name (bytes_of ''stderr'')" "plain_name (bytes_of ''hosts'')"
    by (simp_all add: plain_name_def bytes_of_def)
  have dirs: "inner root (fs_etc ?r)" "inner root (fs_dev ?r)" "inner root (fs_sys ?r)" "inner root (fs_proc ?r)" "fs_root ?r = root"
    using inner_join [OF root] names by (simp_all add: root_fs_new_def)
  have sys: "fs_sys ?r = in_dir root ''sys''" by (simp add: root_fs_new_def in_dir_def)
  have dev: "inner root (in_dir (fs_dev ?r) n)" if "plain_name (bytes_of n)" for n
    using inner_join [OF dirs(2) that] by (simp add: in_dir_def)
  have shm: "within root (in_dir (fs_dev ?r) ''shm'')" and pts_dir: "within root (in_dir (fs_dev ?r) ''pts'')"
    and ptmx_file: "within root (in_dir (fs_dev ?r) ''ptmx'')"
    and sys_dir: "within root (in_dir root ''sys'')"
    using dirs(3) by (simp_all add: dev names flip: sys)
  have ptmx: "within root (in_dir (fs_dev ?r) ''pts/ptmx'')"
    using dirs(2) by (auto intro!: within_join simp: inner_def in_dir_def bytes_of_def)
  have hosts: "within root (in_dir (fs_etc ?r) ''hosts'')" using inner_join [OF dirs(1)] names by (simp add: in_dir_def)
  have etc: "all_calls (confined root) (install_etc ?r)"
    unfolding install_etc_def
    by (intro steps_confined) (simp add: file_step_confined all_calls_ignore account_confined dirs hosts root)
  have pts: "all_calls (confined root) (install_pts ?r)"
    unfolding install_pts_def Let_def
    by (intro calls) (auto intro!: calls file_step_confined bind_step_confined dirs names simp: dev names ptmx ptmx_file pts_dir)
  have mounts: "all_calls (confined root) (install_mounts ?r)"
    unfolding install_mounts_def mount_step_def
    by (intro steps_confined) (auto intro!: calls file_step_confined simp: shm names dirs bind_step_confined root sys sys_dir)
  have devices: "all_calls (confined root) (install_devices ?r)"
    unfolding install_devices_def
    by (intro steps_confined) (simp add: file_step_confined bind_step_confined dirs dev names)
  have "all_calls (confined root) (install ?r)"
    unfolding install_def by (intro steps_confined) (simp add: etc pts mounts devices)
  from all_callsD [OF this assms(2)] show ?thesis unfolding confined_def .
qed

theorem install_confined_witness:
  "\<exists>r k' cs. install (root_fs_new (bytes_of ''/nck/1'')) some_kernel = (r, k') \<and> made some_kernel cs k' \<and>
    (\<forall>p t. FileOp (SymLink p t) \<notin> set cs \<or> t = bytes_of ''/nck/1'' \<or> below (bytes_of ''/nck/1'') t)"
proof -
  obtain r k' where run: "install (root_fs_new (bytes_of ''/nck/1'')) some_kernel = (r, k')" by fastforce
  have "plain_dir (bytes_of ''/nck/1'')" by (simp add: plain_dir_def bytes_of_def)
  from install_confined [OF this run] obtain cs where "made some_kernel cs k'"
    "\<forall>c \<in> set cs. \<forall>p. changed_path c = Some p \<longrightarrow> p = bytes_of ''/nck/1'' \<or> below (bytes_of ''/nck/1'') p" by blast
  with run show ?thesis by (intro exI [of _ r] exI [of _ k'] exI [of _ cs]) force
qed

section \<open>Accounts that cannot be written\<close>

text \<open>A kernel on which everything succeeds, except that the account files cannot be opened.\<close>

definition no_accounts :: "'k kernel_scheme \<Rightarrow> bool" where
  "no_accounts k \<longleftrightarrow> unit_answer k = (\<lambda>_. None) \<and>
     (\<forall>h c. io_answer k (h @ [c]) = None \<longleftrightarrow> \<not> (\<exists>p. c = FileOp (OpenAppend p)))"

definition proceeds :: "('k kernel_scheme, 'e, 'a) op \<Rightarrow> bool" where
  "proceeds m \<longleftrightarrow> (\<forall>k. no_accounts k \<longrightarrow>
     (\<exists>x k' cs. m k = (Ok x, k') \<and> made k cs k' \<and> (\<forall>p bs. FileOp (WriteAll p bs) \<notin> set cs)))"

named_theorems proceed_rules "operations that succeed without accounts"

lemma no_accounts_made: "no_accounts k \<Longrightarrow> made k cs k' \<Longrightarrow> no_accounts k'"
  by (simp add: no_accounts_def made_def)

lemma proceedsE:
  assumes "proceeds m" and "no_accounts k"
  obtains x k' cs where "m k = (Ok x, k')" "made k cs k'" "\<forall>p bs. FileOp (WriteAll p bs) \<notin> set cs" "no_accounts k'"
  using assms no_accounts_made unfolding proceeds_def by metis

lemma proceeds_return [proceed_rules]: "proceeds (io_return x)"
  by (auto simp: proceeds_def intro: made_refl)

lemma proceeds_one:
  assumes "\<And>k. no_accounts k \<Longrightarrow> m k = (Ok (), record_call c k)" and "\<And>p bs. c \<noteq> FileOp (WriteAll p bs)"
  shows "proceeds m"
proof -
  have "\<forall>p bs. FileOp (WriteAll p bs) \<notin> set [c]" using assms(2) by force
  with assms(1) made_record show ?thesis unfolding proceeds_def by metis
qed

lemma no_accounts_io: "no_accounts k \<Longrightarrow> (\<And>p. c \<noteq> FileOp (OpenAppend p)) \<Longrightarrow> io_answer k (h @ [c]) = None"
  unfolding no_accounts_def by blast

lemma proceeds_unit [proceed_rules]: "(\<And>p bs. c \<noteq> FileOp (WriteAll p bs)) \<Longrightarrow> proceeds (unit_call c)"
  by (rule proceeds_one) (simp_all add: no_accounts_def unit_call_def Let_def)

lemma proceeds_io [proceed_rules]:
  "(\<And>p bs. c \<noteq> FileOp (WriteAll p bs)) \<Longrightarrow> (\<And>p. c \<noteq> FileOp (OpenAppend p)) \<Longrightarrow> proceeds (io_call c)"
  by (rule proceeds_one) (simp_all add: no_accounts_io io_call_def record_call_def Let_def)

lemma proceeds_on_error [proceed_rules]: "proceeds m \<Longrightarrow> proceeds (on_error f m)"
  by (fastforce simp: proceeds_def on_error_def)

lemma proceeds_then [proceed_rules]:
  assumes "proceeds m" and "proceeds n"
  shows "proceeds (io_then m n)"
  unfolding proceeds_def
proof (intro allI impI, goal_cases)
  case (1 k)
  from proceedsE [OF assms(1) this] obtain u k1 cs where
    m: "m k = (Ok u, k1)" "made k cs k1" "\<forall>p bs. FileOp (WriteAll p bs) \<notin> set cs" "no_accounts k1" by metis
  from proceedsE [OF assms(2) m(4)] obtain x k2 ds where
    n: "n k1 = (Ok x, k2)" "made k1 ds k2" "\<forall>p bs. FileOp (WriteAll p bs) \<notin> set ds" by metis
  from m n made_trans [OF m(2) n(2)] show ?case
    by (intro exI [of _ x] exI [of _ k2] exI [of _ "cs @ ds"]) simp
qed

lemma proceeds_option [proceed_rules]:
  "proceeds m \<Longrightarrow> (\<And>x. proceeds (f x)) \<Longrightarrow> proceeds (case v of None \<Rightarrow> m | Some x \<Rightarrow> f x)"
  by (simp split: option.split)

lemma proceeds_if [proceed_rules]: "proceeds m \<Longrightarrow> proceeds n \<Longrightarrow> proceeds (if b then m else n)"
  by simp

lemma proceeds_test [proceed_rules]:
  assumes "\<And>p bs. c \<noteq> WriteAll p bs" and "\<And>b. proceeds (f b)"
  shows "proceeds (test_op c f)"
  unfolding proceeds_def
proof (intro allI impI, goal_cases)
  case (1 k)
  let ?k1 = "record_call (FileOp c) k"
  from proceedsE [OF assms(2) no_accounts_made [OF 1 made_record [of _ "FileOp c"]]] obtain x k2 cs where
    2: "f (test_answer k (history k @ [FileOp c])) ?k1 = (Ok x, k2)" "made ?k1 cs k2" "\<forall>p bs. FileOp (WriteAll p bs) \<notin> set cs" by metis
  with made_trans [OF made_record 2(2)] assms(1)
  show ?case
    by (intro exI [of _ x] exI [of _ k2] exI [of _ "FileOp c # cs"]) (auto simp: test_op_def ask_def record_call_def Let_def)
qed

lemma proceeds_if_err [proceed_rules]:
  assumes "proceeds m" and "proceeds otherwise"
  shows "proceeds (if_err m fallback otherwise)"
proof -
  have seq: "proceeds (io_then (on_error undefined m) otherwise)" using assms by (intro proceed_rules)
  have "if_err m fallback otherwise k = io_then (on_error undefined m) otherwise k" if "no_accounts k" for k
    by (rule proceedsE [OF assms(1) that]) (simp add: if_err_def on_error_def io_then_def io_bind_def)
  with seq show ?thesis by (simp add: proceeds_def)
qed

lemma proceeds_steps [proceed_rules]: "list_all proceeds ms \<Longrightarrow> proceeds (steps ms)"
  by (induction ms) (auto intro: proceed_rules)

text \<open>An operation that starts by opening an account file fails, and that is ignored.\<close>

lemma proceeds_account: "proceeds (ignore_error (io_then (io_call (FileOp (OpenAppend p))) m))"
  unfolding proceeds_def
proof (intro allI impI, goal_cases)
  case (1 k)
  then have "io_answer k (history k @ [FileOp (OpenAppend p)]) \<noteq> None" by (simp add: no_accounts_def)
  then obtain e where "io_call (FileOp (OpenAppend p)) k = (Err e, record_call (FileOp (OpenAppend p)) k)"
    by (auto simp: io_call_def record_call_def Let_def)
  then show ?case
    using made_record [of k "FileOp (OpenAppend p)"] by (auto simp: ignore_error_def)
qed

lemma bind_proceeds: "proceeds (bind_step src dest)"
  by (auto simp: bind_step_def bind_mount_def file_op_def mount_at_def intro!: proceed_rules)

text \<open>
  The results of writing the accounts are dropped: on a kernel where nothing fails but the
  opening of those files, installing a root file system succeeds, and not one byte of the user
  and group files of the sandbox has been written.
\<close>

theorem install_ignores_accounts:
  assumes "no_accounts k"
  shows "\<exists>k' cs. install (root_fs_new root) k = (Ok (), k') \<and> made k cs k' \<and> (\<forall>p bs. FileOp (WriteAll p bs) \<notin> set cs)"
proof -
  have "proceeds (install (root_fs_new root))"
    unfolding install_def install_etc_def install_pts_def install_mounts_def install_devices_def
      add_group_def add_user_def mount_step_def mount_at_def file_step_def Let_def
    by (auto intro!: proceed_rules proceeds_account bind_proceeds)
  then show ?thesis
  proof (rule proceedsE [OF _ assms])
    fix x k' cs
    assume "install (root_fs_new root) k = (Ok x, k')" "made k cs k'" "\<forall>p bs. FileOp (WriteAll p bs) \<notin> set cs"
    then show ?thesis by (intro exI [of _ k'] exI [of _ cs]) simp
  qed
qed

theorem install_ignores_accounts_witness:
  "\<exists>k'. install (root_fs_new (bytes_of ''/nck/1''))
     (some_kernel\<lparr>io_answer := \<lambda>h. case last h of FileOp (OpenAppend _) \<Rightarrow> Some (Errno 13) | _ \<Rightarrow> None\<rparr>) = (Ok (), k')"
proof -
  have "no_accounts (some_kernel\<lparr>io_answer := \<lambda>h. case last h of FileOp (OpenAppend _) \<Rightarrow> Some (Errno 13) | _ \<Rightarrow> None\<rparr>)"
    by (auto simp: no_accounts_def some_kernel_def split: call.splits file_call.splits)
  from install_ignores_accounts [OF this] show ?thesis by blast
qed

end
