(* ===== verification/Message_Channel.thy ===== *)
theory Message_Channel
  imports Nck_Prelude
begin

text \<open>
  \<open>crates/daemon/src/build/linux/io.rs\<close>: messages over a stream socket, with file descriptors
  that travel with the first byte of the length. The serialization (\<open>postcard\<close>) is a parameter;
  a value that cannot be serialized is a panic.
  \<open>usize\<close> is eight bytes, in the byte order of the machine, here little endian.
\<close>

section \<open>Sockets\<close>

text \<open>
  A byte in transit carries the descriptors that were sent with it. A script says how much a
  call transfers at most (always at least one byte), or that it fails or would block. What the
  peer has sent is in \<open>queue\<close>; once that is empty, a peer that is gone is the end of the stream,
  a read of no bytes, and any other call waits for ever.
\<close>

type_synonym fd = nat
type_synonym wire_byte = "byte \<times> fd list"

datatype sock_step = Transfer nat | SockErr error_kind | SockBlock

record socket =
  sent :: "wire_byte list"
  queue :: "wire_byte list"
  sock_script :: "sock_step list"
  peer_gone :: bool

definition attach :: "fd list \<Rightarrow> bytes \<Rightarrow> wire_byte list" where
  "attach fds bs = (case bs of [] \<Rightarrow> [] | b # cs \<Rightarrow> (b, fds) # map (\<lambda>c. (c, [])) cs)"

definition next_step :: "socket \<Rightarrow> sock_step \<times> socket" where
  "next_step s =
     (case sock_script s of
        [] \<Rightarrow> (Transfer (2 ^ 64), s)
      | x # xs \<Rightarrow> (x, s\<lparr>sock_script := xs\<rparr>))"

definition send_fds :: "bytes \<Rightarrow> fd list \<Rightarrow> (socket, nat) io" where
  "send_fds message fds s =
     (case next_step s of
        (Transfer k, s') \<Rightarrow>
          let n = min (max 1 k) (length message) in
          (Ok n, s'\<lparr>sent := sent s' @ attach fds (take n message)\<rparr>)
      | (SockErr e, s') \<Rightarrow> (Err e, s')
      | (SockBlock, s') \<Rightarrow> (Err WouldBlock, s'))"

text \<open>A read stops before the next byte that carries descriptors, and keeps at most sixteen.\<close>

definition recv_fds :: "nat \<Rightarrow> socket \<Rightarrow> ((error_kind, bytes \<times> fd list) res \<times> socket) option" where
  "recv_fds len s =
     (case next_step s of
        (SockErr e, s') \<Rightarrow> Some (Err e, s')
      | (SockBlock, s') \<Rightarrow> Some (Err WouldBlock, s')
      | (Transfer k, s') \<Rightarrow>
          (case queue s' of
             [] \<Rightarrow> if peer_gone s' then Some (Ok ([], []), s') else None
           | w # ws \<Rightarrow>
               let n = min (min (max 1 k) len) (1 + length (takeWhile (\<lambda>x. snd x = []) ws)) in
               Some (Ok (map fst (take n (w # ws)), take 16 (snd w)), s'\<lparr>queue := drop n (w # ws)\<rparr>)))"

section \<open>The blocking channel\<close>

definition ne_bytes :: "nat \<Rightarrow> bytes" where
  "ne_bytes n = rev (be_bytes 8 n)"

definition ne_value :: "bytes \<Rightarrow> nat" where
  "ne_value bs = be_value (rev bs)"

function write_impl :: "bytes \<Rightarrow> fd list \<Rightarrow> (socket, unit) io" where
  "write_impl message fds s =
     (if message = [] then (Ok (), s)
      else case send_fds message fds s of
        (Ok n, s') \<Rightarrow> write_impl (drop n message) [] s'
      | (Err e, s') \<Rightarrow> (Err e, s')
      | (Panic, s') \<Rightarrow> (Panic, s'))"
  by pat_completeness auto
termination
  by (relation "measure (\<lambda>(message, _). length message)")
    (auto simp: send_fds_def Let_def min_def max_def split: prod.splits sock_step.splits)

declare write_impl.simps [simp del]

definition write_message :: "('m \<Rightarrow> bytes option) \<Rightarrow> 'm \<Rightarrow> fd list \<Rightarrow> (socket, unit) io" where
  "write_message to_vec message fds =
     (case to_vec message of
        None \<Rightarrow> (\<lambda>s. (Panic, s))
      | Some message \<Rightarrow>
          let len_bytes = ne_bytes (length message) in
          io_then (write_impl len_bytes fds) (write_impl message []))"

text \<open>
  The collection that takes the descriptors is a state of its own, \<open>ext\<close> its operation;
  \<open>EmptyFds\<close> takes them and closes them. The bytes read so far are \<open>acc\<close>.
\<close>

definition empty_fds_extend :: "fd list \<Rightarrow> unit \<Rightarrow> unit" where
  "empty_fds_extend fds u = ()"

definition empty_fds_next :: "unit \<Rightarrow> fd option" where
  "empty_fds_next u = None"

partial_function (option) read_impl ::
    "(fd list \<Rightarrow> 'f \<Rightarrow> 'f) \<Rightarrow> bytes \<Rightarrow> nat \<Rightarrow> 'f \<Rightarrow> socket \<Rightarrow> ((error_kind, bytes) res \<times> 'f \<times> socket) option" where
  "read_impl ext acc n fds s =
     (if n = 0 then Some (Ok acc, fds, s)
      else case recv_fds n s of
        None \<Rightarrow> None
      | Some (Ok (bs, new), s') \<Rightarrow> read_impl ext (acc @ bs) (n - length bs) (ext new fds) s'
      | Some (Err e, s') \<Rightarrow> Some (Err e, fds, s')
      | Some (Panic, s') \<Rightarrow> Some (Panic, fds, s'))"

definition read_message ::
    "(bytes \<Rightarrow> 'm option) \<Rightarrow> (fd list \<Rightarrow> 'f \<Rightarrow> 'f) \<Rightarrow> 'f \<Rightarrow> socket \<Rightarrow>
       ((error_kind, 'm) res \<times> 'f \<times> socket) option" where
  "read_message from_bytes ext fds s =
     (case read_impl ext [] 8 fds s of
        None \<Rightarrow> None
      | Some (Err e, fds', s') \<Rightarrow> Some (Err e, fds', s')
      | Some (Panic, fds', s') \<Rightarrow> Some (Panic, fds', s')
      | Some (Ok len, fds', s') \<Rightarrow>
          (case read_impl ext [] (ne_value len) fds' s' of
             None \<Rightarrow> None
           | Some (Err e, fds'', s'') \<Rightarrow> Some (Err e, fds'', s'')
           | Some (Panic, fds'', s'') \<Rightarrow> Some (Panic, fds'', s'')
           | Some (Ok buf, fds'', s'') \<Rightarrow>
               Some (case from_bytes buf of Some m \<Rightarrow> Ok m | None \<Rightarrow> Err InvalidData, fds'', s'')))"

definition is_closed_channel :: "error_kind \<Rightarrow> bool" where
  "is_closed_channel e \<longleftrightarrow> e \<in> {ConnectionReset, ConnectionAborted, NotConnected, BrokenPipe}"

section \<open>The asynchronous channel\<close>

text \<open>
  The socket is not blocking: a call that would block is made again when the socket is ready.
  Waiting for readiness has no effect of its own here.
\<close>

function write_impl_async :: "bytes \<Rightarrow> fd list \<Rightarrow> (socket, unit) io" where
  "write_impl_async message fds s =
     (if message = [] then (Ok (), s)
      else case send_fds message fds s of
        (Ok n, s') \<Rightarrow> write_impl_async (drop n message) [] s'
      | (Err e, s') \<Rightarrow> if e = WouldBlock then write_impl_async message fds s' else (Err e, s')
      | (Panic, s') \<Rightarrow> (Panic, s'))"
  by pat_completeness auto
termination
  by (relation "measures [\<lambda>(message, _). length message, \<lambda>(_, _, s). length (sock_script s)]")
    (auto simp: send_fds_def next_step_def Let_def min_def max_def split: prod.splits sock_step.splits list.splits)

declare write_impl_async.simps [simp del]

definition write_message_async :: "('m \<Rightarrow> bytes option) \<Rightarrow> 'm \<Rightarrow> fd list \<Rightarrow> (socket, unit) io" where
  "write_message_async to_vec message fds =
     (case to_vec message of
        None \<Rightarrow> (\<lambda>s. (Panic, s))
      | Some message \<Rightarrow>
          let len_bytes = ne_bytes (length message) in
          io_then (write_impl_async len_bytes fds) (write_impl_async message []))"

partial_function (option) read_impl_async ::
    "(fd list \<Rightarrow> 'f \<Rightarrow> 'f) \<Rightarrow> bytes \<Rightarrow> nat \<Rightarrow> 'f \<Rightarrow> socket \<Rightarrow> ((error_kind, bytes) res \<times> 'f \<times> socket) option" where
  "read_impl_async ext acc n fds s =
     (if n = 0 then Some (Ok acc, fds, s)
      else case recv_fds n s of
        None \<Rightarrow> None
      | Some (Ok (bs, new), s') \<Rightarrow> read_impl_async ext (acc @ bs) (n - length bs) (ext new fds) s'
      | Some (Err e, s') \<Rightarrow>
          if e = WouldBlock then read_impl_async ext acc n fds s' else Some (Err e, fds, s')
      | Some (Panic, s') \<Rightarrow> Some (Panic, fds, s'))"

definition read_message_async ::
    "(bytes \<Rightarrow> 'm option) \<Rightarrow> (fd list \<Rightarrow> 'f \<Rightarrow> 'f) \<Rightarrow> 'f \<Rightarrow> socket \<Rightarrow>
       ((error_kind, 'm) res \<times> 'f \<times> socket) option" where
  "read_message_async from_bytes ext fds s =
     (case read_impl_async ext [] 8 fds s of
        None \<Rightarrow> None
      | Some (Err e, fds', s') \<Rightarrow> Some (Err e, fds', s')
      | Some (Panic, fds', s') \<Rightarrow> Some (Panic, fds', s')
      | Some (Ok len, fds', s') \<Rightarrow>
          (case read_impl_async ext [] (ne_value len) fds' s' of
             None \<Rightarrow> None
           | Some (Err e, fds'', s'') \<Rightarrow> Some (Err e, fds'', s'')
           | Some (Panic, fds'', s'') \<Rightarrow> Some (Panic, fds'', s'')
           | Some (Ok buf, fds'', s'') \<Rightarrow>
               Some (case from_bytes buf of Some m \<Rightarrow> Ok m | None \<Rightarrow> Err InvalidData, fds'', s'')))"

section \<open>What a channel promises\<close>

text \<open>
  The frame of a message: its length, with the descriptors, and its bytes. A writer appends
  frames; a reader takes them off.
\<close>

definition plain :: "bytes \<Rightarrow> wire_byte list" where
  "plain bs = map (\<lambda>c. (c, [])) bs"

definition frame :: "('m \<Rightarrow> bytes option) \<Rightarrow> 'm \<Rightarrow> fd list \<Rightarrow> wire_byte list" where
  "frame to_vec m fds = (let bs = the (to_vec m) in attach fds (ne_bytes (length bs)) @ plain bs)"

fun write_list :: "('m \<Rightarrow> fd list \<Rightarrow> (socket, unit) io) \<Rightarrow> ('m \<times> fd list) list \<Rightarrow> (socket, unit) io" where
  "write_list wr [] s = (Ok (), s)"
| "write_list wr ((m, fds) # ms) s = io_then (wr m fds) (write_list wr ms) s"

fun read_list ::
    "('f \<Rightarrow> socket \<Rightarrow> ((error_kind, 'm) res \<times> 'f \<times> socket) option) \<Rightarrow> nat \<Rightarrow> 'm list \<Rightarrow> 'f \<Rightarrow> socket \<Rightarrow>
       ((error_kind, 'm list) res \<times> 'f \<times> socket) option" where
  "read_list rd 0 acc f s = Some (Ok acc, f, s)"
| "read_list rd (Suc n) acc f s =
     (case rd f s of
        None \<Rightarrow> None
      | Some (Ok m, f', s') \<Rightarrow> read_list rd n (acc @ [m]) f' s'
      | Some (Err e, f', s') \<Rightarrow> Some (Err e, f', s')
      | Some (Panic, f', s') \<Rightarrow> Some (Panic, f', s'))"

locale channel_writer =
  fixes wr :: "'m \<Rightarrow> fd list \<Rightarrow> (socket, unit) io"
    and fr :: "'m \<Rightarrow> fd list \<Rightarrow> wire_byte list"
    and calm :: "socket \<Rightarrow> bool"
  assumes write_law: "calm s \<Longrightarrow> succeeds (wr m fds) (\<lambda>_ s'. calm s' \<and> sent s' = sent s @ fr m fds) s"
begin

lemma write_list_law:
  "calm s \<Longrightarrow> succeeds (write_list wr ms) (\<lambda>_ s'. calm s' \<and> sent s' = sent s @ concat (map (\<lambda>(m, fds). fr m fds) ms)) s"
proof (induction ms arbitrary: s)
  case (Cons x ms)
  obtain m fds where x: "x = (m, fds)" by fastforce
  have "succeeds (io_then (wr m fds) (write_list wr ms))
      (\<lambda>_ s'. calm s' \<and> sent s' = sent s @ concat (map (\<lambda>(m, fds). fr m fds) (x # ms))) s"
    by (rule succeeds_thenI [OF write_law [OF Cons.prems]])
      (auto simp: x intro: succeeds_mono [OF Cons.IH])
  then show ?case by (simp add: x succeeds_def)
qed (simp add: succeeds_def)

end

locale channel_reader =
  fixes rd :: "'f \<Rightarrow> socket \<Rightarrow> ((error_kind, 'm) res \<times> 'f \<times> socket) option"
    and fits :: "'m \<Rightarrow> bool"
    and fr :: "'m \<Rightarrow> fd list \<Rightarrow> wire_byte list"
    and ext :: "fd list \<Rightarrow> 'f \<Rightarrow> 'f"
    and calm :: "socket \<Rightarrow> bool"
  assumes read_law: "calm s \<Longrightarrow> queue s = fr m fds @ rest \<Longrightarrow> fits m \<Longrightarrow> length fds \<le> 16 \<Longrightarrow>
      \<exists>s'. rd f s = Some (Ok m, ext fds f, s') \<and> calm s' \<and> queue s' = rest"
begin

lemma read_list_law:
  assumes "calm s" and "queue s = concat (map (\<lambda>(m, fds). fr m fds) ms) @ rest"
    and "\<forall>(m, fds) \<in> set ms. fits m \<and> length fds \<le> 16"
  shows "\<exists>s'. read_list rd (length ms) acc f s = Some (Ok (acc @ map fst ms), fold ext (map snd ms) f, s') \<and>
    calm s' \<and> queue s' = rest"
  using assms
proof (induction ms arbitrary: s acc f)
  case (Cons x ms)
  obtain m fds where x: "x = (m, fds)" by fastforce
  with Cons.prems have "queue s = fr m fds @ (concat (map (\<lambda>(m, fds). fr m fds) ms) @ rest)" "fits m" "length fds \<le> 16" by simp_all
  from read_law [OF Cons.prems(1) this, of f] obtain s1 where
    1: "rd f s = Some (Ok m, ext fds f, s1)" "calm s1" "queue s1 = concat (map (\<lambda>(m, fds). fr m fds) ms) @ rest" by blast
  from Cons.IH [OF 1(2,3), of "acc @ [m]" "ext fds f"] Cons.prems(3) 1(1) show ?case by (simp add: x)
qed simp

end

section \<open>Writing\<close>

text \<open>\<open>quiet_script block s\<close>: no call fails; \<open>block\<close> says whether a call may have to wait.\<close>

definition quiet_script :: "bool \<Rightarrow> socket \<Rightarrow> bool" where
  "quiet_script block s \<longleftrightarrow> (\<forall>x \<in> set (sock_script s). (\<exists>k. x = Transfer k) \<or> block \<and> x = SockBlock)"

lemma quiet_next:
  assumes "quiet_script block s"
  obtains (transfer) k s' where "next_step s = (Transfer k, s')" "quiet_script block s'"
      "sent s' = sent s" "queue s' = queue s" "peer_gone s' = peer_gone s" "length (sock_script s') \<le> length (sock_script s)"
    | (wait) s' where block and "next_step s = (SockBlock, s')" "quiet_script block s'"
      "sent s' = sent s" "queue s' = queue s" "peer_gone s' = peer_gone s" "length (sock_script s') < length (sock_script s)"
proof (cases "sock_script s")
  case Nil
  then show thesis using assms by (intro transfer [of "2 ^ 64" s]) (simp_all add: next_step_def)
next
  case (Cons x xs)
  then have x: "(\<exists>k. x = Transfer k) \<or> block \<and> x = SockBlock" and q: "quiet_script block (s\<lparr>sock_script := xs\<rparr>)"
    using assms by (simp_all add: quiet_script_def)
  with Cons show thesis
    by (elim disjE exE conjE) (auto simp: next_step_def intro: transfer wait)
qed

lemma attach_split: "0 < n \<Longrightarrow> attach fds (take n bs) @ plain (drop n bs) = attach fds bs"
  by (cases bs; cases n) (simp_all add: attach_def plain_def flip: map_append)

lemma attach_plain: "attach [] bs = plain bs"
  by (cases bs) (simp_all add: attach_def plain_def)

lemma write_impl_law:
  "quiet_script False s \<Longrightarrow>
     succeeds (write_impl message fds) (\<lambda>_ s'. quiet_script False s' \<and> sent s' = sent s @ attach fds message) s"
proof (induction message fds s rule: write_impl.induct)
  case (1 message fds s)
  show ?case
  proof (cases "message = []")
    case True
    with 1(2) show ?thesis by (simp add: succeeds_def write_impl.simps [of "[]"] attach_def)
  next
    case False
    from 1(2) show ?thesis
    proof (cases rule: quiet_next)
      case (transfer k s')
      let ?n = "min (max 1 k) (length message)"
      let ?s1 = "s'\<lparr>sent := sent s' @ attach fds (take ?n message)\<rparr>"
      have send: "send_fds message fds s = (Ok ?n, ?s1)" using transfer by (simp add: send_fds_def Let_def)
      have "0 < ?n" using False by simp
      have "quiet_script False ?s1" using transfer(2) by (simp add: quiet_script_def)
      from 1(1) [OF False send [symmetric] refl this] have
        "succeeds (write_impl (drop ?n message) [])
          (\<lambda>_ t. quiet_script False t \<and> sent t = sent s @ (attach fds (take ?n message) @ plain (drop ?n message))) ?s1"
        using transfer(3) by (simp add: attach_plain)
      then show ?thesis
        using False send attach_split [OF \<open>0 < ?n\<close>, of fds message]
        by (simp add: succeeds_def write_impl.simps [of message])
    qed simp
  qed
qed

lemma write_impl_async_law:
  "quiet_script True s \<Longrightarrow>
     succeeds (write_impl_async message fds) (\<lambda>_ s'. quiet_script True s' \<and> sent s' = sent s @ attach fds message) s"
proof (induction message fds s rule: write_impl_async.induct)
  case (1 message fds s)
  show ?case
  proof (cases "message = []")
    case True
    with 1(3) show ?thesis by (simp add: succeeds_def write_impl_async.simps [of "[]"] attach_def)
  next
    case False
    from 1(3) show ?thesis
    proof (cases rule: quiet_next)
      case (transfer k s')
      let ?n = "min (max 1 k) (length message)"
      let ?s1 = "s'\<lparr>sent := sent s' @ attach fds (take ?n message)\<rparr>"
      have send: "send_fds message fds s = (Ok ?n, ?s1)" using transfer by (simp add: send_fds_def Let_def)
      have "0 < ?n" using False by simp
      have "quiet_script True ?s1" using transfer(2) by (simp add: quiet_script_def)
      from 1(1) [OF False send [symmetric] refl this] have
        "succeeds (write_impl_async (drop ?n message) [])
          (\<lambda>_ t. quiet_script True t \<and> sent t = sent s @ (attach fds (take ?n message) @ plain (drop ?n message))) ?s1"
        using transfer(3) by (simp add: attach_plain)
      then show ?thesis
        using False send attach_split [OF \<open>0 < ?n\<close>, of fds message]
        by (simp add: succeeds_def write_impl_async.simps [of message])
    next
      case (wait s')
      then have send: "send_fds message fds s = (Err WouldBlock, s')" by (simp add: send_fds_def)
      from 1(2) [OF False send [symmetric] refl refl wait(3)] wait(4) False send show ?thesis
        by (simp add: succeeds_def write_impl_async.simps [of message])
    qed
  qed
qed

text \<open>What a writer needs: a quiet socket, and values that can be serialized.\<close>

definition writable :: "('m \<Rightarrow> bytes option) \<Rightarrow> bool \<Rightarrow> socket \<Rightarrow> bool" where
  "writable to_vec block s \<longleftrightarrow> quiet_script block s \<and> (\<forall>m. to_vec m \<noteq> None)"

lemma write_message_law:
  assumes "writable to_vec False s"
  shows "succeeds (write_message to_vec m fds) (\<lambda>_ s'. writable to_vec False s' \<and> sent s' = sent s @ frame to_vec m fds) s"
proof -
  from assms have quiet: "quiet_script False s" and total: "\<forall>m. to_vec m \<noteq> None" by (simp_all add: writable_def)
  then obtain bs where bs: "to_vec m = Some bs" by blast
  have "succeeds (io_then (write_impl (ne_bytes (length bs)) fds) (write_impl bs []))
      (\<lambda>_ s'. writable to_vec False s' \<and> sent s' = sent s @ frame to_vec m fds) s"
    by (rule succeeds_thenI [OF write_impl_law [OF quiet]])
      (auto simp: frame_def attach_plain bs writable_def total intro: succeeds_mono [OF write_impl_law])
  then show ?thesis by (simp add: write_message_def bs Let_def)
qed

lemma write_message_async_law:
  assumes "writable to_vec True s"
  shows "succeeds (write_message_async to_vec m fds)
    (\<lambda>_ s'. writable to_vec True s' \<and> sent s' = sent s @ frame to_vec m fds) s"
proof -
  from assms have quiet: "quiet_script True s" and total: "\<forall>m. to_vec m \<noteq> None" by (simp_all add: writable_def)
  then obtain bs where bs: "to_vec m = Some bs" by blast
  have "succeeds (io_then (write_impl_async (ne_bytes (length bs)) fds) (write_impl_async bs []))
      (\<lambda>_ s'. writable to_vec True s' \<and> sent s' = sent s @ frame to_vec m fds) s"
    by (rule succeeds_thenI [OF write_impl_async_law [OF quiet]])
      (auto simp: frame_def attach_plain bs writable_def total intro: succeeds_mono [OF write_impl_async_law])
  then show ?thesis by (simp add: write_message_async_def bs Let_def)
qed

interpretation blocking_channel: channel_writer "write_message to_vec" "frame to_vec" "writable to_vec False" for to_vec
  by unfold_locales (rule write_message_law)

interpretation async_channel: channel_writer "write_message_async to_vec" "frame to_vec" "writable to_vec True" for to_vec
  by unfold_locales (rule write_message_async_law)

text \<open>Writing does not depend on what the peer has sent, and leaves it.\<close>

definition from_peer :: "wire_byte list \<Rightarrow> bool \<Rightarrow> socket \<Rightarrow> socket" where
  "from_peer q g s = s\<lparr>queue := q, peer_gone := g\<rparr>"

definition undisturbed :: "(socket, 'a) io \<Rightarrow> bool" where
  "undisturbed m \<longleftrightarrow> (\<forall>q g s. m (from_peer q g s) = (fst (m s), from_peer q g (snd (m s))))"

lemma undisturbedD: "undisturbed m \<Longrightarrow> m s = (r, s') \<Longrightarrow> m (from_peer q g s) = (r, from_peer q g s')"
  by (simp add: undisturbed_def)

lemma undisturbed_keeps:
  assumes "undisturbed m" and "m s = (r, s')"
  shows "queue s' = queue s" and "peer_gone s' = peer_gone s"
proof -
  have "from_peer (queue s) (peer_gone s) s = s" by (simp add: from_peer_def)
  with undisturbedD [OF assms, of "queue s" "peer_gone s"] assms(2) have "from_peer (queue s) (peer_gone s) s' = s'" by simp
  then show "queue s' = queue s" "peer_gone s' = peer_gone s"
    by (metis from_peer_def socket.select_convs(2) socket.surjective socket.update_convs(2,4),
        metis from_peer_def socket.select_convs(4) socket.surjective socket.update_convs(2,4))
qed

lemma undisturbed_then: "undisturbed m \<Longrightarrow> undisturbed n \<Longrightarrow> undisturbed (io_then m n)"
  by (auto simp: undisturbed_def io_then_def io_bind_def split: prod.splits res.splits)

lemma undisturbed_send: "undisturbed (send_fds message fds)"
  by (auto simp: undisturbed_def send_fds_def next_step_def from_peer_def Let_def split: sock_step.splits list.splits)

lemma undisturbed_write_impl: "undisturbed (write_impl message fds)"
proof -
  have "write_impl message fds (from_peer q g s) = (fst (write_impl message fds s), from_peer q g (snd (write_impl message fds s)))" for q g s
  proof (induction message fds s rule: write_impl.induct)
    case (1 message fds s)
    obtain r s1 where send: "send_fds message fds s = (r, s1)" by fastforce
    with undisturbedD [OF undisturbed_send this, of q g] 1 show ?case
      by (cases r) (auto simp: write_impl.simps [of message])
  qed
  then show ?thesis by (simp add: undisturbed_def)
qed

lemma undisturbed_write_impl_async: "undisturbed (write_impl_async message fds)"
proof -
  have "write_impl_async message fds (from_peer q g s) =
      (fst (write_impl_async message fds s), from_peer q g (snd (write_impl_async message fds s)))" for q g s
  proof (induction message fds s rule: write_impl_async.induct)
    case (1 message fds s)
    obtain r s1 where send: "send_fds message fds s = (r, s1)" by fastforce
    with undisturbedD [OF undisturbed_send this, of q g] 1 show ?case
      by (cases r) (auto simp: write_impl_async.simps [of message])
  qed
  then show ?thesis by (simp add: undisturbed_def)
qed

lemma undisturbed_write_message:
  "undisturbed (write_message to_vec m fds)" "undisturbed (write_message_async to_vec m fds)"
  by (auto simp: write_message_def write_message_async_def Let_def undisturbed_write_impl undisturbed_write_impl_async
      undisturbed_then split: option.split) (auto simp: undisturbed_def)

section \<open>Reading\<close>

text \<open>Each byte's descriptors are taken in order; a call that delivers none changes nothing.\<close>

definition take_fds :: "(fd list \<Rightarrow> 'f \<Rightarrow> 'f) \<Rightarrow> wire_byte list \<Rightarrow> 'f \<Rightarrow> 'f" where
  "take_fds ext ws f = fold (\<lambda>w. ext (snd w)) ws f"

definition lawful_extend :: "(fd list \<Rightarrow> 'f \<Rightarrow> 'f) \<Rightarrow> bool" where
  "lawful_extend ext \<longleftrightarrow> (\<forall>f. ext [] f = f)"

definition few_fds :: "wire_byte list \<Rightarrow> bool" where
  "few_fds ws \<longleftrightarrow> (\<forall>w \<in> set ws. length (snd w) \<le> 16)"

lemma take_fds_append: "take_fds ext (xs @ ys) f = take_fds ext ys (take_fds ext xs f)"
  by (simp add: take_fds_def)

lemma take_fds_none: "lawful_extend ext \<Longrightarrow> \<forall>w \<in> set ws. snd w = [] \<Longrightarrow> take_fds ext ws f = f"
  by (induction ws) (auto simp: take_fds_def lawful_extend_def)

lemma take_takeWhile: "n \<le> length (takeWhile P xs) \<Longrightarrow> take n xs = take n (takeWhile P xs)"
  by (induction xs arbitrary: n) (auto simp: take_Cons split: nat.split if_splits)

lemma take_fds_chunk:
  assumes "lawful_extend ext" and "n \<le> 1 + length (takeWhile (\<lambda>x. snd x = []) ws)" and "0 < n"
  shows "take_fds ext (take n (w # ws)) f = ext (snd w) f"
proof -
  have eq: "take (n - 1) ws = take (n - 1) (takeWhile (\<lambda>x. snd x = []) ws)"
    using assms(2) by (intro take_takeWhile) simp
  have "\<forall>x \<in> set (take (n - 1) ws). snd x = []"
    unfolding eq by (blast dest: in_set_takeD set_takeWhileD)
  from take_fds_none [OF assms(1) this] assms(3) show ?thesis by (cases n) (simp_all add: take_fds_def)
qed

lemma recv_quiet:
  assumes "quiet_script block s" and "0 < n" and "n \<le> length (queue s)" and "few_fds (take n (queue s))"
    and "lawful_extend ext"
  obtains (data) k new s' where "0 < k" "k \<le> n" "recv_fds n s = Some (Ok (map fst (take k (queue s)), new), s')"
      "queue s' = drop k (queue s)" "quiet_script block s'" "\<And>f. ext new f = take_fds ext (take k (queue s)) f"
      "length (sock_script s') \<le> length (sock_script s)" "sent s' = sent s"
    | (wait) s' where block and "recv_fds n s = Some (Err WouldBlock, s')" "queue s' = queue s"
      "quiet_script block s'" "sent s' = sent s" "length (sock_script s') < length (sock_script s)"
proof -
  from assms(2,3) obtain w ws where q: "queue s = w # ws" by (cases "queue s") auto
  from assms(1) show thesis
  proof (cases rule: quiet_next)
    case (transfer m s')
    let ?k = "min (min (max 1 m) n) (1 + length (takeWhile (\<lambda>x. snd x = []) ws))"
    have k: "0 < ?k" "?k \<le> n" using assms(2) by auto
    have "length (snd w) \<le> 16" using assms(2,4) q by (cases n) (auto simp: few_fds_def)
    then have recv: "recv_fds n s = Some (Ok (map fst (take ?k (queue s)), snd w), s'\<lparr>queue := drop ?k (queue s)\<rparr>)"
      using transfer q by (simp only: recv_fds_def Let_def prod.case sock_step.case list.case take_all)
    have fds: "ext (snd w) f = take_fds ext (take ?k (queue s)) f" for f
      unfolding q by (rule take_fds_chunk [OF assms(5) min.cobounded2 k(1), symmetric])
    have "quiet_script block (s'\<lparr>queue := drop ?k (queue s)\<rparr>)" using transfer(2) by (simp add: quiet_script_def)
    from data [OF k recv _ this fds] transfer(3,6) show ?thesis by simp
  next
    case (wait s')
    then show ?thesis by (intro that(2)) (simp_all add: recv_fds_def)
  qed
qed

lemma few_fds_drop: "few_fds (take n q) \<Longrightarrow> few_fds (take (n - k) (drop k q))"
  by (auto simp: few_fds_def simp flip: drop_take dest: in_set_dropD)

lemma split_take: "k \<le> n \<Longrightarrow> take k q @ take (n - k) (drop k q) = take n q"
  by (metis le_add_diff_inverse take_add)

lemma read_impl_law:
  assumes "quiet_script False s" and "n \<le> length (queue s)" and "few_fds (take n (queue s))" and "lawful_extend ext"
  shows "\<exists>s'. read_impl ext acc n f s = Some (Ok (acc @ map fst (take n (queue s))), take_fds ext (take n (queue s)) f, s') \<and>
    queue s' = drop n (queue s) \<and> quiet_script False s' \<and> sent s' = sent s"
  using assms(1-3)
proof (induction n arbitrary: acc f s rule: less_induct)
  case (less n)
  show ?case
  proof (cases "n = 0")
    case True
    then show ?thesis using less.prems(1) by (simp add: read_impl.simps take_fds_def)
  next
    case False
    then have "0 < n" by simp
    from less.prems(1) this less.prems(2,3) assms(4) show ?thesis
    proof (cases rule: recv_quiet)
      case (data k new s1)
      have "n - k < n" using data(1,2) by simp
      from less.IH [OF this data(5), of "acc @ map fst (take k (queue s))" "ext new f"] less.prems(2,3) data(1,2,4)
      obtain s' where "read_impl ext (acc @ map fst (take k (queue s))) (n - k) (ext new f) s1 =
          Some (Ok ((acc @ map fst (take k (queue s))) @ map fst (take (n - k) (drop k (queue s)))),
            take_fds ext (take (n - k) (drop k (queue s))) (ext new f), s')"
        and "queue s' = drop (n - k) (drop k (queue s))" "quiet_script False s'" "sent s' = sent s1"
        using few_fds_drop by fastforce
      with data(2,3,6,8) False less.prems(2) show ?thesis
        by (simp add: read_impl.simps [of _ acc n] min_absorb2 flip: map_append split_take [OF data(2)] take_fds_append)
    qed simp
  qed
qed

lemma read_impl_async_law:
  assumes "quiet_script True s" and "n \<le> length (queue s)" and "few_fds (take n (queue s))" and "lawful_extend ext"
  shows "\<exists>s'. read_impl_async ext acc n f s = Some (Ok (acc @ map fst (take n (queue s))), take_fds ext (take n (queue s)) f, s') \<and>
    queue s' = drop n (queue s) \<and> quiet_script True s' \<and> sent s' = sent s"
  using assms(1-3)
proof (induction "n + length (sock_script s)" arbitrary: acc f n s rule: less_induct)
  case less
  show ?case
  proof (cases "n = 0")
    case True
    then show ?thesis using less.prems(1) by (simp add: read_impl_async.simps take_fds_def)
  next
    case False
    then have "0 < n" by simp
    from less.prems(1) this less.prems(2,3) assms(4) show ?thesis
    proof (cases rule: recv_quiet)
      case (data k new s1)
      have "n - k + length (sock_script s1) < n + length (sock_script s)" using data(1,2,7) by simp
      from less.hyps [OF this data(5), of "acc @ map fst (take k (queue s))" "ext new f"] less.prems(2,3) data(1,2,4)
      obtain s' where "read_impl_async ext (acc @ map fst (take k (queue s))) (n - k) (ext new f) s1 =
          Some (Ok ((acc @ map fst (take k (queue s))) @ map fst (take (n - k) (drop k (queue s)))),
            take_fds ext (take (n - k) (drop k (queue s))) (ext new f), s')"
        and "queue s' = drop (n - k) (drop k (queue s))" "quiet_script True s'" "sent s' = sent s1"
        using few_fds_drop by fastforce
      with data(2,3,6,8) False less.prems(2) show ?thesis
        by (simp add: read_impl_async.simps [of _ acc n] min_absorb2 flip: map_append split_take [OF data(2)] take_fds_append)
    next
      case (wait s1)
      then have "n + length (sock_script s1) < n + length (sock_script s)" by simp
      from less.hyps [OF this wait(4), of acc f] less.prems(2,3) wait(2,3,5) False show ?thesis
        by (simp add: read_impl_async.simps [of _ acc n f s])
    qed
  qed
qed

text \<open>A frame, split as the reader splits it.\<close>

lemma ne_value_bytes: "n < 2 ^ 64 \<Longrightarrow> ne_value (ne_bytes n) = n"
  using be_value_be_bytes [of n 8] by (simp add: ne_value_def ne_bytes_def)

lemma length_ne_bytes [simp]: "length (ne_bytes n) = 8"
  by (simp add: ne_bytes_def)

lemma attach_facts [simp]: "map fst (attach fds bs) = bs" "length (attach fds bs) = length bs"
  "map fst (plain bs) = bs" "length (plain bs) = length bs"
  by (auto simp: attach_def plain_def o_def split: list.split)

lemma attach_fds: "bs \<noteq> [] \<Longrightarrow> lawful_extend ext \<Longrightarrow> take_fds ext (attach fds bs) f = ext fds f"
  using take_fds_none [of ext "plain cs" for cs]
  by (cases bs) (auto simp: attach_def take_fds_def plain_def)

lemma plain_fds: "lawful_extend ext \<Longrightarrow> take_fds ext (plain bs) f = f"
  by (rule take_fds_none) (auto simp: plain_def)

lemma few_fds_attach: "length fds \<le> 16 \<Longrightarrow> few_fds (attach fds bs)" "few_fds (plain bs)"
  by (auto simp: few_fds_def attach_def plain_def split: list.split)

text \<open>A message whose serialization can be read back, and whose length is a machine word.\<close>

definition travels :: "('m \<Rightarrow> bytes option) \<Rightarrow> (bytes \<Rightarrow> 'm option) \<Rightarrow> 'm \<Rightarrow> bool" where
  "travels to_vec from_bytes m \<longleftrightarrow>
     (\<exists>bs. to_vec m = Some bs \<and> from_bytes bs = Some m \<and> length bs < 2 ^ 64)"

lemma read_message_law:
  assumes "quiet_script False s" and "queue s = frame to_vec m fds @ rest" and "length fds \<le> 16"
    and "travels to_vec from_bytes m" and "lawful_extend ext"
  shows "\<exists>s'. read_message from_bytes ext f s = Some (Ok m, ext fds f, s') \<and>
    quiet_script False s' \<and> queue s' = rest \<and> sent s' = sent s"
proof -
  from assms(4) obtain bs where bs: "to_vec m = Some bs" "from_bytes bs = Some m" "length bs < 2 ^ 64"
    by (auto simp: travels_def)
  let ?len = "ne_bytes (length bs)"
  have q: "take 8 (queue s) = attach fds ?len" "drop 8 (queue s) = plain bs @ rest"
    using assms(2) by (simp_all add: frame_def bs(1))
  have "8 \<le> length (queue s)" using assms(2) by (simp add: frame_def bs(1))
  moreover have "?len \<noteq> []" by (metis length_ne_bytes list.size(3) zero_neq_numeral)
  ultimately obtain s1 where 1: "read_impl ext [] 8 f s = Some (Ok ?len, ext fds f, s1)"
    "queue s1 = plain bs @ rest" "quiet_script False s1" "sent s1 = sent s"
    using read_impl_law [OF assms(1) _ _ assms(5), of 8 "[]" f] few_fds_attach(1) [OF assms(3)] attach_fds [OF _ assms(5)] q
    by auto
  from read_impl_law [OF 1(3) _ _ assms(5), of "length bs" "[]" "ext fds f"] 1(2) few_fds_attach(2) plain_fds [OF assms(5)]
  obtain s2 where 2: "read_impl ext [] (length bs) (ext fds f) s1 = Some (Ok bs, ext fds f, s2)"
    "queue s2 = rest" "quiet_script False s2" "sent s2 = sent s1" by auto
  have "ne_value ?len = length bs" using bs(3) by (rule ne_value_bytes)
  with 1(1,4) 2 bs(2) show ?thesis by (simp add: read_message_def)
qed

lemma read_message_async_law:
  assumes "quiet_script True s" and "queue s = frame to_vec m fds @ rest" and "length fds \<le> 16"
    and "travels to_vec from_bytes m" and "lawful_extend ext"
  shows "\<exists>s'. read_message_async from_bytes ext f s = Some (Ok m, ext fds f, s') \<and>
    quiet_script True s' \<and> queue s' = rest \<and> sent s' = sent s"
proof -
  from assms(4) obtain bs where bs: "to_vec m = Some bs" "from_bytes bs = Some m" "length bs < 2 ^ 64"
    by (auto simp: travels_def)
  let ?len = "ne_bytes (length bs)"
  have q: "take 8 (queue s) = attach fds ?len" "drop 8 (queue s) = plain bs @ rest"
    using assms(2) by (simp_all add: frame_def bs(1))
  have "8 \<le> length (queue s)" using assms(2) by (simp add: frame_def bs(1))
  moreover have "?len \<noteq> []" by (metis length_ne_bytes list.size(3) zero_neq_numeral)
  ultimately obtain s1 where 1: "read_impl_async ext [] 8 f s = Some (Ok ?len, ext fds f, s1)"
    "queue s1 = plain bs @ rest" "quiet_script True s1" "sent s1 = sent s"
    using read_impl_async_law [OF assms(1) _ _ assms(5), of 8 "[]" f] few_fds_attach(1) [OF assms(3)] attach_fds [OF _ assms(5)] q
    by auto
  from read_impl_async_law [OF 1(3) _ _ assms(5), of "length bs" "[]" "ext fds f"] 1(2) few_fds_attach(2) plain_fds [OF assms(5)]
  obtain s2 where 2: "read_impl_async ext [] (length bs) (ext fds f) s1 = Some (Ok bs, ext fds f, s2)"
    "queue s2 = rest" "quiet_script True s2" "sent s2 = sent s1" by auto
  have "ne_value ?len = length bs" using bs(3) by (rule ne_value_bytes)
  with 1(1,4) 2 bs(2) show ?thesis by (simp add: read_message_async_def)
qed

section \<open>Exchange\<close>

text \<open>What a reader needs: a quiet socket and a collection.\<close>

definition readable ::
    "(fd list \<Rightarrow> 'f \<Rightarrow> 'f) \<Rightarrow> bool \<Rightarrow> socket \<Rightarrow> bool" where
  "readable ext block s \<longleftrightarrow>
     quiet_script block s \<and> lawful_extend ext"

interpretation blocking_reads: channel_reader "read_message from_bytes ext" "travels to_vec from_bytes" "frame to_vec" ext
  "readable ext False" for from_bytes :: "bytes \<Rightarrow> 'm option" and ext :: "fd list \<Rightarrow> 'f \<Rightarrow> 'f" and to_vec
  by unfold_locales (auto simp: readable_def dest: read_message_law)

interpretation async_reads: channel_reader "read_message_async from_bytes ext" "travels to_vec from_bytes" "frame to_vec" ext
  "readable ext True" for from_bytes :: "bytes \<Rightarrow> 'm option" and ext :: "fd list \<Rightarrow> 'f \<Rightarrow> 'f" and to_vec
  by unfold_locales (auto simp: readable_def dest: read_message_async_law)

text \<open>
  C28: Messages that serialization carries there and back, with at most sixteen descriptors
  each, written to one end of a socket whose calls do not fail, are read at the other end, in
  order, each with the descriptors that were sent with it and nothing left over, however the
  transfers are split and however often the asynchronous end has to wait: from the asynchronous
  channel of the daemon to the blocking one of the zygote, and between blocking ones.
\<close>

theorem channel_exchange:
  assumes "\<forall>m. to_vec m \<noteq> None" and "lawful_extend ext"
    and "\<forall>(m, fds) \<in> set ms. travels to_vec from_bytes m \<and> length fds \<le> 16"
    and "quiet_script True a" and "quiet_script False b" and "sent a = []" and "sent b = []"
    and "quiet_script False peer"
  shows "\<exists>a' b' p q. write_list (write_message_async to_vec) ms a = (Ok (), a') \<and>
    write_list (write_message to_vec) ms b = (Ok (), b') \<and>
    read_list (read_message from_bytes ext) (length ms) [] f (peer\<lparr>queue := sent a'\<rparr>) =
      Some (Ok (map fst ms), fold ext (map snd ms) f, p) \<and> queue p = [] \<and>
    read_list (read_message from_bytes ext) (length ms) [] f (peer\<lparr>queue := sent b'\<rparr>) =
      Some (Ok (map fst ms), fold ext (map snd ms) f, q) \<and> queue q = []"
proof -
  let ?frames = "concat (map (\<lambda>(m, fds). frame to_vec m fds) ms)"
  obtain a' b' where w: "write_list (write_message_async to_vec) ms a = (Ok (), a')" "sent a' = ?frames"
    "write_list (write_message to_vec) ms b = (Ok (), b')" "sent b' = ?frames"
    using async_channel.write_list_law [of to_vec a ms] blocking_channel.write_list_law [of to_vec b ms]
      assms(1,4-7) by (force simp: succeeds_def writable_def)
  have "readable ext False (peer\<lparr>queue := ?frames\<rparr>)"
    using assms(2,8) by (simp add: readable_def quiet_script_def)
  from blocking_reads.read_list_law [OF this _ assms(3), where rest = "[]" and acc = "[]" and f = f] obtain p where
    "read_list (read_message from_bytes ext) (length ms) [] f (peer\<lparr>queue := ?frames\<rparr>) =
      Some (Ok (map fst ms), fold ext (map snd ms) f, p)" "queue p = []" by auto
  with w show ?thesis by (intro exI [of _ a'] exI [of _ b'] exI [of _ p]) simp
qed

definition one_bit :: "bool \<Rightarrow> bytes option" where
  "one_bit b = Some [of_bool b]"

definition of_one_bit :: "bytes \<Rightarrow> bool option" where
  "of_one_bit bs = (if bs = [0] then Some False else if bs = [1] then Some True else None)"

theorem channel_exchange_witness:
  "\<exists>a' b' p q.
     write_list (write_message_async one_bit) [(True, [4]), (False, [])]
       \<lparr>sent = [], queue = [], sock_script = [Transfer 3, SockBlock], peer_gone = False\<rparr> = (Ok (), a') \<and>
     write_list (write_message one_bit) [(True, [4]), (False, [])]
       \<lparr>sent = [], queue = [], sock_script = [Transfer 7], peer_gone = False\<rparr> = (Ok (), b') \<and>
     read_list (read_message of_one_bit (\<lambda>new fds. fds @ new)) (Suc (Suc 0)) [] []
       \<lparr>sent = [], queue = sent a', sock_script = [Transfer 2], peer_gone = False\<rparr> = Some (Ok [True, False], [4], p) \<and>
     queue p = [] \<and>
     read_list (read_message of_one_bit (\<lambda>new fds. fds @ new)) (Suc (Suc 0)) [] []
       \<lparr>sent = [], queue = sent b', sock_script = [Transfer 2], peer_gone = False\<rparr> = Some (Ok [True, False], [4], q) \<and>
     queue q = []"
  using channel_exchange [of one_bit "\<lambda>new fds. fds @ new" "[(True, [4]), (False, [])]" of_one_bit
      "\<lparr>sent = [], queue = [], sock_script = [Transfer 3, SockBlock], peer_gone = False\<rparr>"
      "\<lparr>sent = [], queue = [], sock_script = [Transfer 7], peer_gone = False\<rparr>"
      "\<lparr>sent = [], queue = [], sock_script = [Transfer 2], peer_gone = False\<rparr>" "[]"]
  by (simp add: travels_def one_bit_def of_one_bit_def lawful_extend_def quiet_script_def
      del: write_list.simps read_list.simps)

lemma read_impl_starved:
  assumes "read_impl ext acc n f s = Some r" and "quiet_script False s" and "peer_gone s" and "length (queue s) < n"
  shows False
  using assms
proof (induction rule: read_impl.raw_induct [rotated, consumes 1, case_names step])
  case (step rd ext acc n f s r)
  note IH = step(1) and body = step(2) and quiet = step(3) and gone = step(4) and short = step(5)
  from quiet show False
  proof (cases rule: quiet_next)
    case (transfer k s')
    show False
    proof (cases "queue s")
      case Nil
      with transfer gone have "recv_fds n s = Some (Ok ([], []), s')" by (simp add: recv_fds_def)
      with body short have "rd ext acc n (ext [] f) s' = Some r" by (simp split: if_splits)
      from IH [OF this transfer(2)] transfer(4,5) gone short show False by simp
    next
      case (Cons w ws)
      define N where "N = min (min (max 1 k) n) (1 + length (takeWhile (\<lambda>x. snd x = []) ws))"
      let ?t = "s'\<lparr>queue := drop N (w # ws)\<rparr>"
      have recv: "recv_fds n s = Some (Ok (map fst (take N (w # ws)), take 16 (snd w)), ?t)"
        using transfer(1,4) Cons by (simp only: recv_fds_def N_def Let_def prod.case sock_step.case list.case)
      have most: "N \<le> length (w # ws)"
        using length_takeWhile_le [of "\<lambda>x. snd x = []" ws] by (simp add: N_def min.coboundedI2)
      then have len: "length (map fst (take N (w # ws))) = N" by simp
      have next_call: "rd ext (acc @ map fst (take N (w # ws))) (n - N) (ext (take 16 (snd w)) f) ?t = Some r"
        using body short unfolding recv option.case prod.case res.case len by (simp split: if_splits)
      have "length (queue ?t) < n - N" using most short Cons by (simp add: diff_less_mono)
      with transfer(2,5) gone show False
        by (intro IH [OF next_call]) (simp_all add: quiet_script_def)
    qed
  qed simp
qed



end
