(* ===== verification/Child_Process.thy ===== *)
theory Child_Process
  imports Kernel
begin

text \<open>
  \<open>crates/daemon/src/build/linux/proc.rs\<close>: a child process that is killed when its handle is
  dropped, and giving up privileges. \<open>None\<close> is a handle whose child has been taken.
\<close>

section \<open>The handle\<close>

type_synonym child_process = "pid option"

definition CHILD_DROP_WAIT :: nat where "CHILD_DROP_WAIT = 5000"

definition child_new :: "pid \<Rightarrow> child_process" where
  "child_new p = Some p"

definition child_from :: "pid \<Rightarrow> child_process" where
  "child_from p = child_new p"

definition child_take :: "child_process \<Rightarrow> pid option \<times> child_process" where
  "child_take c = (c, None)"

definition child_forget :: "child_process \<Rightarrow> ('e, pid) res" where
  "child_forget c = (case fst (child_take c) of Some p \<Rightarrow> Ok p | None \<Rightarrow> Panic)"

definition child_inner :: "child_process \<Rightarrow> ('e, pid) res" where
  "child_inner c = (case c of Some p \<Rightarrow> Ok p | None \<Rightarrow> Panic)"

section \<open>Killing a child\<close>

definition poll_child :: "pid \<Rightarrow> ('k kernel_scheme, os_error, unit) op" where
  "poll_child p k =
     (case wait_call p k of
        (Ok v, k') \<Rightarrow>
          ((case v of
              Exited \<Rightarrow> Ok ()
            | Signaled \<Rightarrow> Ok ()
            | Stopped \<Rightarrow> Ok ()
            | PtraceEvent \<Rightarrow> Err (Plain WouldBlock)
            | Continued \<Rightarrow> Err (Plain WouldBlock)
            | StillAlive \<Rightarrow> Err (Plain WouldBlock)
            | PtraceSyscall \<Rightarrow> Err (Plain WouldBlock)), k')
      | (Err e, k') \<Rightarrow> (if e = ECHILD then Ok () else Err (Errno e), k')
      | (Panic, k') \<Rightarrow> (Panic, k'))"

definition errno_or_fault :: "os_error \<Rightarrow> errno" where
  "errno_or_fault e = (case raw_os_error e of Some n \<Rightarrow> n | None \<Rightarrow> EFAULT)"

definition kill_child :: "pid \<Rightarrow> signal \<Rightarrow> ('k kernel_scheme, errno, bool) op" where
  "kill_child p sig k =
     (case unit_call (Kill p sig) k of
        (Ok _, k1) \<Rightarrow>
          (case poll_child p k1 of
             (Ok _, k2) \<Rightarrow> (Ok True, k2)
           | (Err e, k2) \<Rightarrow> if os_kind e = WouldBlock then (Ok False, k2) else (Err (errno_or_fault e), k2)
           | (Panic, k2) \<Rightarrow> (Panic, k2))
      | (Err e, k1) \<Rightarrow> if e = ESRCH then (Ok True, k1) else (Err e, k1)
      | (Panic, k1) \<Rightarrow> (Panic, k1))"

text \<open>The loop until \<open>end\<close>: \<open>Ok True\<close> when the child has exited, \<open>Ok False\<close> when time is up.\<close>

partial_function (option) wait_until ::
    "pid \<Rightarrow> nat \<Rightarrow> 'k kernel_scheme \<Rightarrow> ((errno, bool) res \<times> 'k kernel_scheme) option" where
  "wait_until p deadline k =
     (case poll_child p k of
        (Ok _, k1) \<Rightarrow> Some (Ok True, k1)
      | (Err e, k1) \<Rightarrow>
          if os_kind e = WouldBlock then
            (case read_clock k1 of (now, k2) \<Rightarrow>
               if deadline > now then wait_until p deadline (sleep 15 k2) else Some (Ok False, k2))
          else Some (Err (errno_or_fault e), k1)
      | (Panic, k1) \<Rightarrow> Some (Panic, k1))"

definition try_drop_impl :: "child_process \<Rightarrow> 'k kernel_scheme \<Rightarrow> ((errno, unit) res \<times> 'k kernel_scheme) option" where
  "try_drop_impl c k =
     (case c of
        None \<Rightarrow> Some (Ok (), k)
      | Some p \<Rightarrow>
          (case kill_child p SIGTERM k of
             (Err e, k1) \<Rightarrow> Some (Err e, k1)
           | (Panic, k1) \<Rightarrow> Some (Panic, k1)
           | (Ok True, k1) \<Rightarrow> Some (Ok (), k1)
           | (Ok False, k1) \<Rightarrow>
               (case read_clock k1 of (now, k2) \<Rightarrow>
                  case wait_until p (now + CHILD_DROP_WAIT) k2 of
                    None \<Rightarrow> None
                  | Some (Err e, k3) \<Rightarrow> Some (Err e, k3)
                  | Some (Panic, k3) \<Rightarrow> Some (Panic, k3)
                  | Some (Ok True, k3) \<Rightarrow> Some (Ok (), k3)
                  | Some (Ok False, k3) \<Rightarrow>
                      (case kill_child p SIGKILL k3 of
                         (Ok _, k4) \<Rightarrow> Some (Ok (), k4)
                       | (Err e, k4) \<Rightarrow> Some (Err e, k4)
                       | (Panic, k4) \<Rightarrow> Some (Panic, k4)))))"

text \<open>An error is only logged.\<close>

definition child_drop :: "child_process \<Rightarrow> 'k kernel_scheme \<Rightarrow> 'k kernel_scheme option" where
  "child_drop c k = map_option snd (try_drop_impl c k)"

section \<open>Giving up privileges\<close>

definition set_id :: "nat \<Rightarrow> nat \<Rightarrow> nat list \<Rightarrow> ('k kernel_scheme, errno, unit) op" where
  "set_id uid gid supplementary =
     io_then (if supplementary \<noteq> [] then unit_call (SetGroups supplementary) else io_return ())
     (io_then (unit_call (SetResGid gid gid gid))
     (unit_call (SetResUid uid uid uid)))"

section \<open>Dropping a child\<close>

text \<open>The answer to a poll that finds the child running; and a stretch of calls whose polls all do.\<close>

definition alive_answer :: "errno + wait_status \<Rightarrow> bool" where
  "alive_answer a \<longleftrightarrow>
     (case a of
        Inr v \<Rightarrow> v \<in> {PtraceEvent, Continued, StillAlive, PtraceSyscall}
      | Inl e \<Rightarrow> e \<noteq> ECHILD \<and> decode_error_kind e = WouldBlock)"

fun all_alive :: "'k kernel_scheme \<Rightarrow> pid \<Rightarrow> call list \<Rightarrow> call list \<Rightarrow> bool" where
  "all_alive k p h [] = True"
| "all_alive k p h (c # cs) \<longleftrightarrow>
     (c = WaitPid p \<longrightarrow> alive_answer (wait_answer k (h @ [c]))) \<and> all_alive k p (h @ [c]) cs"

lemma all_alive_append: "all_alive k p h (cs @ ds) \<longleftrightarrow> all_alive k p h cs \<and> all_alive k p (h @ cs) ds"
  by (induction cs arbitrary: h) auto

lemma all_alive_made: "made k cs k' \<Longrightarrow> all_alive k' p h ds = all_alive k p h ds"
  by (induction ds arbitrary: h) (simp_all add: made_def)

lemma poll_cases:
  obtains (exited) "poll_child p k = (Ok (), record_call (WaitPid p) k)"
  | (alive) e where "poll_child p k = (Err e, record_call (WaitPid p) k)" "os_kind e = WouldBlock"
      "alive_answer (wait_answer k (history k @ [WaitPid p]))"
  | (failed) e where "poll_child p k = (Err e, record_call (WaitPid p) k)" "os_kind e \<noteq> WouldBlock"
proof (cases "wait_answer k (history k @ [WaitPid p])")
  case (Inl e)
  then have "wait_call p k = (Err e, record_call (WaitPid p) k)"
    by (simp add: wait_call_def)
  with Inl show thesis
    by (cases "e = ECHILD"; cases "decode_error_kind e = WouldBlock")
      (auto simp: poll_child_def alive_answer_def intro: exited alive failed)
next
  case (Inr v)
  then have "wait_call p k = (Ok v, record_call (WaitPid p) k)"
    by (simp add: wait_call_def)
  with Inr show thesis
    by (cases v) (auto simp: poll_child_def alive_answer_def intro: exited alive)
qed

lemma kill_cases:
  obtains (sent) r where "kill_child p sig k = (r, record_call (WaitPid p) (record_call (Kill p sig) k))"
      "r \<noteq> Panic" "r = Ok False \<Longrightarrow> alive_answer (wait_answer k (history k @ [Kill p sig, WaitPid p]))"
  | (refused) r where "kill_child p sig k = (r, record_call (Kill p sig) k)" "r \<noteq> Panic" "r \<noteq> Ok False"
proof (cases "unit_answer k (history k @ [Kill p sig])")
  case None
  then have call: "unit_call (Kill p sig) k = (Ok (), record_call (Kill p sig) k)"
    by (simp add: unit_call_def record_call_def Let_def)
  show thesis
  proof (cases rule: poll_cases [of p "record_call (Kill p sig) k"])
    case exited
    then show ?thesis using call by (intro sent [of "Ok True"]) (simp_all add: kill_child_def)
  next
    case (alive e)
    then show ?thesis using call by (intro sent [of "Ok False"]) (simp_all add: kill_child_def record_call_def)
  next
    case (failed e)
    then show ?thesis using call by (intro sent [of "Err (errno_or_fault e)"]) (simp_all add: kill_child_def)
  qed
next
  case (Some e)
  then have "unit_call (Kill p sig) k = (Err e, record_call (Kill p sig) k)"
    by (simp add: unit_call_def record_call_def Let_def)
  then show thesis by (cases "e = ESRCH") (auto simp: kill_child_def intro: refused)
qed

text \<open>
  The calls of the loop: \<open>n\<close> turns, and a last poll. The deadline bounds the turns, since each
  sleeps.
\<close>

definition turns :: "nat \<Rightarrow> pid \<Rightarrow> call list" where
  "turns n p = concat (replicate n [WaitPid p, ReadClock, Sleep 15])"

lemma turns_simps [simp]:
  "turns 0 p = []" "turns (Suc n) p = [WaitPid p, ReadClock, Sleep 15] @ turns n p" "length (turns n p) = 3 * n"
  by (simp_all add: turns_def length_concat sum_list_replicate)

lemma no_kill_turns: "Kill q sig \<notin> set (turns n p)"
  by (induction n) simp_all

lemma wait_until_ends:
  assumes "clock_lawful k"
  shows "\<exists>r n k'. wait_until p d k = Some (r, k') \<and> r \<noteq> Panic \<and>
    made k (turns n p @ [WaitPid p] @ (if r = Ok False then [ReadClock] else [])) k' \<and>
    (n = 0 \<or> clock_at k (history k) + 15 * (n - 1) < d) \<and>
    (r = Ok False \<longrightarrow> d \<le> clock_at k (history k') \<and> all_alive k p (history k) (turns n p @ [WaitPid p]))"
  using assms
proof (induction "d - clock_at k (history k)" arbitrary: k rule: less_induct)
  case less
  show ?case
  proof (cases rule: poll_cases [of p k])
    case exited
    then show ?thesis
      by (intro exI [of _ "Ok True"] exI [of _ 0] exI [of _ "record_call (WaitPid p) k"])
        (simp add: wait_until.simps made_record)
  next
    case (failed e)
    then show ?thesis
      by (intro exI [of _ "Err (errno_or_fault e)"] exI [of _ 0] exI [of _ "record_call (WaitPid p) k"])
        (simp add: wait_until.simps made_record)
  next
    case (alive e)
    define k2 where "k2 = record_call ReadClock (record_call (WaitPid p) k)"
    have k2: "made k [WaitPid p, ReadClock] k2" by (simp add: k2_def made_def record_call_def)
    let ?now = "clock_at k (history k2)"
    have clock: "read_clock (record_call (WaitPid p) k) = (?now, k2)"
      by (simp add: read_clock_def ask_def k2_def Let_def record_call_def)
    have here: "clock_at k (history k) \<le> ?now"
      using clock_mono [OF less.prems] made_fields(1) [OF k2] by metis
    show ?thesis
    proof (cases "?now < d")
      case False
      with alive clock k2 made_fields(1) [OF k2] show ?thesis
        by (intro exI [of _ "Ok False"] exI [of _ 0] exI [of _ k2]) (simp add: wait_until.simps [of p d k])
    next
      case True
      let ?k3 = "sleep 15 k2"
      have k3: "made k [WaitPid p, ReadClock, Sleep 15] ?k3"
        using k2 by (simp add: made_def sleep_def record_call_def)
      note f3 = made_fields [OF k3]
      have step: "wait_until p d k = wait_until p d ?k3"
        using alive clock True by (simp add: wait_until.simps [of p d k])
      have slept: "?now + 15 \<le> clock_at k (history ?k3)"
        using less.prems f3(1) made_fields(1) [OF k2] unfolding clock_lawful_def by (metis append.assoc append_Cons append_Nil)
      have "d - clock_at ?k3 (history ?k3) < d - clock_at k (history k)"
        using True here slept f3(4) by simp
      from less.hyps [OF this] f3(5) less.prems obtain r n k' where
        IH: "wait_until p d ?k3 = Some (r, k')" "r \<noteq> Panic"
          "made ?k3 (turns n p @ [WaitPid p] @ (if r = Ok False then [ReadClock] else [])) k'"
          "n = 0 \<or> clock_at k (history ?k3) + 15 * (n - 1) < d"
          "r = Ok False \<longrightarrow> d \<le> clock_at k (history k') \<and> all_alive ?k3 p (history ?k3) (turns n p @ [WaitPid p])"
        unfolding f3(4) by blast
      have "made k (turns (Suc n) p @ [WaitPid p] @ (if r = Ok False then [ReadClock] else [])) k'"
        using made_trans [OF k3 IH(3)] by simp
      moreover have "clock_at k (history k) + 15 * (Suc n - 1) < d"
        using IH(4) slept here True by (cases n) auto
      moreover have "r = Ok False \<longrightarrow> all_alive k p (history k) (turns (Suc n) p @ [WaitPid p])"
        using IH(5) alive(3) f3(1) by (simp add: all_alive_made [OF k3])
      ultimately show ?thesis using IH(1,2,5) step by metis
    qed
  qed
qed

lemma try_drop_ends:
  assumes "clock_lawful k"
  shows "\<exists>r n k' cs. try_drop_impl (Some p) k = Some (r, k') \<and> r \<noteq> Panic \<and> n \<le> 334 \<and> made k (Kill p SIGTERM # cs) k' \<and>
    (cs \<in> {[], [WaitPid p], [WaitPid p, ReadClock] @ turns n p @ [WaitPid p]} \<or>
     (\<exists>b. cs = [WaitPid p, ReadClock] @ turns n p @ [WaitPid p, ReadClock, Kill p SIGKILL] @ b \<and> b \<in> {[], [WaitPid p]} \<and>
        clock_at k (history k @ [Kill p SIGTERM, WaitPid p, ReadClock]) + CHILD_DROP_WAIT
          \<le> clock_at k (history k @ [Kill p SIGTERM, WaitPid p, ReadClock] @ turns n p @ [WaitPid p, ReadClock]) \<and>
        all_alive k p (history k) ([Kill p SIGTERM, WaitPid p, ReadClock] @ turns n p @ [WaitPid p])))"
proof (cases rule: kill_cases [of p SIGTERM k])
  case (refused r)
  then obtain r' where "try_drop_impl (Some p) k = Some (r', record_call (Kill p SIGTERM) k)" "r' \<noteq> Panic"
    by (cases r) (auto simp: try_drop_impl_def split: bool.splits)
  then show ?thesis
    by (intro exI [of _ r'] exI [of _ 0] exI [of _ "record_call (Kill p SIGTERM) k"] exI [of _ "[]"])
      (simp add: made_record)
next
  case (sent r)
  let ?k1 = "record_call (WaitPid p) (record_call (Kill p SIGTERM) k)"
  have k1: "made k [Kill p SIGTERM, WaitPid p] ?k1" by (simp add: made_def record_call_def)
  show ?thesis
  proof (cases "r = Ok False")
    case False
    with sent obtain r' where "try_drop_impl (Some p) k = Some (r', ?k1)" "r' \<noteq> Panic"
      by (cases r) (auto simp: try_drop_impl_def split: bool.splits)
    with k1 show ?thesis
      by (intro exI [of _ r'] exI [of _ 0] exI [of _ ?k1] exI [of _ "[WaitPid p]"]) simp
  next
    case True
    let ?k2 = "record_call ReadClock ?k1"
    let ?start = "clock_at k (history ?k2)"
    have k2: "made k [Kill p SIGTERM, WaitPid p, ReadClock] ?k2" by (simp add: made_def record_call_def)
    note f2 = made_fields [OF k2]
    have clock: "read_clock ?k1 = (?start, ?k2)" by (simp add: read_clock_def ask_def Let_def record_call_def)
    from wait_until_ends [of ?k2 p "?start + CHILD_DROP_WAIT"] assms f2(5) obtain w n k3 where
      w: "wait_until p (?start + CHILD_DROP_WAIT) ?k2 = Some (w, k3)" "w \<noteq> Panic"
        "made ?k2 (turns n p @ [WaitPid p] @ (if w = Ok False then [ReadClock] else [])) k3"
        "n = 0 \<or> ?start + 15 * (n - 1) < ?start + CHILD_DROP_WAIT"
        "w = Ok False \<longrightarrow> ?start + CHILD_DROP_WAIT \<le> clock_at k (history k3) \<and>
           all_alive ?k2 p (history ?k2) (turns n p @ [WaitPid p])"
      unfolding f2(4) by blast
    have n: "n \<le> 334" using w(4) by (auto simp: CHILD_DROP_WAIT_def)
    note k3 = made_trans [OF k2 w(3)]
    show ?thesis
    proof (cases "w = Ok False")
      case False
      with w(1,2) sent(1) True clock obtain r' where "try_drop_impl (Some p) k = Some (r', k3)" "r' \<noteq> Panic"
        by (cases w) (auto simp: try_drop_impl_def split: bool.splits)
      with k3 n False show ?thesis
        by (intro exI [of _ r'] exI [of _ n] exI [of _ k3] exI [of _ "[WaitPid p, ReadClock] @ turns n p @ [WaitPid p]"]) simp
    next
      case last: True
      have drop: "try_drop_impl (Some p) k =
          (case kill_child p SIGKILL k3 of (Ok _, k4) \<Rightarrow> Some (Ok (), k4) | (Err e, k4) \<Rightarrow> Some (Err e, k4) | (Panic, k4) \<Rightarrow> Some (Panic, k4))"
        using w(1) sent(1) True last clock by (simp add: try_drop_impl_def)
      have history: "history k3 = history k @ [Kill p SIGTERM, WaitPid p, ReadClock] @ turns n p @ [WaitPid p, ReadClock]"
        using made_fields(1) [OF k3] last by simp
      have wait: "?start + CHILD_DROP_WAIT \<le> clock_at k (history k3)"
        and alive: "all_alive k p (history k) ([Kill p SIGTERM, WaitPid p, ReadClock] @ turns n p @ [WaitPid p])"
        using w(5) last sent(3) True f2(1) by (simp_all add: all_alive_made [OF k2])
      obtain b k4 r' where fin: "try_drop_impl (Some p) k = Some (r', k4)" "r' \<noteq> Panic" "b \<in> {[], [WaitPid p]}"
        "made k3 (Kill p SIGKILL # b) k4"
      proof (cases rule: kill_cases [of p SIGKILL k3])
        case (sent r)
        then show ?thesis using drop
          by (cases r) (auto intro!: that [of _ _ "[WaitPid p]"] simp: made_def record_call_def)
      next
        case (refused r)
        then show ?thesis using drop
          by (cases r) (auto intro!: that [of _ _ "[]"] simp: made_def record_call_def)
      qed
      have "made k (Kill p SIGTERM # [WaitPid p, ReadClock] @ turns n p @ [WaitPid p, ReadClock, Kill p SIGKILL] @ b) k4"
        using made_trans [OF k3 fin(4)] last by simp
      then show ?thesis
        using fin(1-3) n wait alive f2(1) unfolding history
        by (intro exI [of _ r'] exI [of _ n] exI [of _ k4]
          exI [of _ "[WaitPid p, ReadClock] @ turns n p @ [WaitPid p, ReadClock, Kill p SIGKILL] @ b"]) simp
    qed
  qed
qed

lemma child_drop_kills:
  assumes "clock_lawful k"
  obtains k' cs where "child_drop (Some p) k = Some k'" "made k (Kill p SIGTERM # cs) k'"
  using try_drop_ends [OF assms, of p] that by (auto simp: child_drop_def)

text \<open>
  C31: Dropping a child handle always ends, whatever the kernel answers, and makes at most 1009
  system calls: the five seconds allow 334 sleeps of fifteen milliseconds. Nothing is done for a
  child that was taken.
\<close>

theorem child_drop_returns:
  assumes "clock_lawful k"
  shows "\<exists>k' cs. child_drop c k = Some k' \<and> made k cs k' \<and> length cs \<le> 1009 \<and> (c = None \<longrightarrow> cs = [])"
proof (cases c)
  case None
  then show ?thesis by (intro exI [of _ k] exI [of _ "[]"]) (simp add: child_drop_def try_drop_impl_def)
next
  case (Some p)
  from try_drop_ends [OF assms, of p] obtain r n k' cs where
    "try_drop_impl (Some p) k = Some (r, k')" "n \<le> 334" "made k (Kill p SIGTERM # cs) k'"
    and cs: "cs \<in> {[], [WaitPid p], [WaitPid p, ReadClock] @ turns n p @ [WaitPid p]} \<or>
      (\<exists>b. cs = [WaitPid p, ReadClock] @ turns n p @ [WaitPid p, ReadClock, Kill p SIGKILL] @ b \<and> b \<in> {[], [WaitPid p]})"
    by blast
  moreover from cs \<open>n \<le> 334\<close> have "length (Kill p SIGTERM # cs) \<le> 1009" by auto
  ultimately show ?thesis
    using Some by (intro exI [of _ k'] exI [of _ "Kill p SIGTERM # cs"]) (simp add: child_drop_def)
qed

lemma some_clock: "clock_lawful some_kernel"
  by (simp add: some_kernel_def clock_lawful_def)

theorem child_drop_returns_witness:
  "\<exists>k' cs. child_drop (Some 42) some_kernel = Some k' \<and> made some_kernel cs k' \<and> length cs \<le> 1009"
  using child_drop_returns [OF some_clock, of "Some 42"] by blast

text \<open>
  C30: Dropping a child handle sends \<open>SIGTERM\<close> first (not \<open>SIGINT\<close>, as the documentation says), and
  no other signal than a \<open>SIGKILL\<close> to the same child, which it sends at most once, only after five
  seconds in which every poll has found the child running. After that the child is polled at
  most once more: one that the kernel has not ended by then is left behind as a zombie.
\<close>

theorem child_killed_last:
  assumes "clock_lawful k"
  shows "\<exists>k' cs. child_drop (Some p) k = Some k' \<and> made k (Kill p SIGTERM # cs) k' \<and>
    (\<forall>q sig. Kill q sig \<in> set cs \<longrightarrow> q = p \<and> sig = SIGKILL) \<and>
    (\<forall>a b. cs = a @ Kill p SIGKILL # b \<longrightarrow> b \<in> {[], [WaitPid p]} \<and>
      clock_at k (history k @ [Kill p SIGTERM, WaitPid p]) + CHILD_DROP_WAIT \<le> clock_at k (history k @ Kill p SIGTERM # a) \<and>
      all_alive k p (history k) (Kill p SIGTERM # a))"
proof -
  from try_drop_ends [OF assms, of p] obtain r n k' cs where
    drop: "try_drop_impl (Some p) k = Some (r, k')" "made k (Kill p SIGTERM # cs) k'"
    and cs: "cs \<in> {[], [WaitPid p], [WaitPid p, ReadClock] @ turns n p @ [WaitPid p]} \<or>
      (\<exists>b. cs = [WaitPid p, ReadClock] @ turns n p @ [WaitPid p, ReadClock, Kill p SIGKILL] @ b \<and> b \<in> {[], [WaitPid p]} \<and>
        clock_at k (history k @ [Kill p SIGTERM, WaitPid p, ReadClock]) + CHILD_DROP_WAIT
          \<le> clock_at k (history k @ [Kill p SIGTERM, WaitPid p, ReadClock] @ turns n p @ [WaitPid p, ReadClock]) \<and>
        all_alive k p (history k) ([Kill p SIGTERM, WaitPid p, ReadClock] @ turns n p @ [WaitPid p]))"
    by blast
  have "\<forall>q sig. Kill q sig \<in> set cs \<longrightarrow> q = p \<and> sig = SIGKILL"
    using cs no_kill_turns [of _ _ n p] by auto
  moreover have "b \<in> {[], [WaitPid p]} \<and>
      clock_at k (history k @ [Kill p SIGTERM, WaitPid p]) + CHILD_DROP_WAIT \<le> clock_at k (history k @ Kill p SIGTERM # a) \<and>
      all_alive k p (history k) (Kill p SIGTERM # a)" if split: "cs = a @ Kill p SIGKILL # b" for a b
  proof -
    let ?pre = "[WaitPid p, ReadClock] @ turns n p @ [WaitPid p, ReadClock]"
    have "Kill p SIGKILL \<in> set cs" using split by simp
    with cs no_kill_turns [of p SIGKILL n p] obtain b' where b': "cs = ?pre @ Kill p SIGKILL # b'" "b' \<in> {[], [WaitPid p]}"
      and late: "clock_at k (history k @ [Kill p SIGTERM, WaitPid p, ReadClock]) + CHILD_DROP_WAIT
          \<le> clock_at k (history k @ Kill p SIGTERM # ?pre)"
      and alive: "all_alive k p (history k) ([Kill p SIGTERM, WaitPid p, ReadClock] @ turns n p @ [WaitPid p])"
      by auto
    have "Kill p SIGKILL \<notin> set ?pre" "Kill p SIGKILL \<notin> set b'"
      using no_kill_turns [of p SIGKILL n p] b'(2) by auto
    note unique = append_Cons_eq_iff [OF this, of a b]
    from split b'(1) have "?pre @ Kill p SIGKILL # b' = a @ Kill p SIGKILL # b" by simp
    then have ab: "a = ?pre" "b = b'" unfolding unique by simp_all
    have "clock_at k (history k @ [Kill p SIGTERM, WaitPid p]) \<le> clock_at k (history k @ [Kill p SIGTERM, WaitPid p, ReadClock])"
      using clock_mono [OF assms, of "history k @ [Kill p SIGTERM, WaitPid p]" "[ReadClock]"] by simp
    from le_trans [OF add_right_mono [OF this] late]
    have time: "clock_at k (history k @ [Kill p SIGTERM, WaitPid p]) + CHILD_DROP_WAIT
        \<le> clock_at k (history k @ Kill p SIGTERM # ?pre)" .
    have "all_alive k p (history k) (Kill p SIGTERM # ?pre)"
      using alive by (simp add: all_alive_append)
    from conjI [OF b'(2) conjI [OF time this]] show ?thesis unfolding ab .
  qed
  moreover have "child_drop (Some p) k = Some k'" using drop(1) by (simp add: child_drop_def)
  ultimately show ?thesis using drop(2) by blast
qed

theorem child_killed_last_witness:
  "\<exists>k' cs. child_drop (Some 42) some_kernel = Some k' \<and> made some_kernel (Kill 42 SIGTERM # cs) k' \<and>
    Kill 42 SIGTERM \<notin> set cs"
proof -
  from child_killed_last [OF some_clock, of 42] obtain k' cs where
    "child_drop (Some 42) some_kernel = Some k'" "made some_kernel (Kill 42 SIGTERM # cs) k'"
    "\<forall>q sig. Kill q sig \<in> set cs \<longrightarrow> q = 42 \<and> sig = SIGKILL" by blast
  then show ?thesis by blast
qed

text \<open>
  Privileges are given up in order: the user id last, and each step only when the ones before it
  have succeeded.
\<close>

lemma set_id_calls:
  "set_id uid gid supplementary =
     unit_calls ((if supplementary \<noteq> [] then [SetGroups supplementary] else []) @ [SetResGid gid gid gid, SetResUid uid uid uid])"
  by (simp add: set_id_def fun_eq_iff)

end
