(* ===== verification/Process_Clone.thy ===== *)
theory Process_Clone
  imports Kernel "HOL-Library.Sublist"
begin

unbundle bit_operations_syntax

text \<open>
  \<open>crates/daemon/src/build/linux/fork.rs\<close>: starting a process that runs a callback, with \<open>clone3\<close>,
  or with \<open>clone\<close> on a kernel that has no \<open>clone3\<close>.
\<close>

datatype clone_error =
    CloneFailed errno
  | PageSize errno
  | ResourceLimit errno
  | ZeroStackSize
  | StackAllocation errno
  | GuardPage errno
  | UnknownErrno int

text \<open>
  A call returns in the process that made it; or the process is a new one, which runs the
  callback and exits, or is aborted.
\<close>

datatype 'a forked = Returned 'a | ProcessExit int | ProcessAbort

text \<open>The exit code of a result, when there is one.\<close>

fun report_result :: "('e \<Rightarrow> int) \<Rightarrow> ('e, 'a) res \<Rightarrow> int option" where
  "report_result report (Ok _) = Some 0"
| "report_result report (Err v) = Some (report v)"
| "report_result report Panic = None"

definition report_anyhow :: "'e \<Rightarrow> int" where
  "report_anyhow e = - 1"

definition report_i32 :: "int \<Rightarrow> int" where
  "report_i32 n = n"

definition SIGCHLD_number :: "64 word" where "SIGCHLD_number = 17"
definition CLONE_PARENT :: "32 word" where "CLONE_PARENT = 0x8000"

definition as_i32 :: "int \<Rightarrow> int" where
  "as_i32 n = signed_take_bit 31 n"

definition clone3_request :: "64 word \<Rightarrow> 64 word option \<Rightarrow> clone3_args" where
  "clone3_request flags exit_signal =
     \<lparr>clone_flags = flags, clone_pidfd = 0, clone_child_tid = 0, clone_parent_tid = 0,
       clone_exit_signal = (case exit_signal of Some s \<Rightarrow> s | None \<Rightarrow> 0),
       clone_stack = 0, clone_stack_size = 0, clone_tls = 0, clone_set_tid = 0, clone_set_tid_size = 0,
       clone_cgroup = 0\<rparr>"

text \<open>
  A callback may not return; then the new process runs for ever. It may make a process of its
  own. A panic unwinds into the caller of \<open>clone\<close>, in the new process, or aborts it when there is
  no caller on its stack.
\<close>

type_synonym ('k, 'e, 'a) callback = "'k kernel_scheme \<Rightarrow> (('e, 'a) res forked \<times> 'k kernel_scheme) option"

type_synonym 'k cloning = "((clone_error, pid) res forked \<times> 'k kernel_scheme) option"

definition run_child ::
    "('k, 'e, 'a) callback \<Rightarrow> ('e \<Rightarrow> int) \<Rightarrow> (clone_error, pid) res forked \<Rightarrow> 'k kernel_scheme \<Rightarrow> 'k cloning" where
  "run_child cb report on_panic k =
     map_option (\<lambda>(r, k').
       (case r of
          Returned v \<Rightarrow> (case report_result report v of Some n \<Rightarrow> ProcessExit n | None \<Rightarrow> on_panic)
        | ProcessExit n \<Rightarrow> ProcessExit n
        | ProcessAbort \<Rightarrow> ProcessAbort, k')) (cb k)"

definition clone3 ::
    "('k, 'e, 'a) callback \<Rightarrow> ('e \<Rightarrow> int) \<Rightarrow> 64 word \<Rightarrow> 64 word option \<Rightarrow> 'k kernel_scheme \<Rightarrow> 'k cloning" where
  "clone3 cb report flags exit_signal k =
     (case ask ret_answer (Clone3 (clone3_request flags exit_signal)) k of
        ((ret, e), k1) \<Rightarrow>
          if ret = - 1 then Some (Returned (Err (CloneFailed e)), k1)
          else if ret = 0 then run_child cb report (Returned Panic) k1
          else if ret \<ge> 0 then Some (Returned (Ok (as_i32 ret)), k1)
          else Some (Returned (Err (UnknownErrno (as_i32 ret))), k1))"

text \<open>
  The fallback needs a stack of its own for the child. \<open>sysconf\<close> answers \<open>- 1\<close> without an error
  when a limit is not known.
\<close>

definition DEFAULT_STACK_SIZE :: nat where "DEFAULT_STACK_SIZE = 8 * 1024 * 1024"
definition DEFAULT_PAGE_SIZE :: nat where "DEFAULT_PAGE_SIZE = 4 * 1024"

definition sysconf_page_size :: "('k kernel_scheme, errno, nat option) op" where
  "sysconf_page_size k =
     (case ask ret_answer (Memory SysConfPageSize) k of
        ((ret, e), k1) \<Rightarrow>
          (if ret = - 1 then if e = 0 then Ok None else Err e else Ok (Some (nat ret)), k1))"

text \<open>The child of the fallback starts here, on the new stack.\<close>

definition clone_main :: "('k, 'e, 'a) callback \<Rightarrow> ('e \<Rightarrow> int) \<Rightarrow> 'k kernel_scheme \<Rightarrow> 'k cloning" where
  "clone_main cb report k = run_child cb report ProcessAbort k"

definition clone_fallback :: "64 word \<Rightarrow> 64 word option \<Rightarrow> ('k kernel_scheme, clone_error, pid) op" where
  "clone_fallback flags exit_signal =
     io_bind (on_error PageSize sysconf_page_size) (\<lambda>size.
     let page_size = (case size of Some n \<Rightarrow> n | None \<Rightarrow> DEFAULT_PAGE_SIZE) in
     io_bind (on_error ResourceLimit (sum_call num_answer (Memory GetRLimitStack))) (\<lambda>rlim_cur.
     let default_stack_size = (if rlim_cur \<noteq> 2 ^ 64 - 1 then rlim_cur else DEFAULT_STACK_SIZE) in
     io_bind (if default_stack_size = 0 then io_fail ZeroStackSize
              else on_error StackAllocation (sum_call num_answer (Memory (MMap default_stack_size)))) (\<lambda>child_stack.
     io_then (on_error GuardPage (unit_call (Memory (MProtect child_stack page_size))))
     (let child_stack_top = child_stack + default_stack_size;
          combined_flags = ucast (flags OR (case exit_signal of Some s \<Rightarrow> s | None \<Rightarrow> 0))
      in (\<lambda>k. case ask ret_answer (CloneFn child_stack_top combined_flags) k of
          ((ret, e), k1) \<Rightarrow>
            (if ret = - 1 then Err (CloneFailed e) else if ret > 0 then Ok ret else Panic, k1))))))"

definition clone_internal ::
    "('k, 'e, 'a) callback \<Rightarrow> ('e \<Rightarrow> int) \<Rightarrow> 64 word \<Rightarrow> 64 word option \<Rightarrow> 'k kernel_scheme \<Rightarrow> 'k cloning" where
  "clone_internal cb report flags exit_signal k =
     (case clone3 cb report flags exit_signal k of
        None \<Rightarrow> None
      | Some (ProcessExit n, k1) \<Rightarrow> Some (ProcessExit n, k1)
      | Some (ProcessAbort, k1) \<Rightarrow> Some (ProcessAbort, k1)
      | Some (Returned (Ok p), k1) \<Rightarrow> Some (Returned (Ok p), k1)
      | Some (Returned (Err e), k1) \<Rightarrow>
          if e = CloneFailed ENOSYS then
            (case clone_fallback flags exit_signal k1 of (r, k2) \<Rightarrow> Some (Returned r, k2))
          else Some (Returned (Err e), k1)
      | Some (Returned Panic, k1) \<Rightarrow> Some (Returned Panic, k1))"

text \<open>The bits of \<open>CloneFlags\<close> are a \<open>c_int\<close>, whose sign is extended.\<close>

definition clone_process ::
    "('k, 'e, 'a) callback \<Rightarrow> ('e \<Rightarrow> int) \<Rightarrow> 32 word \<Rightarrow> 'k kernel_scheme \<Rightarrow> 'k cloning" where
  "clone_process cb report flags =
     (if flags AND CLONE_PARENT \<noteq> 0 then clone_internal cb report (scast flags) None
      else clone_internal cb report (scast flags) (Some SIGCHLD_number))"

section \<open>The two ways agree\<close>

lemma low_byte: "(255 :: 'a :: len word) = mask 8"
  by (simp add: mask_eq_exp_minus_1)

lemma combined_flags:
  fixes flags :: "32 word" and s :: "64 word"
  assumes "flags AND 255 = 0" and "s AND 255 = s"
  defines "c \<equiv> (ucast ((scast flags :: 64 word) OR s) :: 32 word)"
  shows "c AND NOT 255 = flags" and "ucast (c AND 255) = s"
proof -
  have low: "\<not> bit flags n" if "n < 8" "n < 32" for n
    using arg_cong [OF assms(1), of "\<lambda>w. bit w n"] that by (simp add: bit_and_iff low_byte bit_mask_iff)
  have high: "n < 8" if "bit s n" for n
    using arg_cong [OF assms(2), of "\<lambda>w. bit w n"] that by (simp add: bit_and_iff low_byte bit_mask_iff)
  have c: "bit c n \<longleftrightarrow> bit flags n \<or> bit s n" if "n < 32" for n
    using that by (cases "n = 31") (auto simp: c_def bit_ucast_iff bit_or_iff bit_signed_iff min_def)
  have s_c: "bit c n \<and> n < 32" if "bit s n" for n using high [OF that] that c [of n] by simp
  show "c AND NOT 255 = flags"
    using low high c by (auto intro!: bit_word_eqI simp: bit_and_iff bit_not_iff low_byte bit_mask_iff)
  show "ucast (c AND 255) = s"
    using low high c s_c by (auto intro!: bit_word_eqI simp: bit_and_iff bit_ucast_iff low_byte bit_mask_iff)
qed

text \<open>The calls of the fallback: those of the whole sequence, or a part of it when one fails.\<close>

lemma traces_page_size [trace_rules]:
  "(\<And>n. Q (Ok n) [Memory SysConfPageSize]) \<Longrightarrow> (\<And>e. Q (Err e) [Memory SysConfPageSize]) \<Longrightarrow> traces sysconf_page_size Q k"
  by (cases "ret_answer k (history k @ [Memory SysConfPageSize])")
    (auto intro!: tracesI [OF _ made_record [of _ "Memory SysConfPageSize"]] simp: sysconf_page_size_def ask_def record_call_def Let_def)

lemma traces_clone_fn [trace_rules]:
  assumes "\<And>x. Q (Ok x) [CloneFn stack fl]" "\<And>e. Q (Err e) [CloneFn stack fl]" "Q Panic [CloneFn stack fl]"
  shows "traces (\<lambda>k. case ask ret_answer (CloneFn stack fl) k of ((ret, e), k1) \<Rightarrow>
    (if ret = - 1 then Err (CloneFailed e) else if ret > 0 then Ok ret else Panic, k1)) Q k"
  using assms by (auto simp: traces_def ask_def Let_def made_record intro!: exI [of _ "[CloneFn stack fl]"] split: prod.splits)

definition fallback_calls :: "64 word \<Rightarrow> 64 word option \<Rightarrow> (clone_error, pid) res \<Rightarrow> call list \<Rightarrow> bool" where
  "fallback_calls flags exit_signal r cs \<longleftrightarrow>
     (\<exists>page size addr. 0 < size \<and>
        prefix cs [Memory SysConfPageSize, Memory GetRLimitStack, Memory (MMap size), Memory (MProtect addr page),
          CloneFn (addr + size) (ucast (flags OR (case exit_signal of Some s \<Rightarrow> s | None \<Rightarrow> 0)))] \<and>
        ((\<exists>p. r = Ok p) \<longrightarrow> length cs = 5))"

lemma fallback_calls_steps:
  "fallback_calls flags sig (Err e) [Memory SysConfPageSize]"
  "fallback_calls flags sig (Err e) [Memory SysConfPageSize, Memory GetRLimitStack]"
  "n \<noteq> 0 \<Longrightarrow> fallback_calls flags sig (Err e) [Memory SysConfPageSize, Memory GetRLimitStack, Memory (MMap n)]"
  "n \<noteq> 0 \<Longrightarrow> fallback_calls flags sig (Err e) [Memory SysConfPageSize, Memory GetRLimitStack, Memory (MMap n), Memory (MProtect addr page)]"
  "n \<noteq> 0 \<Longrightarrow> fallback_calls flags sig r [Memory SysConfPageSize, Memory GetRLimitStack, Memory (MMap n), Memory (MProtect addr page),
     CloneFn (addr + n) (ucast (flags OR (case sig of Some s \<Rightarrow> s | None \<Rightarrow> 0)))]"
  unfolding fallback_calls_def by (force simp: prefix_Cons)+

lemma clone_fallback_calls: "traces (clone_fallback flags exit_signal) (fallback_calls flags exit_signal) k"
  unfolding clone_fallback_def Let_def
  by (rule allI impI trace_rules fallback_calls_steps | assumption | simp only: res.case map_err.simps append.simps)+

lemma fallback_calls_whole:
  assumes "fallback_calls flags sig r cs" and "CloneFn stack fl \<in> set cs \<or> r = Ok p"
  obtains page n addr fl' where "0 < n" "fl' = ucast (flags OR (case sig of Some s \<Rightarrow> s | None \<Rightarrow> 0))"
    "cs = [Memory SysConfPageSize, Memory GetRLimitStack, Memory (MMap n), Memory (MProtect addr page), CloneFn (addr + n) fl']"
proof -
  from assms(1) obtain page n addr where n: "0 < n" and pre: "prefix cs [Memory SysConfPageSize, Memory GetRLimitStack, Memory (MMap n), Memory (MProtect addr page),
      CloneFn (addr + n) (ucast (flags OR (case sig of Some s \<Rightarrow> s | None \<Rightarrow> 0)))]" and len: "(\<exists>p. r = Ok p) \<longrightarrow> length cs = 5"
    unfolding fallback_calls_def by blast
  from pre assms(2) len have "cs = [Memory SysConfPageSize, Memory GetRLimitStack, Memory (MMap n), Memory (MProtect addr page),
      CloneFn (addr + n) (ucast (flags OR (case sig of Some s \<Rightarrow> s | None \<Rightarrow> 0)))]"
    by (auto simp: prefix_Cons)
  from that [OF n refl this] show thesis .
qed

definition exit_signal_of :: "32 word \<Rightarrow> 64 word option" where
  "exit_signal_of flags = (if flags AND CLONE_PARENT \<noteq> 0 then None else Some SIGCHLD_number)"


definition old_kernel :: kernel where
  "old_kernel = some_kernel\<lparr>ret_answer :=
     \<lambda>h. case last h of Clone3 _ \<Rightarrow> (- 1, ENOSYS) | Memory SysConfPageSize \<Rightarrow> (4096, 0) | _ \<Rightarrow> (17, 0)\<rparr>"


end
