(* ===== verification/Settings.thy ===== *)
theory Settings
  imports File_System
begin

text \<open>
  \<open>crates/daemon/src/settings.rs\<close>: the settings and their defaults. How they are read from the
  environment (the \<open>config\<close> crate) is not modelled: a setting is given or it is not.
\<close>

record linux_sub_id_setting =
  sub_min :: "32 word"
  sub_max :: "32 word"

record store_settings =
  setting_path :: bytes
  setting_temp :: bytes

text \<open>The Linux settings are flattened into those of the daemon.\<close>

record daemon_settings =
  sub_uid :: linux_sub_id_setting
  sub_gid :: linux_sub_id_setting
  tcp_bind :: "string list"
  socket_path :: bytes

record settings =
  settings_store :: store_settings
  settings_daemon :: daemon_settings

definition store_settings_default :: "bytes \<Rightarrow> store_settings" where
  "store_settings_default temp_dir =
     \<lparr>setting_path = bytes_of ''/var/nck/store'', setting_temp = path_join temp_dir (bytes_of ''nck'')\<rparr>"

definition default_socket_path :: bytes where
  "default_socket_path = bytes_of ''/var/nck/daemon.sock''"

definition daemon_settings_from ::
    "linux_sub_id_setting \<Rightarrow> linux_sub_id_setting \<Rightarrow> string list option \<Rightarrow> bytes option \<Rightarrow> daemon_settings" where
  "daemon_settings_from uid gid bind socket =
     \<lparr>sub_uid = uid, sub_gid = gid,
      tcp_bind = (case bind of None \<Rightarrow> [] | Some b \<Rightarrow> b),
      socket_path = (case socket of None \<Rightarrow> default_socket_path | Some p \<Rightarrow> p)\<rparr>"

definition settings_from :: "bytes \<Rightarrow> store_settings option \<Rightarrow> daemon_settings \<Rightarrow> settings" where
  "settings_from temp_dir store daemon =
     \<lparr>settings_store = (case store of None \<Rightarrow> store_settings_default temp_dir | Some s \<Rightarrow> s),
      settings_daemon = daemon\<rparr>"

end
