(* ===== verification/Sandbox_Processes.thy ===== *)
theory Sandbox_Processes
  imports Message_Channel Child_Process Process_Clone User_Ns Mounts Settings
begin

unbundle bit_operations_syntax

text \<open>
  \<open>crates/daemon/src/build/linux/process/\<close>: the processes of the daemon. The main process has a
  zygote, forked before any thread is started; for each sandbox it asks the zygote over a socket
  for a supervisor in new namespaces, which starts the sandbox. A process is modelled on its own,
  with what the others send in the queues of its sockets.
\<close>

section \<open>Messages and state\<close>

record sandbox_config =
  working :: bytes
  namespace :: user_namespace_config

datatype initial_request = Spawn sandbox_config
datatype spawn_error = SpawnError
datatype supervisor_mapped = Proceed | Exit
datatype supervisor_error = SupervisorError

type_synonym spawn_response = "spawn_error + unit"
type_synonym started = "supervisor_error + unit"

record codecs =
  request_to :: "initial_request \<Rightarrow> bytes option"
  request_from :: "bytes \<Rightarrow> initial_request option"
  response_to :: "spawn_response \<Rightarrow> bytes option"
  mapped_to :: "supervisor_mapped \<Rightarrow> bytes option"
  mapped_from :: "bytes \<Rightarrow> supervisor_mapped option"
  started_to :: "started \<Rightarrow> bytes option"
  started_from :: "bytes \<Rightarrow> started option"

text \<open>
  The open sockets by descriptor; the two ends that \<open>socketpair\<close> makes; and the next signal, if
  one ever comes.
\<close>

record os = kernel +
  sockets :: "fd \<Rightarrow> socket"
  pair_answer :: "call list \<Rightarrow> os_error + (fd \<times> fd)"
  signal_answer :: "call list \<Rightarrow> signal option"

datatype process_error =
    IoFailed error_kind
  | OsFailed os_error
  | CloneError clone_error
  | NixFailed errno
  | NamespaceFailed user_namespace_error
  | ProcessMessage string

type_synonym 'a process = "(process_error, 'a) res forked"

definition os_write :: "('m \<Rightarrow> bytes option) \<Rightarrow> 'm \<Rightarrow> fd list \<Rightarrow> fd \<Rightarrow> (os, process_error, unit) op" where
  "os_write to_vec m fds fd s =
     (case write_message to_vec m fds (sockets s fd) of
        (r, so) \<Rightarrow> (map_err IoFailed r, s\<lparr>sockets := (sockets s)(fd := so)\<rparr>))"

definition os_read ::
    "(bytes \<Rightarrow> 'm option) \<Rightarrow> (fd list \<Rightarrow> 'f \<Rightarrow> 'f) \<Rightarrow> 'f \<Rightarrow> fd \<Rightarrow> os \<Rightarrow> ((error_kind, 'm) res \<times> 'f \<times> os) option" where
  "os_read from_bytes ext f fd s =
     map_option (\<lambda>(r, f', so). (r, f', s\<lparr>sockets := (sockets s)(fd := so)\<rparr>)) (read_message from_bytes ext f (sockets s fd))"

definition socket_pair :: "(os, process_error, fd \<times> fd) op" where
  "socket_pair = on_error OsFailed (sum_call pair_answer SocketPair)"

definition dup_fd :: "fd \<Rightarrow> (os, process_error, fd) op" where
  "dup_fd fd s =
     (case sum_call num_answer (Dup fd) s of (r, s') \<Rightarrow> (map_err (\<lambda>e. OsFailed (Errno e)) r, s'))"

text \<open>A child that is dropped with a result.\<close>

definition drop_with :: "(process_error, 'a) res \<Rightarrow> child_process \<Rightarrow> os \<Rightarrow> ('a process \<times> os) option" where
  "drop_with r child s = map_option (\<lambda>s'. (Returned r, s')) (child_drop child s)"

section \<open>The sandbox and its supervisor\<close>

definition sandbox_process :: "fd \<Rightarrow> fd \<Rightarrow> (os, process_error, unit) op" where
  "sandbox_process sandbox_peer tmpfs = io_return ()"

definition sandbox_callback :: "fd \<Rightarrow> int \<Rightarrow> os \<Rightarrow> (unit process \<times> os) option" where
  "sandbox_callback sandbox_peer tmp s =
     (case dup_fd sandbox_peer s of
        (Ok fd, s1) \<Rightarrow>
          (case dup_fd (nat tmp) s1 of
             (Ok tmpfs, s2) \<Rightarrow> (case sandbox_process fd tmpfs s2 of (r, s3) \<Rightarrow> Some (Returned r, s3))
           | (_, s2) \<Rightarrow> Some (Returned Panic, s2))
      | (_, s1) \<Rightarrow> Some (Returned Panic, s1))"

definition supervisor_setup :: "(os, process_error, int) op" where
  "supervisor_setup =
     io_then (on_error NixFailed (set_id 0 0 []))
     (io_then (on_error NixFailed (mount_at None (bytes_of ''/tmp'') (Some (mount_type_name TmpFs)) MS_SHARED None))
     (io_bind (on_error NixFailed (clone_mount None (bytes_of ''/tmp''))) (\<lambda>tmp.
     (io_then (on_error NixFailed (unmount (bytes_of ''/tmp'') MNT_DETACH))
     (io_return tmp)))))"

definition fallible_supervisor_process ::
    "codecs \<Rightarrow> fd \<Rightarrow> fd \<Rightarrow> os \<Rightarrow> (child_process option process \<times> os) option" where
  "fallible_supervisor_process cd supervisor_peer sandbox_peer s =
     (case os_read (mapped_from cd) empty_fds_extend () supervisor_peer
         (snd (unit_call (SetName ''nck-supervisor'') s)) of
        None \<Rightarrow> None
      | Some (Err e, _, s1) \<Rightarrow> Some (Returned (Err (IoFailed e)), s1)
      | Some (Panic, _, s1) \<Rightarrow> Some (Returned Panic, s1)
      | Some (Ok Exit, _, s1) \<Rightarrow> Some (Returned (Ok None), s1)
      | Some (Ok Proceed, _, s1) \<Rightarrow>
          (case supervisor_setup s1 of
             (Err e, s2) \<Rightarrow> Some (Returned (Err e), s2)
           | (Panic, s2) \<Rightarrow> Some (Returned Panic, s2)
           | (Ok tmp, s2) \<Rightarrow>
               map_option (\<lambda>(r, s3).
                 ((case r of
                     Returned (Ok pid) \<Rightarrow> Returned (Ok (Some (child_from pid)))
                   | Returned (Err e) \<Rightarrow> Returned (Err (CloneError e))
                   | Returned Panic \<Rightarrow> Returned Panic
                   | ProcessExit n \<Rightarrow> ProcessExit n
                   | ProcessAbort \<Rightarrow> ProcessAbort), s3))
                 (clone_process (sandbox_callback sandbox_peer tmp) report_anyhow 0 s2)))"

text \<open>
  Waiting for a signal; \<open>None\<close> when none comes. Any answer but an error to the poll for a child
  makes the handle forget its own.
\<close>

definition wait_for_child :: "child_process \<Rightarrow> os \<Rightarrow> (unit process \<times> os) option" where
  "wait_for_child child s =
     (case io_call SignalsNew s of
        (Err e, s1) \<Rightarrow> drop_with (Err (OsFailed e)) child s1
      | (Panic, s1) \<Rightarrow> drop_with Panic child s1
      | (Ok _, s1) \<Rightarrow>
          (case ask signal_answer NextSignal s1 of
             (None, s2) \<Rightarrow> None
           | (Some SIGCHLD, s2) \<Rightarrow>
               (case wait_call (- 1) s2 of
                  (Ok _, s3) \<Rightarrow> drop_with (Ok ()) (snd (child_take child)) s3
                | (_, s3) \<Rightarrow> drop_with (Ok ()) child s3)
           | (Some _, s2) \<Rightarrow> drop_with (Ok ()) child s2))"

definition supervisor_process :: "codecs \<Rightarrow> fd \<Rightarrow> fd \<Rightarrow> os \<Rightarrow> (unit process \<times> os) option" where
  "supervisor_process cd supervisor_peer sandbox_peer s =
     (case fallible_supervisor_process cd supervisor_peer sandbox_peer s of
        None \<Rightarrow> None
      | Some (ProcessExit n, s1) \<Rightarrow> Some (ProcessExit n, s1)
      | Some (ProcessAbort, s1) \<Rightarrow> Some (ProcessAbort, s1)
      | Some (Returned Panic, s1) \<Rightarrow> Some (Returned Panic, s1)
      | Some (Returned (Ok (Some child)), s1) \<Rightarrow>
          (case os_write (started_to cd) (Inr ()) [] supervisor_peer s1 of
             (Ok _, s2) \<Rightarrow> wait_for_child child s2
           | (r, s2) \<Rightarrow> drop_with r child s2)
      | Some (Returned (Ok None), s1) \<Rightarrow> Some (Returned (Ok ()), s1)
      | Some (Returned (Err error), s1) \<Rightarrow>
          (case os_write (started_to cd) (Inl SupervisorError) [] supervisor_peer s1 of
             (Ok _, s2) \<Rightarrow> Some (Returned (Err error), s2)
           | (r, s2) \<Rightarrow> Some (Returned r, s2)))"

section \<open>The zygote\<close>

definition CLONE_NEWNS :: "32 word" where "CLONE_NEWNS = 0x20000"
definition CLONE_NEWUSER :: "32 word" where "CLONE_NEWUSER = 0x10000000"
definition CLONE_NEWPID :: "32 word" where "CLONE_NEWPID = 0x20000000"

text \<open>The part of \<open>spawn\<close> after the clone, in the parent.\<close>

definition spawn_supervised :: "codecs \<Rightarrow> sandbox_config \<Rightarrow> fd \<Rightarrow> pid \<Rightarrow> os \<Rightarrow> (unit process \<times> os) option" where
  "spawn_supervised cd config local_peer p s =
     (let child = child_from p in
      case write_mappings (namespace config) p s of
        (Err error, s1) \<Rightarrow>
          (case os_write (mapped_to cd) Exit [] local_peer s1 of
             (Panic, s2) \<Rightarrow> drop_with Panic child s2
           | (_, s2) \<Rightarrow> drop_with (Err (NamespaceFailed error)) child s2)
      | (Panic, s1) \<Rightarrow> drop_with Panic child s1
      | (Ok _, s1) \<Rightarrow>
          (case os_write (mapped_to cd) Proceed [] local_peer s1 of
             (Ok _, s2) \<Rightarrow>
               (case os_read (started_from cd) empty_fds_extend () local_peer s2 of
                  None \<Rightarrow> None
                | Some (Err e, _, s3) \<Rightarrow> drop_with (Err (IoFailed e)) child s3
                | Some (Panic, _, s3) \<Rightarrow> drop_with Panic child s3
                | Some (Ok (Inl _), _, s3) \<Rightarrow> drop_with (Err (ProcessMessage ''supervisor process failed'')) child s3
                | Some (Ok (Inr _), _, s3) \<Rightarrow>
                    Some (Returned (map_res (\<lambda>_. ()) (child_forget child)), s3))
           | (r, s2) \<Rightarrow> drop_with r child s2))"

definition spawn :: "codecs \<Rightarrow> sandbox_config \<Rightarrow> fd option \<Rightarrow> os \<Rightarrow> (unit process \<times> os) option" where
  "spawn cd config sandbox_peer s =
     (case sandbox_peer of
        None \<Rightarrow> Some (Returned (Err (ProcessMessage ''missing fd'')), s)
      | Some sandbox_peer \<Rightarrow>
          (case socket_pair s of
             (Err e, s1) \<Rightarrow> Some (Returned (Err e), s1)
           | (Panic, s1) \<Rightarrow> Some (Returned Panic, s1)
           | (Ok (supervisor_peer, local_peer), s1) \<Rightarrow>
               let cb = (\<lambda>s. case dup_fd sandbox_peer s of
                   (Ok fd, s') \<Rightarrow> supervisor_process cd supervisor_peer fd s'
                 | (Err e, s') \<Rightarrow> Some (Returned (Err e), s')
                 | (Panic, s') \<Rightarrow> Some (Returned Panic, s'))
               in
               (case clone_process cb report_anyhow (CLONE_NEWPID OR CLONE_NEWNS OR CLONE_NEWUSER) s1 of
                  None \<Rightarrow> None
                | Some (ProcessExit n, s2) \<Rightarrow> Some (ProcessExit n, s2)
                | Some (ProcessAbort, s2) \<Rightarrow> Some (ProcessAbort, s2)
                | Some (Returned (Err e), s2) \<Rightarrow> Some (Returned (Err (CloneError e)), s2)
                | Some (Returned Panic, s2) \<Rightarrow> Some (Returned Panic, s2)
                | Some (Returned (Ok p), s2) \<Rightarrow> spawn_supervised cd config local_peer p s2)))"

definition pop_front :: "'a list \<Rightarrow> 'a option" where
  "pop_front xs = (case xs of [] \<Rightarrow> None | x # _ \<Rightarrow> Some x)"

partial_function (option) zygote_loop :: "codecs \<Rightarrow> fd \<Rightarrow> fd list \<Rightarrow> os \<Rightarrow> (unit process \<times> os) option" where
  "zygote_loop cd peer fds s =
     (case os_read (request_from cd) (\<lambda>new fds. fds @ new) fds peer s of
        None \<Rightarrow> None
      | Some (Err e, _, s1) \<Rightarrow>
          if is_closed_channel e then Some (Returned (Ok ()), s1) else Some (Returned (Err (IoFailed e)), s1)
      | Some (Panic, _, s1) \<Rightarrow> Some (Returned Panic, s1)
      | Some (Ok (Spawn config), fds', s1) \<Rightarrow>
          (case spawn cd config (pop_front fds') s1 of
             None \<Rightarrow> None
           | Some (ProcessExit n, s2) \<Rightarrow> Some (ProcessExit n, s2)
           | Some (ProcessAbort, s2) \<Rightarrow> Some (ProcessAbort, s2)
           | Some (Returned Panic, s2) \<Rightarrow> Some (Returned Panic, s2)
           | Some (Returned r, s2) \<Rightarrow>
               (case os_write (response_to cd) (if is_ok r then Inr () else Inl SpawnError) [] peer s2 of
                  (Ok _, s3) \<Rightarrow> zygote_loop cd peer [] s3
                | (r', s3) \<Rightarrow> Some (Returned r', s3))))"

definition zygote_process :: "codecs \<Rightarrow> fd \<Rightarrow> os \<Rightarrow> (unit process \<times> os) option" where
  "zygote_process cd peer s = zygote_loop cd peer [] s"

section \<open>The main process\<close>

record controller =
  controller_zygote :: child_process
  controller_socket :: fd
  controller_settings :: daemon_settings

record sandbox =
  sandbox_channel :: fd

datatype main_error = SpawnIo process_error | SpawnUserNamespace user_namespace_error | SpawnFailed spawn_error

definition main_process :: "codecs \<Rightarrow> daemon_settings \<Rightarrow> os \<Rightarrow> (controller process \<times> os) option" where
  "main_process cd settings s =
     (case socket_pair s of
        (Err e, s1) \<Rightarrow> Some (Returned (Err e), s1)
      | (Panic, s1) \<Rightarrow> Some (Returned Panic, s1)
      | (Ok (parent, child), s1) \<Rightarrow>
          let cb = (\<lambda>s. case dup_fd child s of
              (Ok c, s') \<Rightarrow> zygote_process cd c s'
            | (Err e, s') \<Rightarrow> Some (Returned (Err (ProcessMessage ''failed to clone child socket'')), s')
            | (Panic, s') \<Rightarrow> Some (Returned Panic, s'))
          in map_option (\<lambda>(r, s2).
               ((case r of
                   Returned (Ok p) \<Rightarrow>
                     Returned (Ok \<lparr>controller_zygote = child_from p, controller_socket = parent, controller_settings = settings\<rparr>)
                 | Returned (Err e) \<Rightarrow> Returned (Err (CloneError e))
                 | Returned Panic \<Rightarrow> Returned Panic
                 | ProcessExit n \<Rightarrow> ProcessExit n
                 | ProcessAbort \<Rightarrow> ProcessAbort), s2))
               (clone_process cb report_anyhow 0 s1))"

definition make_async :: "fd \<Rightarrow> (os, process_error, unit) op" where
  "make_async fd =
     io_then (on_error OsFailed (io_call (SetNonBlocking fd))) (on_error OsFailed (io_call (Register fd)))"

text \<open>On an error the pending controller is dropped, and the zygote with it.\<close>

definition into_controller :: "controller \<Rightarrow> os \<Rightarrow> (controller process \<times> os) option" where
  "into_controller c s =
     (case make_async (controller_socket c) s of
        (Ok _, s1) \<Rightarrow> Some (Returned (Ok c), s1)
      | (Err e, s1) \<Rightarrow> drop_with (Err e) (controller_zygote c) s1
      | (Panic, s1) \<Rightarrow> drop_with Panic (controller_zygote c) s1)"

definition os_write_async :: "('m \<Rightarrow> bytes option) \<Rightarrow> 'm \<Rightarrow> fd list \<Rightarrow> fd \<Rightarrow> (os, process_error, unit) op" where
  "os_write_async to_vec m fds fd s =
     (case write_message_async to_vec m fds (sockets s fd) of
        (r, so) \<Rightarrow> (map_err IoFailed r, s\<lparr>sockets := (sockets s)(fd := so)\<rparr>))"

definition sandbox_ids :: "daemon_settings \<Rightarrow> 32 word \<Rightarrow> sandbox_config \<Rightarrow> sandbox_config" where
  "sandbox_ids settings gid config =
     config\<lparr>namespace := (namespace config)
       \<lparr>uid_mappings := uid_mappings (namespace config) @ [id_mapping_new 0 (sub_min (sub_uid settings)) 1],
        gid_mappings := gid_mappings (namespace config) @ [id_mapping_new 0 gid 1]\<rparr>\<rparr>"

definition spawn_async :: "codecs \<Rightarrow> controller \<Rightarrow> sandbox_config \<Rightarrow> (os, main_error, sandbox) op" where
  "spawn_async cd c config s =
     (case ask ret_answer GetGid s of ((gid, _), s1) \<Rightarrow>
        on_error SpawnIo
          (io_bind socket_pair (\<lambda>(sandbox_peer, local_sandbox_peer).
           io_then (make_async local_sandbox_peer)
           (io_then (os_write_async (request_to cd)
              (Spawn (sandbox_ids (controller_settings c) (word_of_int gid) config)) [sandbox_peer] (controller_socket c))
           (io_return \<lparr>sandbox_channel = local_sandbox_peer\<rparr>)))) s1)"

section \<open>Steps of a process\<close>

text \<open>\<open>advanced s cs s'\<close>: the calls \<open>cs\<close> lead from \<open>s\<close> to \<open>s'\<close>; sockets may have changed as well.\<close>

definition advanced :: "os \<Rightarrow> call list \<Rightarrow> os \<Rightarrow> bool" where
  "advanced s cs s' \<longleftrightarrow> history s' = history s @ cs \<and> clock_at s' = clock_at s"

lemma advanced_made: "made s cs s' \<Longrightarrow> advanced s cs s'"
  by (simp add: advanced_def made_def)

lemma advanced_trans: "advanced s cs s1 \<Longrightarrow> advanced s1 ds s2 \<Longrightarrow> advanced s (cs @ ds) s2"
  by (simp add: advanced_def)

lemma advanced_clock: "advanced s cs s' \<Longrightarrow> clock_lawful s' = clock_lawful s"
  by (simp add: advanced_def clock_lawful_def)

lemma advanced_write: "os_write to_vec m fds fd s = (r, s') \<Longrightarrow> advanced s [] s'"
  by (auto simp: os_write_def advanced_def split: prod.splits)

lemma advanced_read: "os_read from_bytes ext f fd s = Some (r, f', s') \<Longrightarrow> advanced s [] s'"
  by (auto simp: os_read_def advanced_def)

lemma drop_kills:
  assumes "drop_with r (Some p) s = Some (v, s')" and "clock_lawful s"
  obtains cs where "v = Returned r" "advanced s (Kill p SIGTERM # cs) s'"
proof -
  obtain k' cs where "child_drop (Some p) s = Some k'" "made s (Kill p SIGTERM # cs) k'"
    using child_drop_kills [OF assms(2)] .
  with assms(1) show thesis by (intro that) (auto simp: drop_with_def intro: advanced_made)
qed

lemma write_mappings_execs:
  assumes "write_mappings cfg p s = (r, s')"
  obtains cs where "advanced s cs s'" "\<And>q sig. Kill q sig \<notin> set cs"
proof -
  have "all_calls (\<lambda>c. \<forall>q sig. c \<noteq> Kill q sig) (write_mappings cfg p :: (os, _, _) op)"
    by (intro calls) simp
  from all_callsD [OF this assms] show thesis using that advanced_made by metis
qed

text \<open>
  How \<open>spawn\<close> can leave the supervisor \<open>p\<close>: told to end when there is an error, and not when there
  is none.
\<close>

definition settled :: "pid \<Rightarrow> os \<Rightarrow> unit process \<Rightarrow> os \<Rightarrow> bool" where
  "settled p s r s' \<longleftrightarrow> (\<exists>v cs. r = Returned v \<and> history s' = history s @ cs \<and>
     (v = Ok () \<longrightarrow> (\<forall>q sig. Kill q sig \<notin> set cs)) \<and> (v \<noteq> Ok () \<longrightarrow> Kill p SIGTERM \<in> set cs))"

lemma settled_dropped:
  assumes "drop_with v (Some p) s1 = Some (r, s')" and "advanced s cs s1" and "v \<noteq> Ok ()" and "clock_lawful s"
  shows "settled p s r s'"
proof -
  have "clock_lawful s1" using advanced_clock [OF assms(2)] assms(4) by simp
  from drop_kills [OF assms(1) this] obtain ds where "r = Returned v" "advanced s1 (Kill p SIGTERM # ds) s'" .
  with advanced_trans [OF assms(2)] assms(3) show ?thesis
    unfolding settled_def by (intro exI [of _ v] exI [of _ "cs @ Kill p SIGTERM # ds"]) (simp add: advanced_def)
qed

lemma settled_started:
  "advanced s cs s' \<Longrightarrow> (\<And>q sig. Kill q sig \<notin> set cs) \<Longrightarrow> settled p s (Returned (Ok ())) s'"
  unfolding settled_def by (intro exI [of _ "Ok ()"] exI [of _ cs]) (simp add: advanced_def)

lemma child_from_pid: "child_from p = Some p"
  by (simp add: child_from_def child_new_def)

text \<open>The part after the mappings have been written.\<close>

lemma supervised_mapped:
  assumes "clock_lawful s" and "spawn_supervised cd config fd p s = Some (r, s')"
    and m: "write_mappings (namespace config) p s = (Ok u, s1)" and cs: "advanced s cs s1" "\<And>q sig. Kill q sig \<notin> set cs"
  shows "settled p s r s'"
proof -
  note defs = assms(2) m child_from_pid
  obtain w s2 where w: "os_write (mapped_to cd) Proceed [] fd s1 = (w, s2)" by fastforce
  have s2: "advanced s cs s2" using advanced_trans [OF cs(1) advanced_write [OF w]] by simp
  show ?thesis
  proof (cases "w = Ok ()")
    case False
    with settled_dropped [OF _ s2 False assms(1)] defs w show ?thesis
      by (cases w) (auto simp: spawn_supervised_def Let_def)
  next
    case True
    with defs w obtain a f s3 where read: "os_read (started_from cd) empty_fds_extend () fd s2 = Some (a, f, s3)"
      by (auto simp: spawn_supervised_def Let_def split: option.splits)
    have s3: "advanced s cs s3" using advanced_trans [OF s2 advanced_read [OF read]] by simp
    show ?thesis
    proof (cases "\<exists>x. a = Ok (Inr x)")
      case started: True
      with defs w True read have "r = Returned (Ok ())" "s' = s3"
        by (auto simp: spawn_supervised_def Let_def child_forget_def child_take_def)
      with settled_started [OF s3 cs(2)] show ?thesis by simp
    next
      case not_started: False
      then obtain v where "drop_with v (Some p) s3 = Some (r, s')" "v \<noteq> Ok ()"
        using defs w True read by (cases a) (auto simp: spawn_supervised_def Let_def split: sum.splits)
      with settled_dropped [OF _ s3 _ assms(1)] show ?thesis by blast
    qed
  qed
qed

lemma supervised_settled:
  assumes "clock_lawful s" and "spawn_supervised cd config fd p s = Some (r, s')"
  shows "settled p s r s'"
proof -
  obtain m s1 where m: "write_mappings (namespace config) p s = (m, s1)" by fastforce
  obtain cs where cs: "advanced s cs s1" "\<And>q sig. Kill q sig \<notin> set cs" using write_mappings_execs [OF m] by blast
  show ?thesis
  proof (cases m)
    case (Err error)
    obtain w s2 where w: "os_write (mapped_to cd) Exit [] fd s1 = (w, s2)" by fastforce
    have "advanced s cs s2" using advanced_trans [OF cs(1) advanced_write [OF w]] by simp
    with settled_dropped [OF _ this _ assms(1)] assms(2) m w Err child_from_pid show ?thesis
      by (cases w) (auto simp: spawn_supervised_def Let_def)
  next
    case Panic
    with settled_dropped [OF _ cs(1) _ assms(1)] assms(2) m child_from_pid show ?thesis
      by (auto simp: spawn_supervised_def Let_def)
  next
    case (Ok u)
    with supervised_mapped [OF assms _ cs] m show ?thesis by simp
  qed
qed

text \<open>
  C32: A supervisor is never left behind: when the part of \<open>spawn\<close> after the clone returns an
  error, or panics, the supervisor has been sent a signal to end; when it succeeds no signal has
  been sent to anyone.
\<close>

theorem spawn_no_orphan:
  assumes "clock_lawful s" and "spawn_supervised cd config fd p s = Some (r, s')"
  shows "\<exists>v cs. r = Returned v \<and> history s' = history s @ cs \<and>
    (v = Ok () \<longrightarrow> (\<forall>q sig. Kill q sig \<notin> set cs)) \<and> (v \<noteq> Ok () \<longrightarrow> Kill p SIGTERM \<in> set cs)"
  using supervised_settled [OF assms] by (simp add: settled_def)

definition some_socket :: socket where
  "some_socket = \<lparr>sent = [], queue = [], sock_script = [], peer_gone = True\<rparr>"

definition some_os :: os where
  "some_os = kernel.extend some_kernel \<lparr>sockets = \<lambda>_. some_socket, pair_answer = \<lambda>_. Inr (3, 4), signal_answer = \<lambda>_. None\<rparr>"

definition some_codecs :: codecs where
  "some_codecs = \<lparr>request_to = \<lambda>_. Some [1], request_from = \<lambda>_. Some (Spawn \<lparr>working = [], namespace = root_mapping\<rparr>),
     response_to = \<lambda>_. Some [1], mapped_to = \<lambda>_. Some [1], mapped_from = \<lambda>_. Some Proceed,
     started_to = \<lambda>_. Some [1], started_from = \<lambda>_. Some (Inr ())\<rparr>"

lemma some_os_fields [simp]:
  "history some_os = []" "sockets some_os = (\<lambda>_. some_socket)" "exec_answer some_os = exec_answer some_kernel"
  "clock_lawful some_os" "pair_answer some_os = (\<lambda>_. Inr (3, 4))" "ret_answer some_os = ret_answer some_kernel"
  using some_clock by (simp_all add: some_os_def kernel.defs some_kernel_def clock_lawful_def)

theorem spawn_no_orphan_witness:
  "\<exists>r s'. spawn_supervised some_codecs \<lparr>working = [], namespace = root_mapping\<lparr>uid_mappings := []\<rparr>\<rparr> 4 17 some_os = Some (r, s') \<and>
    Kill 17 SIGTERM \<in> set (history s')"
proof -
  let ?config = "\<lparr>working = [], namespace = root_mapping\<lparr>uid_mappings := []\<rparr>\<rparr>"
  obtain m s1 where m: "write_mappings (namespace ?config) 17 some_os = (m, s1)" by fastforce
  have "fst (write_mappings (namespace ?config) 17 some_os) = Err (IDMapping NoIDMapping)"
    by (simp add: write_mappings_def write_gid_mapping_def write_uid_mapping_def write_id_mapping_def on_error_def
        io_then_def io_bind_def root_mapping_def sum_call_def ask_def record_call_def some_kernel_def Let_def)
  with m have err: "m = Err (IDMapping NoIDMapping)" by simp
  obtain w s2 where w: "os_write (mapped_to some_codecs) Exit [] 4 s1 = (w, s2)" by fastforce
  obtain cs where "advanced some_os cs s1" using m by (rule write_mappings_execs)
  from advanced_clock [OF advanced_trans [OF this advanced_write [OF w]]] have "clock_lawful s2" by simp
  then obtain k' where "child_drop (Some 17) s2 = Some k'" by (rule child_drop_kills [where p = 17])
  with m err w obtain r s' where run: "spawn_supervised some_codecs ?config 4 17 some_os = Some (r, s')" and "r \<noteq> Returned (Ok ())"
    by (cases w) (auto simp: spawn_supervised_def drop_with_def child_from_def child_new_def)
  with spawn_no_orphan [OF _ run] show ?thesis by fastforce
qed

text \<open>A reader of a socket from which nothing more comes.\<close>

lemma os_read_starved:
  assumes "quiet_script False (sockets s fd)" and "peer_gone (sockets s fd)" and "length (queue (sockets s fd)) < 8"
  shows "os_read from_bytes ext f fd s = None"
  using read_impl_starved [OF _ assms, of ext "[]" f]
  by (cases "read_impl ext [] 8 f (sockets s fd)") (auto simp: os_read_def read_message_def)

lemma os_write_quiet:
  assumes "quiet_script False (sockets s fd)" and "to_vec m \<noteq> None"
  obtains s' where "os_write to_vec m fds fd s = (Ok (), s')" "quiet_script False (sockets s' fd)"
    "queue (sockets s' fd) = queue (sockets s fd)" "peer_gone (sockets s' fd) = peer_gone (sockets s fd)"
proof -
  obtain bs where bs: "to_vec m = Some bs" using assms(2) by blast
  have "succeeds (write_message to_vec m fds) (\<lambda>_ s'. quiet_script False s') (sockets s fd)"
    unfolding write_message_def bs option.case Let_def
    by (rule succeeds_thenI [OF write_impl_law [OF assms(1)]]) (auto intro: succeeds_mono [OF write_impl_law])
  then obtain so where so: "write_message to_vec m fds (sockets s fd) = (Ok (), so)" "quiet_script False so"
    by (auto simp: succeeds_def)
  with undisturbed_keeps [OF undisturbed_write_message(1) so(1)] show thesis
    by (intro that [of "s\<lparr>sockets := (sockets s)(fd := so)\<rparr>"]) (simp_all add: os_write_def)
qed


definition request_os :: os where
  "request_os = some_os\<lparr>sockets := (\<lambda>_. some_socket)(9 := some_socket
     \<lparr>queue := [(1, [6]), (0, []), (0, []), (0, []), (0, []), (0, []), (0, []), (0, []), (1, [])]\<rparr>)\<rparr>"

lemma read_impl_whole:
  assumes "recv_fds n s = Some (Ok (bs, new), s')" and "length bs = n" and "0 < n"
  shows "read_impl ext acc n f s = Some (Ok (acc @ bs), ext new f, s')"
  using assms by (simp add: read_impl.simps [of ext acc n f s] read_impl.simps [of ext "acc @ bs" 0])

lemma request_read:
  "os_read (request_from some_codecs) (\<lambda>new fds. fds @ new) [] 9 request_os =
     Some (Ok (Spawn \<lparr>working = [], namespace = root_mapping\<rparr>), [6], some_os)"
proof -
  let ?rest = "some_socket\<lparr>queue := [(1, [])]\<rparr>"
  have "recv_fds 8 (sockets request_os 9) = Some (Ok ([1, 0, 0, 0, 0, 0, 0, 0], [6]), ?rest)"
    by (simp add: recv_fds_def next_step_def request_os_def some_socket_def Let_def)
  from read_impl_whole [OF this, of "\<lambda>new fds. fds @ new" "[]" "[]"] have 1: "read_impl (\<lambda>new fds. fds @ new) [] 8 [] (sockets request_os 9) =
      Some (Ok [1, 0, 0, 0, 0, 0, 0, 0], [6], ?rest)" by simp
  have "recv_fds 1 ?rest = Some (Ok ([1], []), some_socket)"
    by (simp add: recv_fds_def next_step_def some_socket_def Let_def)
  from read_impl_whole [OF this, of "\<lambda>new fds. fds @ new" "[]" "[6]"] have 2: "read_impl (\<lambda>new fds. fds @ new) [] (Suc 0) [6] ?rest = Some (Ok [1], [6], some_socket)" by simp
  have "ne_value [1, 0, 0, 0, 0, 0, 0, 0] = 1" by (simp add: ne_value_def be_value.simps)
  with 1 2 show ?thesis
    by (simp add: os_read_def read_message_def some_codecs_def request_os_def some_os_def kernel.defs fun_eq_iff)
qed

definition mapped_kernel :: "pid \<Rightarrow> user_namespace_config \<Rightarrow> 'k kernel_scheme \<Rightarrow> 'k kernel_scheme" where
  "mapped_kernel p cfg k = record_call (map_command p (uid_mappings cfg) (newuidmap cfg))
     (record_call (map_command p (gid_mappings cfg) (newgidmap cfg)) k)"

lemma write_mappings_ok:
  assumes "\<And>h. exec_ok k h" and "uid_mappings cfg \<noteq> []" and "gid_mappings cfg \<noteq> []"
  shows "write_mappings cfg p k = (Ok (), mapped_kernel p cfg k)"
proof -
  have step: "write_id_mapping p ms binary k' = (Ok (), record_call (map_command p ms binary) k')"
    if "ms \<noteq> []" "exec_answer k' = exec_answer k" for ms binary k'
    by (cases rule: write_id_mapping_cases [of ms p binary k']) (use that assms(1) in \<open>auto simp: exec_ok_def\<close>)
  show ?thesis
    using assms(2,3)
    by (simp add: write_mappings_def write_gid_mapping_def write_uid_mapping_def on_error_def io_then_def io_bind_def
        step mapped_kernel_def made_fields [OF made_record])
qed


text \<open>What the peer of a socket sends, exchanged for something else; operations that do not see it.\<close>

definition peer_sends :: "wire_byte list \<Rightarrow> bool \<Rightarrow> fd \<Rightarrow> os \<Rightarrow> os" where
  "peer_sends q g fd s = s\<lparr>sockets := (sockets s)(fd := from_peer q g (sockets s fd))\<rparr>"

definition deaf :: "fd \<Rightarrow> (os, 'e, 'a) op \<Rightarrow> bool" where
  "deaf fd m \<longleftrightarrow> (\<forall>q g s. m (peer_sends q g fd s) = (fst (m s), peer_sends q g fd (snd (m s))))"

named_theorems deaf_rules "operations that do not see what a peer sends"

lemma deafD: "deaf fd m \<Longrightarrow> m s = (r, s') \<Longrightarrow> m (peer_sends q g fd s) = (r, peer_sends q g fd s')"
  by (simp add: deaf_def)

lemma deaf_bind [deaf_rules]: "deaf fd m \<Longrightarrow> (\<And>x. deaf fd (f x)) \<Longrightarrow> deaf fd (io_bind m f)"
  by (simp add: deaf_def io_bind_def split: prod.splits res.splits)

lemma deaf_then [deaf_rules]: "deaf fd m \<Longrightarrow> deaf fd n \<Longrightarrow> deaf fd (io_then m n)"
  unfolding io_then_def by (rule deaf_bind)

lemma deaf_return [deaf_rules]: "deaf fd (io_return x)"
  by (simp add: deaf_def)

lemma deaf_on_error [deaf_rules]: "deaf fd m \<Longrightarrow> deaf fd (on_error f m)"
  by (auto simp: deaf_def on_error_def split: prod.splits)

lemma deaf_io [deaf_rules]: "deaf fd (io_call c)"
  by (simp add: deaf_def io_call_def record_call_def peer_sends_def Let_def split: option.split)

lemma deaf_pair [deaf_rules]: "deaf fd socket_pair"
  unfolding socket_pair_def
  by (rule deaf_on_error) (simp add: deaf_def sum_call_def ask_def record_call_def peer_sends_def Let_def split: sum.split)

lemma deaf_write [deaf_rules]: "deaf fd (os_write_async to_vec m fds fd')"
proof -
  have "os_write_async to_vec m fds fd' (peer_sends q g fd s) =
      (fst (os_write_async to_vec m fds fd' s), peer_sends q g fd (snd (os_write_async to_vec m fds fd' s)))" for q g s
  proof -
    obtain r so where w: "write_message_async to_vec m fds (sockets s fd') = (r, so)" by fastforce
    from undisturbedD [OF undisturbed_write_message(2) w, of q g] w show ?thesis
      by (cases "fd = fd'") (auto simp: os_write_async_def peer_sends_def fun_upd_twist)
  qed
  then show ?thesis by (simp add: deaf_def)
qed

lemma deaf_ask:
  assumes "\<And>x. deaf fd (m x)"
  shows "deaf fd (\<lambda>s. case ask ret_answer c s of (x, s1) \<Rightarrow> m x s1)"
proof -
  have "ask ret_answer c (peer_sends q g fd s) = (fst (ask ret_answer c s), peer_sends q g fd (snd (ask ret_answer c s)))" for q g s
    by (simp add: ask_def record_call_def peer_sends_def Let_def)
  with assms show ?thesis by (simp add: deaf_def split: prod.splits)
qed

lemma deaf_spawn_async: "deaf fd (spawn_async cd c config)"
proof -
  have rest: "deaf fd (on_error SpawnIo
      (io_bind socket_pair (\<lambda>(sandbox_peer, local_sandbox_peer).
       io_then (make_async local_sandbox_peer)
       (io_then (os_write_async (request_to cd) m [sandbox_peer] (controller_socket c))
       (io_return \<lparr>sandbox_channel = local_sandbox_peer\<rparr>)))))" for m
    unfolding make_async_def by (auto intro!: deaf_rules split: prod.split)
  have "spawn_async cd c config = (\<lambda>s. case ask ret_answer GetGid s of (x, s1) \<Rightarrow> on_error SpawnIo
      (io_bind socket_pair (\<lambda>(sandbox_peer, local_sandbox_peer).
       io_then (make_async local_sandbox_peer)
       (io_then (os_write_async (request_to cd)
          (Spawn (sandbox_ids (controller_settings c) (word_of_int (fst x)) config)) [sandbox_peer] (controller_socket c))
       (io_return \<lparr>sandbox_channel = local_sandbox_peer\<rparr>)))) s1)"
    by (simp add: spawn_async_def fun_eq_iff split: prod.split)
  then show ?thesis by (simp only:) (rule deaf_ask [OF rest])
qed

text \<open>
  \<open>spawn_async\<close> does not wait for the answer of the zygote: its result is the same whatever the
  zygote has sent or will send, the answer stays in the socket, and a failure of the zygote to
  spawn is never reported, although there is an error for it.
\<close>

theorem spawn_async_unconfirmed:
  "queue (sockets (snd (spawn_async cd c config s)) (controller_socket c)) = queue (sockets s (controller_socket c)) \<and>
   (\<forall>q g. fst (spawn_async cd c config (peer_sends q g (controller_socket c) s)) = fst (spawn_async cd c config s)) \<and>
   fst (spawn_async cd c config s) \<noteq> Err (SpawnFailed e)"
proof -
  obtain r s' where out: "spawn_async cd c config s = (r, s')" by fastforce
  let ?fd = "controller_socket c"
  note run = deafD [OF deaf_spawn_async out]
  have "peer_sends (queue (sockets s ?fd)) (peer_gone (sockets s ?fd)) ?fd s = s"
    by (simp add: peer_sends_def from_peer_def)
  with run [of "queue (sockets s ?fd)" "peer_gone (sockets s ?fd)" ?fd] out
  have "sockets s' ?fd = from_peer (queue (sockets s ?fd)) (peer_gone (sockets s ?fd)) (sockets s' ?fd)"
    by (metis (no_types, lifting) fun_upd_same os.select_convs(1) os.surjective os.update_convs(1) peer_sends_def prod.inject)
  then have "queue (sockets s' ?fd) = queue (sockets s ?fd)" by (metis from_peer_def socket.select_convs(2) socket.surjective socket.update_convs(2,4))
  moreover have "r \<noteq> Err (SpawnFailed e)"
    using out by (auto simp: spawn_async_def on_error_def split: prod.splits elim!: map_err.elims)
  ultimately show ?thesis using run out by simp
qed

end
