(* ===== verification/Spawn_Session.thy ===== *)
theory Spawn_Session
  imports Sandbox_Processes
begin

text \<open>
  The main process and the zygote together: what \<open>spawn_async\<close> of \<open>process/main_process.rs\<close> asks
  for over the socket of the controller, and what the loop of \<open>process/zygote_process.rs\<close> does
  with it. The two run in different processes, each with a kernel state of its own; they share
  the stream that one sends and the other reads.
\<close>

section \<open>The requests of the main process\<close>

fun spawn_each :: "codecs \<Rightarrow> controller \<Rightarrow> sandbox_config list \<Rightarrow> (os, main_error, sandbox list) op" where
  "spawn_each cd c [] = io_return []"
| "spawn_each cd c (config # configs) =
     io_bind (spawn_async cd c config) (\<lambda>sb.
     io_bind (spawn_each cd c configs) (\<lambda>sbs. io_return (sb # sbs)))"

text \<open>A request: the configuration, and the end of a new pair of sockets that goes with it.\<close>

type_synonym request = "sandbox_config \<times> fd"

definition request_frames :: "codecs \<Rightarrow> request list \<Rightarrow> wire_byte list" where
  "request_frames cd reqs = concat (map (\<lambda>(config, fd). frame (request_to cd) (Spawn config) [fd]) reqs)"

text \<open>The sandbox that is returned for a request has the other end of its pair.\<close>

definition paired :: "os \<Rightarrow> request \<Rightarrow> sandbox \<Rightarrow> bool" where
  "paired s req sb \<longleftrightarrow> (\<exists>h. pair_answer s h = Inr (snd req, sandbox_channel sb))"

definition same_user :: "os \<Rightarrow> 32 word \<Rightarrow> bool" where
  "same_user s gid \<longleftrightarrow> (\<forall>h. word_of_int (fst (ret_answer s h)) = gid)"

lemma socket_pair_ok:
  assumes "socket_pair s = (Ok (a, b), s')"
  shows "\<exists>h. pair_answer s h = Inr (a, b)" and "s' = record_call SocketPair s"
  using assms
  by (auto simp: socket_pair_def on_error_def sum_call_def ask_def record_call_def Let_def split: sum.splits)

lemma make_async_keeps:
  assumes "make_async fd s = (r, s')"
  shows "\<exists>h. s' = s\<lparr>history := h\<rparr>"
  using assms
  by (auto simp: make_async_def io_then_def io_bind_def on_error_def io_call_def record_call_def Let_def
      split: option.splits prod.splits res.splits)

lemma os_write_async_quiet:
  assumes "writable to_vec True (sockets s fd)"
  obtains s' so where "os_write_async to_vec m fds fd s = (Ok (), s')" "s' = s\<lparr>sockets := (sockets s)(fd := so)\<rparr>"
    "writable to_vec True so" "sent so = sent (sockets s fd) @ frame to_vec m fds"
  using write_message_async_law [OF assms, of m fds] that by (fastforce simp: succeeds_def os_write_async_def)

lemma spawn_async_ok:
  assumes "spawn_async cd c config s = (Ok sb, s')" and "writable (request_to cd) True (sockets s (controller_socket c))"
    and "same_user s gid"
  obtains fd h so where "paired s (sandbox_ids (controller_settings c) gid config, fd) sb"
    "s' = s\<lparr>history := h, sockets := (sockets s)(controller_socket c := so)\<rparr>"
    "writable (request_to cd) True so"
    "sent so = sent (sockets s (controller_socket c)) @
       frame (request_to cd) (Spawn (sandbox_ids (controller_settings c) gid config)) [fd]"
proof -
  let ?cs = "controller_socket c"
  let ?s1 = "record_call GetGid s"
  define config' where "config' = sandbox_ids (controller_settings c) gid config"
  obtain g e where ask: "ask ret_answer GetGid s = ((g, e), ?s1)" and "ret_answer s (history ?s1) = (g, e)"
    by (cases "ret_answer s (history ?s1)") (simp add: ask_def)
  then have "word_of_int g = gid" using assms(3) by (metis fst_conv same_user_def)
  with assms(1) ask have run: "on_error SpawnIo (io_bind socket_pair (\<lambda>(near, far). io_then (make_async far)
      (io_then (os_write_async (request_to cd) (Spawn config') [near] ?cs) (io_return \<lparr>sandbox_channel = far\<rparr>)))) ?s1 = (Ok sb, s')"
    by (simp add: spawn_async_def config'_def)
  obtain near far s2 where pair: "socket_pair ?s1 = (Ok (near, far), s2)"
    using run by (auto simp: on_error_def io_bind_def split: prod.splits res.splits elim: map_err.elims)
  obtain r s3 where async: "make_async far s2 = (r, s3)" by fastforce
  with run pair have r: "r = Ok ()"
    by (cases r) (auto simp: on_error_def io_then_def io_bind_def)
  obtain h where s3: "s3 = s\<lparr>history := h\<rparr>"
    using make_async_keeps [OF async] socket_pair_ok(2) [OF pair] by (auto simp: record_call_def)
  then have "writable (request_to cd) True (sockets s3 ?cs)" using assms(2) by simp
  then obtain s4 so where w: "os_write_async (request_to cd) (Spawn config') [near] ?cs s3 = (Ok (), s4)"
    "s4 = s3\<lparr>sockets := (sockets s3)(?cs := so)\<rparr>" "writable (request_to cd) True so"
    "sent so = sent (sockets s3 ?cs) @ frame (request_to cd) (Spawn config') [near]"
    by (rule os_write_async_quiet)
  with run pair async r have out: "sb = \<lparr>sandbox_channel = far\<rparr>" "s' = s4"
    by (auto simp: on_error_def io_then_def io_bind_def io_return_def)
  have "paired s (config', near) sb"
    using socket_pair_ok(1) [OF pair] by (simp add: paired_def out(1) record_call_def)
  with w s3 out(2) show thesis by (intro that [of near so h]) (simp_all add: config'_def)
qed

text \<open>
  The requests that were sent, in order. Only the socket of the controller and the history have
  changed.
\<close>

lemma spawn_each_ok:
  assumes "spawn_each cd c configs s = (Ok sbs, s')" and "writable (request_to cd) True (sockets s (controller_socket c))"
    and "same_user s gid"
  shows "\<exists>reqs. map fst reqs = map (sandbox_ids (controller_settings c) gid) configs \<and> list_all2 (paired s) reqs sbs \<and>
    sent (sockets s' (controller_socket c)) = sent (sockets s (controller_socket c)) @ request_frames cd reqs"
  using assms
proof (induction configs arbitrary: s sbs)
  case Nil
  then show ?case by (simp add: io_return_def request_frames_def)
next
  case (Cons config configs)
  obtain r s1 where one: "spawn_async cd c config s = (r, s1)" by fastforce
  with Cons.prems(1) obtain sb where r: "r = Ok sb" by (cases r) (auto simp: io_bind_def)
  obtain q s2 where more: "spawn_each cd c configs s1 = (q, s2)" by fastforce
  with Cons.prems(1) one r obtain sbs' where q: "q = Ok sbs'" "sbs = sb # sbs'" "s2 = s'"
    by (cases q) (auto simp: io_bind_def io_return_def)
  obtain fd h so where first: "paired s (sandbox_ids (controller_settings c) gid config, fd) sb"
    "s1 = s\<lparr>history := h, sockets := (sockets s)(controller_socket c := so)\<rparr>" "writable (request_to cd) True so"
    "sent so = sent (sockets s (controller_socket c)) @
       frame (request_to cd) (Spawn (sandbox_ids (controller_settings c) gid config)) [fd]"
    using spawn_async_ok [OF one [unfolded r] Cons.prems(2,3)] .
  have "same_user s1 gid" "paired s1 = paired s" "writable (request_to cd) True (sockets s1 (controller_socket c))"
    using Cons.prems(3) first(2,3) by (simp_all add: same_user_def paired_def fun_eq_iff)
  with Cons.IH [of s1 sbs'] more q obtain reqs where
    "map fst reqs = map (sandbox_ids (controller_settings c) gid) configs" "list_all2 (paired s) reqs sbs'"
    "sent (sockets s' (controller_socket c)) = sent (sockets s1 (controller_socket c)) @ request_frames cd reqs" by auto
  with first q(2) show ?case
    by (intro exI [of _ "(sandbox_ids (controller_settings c) gid config, fd) # reqs"]) (simp add: request_frames_def)
qed

section \<open>The zygote serves them\<close>

text \<open>
  Requests that are served one after the other: each is read with the one descriptor that came
  with it, \<open>spawn\<close> succeeds for exactly these, and the success is answered.
\<close>

fun zygote_serves :: "codecs \<Rightarrow> fd \<Rightarrow> request list \<Rightarrow> os \<Rightarrow> os option" where
  "zygote_serves cd peer [] s = Some s"
| "zygote_serves cd peer ((config, fd) # reqs) s =
     (case os_read (request_from cd) (\<lambda>new fds. fds @ new) [] peer s of
        Some (Ok (Spawn config'), fds, s1) \<Rightarrow>
          if config' = config \<and> fds = [fd] then
            (case spawn cd config (Some fd) s1 of
               Some (Returned (Ok _), s2) \<Rightarrow>
                 (case os_write (response_to cd) (Inr ()) [] peer s2 of
                    (Ok _, s3) \<Rightarrow> zygote_serves cd peer reqs s3
                  | _ \<Rightarrow> None)
             | _ \<Rightarrow> None)
          else None
      | _ \<Rightarrow> None)"

text \<open>The loop of the zygote does that, and goes on from there.\<close>

lemma zygote_serves_loop:
  "zygote_serves cd peer reqs s = Some s' \<Longrightarrow> zygote_loop cd peer [] s = zygote_loop cd peer [] s'"
proof (induction reqs arbitrary: s)
  case (Cons req reqs)
  obtain config fd where req: "req = (config, fd)" by fastforce
  with Cons.prems obtain s1 s2 s3 where
    "os_read (request_from cd) (\<lambda>new fds. fds @ new) [] peer s = Some (Ok (Spawn config), [fd], s1)"
    "spawn cd config (Some fd) s1 = Some (Returned (Ok ()), s2)"
    "os_write (response_to cd) (Inr ()) [] peer s2 = (Ok (), s3)" "zygote_serves cd peer reqs s3 = Some s'"
    by (auto split: option.splits prod.splits res.splits initial_request.splits if_splits forked.splits unit.splits)
  with Cons.IH [of s3] show ?case by (simp add: zygote_loop.simps [of cd peer "[]" s] pop_front_def)
qed simp

text \<open>
  An operating system on which this works: pairs of sockets are new, the clone gives a process,
  the mapping programs succeed, and every supervisor answers that it has started. The numbers of
  new sockets may depend on the calls so far.
\<close>

definition new_ends :: "(call list \<Rightarrow> fd \<times> fd) \<Rightarrow> fd \<Rightarrow> bool" where
  "new_ends ends peer \<longleftrightarrow> (\<forall>h. snd (ends h) \<noteq> peer) \<and> (\<forall>h h'. length h < length h' \<longrightarrow> snd (ends h) \<noteq> snd (ends h'))"

definition willing :: "codecs \<Rightarrow> (call list \<Rightarrow> fd \<times> fd) \<Rightarrow> os \<Rightarrow> bool" where
  "willing cd ends s \<longleftrightarrow>
     pair_answer s = (\<lambda>h. Inr (ends h)) \<and> (\<forall>h. exec_ok s h) \<and> (\<forall>h. 0 < fst (ret_answer s h)) \<and>
     (\<forall>h. length (history s) < length h \<longrightarrow>
        quiet_script False (sockets s (snd (ends h))) \<and>
        queue (sockets s (snd (ends h))) = frame (started_to cd) (Inr ()) [])"

definition codecs_fit :: "codecs \<Rightarrow> sandbox_config list \<Rightarrow> bool" where
  "codecs_fit cd configs \<longleftrightarrow>
     (\<forall>config \<in> set configs. travels (request_to cd) (request_from cd) (Spawn config)) \<and>
     response_to cd (Inr ()) \<noteq> None \<and> mapped_to cd Proceed \<noteq> None \<and> travels (started_to cd) (started_from cd) (Inr ())"

text \<open>The calls for one supervisor, whose process number is the answer of the clone.\<close>

definition supervisor_clone :: call where
  "supervisor_clone = Clone3 (clone3_request 0x30020000 (Some 17))"

definition supervisor_calls :: "(call list \<Rightarrow> int \<times> errno) \<Rightarrow> call list \<Rightarrow> sandbox_config \<Rightarrow> call list" where
  "supervisor_calls ret h config =
     (let p = as_i32 (fst (ret (h @ [SocketPair, supervisor_clone]))); cfg = namespace config in
      [SocketPair, supervisor_clone, map_command p (gid_mappings cfg) (newgidmap cfg),
       map_command p (uid_mappings cfg) (newuidmap cfg)])"

fun all_supervisor_calls :: "(call list \<Rightarrow> int \<times> errno) \<Rightarrow> call list \<Rightarrow> sandbox_config list \<Rightarrow> call list" where
  "all_supervisor_calls ret h [] = []"
| "all_supervisor_calls ret h (config # configs) =
     supervisor_calls ret h config @ all_supervisor_calls ret (h @ supervisor_calls ret h config) configs"

lemma clone_supervisor:
  assumes "0 < fst (ret_answer s (history s @ [supervisor_clone]))"
  shows "clone_process cb report (CLONE_NEWPID OR CLONE_NEWNS OR CLONE_NEWUSER) s =
    Some (Returned (Ok (as_i32 (fst (ret_answer s (history s @ [supervisor_clone]))))), record_call supervisor_clone s)"
  using assms
  by (cases "ret_answer s (history s @ [supervisor_clone])")
    (simp add: clone_process_def clone_internal_def clone3_def ask_def Let_def CLONE_NEWPID_def CLONE_NEWNS_def
        CLONE_NEWUSER_def CLONE_PARENT_def SIGCHLD_number_def record_call_def supervisor_clone_def)

lemma read_started:
  assumes "quiet_script False (sockets s fd)" and "queue (sockets s fd) = frame (started_to cd) (Inr ()) []"
    and "travels (started_to cd) (started_from cd) (Inr ())"
  obtains so where "os_read (started_from cd) empty_fds_extend () fd s =
    Some (Ok (Inr ()), (), s\<lparr>sockets := (sockets s)(fd := so)\<rparr>)"
proof -
  have "lawful_extend empty_fds_extend" by (simp add: lawful_extend_def empty_fds_extend_def)
  with read_message_law [OF assms(1) _ _ assms(3), of "[]" "[]" empty_fds_extend "()"] assms(2) that show thesis
    by (auto simp: os_read_def)
qed

lemma write_answer:
  assumes "quiet_script False (sockets s fd)" and "to_vec m \<noteq> None"
  obtains so where "os_write to_vec m fds fd s = (Ok (), s\<lparr>sockets := (sockets s)(fd := so)\<rparr>)" "quiet_script False so"
    "queue so = queue (sockets s fd)" "sent so = sent (sockets s fd) @ frame to_vec m fds"
proof -
  have same: "write_message (\<lambda>_. to_vec m) m fds = write_message to_vec m fds" "frame (\<lambda>_. to_vec m) m fds = frame to_vec m fds"
    by (simp_all add: write_message_def frame_def)
  have "writable (\<lambda>_. to_vec m) False (sockets s fd)" using assms by (simp add: writable_def)
  from write_message_law [OF this, of m fds] obtain so where
    so: "write_message to_vec m fds (sockets s fd) = (Ok (), so)" "quiet_script False so"
      "sent so = sent (sockets s fd) @ frame to_vec m fds"
    by (auto simp: same succeeds_def writable_def)
  with undisturbed_keeps(1) [OF undisturbed_write_message(1) so(1)] that show thesis by (simp add: os_write_def)
qed

text \<open>A request is carried out by these calls; of the sockets only the new one has been used.\<close>

lemma spawn_ok:
  assumes "willing cd ends s" and "codecs_fit cd configs"
    and "uid_mappings (namespace config) \<noteq> []" and "gid_mappings (namespace config) \<noteq> []"
  obtains so where "spawn cd config (Some fd) s = Some (Returned (Ok ()),
      s\<lparr>history := history s @ supervisor_calls (ret_answer s) (history s) config,
        sockets := (sockets s)(snd (ends (history s @ [SocketPair])) := so)\<rparr>)"
proof -
  let ?cfg = "namespace config" and ?s1 = "record_call SocketPair s"
  let ?s2 = "record_call supervisor_clone ?s1"
  let ?p = "as_i32 (fst (ret_answer s (history s @ [SocketPair, supervisor_clone])))"
  let ?s3 = "mapped_kernel ?p ?cfg ?s2" and ?near = "snd (ends (history s @ [SocketPair]))"
  note will = assms(1) [unfolded willing_def]
  have pair: "socket_pair s = (Ok (ends (history s @ [SocketPair])), ?s1)"
    using will by (simp add: socket_pair_def on_error_def)
  have clone: "clone_process cb report_anyhow (CLONE_NEWPID OR CLONE_NEWNS OR CLONE_NEWUSER) ?s1 = Some (Returned (Ok ?p), ?s2)"
    for cb :: "os \<Rightarrow> (unit process \<times> os) option"
    using clone_supervisor [of ?s1 cb report_anyhow] will by (simp add: record_call_def)
  have maps: "write_mappings ?cfg ?p ?s2 = (Ok (), ?s3)"
  proof (rule write_mappings_ok)
    have "exec_ok s h" for h using will by blast
    then show "exec_ok ?s2 h" for h by (simp add: exec_ok_def record_call_def)
  qed (rule assms(3,4))+
  have s3: "?s3 = s\<lparr>history := history s @ supervisor_calls (ret_answer s) (history s) config\<rparr>"
    by (simp add: mapped_kernel_def record_call_def supervisor_calls_def Let_def)
  have near: "quiet_script False (sockets ?s3 ?near)" "queue (sockets ?s3 ?near) = frame (started_to cd) (Inr ()) []"
    using will by (simp_all add: s3)
  from write_answer [OF near(1), of "mapped_to cd" Proceed "[]"] assms(2) obtain so where
    w: "os_write (mapped_to cd) Proceed [] ?near ?s3 = (Ok (), ?s3\<lparr>sockets := (sockets ?s3)(?near := so)\<rparr>)"
      "quiet_script False so" "queue so = queue (sockets ?s3 ?near)"
    by (auto simp: codecs_fit_def)
  from read_started [of "?s3\<lparr>sockets := (sockets ?s3)(?near := so)\<rparr>" ?near cd] w(2,3) near(2) assms(2) obtain so' where
    "os_read (started_from cd) empty_fds_extend () ?near (?s3\<lparr>sockets := (sockets ?s3)(?near := so)\<rparr>) =
      Some (Ok (Inr ()), (), ?s3\<lparr>sockets := (sockets ?s3)(?near := so')\<rparr>)"
    by (auto simp: codecs_fit_def)
  with maps w(1) have "spawn_supervised cd config ?near ?p ?s2 = Some (Returned (Ok ()), ?s3\<lparr>sockets := (sockets ?s3)(?near := so')\<rparr>)"
    by (simp add: spawn_supervised_def child_from_pid child_forget_def child_take_def)
  with pair clone show thesis
    by (intro that [of so']) (auto simp: spawn_def s3 split: prod.split)
qed

text \<open>One request after the other.\<close>

lemma willing_later:
  assumes "willing cd ends s" and "new_ends ends peer"
  shows "willing cd ends (s\<lparr>history := history s @ supervisor_calls (ret_answer s) (history s) config,
    sockets := (sockets s)(peer := so, snd (ends (history s @ [SocketPair])) := so')\<rparr>)"
proof -
  have fresh: "snd (ends h) \<noteq> snd (ends (history s @ [SocketPair]))" if "Suc (Suc (Suc (Suc (length (history s))))) < length h" for h
  proof -
    have "length (history s @ [SocketPair]) < length h" using that by simp
    with assms(2) show ?thesis unfolding new_ends_def by metis
  qed
  have "exec_ok (s\<lparr>history := h', sockets := f\<rparr>) h = exec_ok s h" for h' f h by (simp add: exec_ok_def)
  with assms show ?thesis
    unfolding willing_def new_ends_def by (auto simp: supervisor_calls_def Let_def dest: fresh)
qed

lemma zygote_serves_all:
  assumes "willing cd ends s" and "new_ends ends peer" and "codecs_fit cd (map fst reqs)"
    and "quiet_script False (sockets s peer)" and "queue (sockets s peer) = request_frames cd reqs @ rest"
    and "\<forall>(config, fd) \<in> set reqs. uid_mappings (namespace config) \<noteq> [] \<and> gid_mappings (namespace config) \<noteq> []"
  shows "\<exists>s'. zygote_serves cd peer reqs s = Some s' \<and> queue (sockets s' peer) = rest \<and>
    sent (sockets s' peer) = sent (sockets s peer) @ concat (replicate (length reqs) (frame (response_to cd) (Inr ()) [])) \<and>
    history s' = history s @ all_supervisor_calls (ret_answer s) (history s) (map fst reqs)"
  using assms
proof (induction reqs arbitrary: s)
  case Nil
  then show ?case by (simp add: request_frames_def)
next
  case (Cons req reqs)
  obtain config fd where req: "req = (config, fd)" by fastforce
  let ?calls = "supervisor_calls (ret_answer s) (history s) config" and ?near = "snd (ends (history s @ [SocketPair]))"
  have fit: "travels (request_to cd) (request_from cd) (Spawn config)" "response_to cd (Inr ()) \<noteq> None" "codecs_fit cd (map fst reqs)"
    and maps: "uid_mappings (namespace config) \<noteq> []" "gid_mappings (namespace config) \<noteq> []"
    using Cons.prems(3,6) by (auto simp: req codecs_fit_def)
  have near: "?near \<noteq> peer" using Cons.prems(2) by (simp add: new_ends_def)
  have "queue (sockets s peer) = frame (request_to cd) (Spawn config) [fd] @ (request_frames cd reqs @ rest)"
    using Cons.prems(5) by (simp add: req request_frames_def)
  from read_message_law [OF Cons.prems(4) this _ fit(1), of "\<lambda>new fds. fds @ new" "[]"] obtain so where
    rd: "os_read (request_from cd) (\<lambda>new fds. fds @ new) [] peer s =
      Some (Ok (Spawn config), [fd], s\<lparr>sockets := (sockets s)(peer := so)\<rparr>)"
    and so: "quiet_script False so" "queue so = request_frames cd reqs @ rest" "sent so = sent (sockets s peer)"
    by (auto simp: os_read_def lawful_extend_def)
  let ?s1 = "s\<lparr>sockets := (sockets s)(peer := so)\<rparr>"
  have "willing cd ends ?s1"
    using Cons.prems(1,2) unfolding willing_def new_ends_def by (auto simp: exec_ok_def)
  from spawn_ok [OF this fit(3) maps, of fd] obtain so' where
    sp: "spawn cd config (Some fd) ?s1 = Some (Returned (Ok ()), ?s1\<lparr>history := history s @ ?calls,
      sockets := (sockets ?s1)(?near := so')\<rparr>)" by auto
  let ?s2 = "?s1\<lparr>history := history s @ ?calls, sockets := (sockets ?s1)(?near := so')\<rparr>"
  from write_answer [of ?s2 peer "response_to cd" "Inr ()" "[]"] near so fit(2) obtain so2 where
    wr: "os_write (response_to cd) (Inr ()) [] peer ?s2 = (Ok (), ?s2\<lparr>sockets := (sockets ?s2)(peer := so2)\<rparr>)"
    and so2: "quiet_script False so2" "queue so2 = request_frames cd reqs @ rest"
      "sent so2 = sent (sockets s peer) @ frame (response_to cd) (Inr ()) []"
    by auto
  let ?s3 = "?s2\<lparr>sockets := (sockets ?s2)(peer := so2)\<rparr>"
  have s3: "?s3 = s\<lparr>history := history s @ ?calls, sockets := (sockets s)(peer := so2, ?near := so')\<rparr>"
    using near by (simp add: fun_upd_twist)
  have will: "willing cd ends ?s3" unfolding s3 by (rule willing_later [OF Cons.prems(1,2)])
  from Cons.IH [OF will Cons.prems(2) fit(3)] so2 near Cons.prems(6) obtain s' where
    "zygote_serves cd peer reqs ?s3 = Some s'" "queue (sockets s' peer) = rest"
    "sent (sockets s' peer) = sent so2 @ concat (replicate (length reqs) (frame (response_to cd) (Inr ()) []))"
    "history s' = history s @ ?calls @ all_supervisor_calls (ret_answer s) (history s @ ?calls) (map fst reqs)"
    by (auto simp: req)
  with rd sp wr so2(3) show ?case by (simp add: req)
qed

lemma ids_mapped:
  "uid_mappings (namespace (sandbox_ids settings gid config)) \<noteq> []"
  "gid_mappings (namespace (sandbox_ids settings gid config)) \<noteq> []"
  by (simp_all add: sandbox_ids_def)

text \<open>
  C5: The main process and the zygote agree on what is started. When a sequence of
  \<open>spawn_async\<close> has succeeded, the zygote that reads what was sent serves exactly these requests, in order: each
  with the identities of the sandbox, and with the end of the pair of sockets whose other end
  the main process has kept. On a willing operating system each becomes one pair of sockets, one
  clone in new namespaces, and the two mapping programs run on the process that the clone gave;
  each is answered as started, nothing is left over, and the loop goes on from there.
\<close>

theorem sandboxes_started:
  assumes "spawn_each cd c configs m = (Ok sbs, m')"
    and "writable (request_to cd) True (sockets m (controller_socket c))" and "same_user m gid"
    and "sent (sockets m' (controller_socket c)) = sent (sockets m (controller_socket c)) @ queue (sockets z peer)"
    and "willing cd ends z" and "new_ends ends peer" and "quiet_script False (sockets z peer)"
    and "codecs_fit cd (map (sandbox_ids (controller_settings c) gid) configs)"
  shows "\<exists>reqs z'. map fst reqs = map (sandbox_ids (controller_settings c) gid) configs \<and>
    list_all2 (paired m) reqs sbs \<and>
    zygote_serves cd peer reqs z = Some z' \<and> zygote_process cd peer z = zygote_loop cd peer [] z' \<and>
    queue (sockets z' peer) = [] \<and>
    sent (sockets z' peer) = sent (sockets z peer) @ concat (replicate (length configs) (frame (response_to cd) (Inr ()) [])) \<and>
    history z' = history z @ all_supervisor_calls (ret_answer z) (history z) (map (sandbox_ids (controller_settings c) gid) configs)"
proof -
  from spawn_each_ok [OF assms(1-3)] assms(4) obtain reqs where
    reqs: "map fst reqs = map (sandbox_ids (controller_settings c) gid) configs" "list_all2 (paired m) reqs sbs"
      "queue (sockets z peer) = request_frames cd reqs @ []" by auto
  have "fst ` set reqs = sandbox_ids (controller_settings c) gid ` set configs"
    using arg_cong [OF reqs(1), of set] by simp
  then have "\<forall>(config, fd) \<in> set reqs. uid_mappings (namespace config) \<noteq> [] \<and> gid_mappings (namespace config) \<noteq> []"
    using ids_mapped by (force simp: image_iff set_eq_iff)
  moreover have "length reqs = length configs" using arg_cong [OF reqs(1), of length] by simp
  ultimately obtain z' where "zygote_serves cd peer reqs z = Some z'" "queue (sockets z' peer) = []"
    "sent (sockets z' peer) = sent (sockets z peer) @ concat (replicate (length configs) (frame (response_to cd) (Inr ()) []))"
    "history z' = history z @ all_supervisor_calls (ret_answer z) (history z) (map fst reqs)"
    using zygote_serves_all [OF assms(5,6) _ assms(7) reqs(3)] assms(8) reqs(1) by auto
  with reqs zygote_serves_loop show ?thesis by (fastforce simp: zygote_process_def)
qed

text \<open>When the calls of the main process succeed, so does \<open>spawn_async\<close>.\<close>

definition main_willing :: "codecs \<Rightarrow> fd \<Rightarrow> os \<Rightarrow> bool" where
  "main_willing cd fd s \<longleftrightarrow>
     (\<forall>h. \<exists>p. pair_answer s h = Inr p) \<and> io_answer s = (\<lambda>_. None) \<and> writable (request_to cd) True (sockets s fd)"

lemma spawn_async_succeeds:
  assumes "main_willing cd (controller_socket c) s"
  obtains sb s' where "spawn_async cd c config s = (Ok sb, s')" "main_willing cd (controller_socket c) s'"
proof -
  let ?s1 = "record_call GetGid s" and ?cs = "controller_socket c"
  note will = assms [unfolded main_willing_def]
  obtain g e where ask: "ask ret_answer GetGid s = ((g, e), ?s1)" by (cases "ret_answer s (history ?s1)") (simp add: ask_def)
  obtain near far where "pair_answer s (history s @ [GetGid, SocketPair]) = Inr (near, far)" using will by force
  then have pair: "socket_pair ?s1 = (Ok (near, far), record_call SocketPair ?s1)"
    by (simp add: socket_pair_def on_error_def sum_call_def ask_def record_call_def)
  let ?s2 = "record_call SocketPair ?s1"
  let ?s3 = "record_call (Register far) (record_call (SetNonBlocking far) ?s2)"
  have async: "make_async far ?s2 = (Ok (), ?s3)"
    using will by (simp add: make_async_def io_then_def io_bind_def on_error_def io_call_def record_call_def)
  have "writable (request_to cd) True (sockets ?s3 ?cs)" using will by (simp add: record_call_def)
  then obtain s4 so where "os_write_async (request_to cd) (Spawn (sandbox_ids (controller_settings c) (word_of_int g) config)) [near] ?cs ?s3 = (Ok (), s4)"
    "s4 = ?s3\<lparr>sockets := (sockets ?s3)(?cs := so)\<rparr>" "writable (request_to cd) True so" by (rule os_write_async_quiet)
  with ask pair async will show thesis
    by (intro that [of "\<lparr>sandbox_channel = far\<rparr>" s4])
      (simp_all add: spawn_async_def on_error_def io_then_def io_bind_def io_return_def main_willing_def record_call_def)
qed

lemma spawn_each_succeeds:
  "main_willing cd (controller_socket c) s \<Longrightarrow> \<exists>sbs s'. spawn_each cd c configs s = (Ok sbs, s')"
proof (induction configs arbitrary: s)
  case (Cons config configs)
  obtain sb s1 where "spawn_async cd c config s = (Ok sb, s1)" "main_willing cd (controller_socket c) s1"
    using spawn_async_succeeds [OF Cons.prems] .
  with Cons.IH [of s1] show ?case by (auto simp: io_bind_def io_return_def)
qed (simp add: io_return_def)

definition session_settings :: daemon_settings where
  "session_settings = \<lparr>sub_uid = \<lparr>sub_min = 100000, sub_max = 165536\<rparr>, sub_gid = \<lparr>sub_min = 100000, sub_max = 165536\<rparr>,
     tcp_bind = [], socket_path = []\<rparr>"

definition session_controller :: controller where
  "session_controller = \<lparr>controller_zygote = Some 2, controller_socket = 5, controller_settings = session_settings\<rparr>"

definition session_config :: sandbox_config where
  "session_config = \<lparr>working = [], namespace = root_mapping\<lparr>uid_mappings := [], gid_mappings := []\<rparr>\<rparr>"

definition session_codecs :: codecs where
  "session_codecs = some_codecs\<lparr>request_from := \<lambda>_. Some (Spawn (sandbox_ids session_settings 17 session_config))\<rparr>"

definition session_ends :: "call list \<Rightarrow> fd \<times> fd" where
  "session_ends h = (3, 10 + length h)"

definition session_zygote :: "wire_byte list \<Rightarrow> os" where
  "session_zygote q = some_os\<lparr>pair_answer := \<lambda>h. Inr (session_ends h), sockets := (\<lambda>fd. some_socket
     \<lparr>queue := (if fd = 9 then q else frame (started_to session_codecs) (Inr ()) [])\<rparr>)\<rparr>"

theorem sandboxes_started_witness:
  "\<exists>sbs m' reqs z'. spawn_each session_codecs session_controller [session_config, session_config] some_os = (Ok sbs, m') \<and>
    map fst reqs = replicate 2 (sandbox_ids session_settings 17 session_config) \<and>
    zygote_serves session_codecs 9 reqs (session_zygote (sent (sockets m' 5))) = Some z' \<and>
    sent (sockets z' 9) = concat (replicate 2 (frame (response_to session_codecs) (Inr ()) []))"
proof -
  have ctrl: "controller_socket session_controller = 5" "controller_settings session_controller = session_settings"
    by (simp_all add: session_controller_def)
  have codec: "request_to session_codecs = (\<lambda>_. Some [1])" "response_to session_codecs = (\<lambda>_. Some [1])"
    "mapped_to session_codecs = (\<lambda>_. Some [1])" "started_to session_codecs = (\<lambda>_. Some [1])"
    "started_from session_codecs = (\<lambda>_. Some (Inr ()))"
    "request_from session_codecs = (\<lambda>_. Some (Spawn (sandbox_ids session_settings 17 session_config)))"
    by (simp_all add: session_codecs_def some_codecs_def)
  have wr: "writable (request_to session_codecs) True (sockets some_os 5)"
    by (simp add: codec writable_def quiet_script_def some_socket_def)
  then have "main_willing session_codecs (controller_socket session_controller) some_os"
    by (simp add: main_willing_def ctrl some_os_def kernel.defs some_kernel_def)
  from spawn_each_succeeds [OF this, of "[session_config, session_config]"] obtain sbs m' where
    run: "spawn_each session_codecs session_controller [session_config, session_config] some_os = (Ok sbs, m')" by blast
  let ?z = "session_zygote (sent (sockets m' 5))"
  have gid: "same_user some_os 17" by (simp add: same_user_def some_kernel_def)
  have ends: "new_ends session_ends 9" by (simp add: new_ends_def session_ends_def)
  have "exec_ok some_os h" for h by (simp add: exec_ok_def some_kernel_def)
  then have will: "willing session_codecs session_ends ?z"
    by (simp add: willing_def session_zygote_def exec_ok_def session_ends_def quiet_script_def some_socket_def some_kernel_def)
  have fit: "codecs_fit session_codecs (map (sandbox_ids session_settings 17) [session_config, session_config])"
    by (simp add: codecs_fit_def codec travels_def)
  have queued: "sent (sockets m' 5) = sent (sockets some_os 5) @ queue (sockets ?z 9)" and quiet: "quiet_script False (sockets ?z 9)"
    by (simp_all add: session_zygote_def some_socket_def quiet_script_def)
  from sandboxes_started [OF run, unfolded ctrl, OF wr gid queued will ends quiet fit] obtain reqs z' where
    "map fst reqs = map (sandbox_ids session_settings 17) [session_config, session_config]"
    "zygote_serves session_codecs 9 reqs ?z = Some z'"
    "sent (sockets z' 9) = sent (sockets ?z 9) @
       concat (replicate (length [session_config, session_config]) (frame (response_to session_codecs) (Inr ()) []))"
    by blast
  moreover have "sent (sockets ?z 9) = []" by (simp add: session_zygote_def some_socket_def)
  ultimately show ?thesis using run by (intro exI conjI) (simp_all add: numeral_2_eq_2)
qed

end
