(* ===== verification/Temp_File.thy ===== *)
theory Temp_File
  imports File_System Printable
begin

text \<open>
  \<open>crates/io/src/fs.rs\<close>: temporary files and directories, and moving a file over another one.
  The random suffixes of names are a parameter (the choice of the \<open>k\<close>-th attempt left), as are
  the process number and the side effect that may run before a file is created. The functions
  that clone mounts are plain system calls and not modelled.
\<close>

section \<open>Moving a file over another\<close>

definition old_name :: "bytes \<Rightarrow> nat \<Rightarrow> bytes" where
  "old_name to i = to @ bytes_of (''.old'' @ hex i)"

text \<open>The loop that moves the target aside, to the first name that is free.\<close>

partial_function (option) set_aside ::
    "bytes \<Rightarrow> nat \<Rightarrow> fs \<Rightarrow> ((error_kind, bytes) res \<times> fs) option" where
  "set_aside to i s =
     (case rename to (old_name to i) s of
        (Ok _, s') \<Rightarrow> Some (Ok (old_name to i), s')
      | (Err e, s') \<Rightarrow> if e = AlreadyExists then set_aside to (i + 1) s' else Some (Err e, s')
      | (Panic, s') \<Rightarrow> Some (Panic, s'))"

definition replace_aside :: "bytes \<Rightarrow> bytes \<Rightarrow> node \<Rightarrow> bytes \<Rightarrow> (fs, unit) io" where
  "replace_aside from_path to stat next_path s =
     (case rename from_path to s of
        (Ok _, s') \<Rightarrow> if stat = NDir then remove_dir_all next_path s' else remove_file next_path s'
      | (Err e, s') \<Rightarrow> io_then (rename next_path to) (io_fail e) s'
      | (Panic, s') \<Rightarrow> (Panic, s'))"

definition move_replace_fallback :: "bytes \<Rightarrow> bytes \<Rightarrow> fs \<Rightarrow> ((error_kind, unit) res \<times> fs) option" where
  "move_replace_fallback from_path to s =
     (case rename from_path to s of
        (Ok _, s1) \<Rightarrow> Some (Ok (), s1)
      | (Panic, s1) \<Rightarrow> Some (Panic, s1)
      | (Err e, s1) \<Rightarrow>
          if e \<noteq> AlreadyExists then Some (Err e, s1)
          else case symlink_metadata to s1 of
            (Err e, s2) \<Rightarrow> Some (Err e, s2)
          | (Panic, s2) \<Rightarrow> Some (Panic, s2)
          | (Ok stat, s2) \<Rightarrow>
              (case set_aside to 0 s2 of
                 None \<Rightarrow> None
               | Some (Err e, s3) \<Rightarrow> Some (Err e, s3)
               | Some (Panic, s3) \<Rightarrow> Some (Panic, s3)
               | Some (Ok next_path, s3) \<Rightarrow> Some (replace_aside from_path to stat next_path s3)))"

text \<open>
  \<open>renameat\<close> and \<open>rename\<close> are the same call here; \<open>EINVAL\<close> and \<open>EEXIST\<close> are \<open>InvalidInput\<close> and
  \<open>AlreadyExists\<close>.
\<close>

definition move_replace :: "bytes \<Rightarrow> bytes \<Rightarrow> fs \<Rightarrow> ((error_kind, unit) res \<times> fs) option" where
  "move_replace from_path to s =
     (case rename from_path to s of
        (Ok _, s1) \<Rightarrow> Some (Ok (), s1)
      | (Panic, s1) \<Rightarrow> Some (Panic, s1)
      | (Err e, s1) \<Rightarrow>
          if e = InvalidInput \<or> e = AlreadyExists then move_replace_fallback from_path to s1
          else Some (Err e, s1))"

section \<open>Renaming files\<close>

text \<open>\<open>file_move ns a b\<close>: moving \<open>a\<close> to \<open>b\<close> concerns these two paths only.\<close>

definition file_move :: "(bytes \<Rightarrow> node option) \<Rightarrow> bytes \<Rightarrow> bytes \<Rightarrow> bool" where
  "file_move ns a b \<longleftrightarrow> leaf ns a \<and> leaf ns b \<and> a \<noteq> b \<and> \<not> below a b \<and> \<not> below b a"

lemma rename_file:
  assumes "nodes s a = Some n" and "n \<noteq> NDir" and "file_move (nodes s) a b"
  obtains (moved) s' where "rename a b s = (Ok (), s')" and "nodes s' = (nodes s)(a := None, b \<mapsto> n)"
      and "overwrite s' = overwrite s" and "faultless s \<Longrightarrow> faultless s'" and "sys_faults s' = tl (sys_faults s)"
  | (failed) e s' where "rename a b s = (Err e, s')" and "nodes s' = nodes s" and "overwrite s' = overwrite s"
      and "faultless s \<Longrightarrow> faultless s' \<and> nodes s b \<noteq> None \<and>
        (nodes s b \<noteq> Some NDir \<longrightarrow> \<not> overwrite s \<and> e = AlreadyExists)"
      and "sys_faults s' = tl (sys_faults s)" and "nodes s b = None \<Longrightarrow> sys_faults s = Some e # sys_faults s'"
proof -
  let ?s = "rest_faults s"
  let ?m = "\<lambda>s :: fs. case nodes s a of
       None \<Rightarrow> (Err NotFound, s)
     | Some n \<Rightarrow>
         (case nodes s b of
            None \<Rightarrow> move_node a b s
          | Some m \<Rightarrow>
              if \<not> overwrite s then (Err AlreadyExists, s)
              else if n = NDir \<and> m \<noteq> NDir then (Err ENOTDIR, s)
              else if n \<noteq> NDir \<and> m = NDir then (Err EISDIR, s)
              else if n = NDir \<and> \<not> empty_dir s b then (Err ENOTEMPTY, s)
              else move_node a b s)"
  have move: "move_node a b ?s = (Ok (), ?s\<lparr>nodes := (nodes s)(a := None, b \<mapsto> n)\<rparr>)"
    using assms moved_leaf [of "nodes s" a b] by (simp add: move_node_def file_move_def)
  have tl: "sys_faults ?s = tl (sys_faults s)" by (simp add: rest_faults_def)
  show thesis
  proof (cases ?m s rule: syscall_cases)
    case (fault e)
    then show thesis by (intro failed [of e ?s]) (simp_all add: rename_def tl)
  next
    case run
    then have run: "rename a b s = ?m ?s" by (simp only: rename_def)
    consider "nodes s b = None \<or> overwrite s \<and> nodes s b \<noteq> Some NDir"
      | "nodes s b = Some NDir" "overwrite s" | m where "nodes s b = Some m" "\<not> overwrite s"
      by (cases "nodes s b"; cases "overwrite s") auto
    then show thesis
    proof cases
      case 1
      then have "rename a b s = (Ok (), ?s\<lparr>nodes := (nodes s)(a := None, b \<mapsto> n)\<rparr>)"
        using run move assms(1,2) by (cases "nodes s b") auto
      then show thesis by (rule moved) (simp_all add: faultless_rest tl)
    next
      case 2
      then have "rename a b s = (Err EISDIR, ?s)" using run assms(1,2) by simp
      with 2 show thesis by (intro failed [of EISDIR "rest_faults s"]) (simp_all add: faultless_rest tl)
    next
      case 3
      then have "rename a b s = (Err AlreadyExists, ?s)" using run assms(1) by simp
      with 3 show thesis by (intro failed [of AlreadyExists "rest_faults s"]) (simp_all add: faultless_rest tl)
    qed
  qed
qed

lemmas set_aside_induct = set_aside.raw_induct [rotated, consumes 1, case_names step]

text \<open>
  \<open>flat ns P\<close>: none of the paths \<open>P\<close> is below another, and nothing is below any of them.
\<close>

definition flat :: "(bytes \<Rightarrow> node option) \<Rightarrow> bytes set \<Rightarrow> bool" where
  "flat ns P \<longleftrightarrow> (\<forall>p \<in> P. leaf ns p \<and> (\<forall>q \<in> P. \<not> below p q))"

lemma flat_update [simp]: "flat ns P \<Longrightarrow> p \<in> P \<Longrightarrow> flat (ns(p := x)) P"
  by (auto simp: flat_def leaf_def)

lemma flat_file_move: "flat ns P \<Longrightarrow> a \<in> P \<Longrightarrow> b \<in> P \<Longrightarrow> a \<noteq> b \<Longrightarrow> file_move ns a b"
  by (auto simp: flat_def file_move_def)

definition paths :: "bytes \<Rightarrow> bytes \<Rightarrow> bytes set" where
  "paths from_path to = insert from_path (insert to (range (old_name to)))"

lemma paths_in [simp]: "from_path \<in> paths from_path to" "to \<in> paths from_path to" "old_name to j \<in> paths from_path to"
  by (simp_all add: paths_def)

lemma old_name_neq [simp]: "old_name to j \<noteq> to" "to \<noteq> old_name to j"
  by (simp_all add: old_name_def bytes_of_def)

lemma set_aside_cases:
  assumes "set_aside to i s = Some y" and "nodes s to = Some n" and "n \<noteq> NDir"
    and "flat (nodes s) (paths from_path to)"
  shows "(\<exists>j s'. y = (Ok (old_name to j), s') \<and> nodes s' = (nodes s)(to := None, old_name to j \<mapsto> n) \<and>
      i \<le> j \<and> sys_faults s' = drop (j + 1 - i) (sys_faults s)) \<or>
    (\<exists>e s'. y = (Err e, s') \<and> nodes s' = nodes s)"
  using assms
proof (induction rule: set_aside_induct)
  case (step f to i s y)
  then have "file_move (nodes s) to (old_name to i)" by (intro flat_file_move) auto
  from step.prems(1,2) this show ?case
  proof (cases rule: rename_file)
    case (moved s')
    with step.hyps have "y = (Ok (old_name to i), s')" by simp
    with moved(2,5) show ?thesis by (intro disjI1 exI [of _ i] exI [of _ s']) (simp add: drop_Suc fun_eq_iff)
  next
    case (failed e s')
    show ?thesis
    proof (cases "e = AlreadyExists")
      case True
      with failed step.hyps have "f to (i + 1) s' = Some y" by simp
      from step.IH [OF this] failed(2) step.prems show ?thesis
        by (force simp: failed(5) drop_Suc Suc_diff_le)
    next
      case False
      with failed step.hyps have "y = (Err e, s')" by simp
      with failed(2) show ?thesis by blast
    qed
  qed
qed

lemma set_aside_returns:
  assumes "faultless s" and "nodes s to = Some n" and "n \<noteq> NDir"
    and "flat (nodes s) (paths from_path to)"
    and "i \<le> k" and "nodes s (old_name to k) = None" and "\<forall>j. nodes s (old_name to j) \<noteq> Some NDir"
  shows "\<exists>j s'. set_aside to i s = Some (Ok (old_name to j), s') \<and>
    nodes s' = (nodes s)(to := None, old_name to j \<mapsto> n) \<and> faultless s'"
  using assms
proof (induction "k - i" arbitrary: i s rule: less_induct)
  case less
  from less.prems(4) have "file_move (nodes s) to (old_name to i)" by (intro flat_file_move) auto
  from less.prems(2,3) this show ?case
  proof (cases rule: rename_file)
    case (moved s')
    then have "set_aside to i s = Some (Ok (old_name to i), s')" by (simp add: set_aside.simps [of to i s])
    with moved(2,4) less.prems(1) show ?thesis by blast
  next
    case (failed e s')
    with less.prems(1,7) have s': "faultless s'" "nodes s (old_name to i) \<noteq> None" "e = AlreadyExists" by auto
    with less.prems(5,6) have "i < k" by (cases "i = k") auto
    with less.hyps [of "i + 1" s'] less.prems failed s' show ?thesis
      by (simp add: set_aside.simps [of to i s])
  qed
qed

text \<open>
  The ways the target can be left in: replaced by the source, as it was, or moved aside. The
  last is left only by two calls in a row that the system refuses, the second with the error that
  is returned, after \<open>n\<close> calls and \<open>j\<close> names that were taken: \<open>ss\<close> is the script of the calls.
\<close>

definition replaced :: "bytes \<Rightarrow> bytes \<Rightarrow> node \<Rightarrow> fs \<Rightarrow> bool" where
  "replaced from_path to new s \<longleftrightarrow> nodes s to = Some new \<and> nodes s from_path = None"

definition untouched :: "bytes \<Rightarrow> bytes \<Rightarrow> node \<Rightarrow> node option \<Rightarrow> fs \<Rightarrow> bool" where
  "untouched from_path to new old s \<longleftrightarrow> nodes s to = old \<and> nodes s from_path = Some new"

definition put_aside ::
    "nat \<Rightarrow> error_kind option list \<Rightarrow> error_kind \<Rightarrow> bytes \<Rightarrow> bytes \<Rightarrow> node \<Rightarrow> node option \<Rightarrow> fs \<Rightarrow> bool" where
  "put_aside n ss e from_path to new old s \<longleftrightarrow> nodes s to = None \<and> nodes s from_path = Some new \<and> old \<noteq> None \<and>
     (\<exists>j d. nodes s (old_name to j) = old \<and> drop (n + j) ss = Some d # Some e # sys_faults s)"

text \<open>\<open>movable\<close>: the source is a file, the target a file or absent, and so are the names for moving aside.\<close>

definition movable :: "bytes \<Rightarrow> bytes \<Rightarrow> node \<Rightarrow> fs \<Rightarrow> bool" where
  "movable from_path to new s \<longleftrightarrow> flat (nodes s) (paths from_path to) \<and> from_path \<noteq> to \<and>
     nodes s from_path = Some new \<and> new \<noteq> NDir \<and> nodes s to \<noteq> Some NDir \<and>
     (\<forall>j. old_name to j \<noteq> from_path \<and> nodes s (old_name to j) \<noteq> Some NDir)"

lemma remove_file_cases:
  assumes "nodes s p = Some n" and "n \<noteq> NDir"
  obtains (removed) s' where "remove_file p s = (Ok (), s')" and "nodes s' = (nodes s)(p := None)"
  | (failed) e s' where "remove_file p s = (Err e, s')" and "nodes s' = nodes s" and "\<not> faultless s"
proof -
  let ?m = "\<lambda>s :: fs. case nodes s p of
       None \<Rightarrow> (Err NotFound, s)
     | Some NDir \<Rightarrow> (Err EISDIR, s)
     | Some _ \<Rightarrow> (Ok (), s\<lparr>nodes := (nodes s)(p := None)\<rparr>)"
  show thesis
  proof (cases ?m s rule: syscall_cases)
    case (fault e)
    then show thesis by (intro failed [of e "rest_faults s"]) (simp_all add: remove_file_def)
  next
    case run
    with assms have "remove_file p s = (Ok (), (rest_faults s)\<lparr>nodes := (nodes s)(p := None)\<rparr>)"
      by (cases n) (simp_all add: remove_file_def)
    then show thesis by (rule removed) simp
  qed
qed

lemma replace_aside_file:
  assumes "movable from_path to new s0" and "nodes s0 to = Some old"
    and "nodes s = (nodes s0)(to := None, old_name to j \<mapsto> old)"
  shows "case replace_aside from_path to old (old_name to j) s of
      (Ok _, s') \<Rightarrow> replaced from_path to new s'
    | (Err e, s') \<Rightarrow> \<not> faultless s \<and> (replaced from_path to new s' \<or> untouched from_path to new (Some old) s' \<or>
        (\<forall>n ss. drop (n + j) ss = sys_faults s \<longrightarrow> put_aside n ss e from_path to new (Some old) s'))
    | (Panic, _) \<Rightarrow> False"
proof -
  let ?o = "old_name to j"
  from assms(1,2) have flat0: "flat (nodes s0) (paths from_path to)" and neq: "from_path \<noteq> to" "?o \<noteq> from_path"
    and new: "nodes s0 from_path = Some new" "new \<noteq> NDir" and old: "old \<noteq> NDir"
    by (auto simp: movable_def)
  from flat0 have flat: "flat (nodes s) (paths from_path to)" by (simp add: assms(3))
  have s: "nodes s from_path = Some new" "nodes s to = None" "nodes s ?o = Some old"
    using new neq by (simp_all add: assms(3))
  have "file_move (nodes s) from_path to" using flat neq by (intro flat_file_move) auto
  from s(1) new(2) this show ?thesis
  proof (cases rule: rename_file)
    case (moved s1)
    then have s1: "nodes s1 ?o = Some old" "nodes s1 to = Some new" "nodes s1 from_path = None"
      using s neq by simp_all
    from s1(1) old show ?thesis
    proof (cases rule: remove_file_cases)
      case (removed s2)
      with moved s1 old neq show ?thesis by (simp add: replace_aside_def replaced_def)
    next
      case (failed e s2)
      with moved s1 old show ?thesis by (auto simp: replace_aside_def replaced_def)
    qed
  next
    case (failed e s1)
    note first = failed
    then have nf: "\<not> faultless s" using s(2) by auto
    have s1: "nodes s1 ?o = Some old" "nodes s1 to = None" "nodes s1 from_path = Some new"
      using s failed(2) by simp_all
    have "file_move (nodes s1) ?o to" using flat failed(2) by (intro flat_file_move) auto
    from s1(1) old this show ?thesis
    proof (cases rule: rename_file)
      case (moved s2)
      with failed s1 neq nf show ?thesis by (simp add: replace_aside_def untouched_def)
    next
      case (failed e' s2)
      from failed(6) first(6) s(2) s1(2) have script: "sys_faults s = Some e # Some e' # sys_faults s2" by simp
      from failed(1) first(1) have run: "replace_aside from_path to old ?o s = (Err e', s2)"
        by (simp add: replace_aside_def io_then_def io_bind_def)
      have "put_aside n ss e' from_path to new (Some old) s2" if "drop (n + j) ss = sys_faults s" for n ss
        using that s1 failed(2) script unfolding put_aside_def by (intro conjI exI [of _ j] exI [of _ e]) simp_all
      with run nf show ?thesis by simp
    qed
  qed
qed

lemma rename_refused:
  "faultless s \<Longrightarrow> \<not> overwrite s \<Longrightarrow> nodes s a = Some n \<Longrightarrow> nodes s b = Some m \<Longrightarrow>
     rename a b s = (Err AlreadyExists, rest_faults s)"
  by (simp add: rename_def syscall_faultless)

lemma fallback_file:
  assumes "move_replace_fallback from_path to s = Some (r, s')" and "movable from_path to new s"
  shows "(r = Ok () \<and> replaced from_path to new s') \<or>
    (\<exists>e. r = Err e \<and> (replaced from_path to new s' \<or> untouched from_path to new (nodes s to) s' \<or>
       put_aside 3 (sys_faults s) e from_path to new (nodes s to) s'))"
proof -
  from assms(2) have flat: "flat (nodes s) (paths from_path to)" and neq: "from_path \<noteq> to"
    and new: "nodes s from_path = Some new" "new \<noteq> NDir" and target: "nodes s to \<noteq> Some NDir"
    by (auto simp: movable_def)
  have keep: "untouched from_path to new (nodes s to) t" if "nodes t = nodes s" for t
    using that new by (simp add: untouched_def)
  have "file_move (nodes s) from_path to" using flat neq by (intro flat_file_move) auto
  from new this show ?thesis
  proof (cases rule: rename_file)
    case (moved s1)
    with assms(1) neq show ?thesis by (auto simp: move_replace_fallback_def replaced_def)
  next
    case (failed e s1)
    show ?thesis
    proof (cases "e = AlreadyExists")
      case False
      with failed assms(1) keep show ?thesis by (auto simp: move_replace_fallback_def)
    next
      case True
      obtain x s2 where stat: "symlink_metadata to s1 = (x, s2)" by fastforce
      then have s2: "nodes s2 = nodes s" and x: "x \<noteq> Panic" "\<And>n. x = Ok n \<Longrightarrow> nodes s to = Some n"
        using failed(2) by (auto simp: symlink_metadata_def syscall_run split: list.splits option.splits)
      have tl: "sys_faults s2 = drop 2 (sys_faults s)"
        using stat failed(5)
        by (auto simp: symlink_metadata_def syscall_run rest_faults_def drop_Suc numeral_2_eq_2 split: list.splits option.splits)
      show ?thesis
      proof (cases x)
        case (Err e')
        with failed True stat assms(1) keep [OF s2] show ?thesis by (auto simp: move_replace_fallback_def)
      next
        case Panic
        with x show ?thesis by simp
      next
        case (Ok old)
        with x target have old: "nodes s2 to = Some old" "old \<noteq> NDir" by (auto simp: s2)
        from failed True stat Ok assms(1) have rest: "(case set_aside to 0 s2 of
              None \<Rightarrow> None
            | Some (Err e, s3) \<Rightarrow> Some (Err e, s3)
            | Some (Panic, s3) \<Rightarrow> Some (Panic, s3)
            | Some (Ok next_path, s3) \<Rightarrow> Some (replace_aside from_path to old next_path s3)) = Some (r, s')"
          by (simp add: move_replace_fallback_def)
        then obtain y where y: "set_aside to 0 s2 = Some y" by (cases "set_aside to 0 s2") auto
        have mov: "movable from_path to new s2" using assms(2) by (simp add: movable_def s2)
        have "flat (nodes s2) (paths from_path to)" using flat by (simp add: s2)
        from set_aside_cases [OF y old this] show ?thesis
        proof (elim disjE exE conjE)
          fix j s3
          assume s3: "y = (Ok (old_name to j), s3)" "nodes s3 = (nodes s2)(to := None, old_name to j \<mapsto> old)"
            "sys_faults s3 = drop (j + 1 - 0) (sys_faults s2)"
          then have "replace_aside from_path to old (old_name to j) s3 = (r, s')" using rest y by simp
          moreover have "drop (3 + j) (sys_faults s) = sys_faults s3" by (simp add: s3(3) tl numeral_3_eq_3)
          ultimately show ?thesis
            using replace_aside_file [OF mov old(1) s3(2)] old(1) by (cases r) (auto simp: s2)
        next
          fix e' s3
          assume "y = (Err e', s3)" "nodes s3 = nodes s2"
          with rest y keep [of s3] show ?thesis by (auto simp: s2)
        qed
      qed
    qed
  qed
qed

text \<open>
  C3: Moving a file to another path, where there is a file or nothing and no name for moving that
  aside is the source or a directory, on a file system with or without atomic replacement and with
  any system call failing: success means the target is replaced and the source gone; after
  a failure the target is replaced, or is what it was with the source still there, or is aside
  under the name of the target with a suffix. The last happens only if the system refused two
  calls in a row: the move over the target once that was aside (the two moves that were tried,
  the look at the target and the moves aside come before it), and the move back, whose error is
  then returned. The old content is never lost together with the new one.
\<close>

theorem move_replace_atomic:
  assumes "move_replace from_path to s = Some (r, s')" and "movable from_path to new s"
  shows "(r = Ok () \<and> replaced from_path to new s') \<or>
    (\<exists>e. r = Err e \<and> (replaced from_path to new s' \<or> untouched from_path to new (nodes s to) s' \<or>
       put_aside 4 (sys_faults s) e from_path to new (nodes s to) s'))"
proof -
  from assms(2) have flat: "flat (nodes s) (paths from_path to)" and neq: "from_path \<noteq> to"
    and new: "nodes s from_path = Some new" "new \<noteq> NDir" by (auto simp: movable_def)
  have "file_move (nodes s) from_path to" using flat neq by (intro flat_file_move) auto
  from new this show ?thesis
  proof (cases rule: rename_file)
    case (moved s1)
    with assms(1) neq show ?thesis by (auto simp: move_replace_def replaced_def)
  next
    case (failed e s1)
    have "movable from_path to new s1" using assms(2) failed(2) by (simp add: movable_def)
    from fallback_file [OF _ this, of r s'] failed assms(1) new show ?thesis
      by (auto simp: move_replace_def untouched_def put_aside_def drop_Suc numeral_eq_Suc split: if_splits)
  qed
qed

text \<open>
  C22: Without failures of the system, with or without atomic replacement, the move of a file to
  another path where there is a file or nothing returns and succeeds: the source is at the target.
  Provided that no name for moving the old file aside is the source or a directory, and that one
  of those names is free; the others may be taken.
\<close>

theorem move_replace_returns:
  assumes "faultless s" and "movable from_path to new s" and "nodes s (old_name to k) = None"
  shows "\<exists>s'. move_replace from_path to s = Some (Ok (), s') \<and> replaced from_path to new s'"
proof -
  from assms(2) have flat: "flat (nodes s) (paths from_path to)" and neq: "from_path \<noteq> to"
    and new: "nodes s from_path = Some new" "new \<noteq> NDir" and target: "nodes s to \<noteq> Some NDir"
    and names: "\<forall>j. nodes s (old_name to j) \<noteq> Some NDir"
    by (auto simp: movable_def)
  have fm: "file_move (nodes s) from_path to" using flat neq by (intro flat_file_move) auto
  from new fm show ?thesis
  proof (cases rule: rename_file)
    case (moved s1)
    with neq show ?thesis by (auto simp: move_replace_def replaced_def)
  next
    case (failed e s1)
    then have e: "e = AlreadyExists" and s1: "faultless s1" and "nodes s to \<noteq> None" "\<not> overwrite s"
      using assms(1) target by auto
    then obtain old where old: "nodes s to = Some old" "old \<noteq> NDir" using target by auto
    let ?s2 = "rest_faults s1" and ?s3 = "rest_faults (rest_faults s1)"
    have s2: "rename from_path to s1 = (Err AlreadyExists, ?s2)"
      using failed(2,3) new old \<open>\<not> overwrite s\<close> by (intro rename_refused [OF s1, of _ new _ old]) simp_all
    have f2: "faultless ?s2" and f3: "faultless ?s3" using s1 by (simp_all add: faultless_rest)
    have s3: "symlink_metadata to ?s2 = (Ok old, ?s3)"
      using old failed(2) by (simp add: symlink_metadata_def syscall_faultless [OF f2])
    have n3: "nodes ?s3 = nodes s" by (simp add: failed(2))
    obtain j s4 where s4: "set_aside to 0 ?s3 = Some (Ok (old_name to j), s4)"
      "nodes s4 = (nodes s)(to := None, old_name to j \<mapsto> old)" "faultless s4"
      using set_aside_returns [OF f3, of to old from_path 0 k] old flat assms(3) names by (auto simp: failed(2))
    obtain x s5 where s5: "replace_aside from_path to old (old_name to j) s4 = (x, s5)" by fastforce
    with replace_aside_file [OF assms(2) old(1) s4(2)] s4(3) have "x = Ok ()" "replaced from_path to new s5"
      by (cases x; auto)+
    with failed(1) e s2 s3 s4(1) s5 show ?thesis by (simp add: move_replace_def move_replace_fallback_def)
  qed
qed

section \<open>Temporary files\<close>

text \<open>
  The counter that makes names unique within the process, and the file system. A file is
  removed once: by \<open>delete\<close> or by being dropped, unless it is forgotten.
\<close>

record world =
  counter :: "64 word"
  disk :: fs

definition on_disk :: "(fs, 'a) io \<Rightarrow> ('w world_scheme, 'a) io" where
  "on_disk m w = (case m (disk w) of (x, s) \<Rightarrow> (x, w\<lparr>disk := s\<rparr>))"

definition MAX_RETRIES :: nat where
  "MAX_RETRIES = 1024"

definition temp_name :: "64 word \<Rightarrow> nat \<Rightarrow> string \<Rightarrow> bytes" where
  "temp_name count pid suffix = bytes_of (hex (unat count) @ ''-'' @ hex pid @ ''-'' @ suffix)"

text \<open>
  The loop over attempts, shared by files and directories: \<open>mk\<close> is the call that creates,
  \<open>f\<close> the side effect before it, \<open>pick\<close> the random suffixes. The side effect may act on more
  than this state: the record is extended where the code captures more (theory \<open>Store\<close>).
\<close>

fun temp_loop ::
    "(bytes \<Rightarrow> (fs, unit) io) \<Rightarrow> (bytes \<Rightarrow> 'w world_scheme \<Rightarrow> 'w world_scheme) \<Rightarrow> nat \<Rightarrow> (nat \<Rightarrow> string) \<Rightarrow>
       bytes \<Rightarrow> nat \<Rightarrow> ('w world_scheme, bytes) io" where
  "temp_loop mk f pid pick parent 0 w = (Err AlreadyExists, w)"
| "temp_loop mk f pid pick parent (Suc k) w =
     (let p = path_join parent (temp_name (counter w) pid (pick k));
          w1 = f p (w\<lparr>counter := counter w + 1\<rparr>)
      in case on_disk (mk p) w1 of
        (Ok _, w2) \<Rightarrow> (Ok p, w2)
      | (Err e, w2) \<Rightarrow>
          if e = AlreadyExists then temp_loop mk f pid pick parent k w2 else (Err e, w2)
      | (Panic, w2) \<Rightarrow> (Panic, w2))"

definition temp_file_new_with ::
    "(bytes \<Rightarrow> 'w world_scheme \<Rightarrow> 'w world_scheme) \<Rightarrow> nat \<Rightarrow> (nat \<Rightarrow> string) \<Rightarrow> bytes \<Rightarrow>
       ('w world_scheme, bytes) io" where
  "temp_file_new_with f pid pick parent =
     io_then (on_disk (create_dir_all parent)) (temp_loop create_new f pid pick parent MAX_RETRIES)"

definition temp_file_new_in :: "nat \<Rightarrow> (nat \<Rightarrow> string) \<Rightarrow> bytes \<Rightarrow> ('w world_scheme, bytes) io" where
  "temp_file_new_in = temp_file_new_with (\<lambda>_ w. w)"

definition temp_dir_new_in :: "nat \<Rightarrow> (nat \<Rightarrow> string) \<Rightarrow> bytes \<Rightarrow> ('w world_scheme, bytes) io" where
  "temp_dir_new_in pid pick parent =
     io_then (on_disk (create_dir_all parent)) (temp_loop create_dir (\<lambda>_ w. w) pid pick parent MAX_RETRIES)"

text \<open>In the temporary directory of the environment.\<close>

definition temp_file_new :: "bytes \<Rightarrow> nat \<Rightarrow> (nat \<Rightarrow> string) \<Rightarrow> ('w world_scheme, bytes) io" where
  "temp_file_new temp_directory pid pick = temp_file_new_in pid pick temp_directory"

definition temp_dir_new :: "bytes \<Rightarrow> nat \<Rightarrow> (nat \<Rightarrow> string) \<Rightarrow> ('w world_scheme, bytes) io" where
  "temp_dir_new temp_directory pid pick = temp_dir_new_in pid pick temp_directory"

text \<open>A handle is its path; an empty path means there is nothing to clean up.\<close>

definition temp_file_delete :: "bytes \<Rightarrow> (fs, unit) io" where
  "temp_file_delete p = (if p \<noteq> [] then remove_file p else io_return ())"

definition temp_dir_delete :: "bytes \<Rightarrow> (fs, unit) io" where
  "temp_dir_delete p = (if p \<noteq> [] then remove_dir_all p else io_return ())"

text \<open>\<open>delete_impl\<close> as a method: the handle is empty afterwards, whatever the outcome.\<close>

definition temp_file_delete_impl :: "bytes \<times> fs \<Rightarrow> (error_kind, unit) res \<times> bytes \<times> fs" where
  "temp_file_delete_impl = (\<lambda>(p, s). case temp_file_delete p s of (x, s') \<Rightarrow> (x, ([], s')))"

definition temp_file_drop :: "bytes \<times> fs \<Rightarrow> fs" where
  "temp_file_drop h = snd (snd (temp_file_delete_impl h))"

definition temp_dir_drop :: "bytes \<times> fs \<Rightarrow> fs" where
  "temp_dir_drop = (\<lambda>(p, s). snd (temp_dir_delete p s))"

text \<open>A handle can also be made for a path that exists already, which is then deleted with it.\<close>

definition temp_from :: "bytes \<Rightarrow> bytes" where
  "temp_from value = value"

definition temp_dir_default :: bytes where
  "temp_dir_default = []"

lemma temp_dir_default_drop: "temp_dir_drop (temp_dir_default, s) = s"
  by (simp add: temp_dir_drop_def temp_dir_default_def temp_dir_delete_def)

lemma temp_from_drop:
  "faultless s \<Longrightarrow> nodes s p = Some (NFile c) \<Longrightarrow> p \<noteq> [] \<Longrightarrow> nodes (temp_file_drop (temp_from p, s)) = (nodes s)(p := None)"
  by (simp add: temp_from_def temp_file_drop_def temp_file_delete_impl_def temp_file_delete_def remove_file_def
      syscall_faultless)

definition temp_forget :: "bytes \<Rightarrow> bytes \<times> bytes" where
  "temp_forget p = (p, [])"

text \<open>The rest of the methods of both handles; \<open>show_path\<close> is the formatter of paths.\<close>

definition temp_as_path :: "bytes \<Rightarrow> bytes" where "temp_as_path p = p"
definition temp_deref :: "bytes \<Rightarrow> bytes" where "temp_deref p = temp_as_path p"
definition temp_debug :: "(bytes \<Rightarrow> string) \<Rightarrow> bytes \<Rightarrow> string" where "temp_debug show_path p = show_path p"

definition temp_dir_as_path :: "bytes \<Rightarrow> bytes" where "temp_dir_as_path p = p"
definition temp_dir_deref :: "bytes \<Rightarrow> bytes" where "temp_dir_deref p = temp_dir_as_path p"
definition temp_dir_debug :: "(bytes \<Rightarrow> string) \<Rightarrow> bytes \<Rightarrow> string" where "temp_dir_debug show_path p = show_path p"
definition temp_dir_from :: "bytes \<Rightarrow> bytes" where "temp_dir_from value = value"
definition temp_dir_forget :: "bytes \<Rightarrow> bytes \<times> bytes" where "temp_dir_forget p = (p, temp_dir_default)"

text \<open>What is forgotten is not cleaned up.\<close>

lemma forgotten_stays:
  "temp_file_drop (snd (temp_forget p), s) = s" "temp_dir_drop (snd (temp_dir_forget p), s) = s"
  by (simp_all add: temp_forget_def temp_file_drop_def temp_file_delete_impl_def temp_file_delete_def
      temp_dir_forget_def temp_dir_default_drop)

definition write_to :: "bytes \<Rightarrow> bytes \<Rightarrow> fs \<Rightarrow> ((error_kind, unit) res \<times> fs) option" where
  "write_to p to s =
     (case move_replace p to s of
        None \<Rightarrow> None
      | Some (Ok _, s') \<Rightarrow> Some (Ok (), temp_file_drop (snd (temp_forget p), s'))
      | Some (Err e, s') \<Rightarrow> Some (Err e, temp_file_drop (p, s'))
      | Some (Panic, s') \<Rightarrow> Some (Panic, temp_file_drop (p, s')))"

text \<open>Names of different counts differ, as hexadecimal digits contain no dash.\<close>

lemma hex_chars: "set (hex n) \<subseteq> set ''0123456789abcdef''"
proof (induction n rule: hex.induct)
  case (1 n)
  have d: "hex_digit d \<in> set ''0123456789abcdef''" if "d < 16" for d
    unfolding hex_digit_def using that by (intro nth_mem) simp
  show ?case
  proof (cases "n < 16")
    case True
    with d [OF True] show ?thesis by (simp only: hex.simps [of n] if_True) auto
  next
    case False
    with 1 d [of "n mod 16"] show ?thesis by (simp only: hex.simps [of n] if_False set_append) auto
  qed
qed

lemma hex_no_dash: "CHR ''-'' \<notin> set (hex n)"
  using hex_chars [of n] by auto

lemma split_at_dash:
  "CHR ''-'' \<notin> set a \<Longrightarrow> CHR ''-'' \<notin> set b \<Longrightarrow> a @ CHR ''-'' # s = b @ CHR ''-'' # t \<Longrightarrow> a = b"
  by (induction a arbitrary: b) (auto simp: Cons_eq_append_conv)

lemma bytes_of_inject [simp]: "bytes_of a = bytes_of b \<longleftrightarrow> a = b"
proof -
  have "inj (\<lambda>c :: char. word_of_nat (of_char c) :: byte)"
  proof (rule injI)
    fix a b :: char
    assume "(word_of_nat (of_char a) :: byte) = word_of_nat (of_char b)"
    then have "unat (word_of_nat (of_char a) :: byte) = unat (word_of_nat (of_char b) :: byte)" by simp
    then show "a = b" by (simp add: unat_of_nat)
  qed
  then show ?thesis by (simp add: bytes_of_def inj_map_eq_map)
qed

lemma temp_name_inject: "temp_name c pid s = temp_name d pid t \<Longrightarrow> c = d"
  unfolding temp_name_def
  by (auto dest!: split_at_dash [OF hex_no_dash hex_no_dash] hex_inject simp: word_unat_eq_iff)

lemma temp_name_first: "temp_name c pid s \<noteq> [] \<and> temp_name c pid s ! 0 \<noteq> 47"
proof -
  obtain x xs where x: "hex (unat c) = x # xs" by (cases "hex (unat c)") auto
  with hex_chars [of "unat c"] have "x \<in> set ''0123456789abcdef''" by simp
  then have "(word_of_nat (of_char x) :: byte) \<noteq> 47" by auto
  with x show ?thesis by (simp add: temp_name_def bytes_of_def)
qed

lemma temp_path_inject:
  "path_join parent (temp_name c pid s) = path_join parent (temp_name d pid t) \<Longrightarrow> c = d"
  using temp_name_first [of c pid s] temp_name_first [of d pid t] temp_name_inject [of c pid s d t]
  by (auto simp: path_join_def split: if_splits)

text \<open>What an attempt that succeeds has done, and how far it has moved the counter.\<close>

lemma temp_loop_Ok:
  assumes "temp_loop mk f pid pick parent k w = (Ok p, w')"
    and f: "\<And>q w. counter (f q w) = counter w" "\<And>q w. disk (f q w) = disk w"
    and "\<And>q s e s'. mk q s = (Err e, s') \<Longrightarrow> nodes s' = nodes s"
    and "\<And>q s s'. mk q s = (Ok (), s') \<Longrightarrow> nodes s q = None \<and> nodes s' = (nodes s)(q \<mapsto> n)"
  shows "\<exists>i < k. counter w' = counter w + word_of_nat i + 1 \<and>
    p = path_join parent (temp_name (counter w + word_of_nat i) pid (pick (k - Suc i))) \<and>
    nodes (disk w) p = None \<and> nodes (disk w') = (nodes (disk w))(p \<mapsto> n)"
  using assms(1)
proof (induction k arbitrary: w)
  case (Suc k)
  let ?p = "path_join parent (temp_name (counter w) pid (pick k))"
  let ?w1 = "f ?p (w\<lparr>counter := counter w + 1\<rparr>)"
  obtain x s' where mk: "mk ?p (disk w) = (x, s')" by fastforce
  then have run: "on_disk (mk ?p) ?w1 = (x, ?w1\<lparr>disk := s'\<rparr>)" by (simp add: on_disk_def f)
  show ?case
  proof (cases x)
    case (Ok u)
    with Suc.prems run have "p = ?p" "w' = ?w1\<lparr>disk := s'\<rparr>" by (auto simp: Let_def)
    with assms(5) [of ?p "disk w" s'] mk Ok show ?thesis by (intro exI [of _ 0]) (simp add: f)
  next
    case (Err e)
    let ?w2 = "?w1\<lparr>disk := s'\<rparr>"
    from Err Suc.prems run have "temp_loop mk f pid pick parent k ?w2 = (Ok p, w')"
      by (simp add: Let_def split: if_splits)
    from Suc.IH [OF this] obtain i where i: "i < k" "counter w' = counter ?w2 + word_of_nat i + 1"
      "p = path_join parent (temp_name (counter ?w2 + word_of_nat i) pid (pick (k - Suc i)))"
      "nodes (disk ?w2) p = None" "nodes (disk w') = (nodes (disk ?w2))(p \<mapsto> n)" by blast
    have "nodes s' = nodes (disk w)" using assms(4) mk Err by simp
    with i show ?thesis by (intro exI [of _ "Suc i"]) (simp add: ac_simps f)
  next
    case Panic
    with Suc.prems run show ?thesis by simp
  qed
qed simp

lemma on_disk_run: obtains x d where "on_disk m w = (x, w\<lparr>disk := d\<rparr>)"
  by (cases "m (disk w)") (simp add: on_disk_def)

lemma disk_calls_no_panic:
  "fst (create_new p s) \<noteq> Panic" "fst (create_dir p s) \<noteq> Panic" "fst (create_dir_all p s) \<noteq> Panic"
  by (auto simp: create_new_def create_dir_def create_dir_all_def syscall_run
      split: list.split option.split node.split)

lemma on_disk_no_panic: "fst (on_disk m w) = Panic \<longleftrightarrow> fst (m (disk w)) = Panic"
  by (simp add: on_disk_def split: prod.split)

lemma temp_loop_no_panic:
  "(\<And>p s. fst (mk p s) \<noteq> Panic) \<Longrightarrow> fst (temp_loop mk f pid pick parent k w) \<noteq> Panic"
proof (induction k arbitrary: w)
  case (Suc k)
  let ?p = "path_join parent (temp_name (counter w) pid (pick k))"
  let ?w1 = "f ?p (w\<lparr>counter := counter w + 1\<rparr>)"
  obtain x d where run: "on_disk (mk ?p) ?w1 = (x, ?w1\<lparr>disk := d\<rparr>)"
    by (rule on_disk_run)
  with Suc.prems have "x \<noteq> Panic" using on_disk_no_panic [of "mk ?p" ?w1] by simp
  with Suc show ?case by (simp add: Let_def run split: res.split)
qed simp

lemma temp_file_no_panic: "fst (temp_file_new_with f pid pick parent w) \<noteq> Panic"
proof -
  obtain x d where run: "on_disk (create_dir_all parent) w = (x, w\<lparr>disk := d\<rparr>)" by (rule on_disk_run)
  then have "x \<noteq> Panic" using disk_calls_no_panic(3) on_disk_no_panic [of "create_dir_all parent" w] by simp
  with run temp_loop_no_panic [of create_new] disk_calls_no_panic(1) show ?thesis
    by (cases x) (simp_all add: temp_file_new_with_def)
qed

text \<open>What the side effect keeps, the loop keeps; what the last side effect does is still there.\<close>

lemma temp_loop_invariant:
  assumes "\<And>q w. I w \<Longrightarrow> I (f q (w\<lparr>counter := counter w + 1\<rparr>))" and "\<And>w d. I w \<Longrightarrow> I (w\<lparr>disk := d\<rparr>)"
  shows "I w \<Longrightarrow> I (snd (temp_loop mk f pid pick parent k w))"
proof (induction k arbitrary: w)
  case (Suc k)
  let ?p = "path_join parent (temp_name (counter w) pid (pick k))"
  let ?w1 = "f ?p (w\<lparr>counter := counter w + 1\<rparr>)"
  obtain x d where run: "on_disk (mk ?p) ?w1 = (x, ?w1\<lparr>disk := d\<rparr>)"
    by (rule on_disk_run)
  have "I (?w1\<lparr>disk := d\<rparr>)" using assms Suc.prems by blast
  with Suc.IH [OF this] show ?case by (simp add: Let_def run split: res.split)
qed simp

lemma temp_loop_last:
  assumes "\<And>q w. Q q (f q w)" and "\<And>q w d. Q q w \<Longrightarrow> Q q (w\<lparr>disk := d\<rparr>)"
  shows "temp_loop mk f pid pick parent k w = (Ok p, w') \<Longrightarrow> Q p w'"
proof (induction k arbitrary: w)
  case (Suc k)
  let ?p = "path_join parent (temp_name (counter w) pid (pick k))"
  let ?w1 = "f ?p (w\<lparr>counter := counter w + 1\<rparr>)"
  obtain x d where run: "on_disk (mk ?p) ?w1 = (x, ?w1\<lparr>disk := d\<rparr>)"
    by (rule on_disk_run)
  have "Q ?p (?w1\<lparr>disk := d\<rparr>)" using assms by blast
  with Suc show ?case by (auto simp: Let_def run split: res.splits if_splits)
qed simp

lemma create_new_spec:
  "create_new q s = (Err e, s') \<Longrightarrow> nodes s' = nodes s"
  "create_new q s = (Ok (), s') \<Longrightarrow> nodes s q = None \<and> nodes s' = (nodes s)(q \<mapsto> NFile [])"
  by (auto simp: create_new_def syscall_run split: list.splits option.splits if_splits)

lemma create_dir_spec:
  "create_dir q s = (Err e, s') \<Longrightarrow> nodes s' = nodes s"
  "create_dir q s = (Ok (), s') \<Longrightarrow> nodes s q = None \<and> nodes s' = (nodes s)(q \<mapsto> NDir)"
  by (auto simp: create_dir_def syscall_run split: list.splits option.splits if_splits)

lemma temp_loop_file:
  assumes "temp_loop create_new f pid pick parent k w = (Ok p, w')"
    and "\<And>q w. counter (f q w) = counter w" and "\<And>q w. disk (f q w) = disk w"
  shows "\<exists>i < k. counter w' = counter w + word_of_nat i + 1 \<and>
    p = path_join parent (temp_name (counter w + word_of_nat i) pid (pick (k - Suc i))) \<and>
    nodes (disk w) p = None \<and> nodes (disk w') = (nodes (disk w))(p \<mapsto> NFile [])"
  using assms by (rule temp_loop_Ok) (fact create_new_spec)+

lemma temp_loop_dir:
  assumes "temp_loop create_dir (\<lambda>_ w. w) pid pick parent k w = (Ok p, w')"
  shows "\<exists>i < k. counter w' = counter w + word_of_nat i + 1 \<and>
    p = path_join parent (temp_name (counter w + word_of_nat i) pid (pick (k - Suc i))) \<and>
    nodes (disk w) p = None \<and> nodes (disk w') = (nodes (disk w))(p \<mapsto> NDir)"
  using assms by (rule temp_loop_Ok) (fact refl create_dir_spec)+

lemma create_dir_all_spec:
  "create_dir_all q s = (Ok (), s') \<Longrightarrow> nodes s p = Some n \<Longrightarrow> nodes s' p = Some n"
  by (auto simp: create_dir_all_def syscall_run split: list.splits option.splits node.splits if_splits)

text \<open>
  A temporary file that is created is a new, empty file: no node had its path, and every
  node that was there before is still there as it was.
\<close>

theorem temp_file_fresh:
  assumes "temp_file_new_in pid pick parent w = (Ok p, w')"
  shows "nodes (disk w) p = None \<and> nodes (disk w') p = Some (NFile []) \<and>
    (\<forall>q n. nodes (disk w) q = Some n \<longrightarrow> nodes (disk w') q = Some n)"
proof -
  from assms obtain w1 where w1: "on_disk (create_dir_all parent) w = (Ok (), w1)"
    and loop: "temp_loop create_new (\<lambda>_ w. w) pid pick parent MAX_RETRIES w1 = (Ok p, w')"
    unfolding temp_file_new_in_def temp_file_new_with_def by (elim io_then_OkE)
  from w1 have keep: "nodes (disk w) q = Some n \<Longrightarrow> nodes (disk w1) q = Some n" for q n
    by (auto simp: on_disk_def split: prod.splits dest: create_dir_all_spec)
  from temp_loop_file [OF loop refl refl] have
    p: "nodes (disk w1) p = None" "nodes (disk w') = (nodes (disk w1))(p \<mapsto> NFile [])" by auto
  moreover from p(1) keep have "nodes (disk w) p = None" by (cases "nodes (disk w) p") auto
  ultimately show ?thesis using keep by auto
qed

text \<open>
  Two temporary files or directories made one after the other by a process never have the
  same path, even if the first was removed meanwhile and whatever the random suffixes.
\<close>

theorem temp_paths_distinct:
  assumes "temp_file_new_in pid pick parent w = (Ok p, w1)" and "counter w2 = counter w1"
    and "temp_dir_new_in pid pick' parent w2 = (Ok q, w3)"
  shows "p \<noteq> q"
proof
  assume "p = q"
  from assms(1) obtain v1 where
    "temp_loop create_new (\<lambda>_ w. w) pid pick parent MAX_RETRIES v1 = (Ok p, w1)"
    unfolding temp_file_new_in_def temp_file_new_with_def by (elim io_then_OkE)
  from temp_loop_file [OF this refl refl] obtain i where
    i: "i < MAX_RETRIES" "counter w1 = counter v1 + word_of_nat i + 1"
      "p = path_join parent (temp_name (counter v1 + word_of_nat i) pid (pick (MAX_RETRIES - Suc i)))" by blast
  from assms(3) obtain v2 where on: "on_disk (create_dir_all parent) w2 = (Ok (), v2)" and
    "temp_loop create_dir (\<lambda>_ w. w) pid pick' parent MAX_RETRIES v2 = (Ok q, w3)"
    unfolding temp_dir_new_in_def by (elim io_then_OkE)
  from temp_loop_dir [OF this(2)] obtain j where
    j: "j < MAX_RETRIES" "q = path_join parent (temp_name (counter v2 + word_of_nat j) pid (pick' (MAX_RETRIES - Suc j)))"
    by blast
  from on have "counter v2 = counter w2" by (auto simp: on_disk_def split: prod.splits)
  with assms(2) i(2) have "counter v2 + word_of_nat j = counter v1 + word_of_nat i + (1 + word_of_nat j)" by simp
  moreover from \<open>p = q\<close> i(3) j(2) have "counter v1 + word_of_nat i = counter v2 + word_of_nat j"
    using temp_path_inject by blast
  ultimately have "(1 + word_of_nat j :: 64 word) = 0" by (metis add_cancel_left_right)
  then have "(word_of_nat (Suc j) :: 64 word) = word_of_nat 0" by simp
  then have "unat (word_of_nat (Suc j) :: 64 word) = unat (word_of_nat 0 :: 64 word)" by (rule arg_cong)
  moreover have "Suc j < 2 ^ 64" using j(1) by (simp add: MAX_RETRIES_def)
  ultimately show False by (simp add: unat_of_nat del: of_nat_Suc)
qed

text \<open>
  A handle cleans up at most once: dropping it after \<open>delete\<close>, whether that succeeded or
  not, or after \<open>forget\<close>, changes nothing.
\<close>

theorem temp_file_cleanup_once:
  "(case temp_file_delete_impl (p, s) of (x, h) \<Rightarrow> temp_file_drop h = snd h) \<and>
    temp_file_drop (snd (temp_forget p), s) = s \<and> temp_dir_drop (snd (temp_forget p), s) = s"
  by (simp add: temp_file_delete_impl_def temp_file_drop_def temp_file_delete_def temp_forget_def
      temp_dir_drop_def temp_dir_delete_def split: prod.split)

section \<open>Instances\<close>

lemma below_slash: "below p q \<Longrightarrow> 47 \<in> set q"
proof -
  assume "below p q"
  then have "47 \<in> set (take (length p + 1) q)" by (simp add: below_def)
  then show ?thesis by (rule in_set_takeD)
qed

lemma old_name_no_slash: "47 \<notin> set to \<Longrightarrow> 47 \<notin> set (old_name to j)"
proof -
  have "(word_of_nat (of_char c) :: byte) \<noteq> 47" if "c \<in> set (hex j)" for c
    using that hex_chars [of j] by auto
  then have "47 \<notin> set (bytes_of (hex j))" by (auto simp: bytes_of_def)
  moreover assume "47 \<notin> set to"
  ultimately show ?thesis by (auto simp: old_name_def bytes_of_def)
qed

text \<open>Two files in one directory, and nothing else.\<close>

definition two_files :: "error_kind option list \<Rightarrow> bool \<Rightarrow> fs" where
  "two_files script ow = \<lparr>nodes = [[97] \<mapsto> NFile [1], [98] \<mapsto> NFile [2]], sys_faults = script, overwrite = ow\<rparr>"

lemma two_files_movable: "movable [97] [98] (NFile [1]) (two_files script ow)"
proof -
  have no: "47 \<notin> set p" if "p \<in> paths [97] [98]" for p
    using that by (auto simp: paths_def old_name_no_slash)
  have len: "old_name [98] j \<noteq> [97]" "nodes (two_files script ow) (old_name [98] j) = None" for j
    by (auto simp: old_name_def bytes_of_def two_files_def)
  have "leaf (nodes (two_files script ow)) p" for p
    by (auto simp: leaf_def two_files_def dest: below_slash)
  with no below_slash have "flat (nodes (two_files script ow)) (paths [97] [98])"
    unfolding flat_def by blast
  with len show ?thesis by (auto simp: movable_def two_files_def)
qed

theorem move_replace_atomic_witness:
  "\<exists>s'. move_replace [97] [98] (two_files [None, None, None, None, Some PermissionDenied, Some BrokenPipe] False) =
      Some (Err BrokenPipe, s') \<and>
    put_aside 4 [None, None, None, None, Some PermissionDenied, Some BrokenPipe] BrokenPipe [97] [98] (NFile [1]) (Some (NFile [2])) s'"
proof -
  let ?script = "[None, None, None, None, Some PermissionDenied, Some BrokenPipe]"
  let ?s = "two_files ?script False" and ?o = "old_name [98] 0"
  have o: "?o \<noteq> [97]" "?o \<noteq> [98]" "[97] \<noteq> ?o" "[98] \<noteq> ?o" by (auto simp: old_name_def bytes_of_def)
  let ?ns = "[[97] \<mapsto> NFile [1], [98] \<mapsto> NFile [2]]"
  have lf: "leaf ?ns p" for p by (auto simp: leaf_def dest: below_slash)
  have no: "\<not> below ?o [98]" "\<not> below [98] ?o" using old_name_no_slash [of "[98]" 0] by (auto dest: below_slash)
  from moved_leaf [OF lf lf o(4) no] o have "moved [98] ?o ?ns = [[97] \<mapsto> NFile [1], ?o \<mapsto> NFile [2]]" by (simp add: fun_eq_iff)
  then have aside: "set_aside [98] 0 (two_files [None, Some PermissionDenied, Some BrokenPipe] False) =
      Some (Ok ?o, two_files [Some PermissionDenied, Some BrokenPipe] False\<lparr>nodes := [[97] \<mapsto> NFile [1], ?o \<mapsto> NFile [2]]\<rparr>)"
    using o by (simp add: set_aside.simps [of "[98]" 0] rename_def syscall_def two_files_def move_node_def)
  have "\<exists>s'. move_replace [97] [98] ?s = Some (Err BrokenPipe, s') \<and> nodes s' [98] = None"
    using aside o
    by (simp add: move_replace_def move_replace_fallback_def rename_def syscall_def two_files_def symlink_metadata_def
        replace_aside_def io_then_def io_bind_def io_fail_def)
  then obtain s' where s': "move_replace [97] [98] ?s = Some (Err BrokenPipe, s')" "nodes s' [98] = None" by blast
  from move_replace_atomic [OF s'(1) two_files_movable] s' show ?thesis
    by (auto simp: replaced_def untouched_def two_files_def)
qed

theorem move_replace_returns_witness:
  "\<exists>s'. move_replace [97] [98] (two_files [] False) = Some (Ok (), s') \<and> nodes s' [98] = Some (NFile [1])"
proof -
  have "nodes (two_files [] False) (old_name [98] 0) = None"
    by (simp add: two_files_def old_name_def bytes_of_def)
  from move_replace_returns [OF _ two_files_movable this] show ?thesis
    by (auto simp: faultless_def two_files_def replaced_def)
qed

definition empty_world :: world where
  "empty_world = \<lparr>counter = 0, disk = \<lparr>nodes = Map.empty, sys_faults = [], overwrite = True\<rparr>\<rparr>"

lemmas temp_loop_first = temp_loop.simps(2) [of _ _ _ _ _ 1023, simplified]

lemma empty_world_file:
  "\<exists>p w'. temp_file_new_in 9 (\<lambda>_. ''x'') [116] empty_world = (Ok p, w')"
  by (auto simp: temp_file_new_in_def temp_file_new_with_def empty_world_def on_disk_def create_dir_all_def
      syscall_def MAX_RETRIES_def temp_loop_first create_new_def path_join_def io_then_def io_bind_def below_def Let_def)

lemma empty_world_dir:
  "\<exists>p w'. temp_dir_new_in 9 (\<lambda>_. ''y'') [116] (empty_world\<lparr>counter := c\<rparr>) = (Ok p, w')"
  by (auto simp: temp_dir_new_in_def empty_world_def on_disk_def create_dir_all_def
      syscall_def MAX_RETRIES_def temp_loop_first create_dir_def path_join_def io_then_def io_bind_def below_def Let_def)

theorem temp_file_fresh_witness:
  "\<exists>p w'. temp_file_new_in 9 (\<lambda>_. ''x'') [116] empty_world = (Ok p, w') \<and> nodes (disk w') p = Some (NFile [])"
proof -
  obtain p w' where "temp_file_new_in 9 (\<lambda>_. ''x'') [116] empty_world = (Ok p, w')"
    using empty_world_file by blast
  with temp_file_fresh [OF this] show ?thesis by blast
qed

theorem temp_paths_distinct_witness:
  "\<exists>p w1 q w3. temp_file_new_in 9 (\<lambda>_. ''x'') [116] empty_world = (Ok p, w1) \<and>
    temp_dir_new_in 9 (\<lambda>_. ''y'') [116] (empty_world\<lparr>counter := counter w1\<rparr>) = (Ok q, w3) \<and> p \<noteq> q"
proof -
  obtain p w1 where p: "temp_file_new_in 9 (\<lambda>_. ''x'') [116] empty_world = (Ok p, w1)"
    using empty_world_file by blast
  obtain q w3 where q: "temp_dir_new_in 9 (\<lambda>_. ''y'') [116] (empty_world\<lparr>counter := counter w1\<rparr>) = (Ok q, w3)"
    using empty_world_dir by blast
  from temp_paths_distinct [OF p _ q] have "p \<noteq> q" by simp
  with p q show ?thesis by blast
qed

end
