(* ===== verification/Tokio_File.thy ===== *)
theory Tokio_File
  imports Temp_File
begin

text \<open>
  The files of \<open>tokio\<close> that the daemon writes uploads and specifications to (\<open>store.rs\<close>,
  \<open>frontend/build.rs\<close>, \<open>routes.rs\<close>). A write is accepted before it is carried out, by another
  thread; the documentation promises that it has been carried out only after \<open>flush\<close> or the next
  write.
\<close>

section \<open>Writes\<close>

text \<open>The path that a file was opened at, and the bytes that are accepted but not carried out.\<close>

record file_handle =
  handle_path :: bytes
  in_flight :: bytes

definition settle_write :: "file_handle \<Rightarrow> ('w world_scheme, unit) io" where
  "settle_write f =
     (if in_flight f = [] then io_return () else on_disk (append_file (handle_path f) (in_flight f)))"

text \<open>
  A write accepts at most \<open>MAX_WRITE\<close> bytes of its buffer; it waits for the one before, whose error
  it reports, and is then in flight itself. An empty buffer is no write, and \<open>write_all\<close> goes on
  until the buffer is empty. The value is the handle afterwards, also on an error, when nothing is
  in flight any more.
\<close>

definition MAX_WRITE :: nat where
  "MAX_WRITE = 2097152"

function file_write_all ::
    "bytes \<Rightarrow> file_handle \<Rightarrow> 'w world_scheme \<Rightarrow> (error_kind, unit) res \<times> file_handle \<times> 'w world_scheme" where
  "file_write_all bs f s =
     (if bs = [] then (Ok (), f, s)
      else case settle_write f s of
        (Ok _, s') \<Rightarrow> file_write_all (drop MAX_WRITE bs) (f\<lparr>in_flight := take MAX_WRITE bs\<rparr>) s'
      | (Err e, s') \<Rightarrow> (Err e, f\<lparr>in_flight := []\<rparr>, s')
      | (Panic, s') \<Rightarrow> (Panic, f\<lparr>in_flight := []\<rparr>, s'))"
  by pat_completeness auto
termination
  by (relation "measure (\<lambda>(bs, _). length bs)") (auto simp: MAX_WRITE_def)

declare file_write_all.simps [simp del]

text \<open>
  At any later moment some of the bytes in flight, \<open>landed\<close> of them, have been carried out; after
  an error the others never are.
\<close>

definition settle_some :: "nat \<Rightarrow> file_handle \<Rightarrow> 'w world_scheme \<Rightarrow> file_handle \<times> 'w world_scheme" where
  "settle_some landed f s =
     (case settle_write (f\<lparr>in_flight := take landed (in_flight f)\<rparr>) s of
        (Ok _, s') \<Rightarrow> (f\<lparr>in_flight := drop landed (in_flight f)\<rparr>, s')
      | (_, s') \<Rightarrow> (f\<lparr>in_flight := []\<rparr>, s'))"

section \<open>Facts\<close>

lemma file_write_all_Nil [simp]: "file_write_all [] f s = (Ok (), f, s)"
  by (simp add: file_write_all.simps [of "[]"])

lemma file_write_all_next:
  "bs \<noteq> [] \<Longrightarrow> settle_write f s = (r, s') \<Longrightarrow> file_write_all bs f s =
     (case r of
        Ok _ \<Rightarrow> file_write_all (drop MAX_WRITE bs) (f\<lparr>in_flight := take MAX_WRITE bs\<rparr>) s'
      | Err e \<Rightarrow> (Err e, f\<lparr>in_flight := []\<rparr>, s')
      | Panic \<Rightarrow> (Panic, f\<lparr>in_flight := []\<rparr>, s'))"
  by (subst file_write_all.simps) (cases r; simp)

lemma drop_write_less: "bs \<noteq> [] \<Longrightarrow> length (drop MAX_WRITE bs) < length bs"
  by (cases bs) (auto simp: MAX_WRITE_def)

text \<open>What each call that carries out a write keeps, the operations on a file keep.\<close>

lemma file_write_all_keeps:
  assumes "\<And>f x s s'. settle_write f s = (x, s') \<Longrightarrow> P s \<Longrightarrow> P s'"
  shows "file_write_all bs f s = (x, f', s') \<Longrightarrow> P s \<Longrightarrow> P s' \<and> handle_path f' = handle_path f"
proof (induction "length bs" arbitrary: bs f s rule: less_induct)
  case less
  show ?case
  proof (cases "bs = []")
    case True
    with less.prems show ?thesis by auto
  next
    case False
    obtain r s1 where r: "settle_write f s = (r, s1)" by fastforce
    with assms less.prems(2) have s1: "P s1" by blast
    from less.hyps [OF drop_write_less [OF False] _ s1] less.prems(1) s1 show ?thesis
      unfolding file_write_all_next [OF False r] by (cases r) auto
  qed
qed

lemma settle_some_keeps:
  assumes "\<And>f x s s'. settle_write f s = (x, s') \<Longrightarrow> P s \<Longrightarrow> P s'"
  shows "settle_some n f s = (f', s') \<Longrightarrow> P s \<Longrightarrow> P s'"
  using assms by (auto simp: settle_some_def split: prod.splits res.splits)

text \<open>Without failures.\<close>

lemma append_faultless:
  "faultless s \<Longrightarrow> nodes s q = Some (NFile c) \<Longrightarrow>
     append_file q bs s = (Ok (), rest_faults s\<lparr>nodes := (nodes s)(q \<mapsto> NFile (c @ bs))\<rparr>)"
  by (simp add: append_file_def syscall_faultless)

lemma settle_faultless:
  assumes "faultless (disk s)" and "nodes (disk s) (handle_path f) = Some (NFile content)"
  shows "\<exists>d. settle_write f s = (Ok (), s\<lparr>disk := d\<rparr>) \<and> faultless d \<and>
    nodes d = (nodes (disk s))(handle_path f \<mapsto> NFile (content @ in_flight f))"
proof (cases "in_flight f = []")
  case True
  with assms show ?thesis by (intro exI [of _ "disk s"]) (auto simp: settle_write_def io_return_def)
next
  case False
  with assms append_faultless [OF assms] show ?thesis
    by (auto simp: settle_write_def on_disk_def faultless_rest)
qed

lemma settle_some_faultless:
  assumes "faultless (disk s)" and "nodes (disk s) (handle_path f) = Some (NFile content)"
  shows "\<exists>d. settle_some k f s = (f\<lparr>in_flight := drop k (in_flight f)\<rparr>, s\<lparr>disk := d\<rparr>) \<and> faultless d \<and>
    nodes d = (nodes (disk s))(handle_path f \<mapsto> NFile (content @ take k (in_flight f)))"
  using settle_faultless [OF assms(1), of "f\<lparr>in_flight := take k (in_flight f)\<rparr>" content] assms(2)
  by (auto simp: settle_some_def)

text \<open>The part of a buffer that is in flight once the buffer is written.\<close>

definition last_write :: "bytes \<Rightarrow> bytes" where
  "last_write bs = drop ((length bs - 1) div MAX_WRITE * MAX_WRITE) bs"

lemma last_write_Nil [simp]: "last_write [] = []"
  by (simp add: last_write_def)

lemma last_write_small: "length bs \<le> MAX_WRITE \<Longrightarrow> last_write bs = bs"
  by (cases bs) (auto simp: last_write_def)

lemma last_write_drop: "MAX_WRITE < length bs \<Longrightarrow> last_write bs = last_write (drop MAX_WRITE bs)"
proof -
  assume "MAX_WRITE < length bs"
  then have "(length bs - 1) div MAX_WRITE = Suc ((length bs - MAX_WRITE - 1) div MAX_WRITE)"
    using le_div_geq [of MAX_WRITE "length bs - 1"] by (simp add: MAX_WRITE_def)
  then show ?thesis by (simp add: last_write_def add.commute)
qed

lemma file_write_all_faultless:
  assumes "faultless (disk s)" and "nodes (disk s) (handle_path f) = Some (NFile w)" and "bs \<noteq> []"
  shows "\<exists>f' d w'. file_write_all bs f s = (Ok (), f', s\<lparr>disk := d\<rparr>) \<and> handle_path f' = handle_path f \<and> faultless d \<and>
    nodes d = (nodes (disk s))(handle_path f \<mapsto> NFile w') \<and> w' @ in_flight f' = w @ in_flight f @ bs \<and>
    in_flight f' = last_write bs"
  using assms
proof (induction "length bs" arbitrary: bs f s w rule: less_induct)
  case less
  from settle_faultless [OF less.prems(1,2)] obtain d where
    d: "settle_write f s = (Ok (), s\<lparr>disk := d\<rparr>)" "faultless d"
      "nodes d = (nodes (disk s))(handle_path f \<mapsto> NFile (w @ in_flight f))" by blast
  let ?f = "f\<lparr>in_flight := take MAX_WRITE bs\<rparr>" and ?rest = "drop MAX_WRITE bs"
  have run: "file_write_all bs f s = file_write_all ?rest ?f (s\<lparr>disk := d\<rparr>)"
    by (simp add: file_write_all_next [OF less.prems(3) d(1)])
  show ?case
  proof (cases "?rest = []")
    case True
    with run d show ?thesis
      by (intro exI [of _ ?f] exI [of _ d] exI [of _ "w @ in_flight f"]) (simp add: last_write_small)
  next
    case False
    have "faultless (disk (s\<lparr>disk := d\<rparr>))" "nodes (disk (s\<lparr>disk := d\<rparr>)) (handle_path ?f) = Some (NFile (w @ in_flight f))"
      using d(2,3) by simp_all
    from less.hyps [OF drop_write_less [OF less.prems(3)] this False] obtain f' d' w' where
      r: "file_write_all ?rest ?f (s\<lparr>disk := d\<rparr>) = (Ok (), f', s\<lparr>disk := d\<rparr>\<lparr>disk := d'\<rparr>)" "handle_path f' = handle_path ?f"
        "faultless d'" "nodes d' = (nodes (disk (s\<lparr>disk := d\<rparr>)))(handle_path ?f \<mapsto> NFile w')"
        "w' @ in_flight f' = (w @ in_flight f) @ in_flight ?f @ ?rest" "in_flight f' = last_write ?rest" by blast
    have "last_write bs = last_write ?rest" using False by (intro last_write_drop) simp
    with run r d(3) show ?thesis by (intro exI [of _ f'] exI [of _ d'] exI [of _ w']) simp
  qed
qed

end
