(* ===== verification/Store.thy ===== *)
theory Store
  imports Tokio_File Supported_Hash "HOL-Library.Multiset"
begin

text \<open>
  \<open>crates/daemon/src/store.rs\<close>: the store of files by digest. A path in use is locked by a
  count in a shared table; a lock is a value whose drop gives the count back. Uploads go to a
  temporary file, which is locked while it is written and copied into the store at the end.
  What uses names that are declared nowhere (\<open>Store::start\<close>, and the join loop of
  \<open>StorePaths::new\<close>) is in theory \<open>Store_Start\<close>, with those names as parameters.
\<close>

section \<open>State\<close>

record store_paths =
  store_dir :: bytes
  files_dir :: bytes
  temp_dir :: bytes

definition store_paths_new :: "bytes \<Rightarrow> (fs, store_paths) io" where
  "store_paths_new settings_path =
     (let result = \<lparr>store_dir = settings_path,
        files_dir = path_join settings_path (bytes_of ''files''),
        temp_dir = path_join settings_path (bytes_of ''temp'')\<rparr>
      in io_then (create_dir_all (store_dir result))
         (io_then (create_dir_all (files_dir result))
         (io_then (create_dir_all (temp_dir result))
         (io_return result))))"

text \<open>
  The fields of \<open>StoreState\<close> beside the world they act on. The entries of the lock table are
  atomic counters of 64 bits.
\<close>

record store_state = world +
  locks :: "bytes \<Rightarrow> 64 word option"
  store_path :: store_paths

definition store_new :: "bytes \<Rightarrow> world \<Rightarrow> (error_kind, store_state) res \<times> world" where
  "store_new settings_path w =
     (case on_disk (store_paths_new settings_path) w of
        (Ok sp, w') \<Rightarrow>
          (Ok \<lparr>counter = counter w', disk = disk w', locks = Map.empty, store_path = sp\<rparr>, w')
      | (Err e, w') \<Rightarrow> (Err e, w')
      | (Panic, w') \<Rightarrow> (Panic, w'))"

definition increase_lock :: "bytes \<Rightarrow> 'w store_state_scheme \<Rightarrow> 'w store_state_scheme" where
  "increase_lock p s =
     s\<lparr>locks := (locks s)(p \<mapsto> (case locks s p of Some n \<Rightarrow> n + 1 | None \<Rightarrow> 1))\<rparr>"

definition decrease_lock :: "bytes \<Rightarrow> 'w store_state_scheme \<Rightarrow> 'w store_state_scheme" where
  "decrease_lock p s =
     (case locks s p of
        Some n \<Rightarrow>
          if n = 1 then s\<lparr>locks := (locks s)(p := None)\<rparr> else s\<lparr>locks := (locks s)(p \<mapsto> n - 1)\<rparr>
      | None \<Rightarrow> s)"

section \<open>Handles\<close>

record decrement_lock =
  dec_path :: "bytes option"

definition decrement_lock_new ::
    "bytes \<Rightarrow> 'w store_state_scheme \<Rightarrow> decrement_lock \<times> 'w store_state_scheme" where
  "decrement_lock_new p s = (let s' = increase_lock p s in (\<lparr>dec_path = Some p\<rparr>, s'))"

definition decrement_lock_drop ::
    "decrement_lock \<Rightarrow> 'w store_state_scheme \<Rightarrow> 'w store_state_scheme" where
  "decrement_lock_drop d s = (case dec_path d of Some p \<Rightarrow> decrease_lock p s | None \<Rightarrow> s)"

record store_lock =
  lock_file :: file_handle
  lock_dec :: decrement_lock

definition store_lock_drop :: "store_lock \<Rightarrow> 'w store_state_scheme \<Rightarrow> 'w store_state_scheme" where
  "store_lock_drop l = decrement_lock_drop (lock_dec l)"

definition store_lock_eq :: "store_lock \<Rightarrow> store_lock \<Rightarrow> bool" where
  "store_lock_eq a b \<longleftrightarrow> dec_path (lock_dec a) = dec_path (lock_dec b)"

definition store_lock_hash :: "(bytes option \<Rightarrow> 'h \<Rightarrow> 'h) \<Rightarrow> store_lock \<Rightarrow> 'h \<Rightarrow> 'h" where
  "store_lock_hash hash l state = hash (dec_path (lock_dec l)) state"

text \<open>Equal locks have equal hashes, as a set of locks needs.\<close>

lemma store_lock_hash_eq: "store_lock_eq a b \<Longrightarrow> store_lock_hash hash a = store_lock_hash hash b"
  by (simp add: store_lock_eq_def store_lock_hash_def fun_eq_iff)

definition store_lock_as_path :: "store_lock \<Rightarrow> ('e, bytes) res" where
  "store_lock_as_path l = (case dec_path (lock_dec l) of Some p \<Rightarrow> Ok p | None \<Rightarrow> Panic)"

definition hash_path :: "b32_codec \<Rightarrow> supported_hash \<Rightarrow> 'w store_state_scheme \<Rightarrow> bytes" where
  "hash_path c hash s = path_join (files_dir (store_path s)) (bytes_of (supported_display c hash))"

text \<open>The lock is taken before the file is opened, and given back when that fails.\<close>

definition get_file :: "b32_codec \<Rightarrow> supported_hash \<Rightarrow> ('w store_state_scheme, store_lock) io" where
  "get_file c hash s =
     (case decrement_lock_new (hash_path c hash s) s of (dec, s1) \<Rightarrow>
      case on_disk (open_read (hash_path c hash s)) s1 of
        (Ok file, s2) \<Rightarrow> (Ok \<lparr>lock_file = \<lparr>handle_path = file, in_flight = []\<rparr>, lock_dec = dec\<rparr>, s2)
      | (Err e, s2) \<Rightarrow> (Err e, decrement_lock_drop dec s2)
      | (Panic, s2) \<Rightarrow> (Panic, decrement_lock_drop dec s2))"

section \<open>Pending files\<close>

record pending_file =
  pending_temp :: bytes
  pending_lock :: store_lock

text \<open>
  The callback captures a variable for the lock: what it held before is dropped when an attempt
  replaces it.
\<close>

record creating_state = store_state +
  dec_var :: "decrement_lock option"

definition pending_callback :: "bytes \<Rightarrow> creating_state \<Rightarrow> creating_state" where
  "pending_callback p w =
     (case decrement_lock_new p w of (d, w1) \<Rightarrow>
        (case dec_var w of Some old \<Rightarrow> decrement_lock_drop old w1 | None \<Rightarrow> w1)\<lparr>dec_var := Some d\<rparr>)"

definition with_dec :: "store_state \<Rightarrow> creating_state" where
  "with_dec s = \<lparr>counter = counter s, disk = disk s, locks = locks s, store_path = store_path s, dec_var = None\<rparr>"

definition pending_new :: "nat \<Rightarrow> (nat \<Rightarrow> string) \<Rightarrow> (store_state, pending_file) io" where
  "pending_new pid pick s =
     (case temp_file_new_with pending_callback pid pick (temp_dir (store_path s)) (with_dec s) of
        (Ok temp, w) \<Rightarrow>
          (case dec_var w of
             Some dec \<Rightarrow>
               (Ok \<lparr>pending_temp = temp,
                  pending_lock = \<lparr>lock_file = \<lparr>handle_path = temp, in_flight = []\<rparr>, lock_dec = dec\<rparr>\<rparr>,
                store_state.truncate w)
           | None \<Rightarrow> (Panic, store_state.truncate (w\<lparr>disk := temp_file_drop (temp, disk w)\<rparr>)))
      | (Err e, w) \<Rightarrow>
          (Err e, store_state.truncate (case dec_var w of Some d \<Rightarrow> decrement_lock_drop d w | None \<Rightarrow> w))
      | (Panic, w) \<Rightarrow>
          (Panic, store_state.truncate (case dec_var w of Some d \<Rightarrow> decrement_lock_drop d w | None \<Rightarrow> w)))"

definition create_file :: "nat \<Rightarrow> (nat \<Rightarrow> string) \<Rightarrow> (store_state, pending_file) io" where
  "create_file = pending_new"

text \<open>Dropping a pending file removes the temporary file and gives its lock back.\<close>

definition pending_drop :: "pending_file \<Rightarrow> 'w store_state_scheme \<Rightarrow> 'w store_state_scheme" where
  "pending_drop pf s =
     store_lock_drop (pending_lock pf) (s\<lparr>disk := temp_file_drop (pending_temp pf, disk s)\<rparr>)"

definition pending_write ::
    "bytes \<Rightarrow> pending_file \<Rightarrow> 'w store_state_scheme \<Rightarrow>
       (error_kind, unit) res \<times> pending_file \<times> 'w store_state_scheme" where
  "pending_write bs pf s =
     (case file_write_all bs (lock_file (pending_lock pf)) s of
        (r, f, s') \<Rightarrow> (r, pf\<lparr>pending_lock := (pending_lock pf)\<lparr>lock_file := f\<rparr>\<rparr>, s'))"

text \<open>
  \<open>complete\<close> does not flush: \<open>landed\<close> says how many bytes of the last write have been carried out by
  the time of the copy. The others are carried out later, on a file that has been removed.
\<close>

definition pending_complete ::
    "b32_codec \<Rightarrow> nat \<Rightarrow> supported_hash \<Rightarrow> pending_file \<Rightarrow> ('w store_state_scheme, store_lock) io" where
  "pending_complete c landed hash pf s =
     (case decrement_lock_new (hash_path c hash s) s of (dec, s1) \<Rightarrow>
      let s2 = snd (settle_some landed (lock_file (pending_lock pf)) s1);
          fail = (\<lambda>s'. pending_drop pf (decrement_lock_drop dec s'))
      in case store_lock_as_path (pending_lock pf) of
        Panic \<Rightarrow> (Panic, fail s2)
      | Err e \<Rightarrow> (Err e, fail s2)
      | Ok source_path \<Rightarrow>
          (case on_disk (io_then (copy_file source_path (hash_path c hash s)) (open_read (hash_path c hash s))) s2 of
             (Ok file, s3) \<Rightarrow>
               (Ok \<lparr>lock_file = \<lparr>handle_path = file, in_flight = []\<rparr>, lock_dec = dec\<rparr>, pending_drop pf s3)
           | (Err e, s3) \<Rightarrow> (Err e, fail s3)
           | (Panic, s3) \<Rightarrow> (Panic, fail s3)))"

text \<open>
  A temporary directory: the name of a pet is random, \<open>pick i\<close> the name of the attempt \<open>i\<close>. The
  loop ends with the first name that is free.
\<close>

partial_function (option) create_temporary_entry ::
    "(nat \<Rightarrow> string) \<Rightarrow> nat \<Rightarrow> store_state \<Rightarrow> ((error_kind, string \<times> bytes) res \<times> store_state) option" where
  "create_temporary_entry pick i s =
     (let path = path_join (temp_dir (store_path s)) (bytes_of (pick i)) in
      case on_disk (create_dir path) s of
        (Ok _, s') \<Rightarrow> Some (Ok (pick i, path), s')
      | (Err e, s') \<Rightarrow>
          if e = AlreadyExists then create_temporary_entry pick (i + 1) s' else Some (Err e, s')
      | (Panic, s') \<Rightarrow> Some (Panic, s'))"

end
