(* ===== verification/App_Error.thy ===== *)
theory App_Error
  imports Nck_Prelude
begin

text \<open>
  \<open>crates/daemon/src/axum_extensions.rs\<close>: errors of the frontend, which carry a status code and
  perhaps a message for the client, and the adapters that turn other errors into them. An
  \<open>anyhow::Error\<close> is its chain of messages, the outermost context first.
\<close>

section \<open>Errors and adapters\<close>

definition INTERNAL_SERVER_ERROR :: nat where "INTERNAL_SERVER_ERROR = 500"
definition NOT_FOUND :: nat where "NOT_FOUND = 404"
definition BAD_REQUEST :: nat where "BAD_REQUEST = 400"

record app_error =
  error_chain :: "string list"
  error_status :: nat
  error_message :: "string option"

definition app_error_new :: "string list \<Rightarrow> nat \<Rightarrow> string option \<Rightarrow> app_error" where
  "app_error_new error status_code message =
     \<lparr>error_chain = error, error_status = status_code, error_message = message\<rparr>"

text \<open>\<open>err\<close>, whose result has no values, and the macro \<open>app_error!\<close>.\<close>

definition app_error_err :: "app_error \<Rightarrow> (app_error, 'a) res" where
  "app_error_err e = Err e"

definition app_error_macro :: "string \<Rightarrow> app_error" where
  "app_error_macro msg = app_error_new [msg] INTERNAL_SERVER_ERROR None"

definition ok_or_error :: "string \<Rightarrow> 'a option \<Rightarrow> (app_error, 'a) res" where
  "ok_or_error context x =
     (case x of
        Some v \<Rightarrow> Ok v
      | None \<Rightarrow> Err \<lparr>error_chain = [context], error_status = NOT_FOUND, error_message = None\<rparr>)"

definition ok_or_else_error :: "(unit \<Rightarrow> string) \<Rightarrow> 'a option \<Rightarrow> (app_error, 'a) res" where
  "ok_or_else_error f x =
     (case x of
        Some v \<Rightarrow> Ok v
      | None \<Rightarrow> Err \<lparr>error_chain = [f ()], error_status = NOT_FOUND, error_message = None\<rparr>)"

definition ok_or_else_message :: "(unit \<Rightarrow> string) \<Rightarrow> 'a option \<Rightarrow> (app_error, 'a) res" where
  "ok_or_else_message m x =
     (case x of
        Some v \<Rightarrow> Ok v
      | None \<Rightarrow>
          let msg = m () in
          Err \<lparr>error_chain = [msg], error_status = NOT_FOUND, error_message = Some msg\<rparr>)"

text \<open>
  The adapters of results. An error is an \<open>AppError\<close>, which \<open>cast!\<close> recognises, or any other
  error that \<open>anyhow\<close> takes.
\<close>

datatype failure = AppFailure app_error | OtherFailure "string list"

definition with_reason :: "(unit \<Rightarrow> string) \<Rightarrow> (failure, 'a) res \<Rightarrow> (app_error, 'a) res" where
  "with_reason f r =
     (case r of
        Ok v \<Rightarrow> Ok v
      | Err (AppFailure error) \<Rightarrow> Err (error\<lparr>error_chain := f () # error_chain error\<rparr>)
      | Err (OtherFailure error) \<Rightarrow>
          Err \<lparr>error_chain = f () # error, error_status = INTERNAL_SERVER_ERROR, error_message = None\<rparr>
      | Panic \<Rightarrow> Panic)"

definition reason :: "string \<Rightarrow> (failure, 'a) res \<Rightarrow> (app_error, 'a) res" where
  "reason context = with_reason (\<lambda>_. context)"

definition with_status_code :: "nat \<Rightarrow> (failure, 'a) res \<Rightarrow> (app_error, 'a) res" where
  "with_status_code status_code r =
     (case r of
        Ok v \<Rightarrow> Ok v
      | Err (AppFailure error) \<Rightarrow> Err (error\<lparr>error_status := status_code\<rparr>)
      | Err (OtherFailure error) \<Rightarrow>
          Err \<lparr>error_chain = error, error_status = status_code, error_message = None\<rparr>
      | Panic \<Rightarrow> Panic)"

definition with_message :: "(unit \<Rightarrow> string) \<Rightarrow> (failure, 'a) res \<Rightarrow> (app_error, 'a) res" where
  "with_message message r =
     (case r of
        Ok v \<Rightarrow> Ok v
      | Err (AppFailure error) \<Rightarrow> Err (error\<lparr>error_message := Some (message ())\<rparr>)
      | Err (OtherFailure error) \<Rightarrow>
          Err \<lparr>error_chain = error, error_status = INTERNAL_SERVER_ERROR, error_message = Some (message ())\<rparr>
      | Panic \<Rightarrow> Panic)"

section \<open>Responses\<close>

record debug_app_error =
  debug_message :: string
  debug_because :: "string list"
  debug_trace :: string

record release_app_error =
  release_message :: "string option"
  release_correlation_id :: string

text \<open>The backtrace and the correlation number are arguments.\<close>

definition to_serialized_error_debug :: "string \<Rightarrow> string list \<Rightarrow> string option \<Rightarrow> debug_app_error" where
  "to_serialized_error_debug backtrace error message =
     (let skip = (case message of Some _ \<Rightarrow> 1 | None \<Rightarrow> 0);
          because = drop skip error
      in \<lparr>debug_message = (case message of Some m \<Rightarrow> m | None \<Rightarrow> (case error of [] \<Rightarrow> [] | m # _ \<Rightarrow> m)),
          debug_because = because, debug_trace = backtrace\<rparr>)"

definition to_serialized_error_release :: "string \<Rightarrow> string list \<Rightarrow> string option \<Rightarrow> release_app_error" where
  "to_serialized_error_release correlation_id error message =
     \<lparr>release_message = message, release_correlation_id = correlation_id\<rparr>"

datatype body = EmptyBody | DebugBody debug_app_error | ReleaseBody release_app_error

record response =
  resp_status :: nat
  resp_headers :: "(string \<times> string) list"
  resp_body :: body

definition into_response_debug :: "string \<Rightarrow> app_error \<Rightarrow> response" where
  "into_response_debug backtrace e =
     \<lparr>resp_status = error_status e, resp_headers = [],
      resp_body = DebugBody (to_serialized_error_debug backtrace (error_chain e) (error_message e))\<rparr>"

definition into_response_release :: "string \<Rightarrow> app_error \<Rightarrow> response" where
  "into_response_release correlation_id e =
     \<lparr>resp_status = error_status e, resp_headers = [],
      resp_body = ReleaseBody (to_serialized_error_release correlation_id (error_chain e) (error_message e))\<rparr>"

section \<open>What adapters do to an error\<close>

text \<open>A chain of adapters, applied from left to right as the code writes them.\<close>

datatype adapter = Reason string | Status nat | Message string

fun adapt :: "adapter \<Rightarrow> (failure, 'a) res \<Rightarrow> (app_error, 'a) res" where
  "adapt (Reason c) = reason c"
| "adapt (Status n) = with_status_code n"
| "adapt (Message m) = with_message (\<lambda>_. m)"

definition adapt_all :: "adapter list \<Rightarrow> (failure, 'a) res \<Rightarrow> (failure, 'a) res" where
  "adapt_all as r = fold (\<lambda>a r. map_err AppFailure (adapt a r)) as r"

fun as_app_error :: "failure \<Rightarrow> app_error" where
  "as_app_error (AppFailure e) = e"
| "as_app_error (OtherFailure ch) = \<lparr>error_chain = ch, error_status = 500, error_message = None\<rparr>"

fun contexts :: "adapter list \<Rightarrow> string list" where
  "contexts [] = []"
| "contexts (Reason c # as) = c # contexts as"
| "contexts (_ # as) = contexts as"

fun last_status :: "nat \<Rightarrow> adapter list \<Rightarrow> nat" where
  "last_status n [] = n"
| "last_status n (Status m # as) = last_status m as"
| "last_status n (_ # as) = last_status n as"

fun last_message :: "string option \<Rightarrow> adapter list \<Rightarrow> string option" where
  "last_message m [] = m"
| "last_message m (Message s # as) = last_message (Some s) as"
| "last_message m (_ # as) = last_message m as"

definition adapted :: "adapter list \<Rightarrow> app_error \<Rightarrow> app_error" where
  "adapted as e = \<lparr>error_chain = rev (contexts as) @ error_chain e,
     error_status = last_status (error_status e) as, error_message = last_message (error_message e) as\<rparr>"

lemma adapt_Err: "map_err AppFailure (adapt a (Err f)) = Err (AppFailure (adapted [a] (as_app_error f)))"
  by (cases a; cases f)
    (auto simp: reason_def with_reason_def with_status_code_def with_message_def adapted_def INTERNAL_SERVER_ERROR_def)

lemma adapted_Cons: "adapted as (adapted [a] e) = adapted (a # as) e"
  by (cases a) (auto simp: adapted_def)

lemma adapt_all_Err: "adapt_all (a # as) (Err f) = Err (AppFailure (adapted (a # as) (as_app_error f)))"
proof (induction as arbitrary: a f)
  case Nil
  then show ?case by (simp add: adapt_all_def adapt_Err)
next
  case (Cons b as)
  from Cons.IH [of b "AppFailure (adapted [a] (as_app_error f))"] show ?case
    by (simp add: adapt_all_def adapt_Err adapted_Cons)
qed

lemma adapt_all_Ok: "adapt_all as (Ok v) = Ok v"
proof (induction as)
  case (Cons a as)
  have "map_err AppFailure (adapt a (Ok v)) = Ok v"
    by (cases a) (auto simp: reason_def with_reason_def with_status_code_def with_message_def)
  with Cons show ?case by (simp add: adapt_all_def)
qed (simp add: adapt_all_def)

text \<open>
  Adapters leave a success alone, and make of any error an error with every context, the
  last one outermost, the last message, and the last status: by itself an error that is no
  \<open>AppError\<close> has status 500, and an \<open>AppError\<close> keeps its own. So the response of an error
  has the status that the handler gave it, whatever context is added afterwards.
\<close>

theorem app_error_adapters:
  assumes "as \<noteq> []"
  shows "adapt_all as (Ok v :: (failure, 'a) res) = Ok v \<and>
    adapt_all as (Err f :: (failure, 'a) res) = Err (AppFailure (adapted as (as_app_error f))) \<and>
    resp_status (into_response_debug backtrace (adapted as (as_app_error f))) =
      last_status (case f of AppFailure e \<Rightarrow> error_status e | OtherFailure _ \<Rightarrow> 500) as"
  using assms
  by (cases as; cases f) (simp_all add: adapt_all_Err adapt_all_Ok into_response_debug_def adapted_def)

theorem app_error_adapters_witness:
  "adapt_all [Reason ''parsing'', Message ''invalid'', Status 400] (Err (OtherFailure [''utf8''])) =
    (Err (AppFailure \<lparr>error_chain = [''parsing'', ''utf8''], error_status = 400, error_message = Some ''invalid''\<rparr>) ::
      (failure, unit) res)"
  using app_error_adapters [of "[Reason ''parsing'', Message ''invalid'', Status 400]" "()" "OtherFailure [''utf8'']"]
  by (simp add: adapted_def)

end
