(* ===== verification/Old_Routes.thy ===== *)
theory Old_Routes
  imports Store App_Error
begin

text \<open>
  \<open>crates/daemon/src/routes.rs\<close>: the handlers that \<open>frontend/build.rs\<close> has replaced. No module
  declares the file, and the repository does not declare \<open>AppState\<close>, \<open>SpecBuilder\<close>,
  \<open>PackageReference\<close> nor the error type; what the handlers ask of these is a parameter, or a set
  or map that they insert into.
\<close>

section \<open>State\<close>

datatype old_error = OldNotFound | OldBadRequest | OldContext string | OldFailed

record 'h package_reference =
  package_name :: string
  package_hash :: 'h
  package_output :: string

record 'h copied_file =
  copied_package :: "'h package_reference"
  copied_executable :: bool

record 'h spec_builder =
  builder_name :: string
  builder_outputs :: "string set"
  builder_locked :: "bytes set"
  builder_copy :: "bytes \<Rightarrow> 'h copied_file option"
  builder_env :: "string \<Rightarrow> string option"

record 'h old_state = world +
  formulas :: "string \<Rightarrow> 'h spec_builder option"

text \<open>
  What the handlers take from elsewhere: hashes and their text, the paths of a package, a new
  builder, the directory for temporary files, the digest, the process number and the random
  suffixes of temporary names, and how many bytes of the last write of an upload are carried out
  before the file is moved.
\<close>

record 'h old_env =
  old_parse_hash :: "bytes \<Rightarrow> 'h option"
  old_show_hash :: "'h \<Rightarrow> string"
  old_hash_of :: "bytes \<Rightarrow> 'h" \<comment> \<open>of a BLAKE3 digest\<close>
  old_base32 :: "bytes \<Rightarrow> string"
  old_path :: "'h package_reference \<Rightarrow> bytes"
  old_local_path :: "'h package_reference \<Rightarrow> string"
  old_builder :: "string \<Rightarrow> 'h spec_builder"
  old_tmp :: bytes
  old_b3 :: digest
  old_pid :: nat
  old_pick :: "nat \<Rightarrow> string"
  old_landed :: nat

definition SRC_PACKAGE_NAME :: string where "SRC_PACKAGE_NAME = ''src''"
definition DEFAULT_OUTPUT :: string where "DEFAULT_OUTPUT = ''out''"

definition src_package :: "'h \<Rightarrow> 'h package_reference" where
  "src_package h = \<lparr>package_name = SRC_PACKAGE_NAME, package_hash = h, package_output = DEFAULT_OUTPUT\<rparr>"

text \<open>The text of a header has no control characters; otherwise the response is an error.\<close>

definition header_char :: "char \<Rightarrow> bool" where
  "header_char c \<longleftrightarrow> (let n = of_char c :: nat in n = 9 \<or> 32 \<le> n \<and> n \<noteq> 127)"

definition old_response :: "nat \<Rightarrow> (string \<times> string) list \<Rightarrow> (old_error, response) res" where
  "old_response status headers =
     (if \<forall>h \<in> set headers. list_all header_char (snd h)
      then Ok \<lparr>resp_status = status, resp_headers = headers, resp_body = EmptyBody\<rparr>
      else Err OldFailed)"

definition in_quotes :: "string \<Rightarrow> string" where
  "in_quotes s = [CHR 0x22] @ s @ [CHR 0x22]"

definition update_formula :: "string \<Rightarrow> ('h spec_builder \<Rightarrow> 'h spec_builder) \<Rightarrow> 'h old_state \<Rightarrow> 'h old_state" where
  "update_formula k f s = s\<lparr>formulas := (formulas s)(k := map_option f (formulas s k))\<rparr>"

definition lock_in_formula :: "string \<Rightarrow> bytes \<Rightarrow> 'h old_state \<Rightarrow> 'h old_state" where
  "lock_in_formula k p = update_formula k (\<lambda>b. b\<lparr>builder_locked := insert p (builder_locked b)\<rparr>)"

definition wrap_err :: "string \<Rightarrow> (error_kind, 'a) res \<Rightarrow> (old_error, 'a) res" where
  "wrap_err context = map_err (\<lambda>_. OldContext context)"

definition try_exists :: "bytes \<Rightarrow> (fs, bool) io" where
  "try_exists p = syscall (\<lambda>s.
     case resolve 41 (nodes s) p of
       None \<Rightarrow> (Err ELOOP, s)
     | Some q \<Rightarrow> (Ok (nodes s q \<noteq> None), s))"

section \<open>Handlers\<close>

text \<open>\<open>random\<close> is what the generator gives, \<open>now\<close> the bytes of the time, if it is past the epoch.\<close>

definition create_spec ::
    "'h old_env \<Rightarrow> bytes option \<Rightarrow> bytes option \<Rightarrow> string \<Rightarrow> ('h old_state, old_error, response) op" where
  "create_spec env random now name s =
     (case random of
        None \<Rightarrow> (Err OldFailed, s)
      | Some bs \<Rightarrow>
          (case now of
             None \<Rightarrow> (Err OldFailed, s)
           | Some time \<Rightarrow>
               let ident = name @ ''-'' @ old_base32 env (old_b3 env (bs @ time));
                   builder = old_builder env name;
                   builder = builder\<lparr>builder_outputs := insert DEFAULT_OUTPUT (builder_outputs builder)\<rparr>
               in (old_response 201 [(''Location'', ''/api/1/formulas/'' @ ident)],
                   s\<lparr>formulas := (formulas s)(ident \<mapsto> builder)\<rparr>)))"

text \<open>The header \<open>If-None-Match\<close>: the quotes are to be taken off.\<close>

definition old_etag :: "'h old_env \<Rightarrow> bytes \<Rightarrow> (old_error, 'h) res" where
  "old_etag env v =
     (if v \<noteq> [] \<and> hd v = 34 \<and> last v = 34 then
        (case slice_of 1 (length v - 2) v of
           Ok w \<Rightarrow>
             (case old_parse_hash env w of
                Some h \<Rightarrow> Ok h
              | None \<Rightarrow> Err (OldContext ''invalid If-None-Match value''))
         | _ \<Rightarrow> Panic)
      else Err OldBadRequest)"

text \<open>\<open>None\<close>: the upload goes on.\<close>

definition old_cached ::
    "'h old_env \<Rightarrow> string \<Rightarrow> bytes option \<Rightarrow> ('h old_state, old_error, response option) op" where
  "old_cached env k existing_hash s =
     (case existing_hash of
        None \<Rightarrow> (Ok None, s)
      | Some v \<Rightarrow>
          (case old_etag env v of
             Err e \<Rightarrow> (Err e, s)
           | Panic \<Rightarrow> (Panic, s)
           | Ok hash \<Rightarrow>
               let package = src_package hash; path = old_path env package in
               (case on_disk (try_exists path) s of
                  (Ok True, s1) \<Rightarrow>
                    (map_res Some (old_response 303 [(''ETag'', in_quotes (old_show_hash env hash)),
                       (''Location'', ''/api/1/download/'' @ old_local_path env package)]),
                     lock_in_formula k path s1)
                | (Ok False, s1) \<Rightarrow>
                    (case on_disk (remove_file path) s1 of
                       (r, s2) \<Rightarrow> (map_res (\<lambda>_. None) (wrap_err ''when removing broken link'' r), s2))
                | (Err e, s1) \<Rightarrow> (Err (OldContext ''while attempting to check if the file already exists''), s1)
                | (Panic, s1) \<Rightarrow> (Panic, s1))))"

text \<open>What was read of the body is hashed, and written (theory \<open>Tokio_File\<close>).\<close>

fun old_body ::
    "(error_kind, bytes) res list \<Rightarrow> bytes \<Rightarrow> file_handle \<Rightarrow> 'h old_state \<Rightarrow>
       (old_error, bytes) res \<times> file_handle \<times> 'h old_state" where
  "old_body [] hashed f s = (Ok hashed, f, s)"
| "old_body (Err e # body) hashed f s = (Err OldFailed, f, s)"
| "old_body (Panic # body) hashed f s = (Panic, f, s)"
| "old_body (Ok val # body) hashed f s =
     (case file_write_all val f s of
        (Ok _, f', s') \<Rightarrow> old_body body (hashed @ val) f' s'
      | (Err e, f', s') \<Rightarrow> (Err (OldContext ''while writing to temporary upload file''), f', s')
      | (Panic, f', s') \<Rightarrow> (Panic, f', s'))"

definition formula_write_file ::
    "'h old_env \<Rightarrow> string \<Rightarrow> bytes option \<Rightarrow> (error_kind, bytes) res list \<Rightarrow> ('h old_state, old_error, response) op" where
  "formula_write_file env k existing_hash body s =
     (case formulas s k of
        None \<Rightarrow> (Err OldNotFound, s)
      | Some formula \<Rightarrow>
          (case old_cached env k existing_hash s of
             (Err e, s1) \<Rightarrow> (Err e, s1)
           | (Panic, s1) \<Rightarrow> (Panic, s1)
           | (Ok (Some response), s1) \<Rightarrow> (Ok response, s1)
           | (Ok None, s1) \<Rightarrow>
               (case temp_file_new_in (old_pid env) (old_pick env) (old_tmp env) s1 of
                  (Err e, s2) \<Rightarrow> (Err (OldContext ''allocating a temporary file for uploading into''), s2)
                | (Panic, s2) \<Rightarrow> (Panic, s2)
                | (Ok tmp, s2) \<Rightarrow>
                    let drop_tmp = (\<lambda>s. s\<lparr>disk := temp_file_drop (tmp, disk s)\<rparr>) in
                    (case old_body body [] \<lparr>handle_path = tmp, in_flight = []\<rparr> s2 of
                       (Err e, f, s3) \<Rightarrow> (Err e, drop_tmp s3)
                     | (Panic, f, s3) \<Rightarrow> (Panic, drop_tmp s3)
                     | (Ok hashed, f, s3) \<Rightarrow>
                         (case settle_some (old_landed env) f s3 of (f', s4) \<Rightarrow>
                         let hash = old_hash_of env (old_b3 env hashed);
                             path = old_path env (src_package hash);
                             late = (\<lambda>p s. snd (settle_write (f'\<lparr>handle_path := p\<rparr>) s));
                             finish = (\<lambda>s. (old_response 201 [(''ETag'', in_quotes (old_show_hash env hash)),
                                 (''Location'', ''/api/1/download/'' @ k)], lock_in_formula k path s))
                         in (case on_disk (rename tmp path) s4 of
                               (Ok _, s5) \<Rightarrow> finish (late path s5)
                             | (Err e, s5) \<Rightarrow>
                                 if e = AlreadyExists then finish (late tmp s5) else (Err OldFailed, drop_tmp s5)
                             | (Panic, s5) \<Rightarrow> (Panic, drop_tmp s5)))))))"

record copy_formula_file =
  copy_to :: bytes
  copy_executable :: "unit option"

definition formula_copy_file ::
    "'h old_env \<Rightarrow> string \<Rightarrow> 'h \<Rightarrow> copy_formula_file \<Rightarrow> ('h old_state, old_error, response) op" where
  "formula_copy_file env k from query s =
     (case formulas s k of
        None \<Rightarrow> (Err OldNotFound, s)
      | Some formula \<Rightarrow>
          let package = src_package from; source = old_path env package in
          (case on_disk (try_exists source) s of
             (Err e, s1) \<Rightarrow> (Err (OldContext ''while determining if the source file exists''), s1)
           | (Panic, s1) \<Rightarrow> (Panic, s1)
           | (Ok False, s1) \<Rightarrow> (Err OldNotFound, s1)
           | (Ok True, s1) \<Rightarrow>
               (old_response 200 [],
                update_formula k (\<lambda>b. b\<lparr>builder_copy := (builder_copy b)(copy_to query \<mapsto>
                    \<lparr>copied_package = package, copied_executable = (copy_executable query \<noteq> None)\<rparr>)\<rparr>)
                  (lock_in_formula k source s1))))"

definition formula_set_env :: "string \<Rightarrow> string \<Rightarrow> string \<Rightarrow> ('h old_state, old_error, response) op" where
  "formula_set_env k name body s =
     (case formulas s k of
        None \<Rightarrow> (Err OldNotFound, s)
      | Some formula \<Rightarrow>
          (old_response 200 [], update_formula k (\<lambda>b. b\<lparr>builder_env := (builder_env b)(name \<mapsto> body)\<rparr>) s))"

section \<open>What the handlers do\<close>

lemma old_unknown:
  assumes "formulas s k = None"
  shows "formula_write_file env k etag body s = (Err OldNotFound, s)"
    and "formula_copy_file env k h query s = (Err OldNotFound, s)"
    and "formula_set_env k name v s = (Err OldNotFound, s)"
  using assms by (simp_all add: formula_write_file_def formula_copy_file_def formula_set_env_def)

lemma try_exists_faultless:
  "faultless d \<Longrightarrow> \<forall>t. nodes d p \<noteq> Some (NLink t) \<Longrightarrow> try_exists p d = (Ok (nodes d p \<noteq> None), rest_faults d)"
  using resolve_41 [of "nodes d" p] by (simp add: try_exists_def syscall_faultless)

text \<open>
  An upload that names the digest it expects is refused when the file is not there: what should
  replace a broken link removes a file that does not exist.
\<close>

theorem old_etag_missing:
  assumes "formulas s k = Some b" and "faultless (disk s)" and "old_etag env v = Ok h"
    and "nodes (disk s) (old_path env (src_package h)) = None"
  shows "\<exists>s'. formula_write_file env k (Some v) body s = (Err (OldContext ''when removing broken link''), s') \<and>
    nodes (disk s') = nodes (disk s) \<and> formulas s' = formulas s"
proof -
  let ?p = "old_path env (src_package h)" and ?d = "rest_faults (disk s)"
  have 1: "try_exists ?p (disk s) = (Ok False, ?d)" using assms(2,4) by (simp add: try_exists_faultless)
  have 2: "remove_file ?p ?d = (Err NotFound, rest_faults ?d)"
    unfolding remove_file_def
    by (subst syscall_faultless [OF faultless_rest [OF assms(2)], THEN conjunct1]) (simp add: assms(4))
  show ?thesis
    using assms(1,3) 1 2 by (simp add: formula_write_file_def old_cached_def Let_def on_disk_def wrap_err_def)
qed

text \<open>Without failures a file holds what was uploaded, whenever its last write is carried out.\<close>

lemma old_body_faultless:
  assumes "faultless (disk s)" and "nodes (disk s) (handle_path f) = Some (NFile w)"
  shows "\<exists>f' s' w'. old_body (map Ok chunks) hashed f s = (Ok (hashed @ concat chunks), f', s') \<and>
    handle_path f' = handle_path f \<and> faultless (disk s') \<and> formulas s' = formulas s \<and>
    nodes (disk s') = (nodes (disk s))(handle_path f \<mapsto> NFile w') \<and> w' @ in_flight f' = w @ in_flight f @ concat chunks"
  using assms
proof (induction chunks arbitrary: hashed f s w)
  case Nil
  then show ?case by (intro exI [of _ f] exI [of _ s] exI [of _ w]) auto
next
  case (Cons c chunks)
  show ?case
  proof (cases "c = []")
    case True
    with Cons.IH [OF Cons.prems, of hashed] show ?thesis by simp
  next
    case False
    from file_write_all_faultless [OF Cons.prems False] obtain g d v where
      d: "file_write_all c f s = (Ok (), g, s\<lparr>disk := d\<rparr>)" "handle_path g = handle_path f" "faultless d"
        "nodes d = (nodes (disk s))(handle_path f \<mapsto> NFile v)" "v @ in_flight g = w @ in_flight f @ c" by blast
    have at: "nodes d (handle_path g) = Some (NFile v)" by (simp add: d(2,4))
    from Cons.IH [of "s\<lparr>disk := d\<rparr>" g v "hashed @ c"] d(2,3) at obtain f' s' w' where
      "old_body (map Ok chunks) (hashed @ c) g (s\<lparr>disk := d\<rparr>) = (Ok ((hashed @ c) @ concat chunks), f', s')"
      "handle_path f' = handle_path f" "faultless (disk s')" "formulas s' = formulas s"
      "nodes (disk s') = (nodes d)(handle_path f \<mapsto> NFile w')" "w' @ in_flight f' = v @ in_flight g @ concat chunks"
      by (auto simp del: fun_upd_apply)
    with d(1,4,5) show ?thesis by (intro exI [of _ f'] exI [of _ s'] exI [of _ w']) (simp del: fun_upd_apply add: fun_upd_upd)
  qed
qed

theorem old_upload_stores:
  assumes "formulas s k = Some b" and "list_all header_char (old_show_hash env h)" and "list_all header_char k"
    and "h = old_hash_of env (old_b3 env (concat chunks))" and "p = old_path env (src_package h)"
    and "temp_file_new_in (old_pid env) (old_pick env) (old_tmp env) s = (Ok tmp, s1)" and "formulas s1 = formulas s"
    and "faultless (disk s1)" and "nodes (disk s1) tmp = Some (NFile [])" and "file_move (nodes (disk s1)) tmp p"
    and "nodes (disk s1) p = None"
  shows "\<exists>r s'. formula_write_file env k None (map Ok chunks) s = (Ok r, s') \<and> resp_status r = 201 \<and>
    nodes (disk s') = (nodes (disk s1))(tmp := None, p \<mapsto> NFile (concat chunks)) \<and>
    formulas s' = (formulas s)(k \<mapsto> b\<lparr>builder_locked := insert p (builder_locked b)\<rparr>)"
proof -
  let ?f0 = "\<lparr>handle_path = tmp, in_flight = []\<rparr>"
  from old_body_faultless [of s1 ?f0 "[]" chunks "[]"] assms(8,9) obtain f s2 w where
    body: "old_body (map Ok chunks) [] ?f0 s1 = (Ok (concat chunks), f, s2)" and f: "handle_path f = tmp"
    and s2: "faultless (disk s2)" "formulas s2 = formulas s1" "nodes (disk s2) = (nodes (disk s1))(tmp \<mapsto> NFile w)"
    and w: "w @ in_flight f = concat chunks" by auto
  define v where "v = w @ take (old_landed env) (in_flight f)"
  let ?f = "f\<lparr>in_flight := drop (old_landed env) (in_flight f)\<rparr>"
  from settle_some_faultless [OF s2(1), of f w] f s2(3) obtain d0 where
    some: "settle_some (old_landed env) f s2 = (?f, s2\<lparr>disk := d0\<rparr>)" and "faultless d0"
    and "nodes d0 = (nodes (disk s2))(tmp \<mapsto> NFile v)" by (auto simp: v_def)
  define s3 where "s3 = s2\<lparr>disk := d0\<rparr>"
  have s3: "faultless (disk s3)" "formulas s3 = formulas s" "nodes (disk s3) = (nodes (disk s1))(tmp \<mapsto> NFile v)"
    using \<open>faultless d0\<close> \<open>nodes d0 = _\<close> s2 assms(7) by (auto simp: s3_def)
  have fm: "file_move (nodes (disk s3)) tmp p" using assms(10) by (auto simp: s3(3) file_move_def leaf_def)
  have src: "nodes (disk s3) tmp = Some (NFile v)" by (simp add: s3(3))
  have free: "nodes (disk s3) p = None" using assms(10,11) by (auto simp: s3(3) file_move_def)
  have "\<exists>d. rename tmp p (disk s3) = (Ok (), d) \<and> faultless d \<and> nodes d = (nodes (disk s1))(tmp := None, p \<mapsto> NFile v)"
  proof (cases rule: rename_file [OF src node.distinct(1) fm])
    case (1 d)
    with s3 show ?thesis by simp
  next
    case (2 e d)
    with free s3(1) show ?thesis by simp
  qed
  then obtain d where d: "rename tmp p (disk s3) = (Ok (), d)" "faultless d"
    "nodes d = (nodes (disk s1))(tmp := None, p \<mapsto> NFile v)" by blast
  have whole: "v @ in_flight ?f = concat chunks" using w by (simp add: v_def)
  from settle_faultless [of "s3\<lparr>disk := d\<rparr>" "?f\<lparr>handle_path := p\<rparr>" v] d(2,3) obtain d' where
    d': "settle_write (?f\<lparr>handle_path := p\<rparr>) (s3\<lparr>disk := d\<rparr>) = (Ok (), s3\<lparr>disk := d'\<rparr>)"
      "nodes d' = (nodes (disk s1))(tmp := None, p \<mapsto> NFile (concat chunks))" using whole by auto
  have r: "old_response 201 [(''ETag'', in_quotes (old_show_hash env h)), (''Location'', ''/api/1/download/'' @ k)] =
      Ok \<lparr>resp_status = 201, resp_headers = [(''ETag'', in_quotes (old_show_hash env h)), (''Location'', ''/api/1/download/'' @ k)],
        resp_body = EmptyBody\<rparr>" (is "_ = Ok ?r")
    using assms(2,3) by (simp add: old_response_def in_quotes_def header_char_def Let_def)
  let ?last = "lock_in_formula k p (s3\<lparr>disk := d'\<rparr>)"
  have run: "formula_write_file env k None (map Ok chunks) s = (Ok ?r, ?last)"
    using assms(1,6) body some d(1) d'(1) r
    by (simp add: formula_write_file_def old_cached_def Let_def on_disk_def s3_def assms(5) flip: assms(4))
  have "nodes (disk ?last) = (nodes (disk s1))(tmp := None, p \<mapsto> NFile (concat chunks))"
    using d'(2) by (simp add: lock_in_formula_def update_formula_def)
  moreover have "formulas ?last = (formulas s)(k \<mapsto> b\<lparr>builder_locked := insert p (builder_locked b)\<rparr>)"
    using s3(2) assms(1) by (simp add: lock_in_formula_def update_formula_def)
  moreover have "resp_status ?r = 201" by simp
  ultimately show ?thesis using run by blast
qed

end
