(* ===== verification/Store_Locks.thy ===== *)
theory Store_Locks
  imports Store
begin

text \<open>
  The lock table of the store counts what it says: after any calls on the store, the entry of a
  path is the number of live locks of that path, and there is none when no lock is live.
\<close>

section \<open>Counted resources\<close>

text \<open>
  \<open>tracks L s\<close>: the state \<open>s\<close> accounts for the resources \<open>L\<close>. \<open>room\<close> says that one more of a kind can
  be counted.
\<close>

locale lock_contract =
  fixes acquire :: "'k \<Rightarrow> 's \<Rightarrow> 's"
    and release :: "'k \<Rightarrow> 's \<Rightarrow> 's"
    and tracks :: "'k multiset \<Rightarrow> 's \<Rightarrow> bool"
    and room :: "'k multiset \<Rightarrow> bool"
  assumes acquire_law: "tracks L s \<Longrightarrow> room L \<Longrightarrow> tracks (add_mset k L) (acquire k s)"
    and release_law: "tracks (add_mset k L) s \<Longrightarrow> tracks L (release k s)"
begin

lemma bracket: "tracks L s \<Longrightarrow> room L \<Longrightarrow> tracks L (release k (acquire k s))"
  by (rule release_law) (rule acquire_law)

lemma replace_held:
  assumes "tracks (add_mset old L) s" and "room (add_mset old L)"
  shows "tracks (add_mset new L) (release old (acquire new s))"
proof (rule release_law)
  from acquire_law [OF assms] show "tracks (add_mset old (add_mset new L)) (acquire new s)"
    by (simp add: add_mset_commute)
qed

end

definition counted :: "bytes multiset \<Rightarrow> (bytes \<Rightarrow> 64 word option) \<Rightarrow> bool" where
  "counted L m \<longleftrightarrow> (\<forall>p. m p = (if p \<in># L then Some (word_of_nat (count L p)) else None) \<and> count L p < 2 ^ 64)"

lemma word_of_count: "count L p < 2 ^ 64 \<Longrightarrow> (word_of_nat (count L p) :: 64 word) = 0 \<longleftrightarrow> p \<notin># L"
  by (auto simp: not_in_iff word_unat_eq_iff unat_of_nat)

lemma counted_increase:
  assumes "counted L (locks s)" and "size L + 1 < 2 ^ 64"
  shows "counted (add_mset p L) (locks (increase_lock p s))"
proof -
  have le: "count L q \<le> size L" for q by (rule count_le_size)
  have "count (add_mset p L) q < 2 ^ 64" for q using le [of q] assms(2) by simp
  with assms(1) show ?thesis
    by (auto simp: counted_def increase_lock_def not_in_iff)
qed

lemma counted_decrease:
  assumes "counted (add_mset p L) (locks s)"
  shows "counted L (locks (decrease_lock p s))"
proof -
  from assms have entry: "locks s p = Some (word_of_nat (Suc (count L p)))"
    and lt: "Suc (count L p) < 2 ^ 64"
    by (auto simp: counted_def dest: spec [of _ p])
  have small: "count L q < 2 ^ 64" for q
    using assms unfolding counted_def by (metis Suc_lessD count_add_mset)
  have other: "locks s q = (if q \<in># L then Some (word_of_nat (count L q)) else None)" if "q \<noteq> p" for q
    using assms that by (auto simp: counted_def dest: spec [of _ q])
  show ?thesis
    using entry other small word_of_count [OF small] by (auto simp: counted_def decrease_lock_def)
qed

interpretation store_locks: lock_contract increase_lock decrease_lock
  "\<lambda>L s. counted L (locks s)" "\<lambda>L. size L + 1 < 2 ^ 64"
  by unfold_locales (auto intro: counted_increase counted_decrease)

section \<open>Operations\<close>

definition dec_locks :: "decrement_lock \<Rightarrow> bytes multiset" where
  "dec_locks d = (case dec_path d of Some p \<Rightarrow> {#p#} | None \<Rightarrow> {#})"

definition lock_locks :: "store_lock \<Rightarrow> bytes multiset" where
  "lock_locks l = dec_locks (lock_dec l)"

definition pending_locks :: "pending_file \<Rightarrow> bytes multiset" where
  "pending_locks pf = lock_locks (pending_lock pf)"

text \<open>\<open>owed L s\<close>: exactly the locks \<open>L\<close> are live.\<close>

definition owed :: "bytes multiset \<Rightarrow> 'w store_state_scheme \<Rightarrow> bool" where
  "owed L s \<longleftrightarrow> counted L (locks s)"

lemma owed_locks: "locks s' = locks s \<Longrightarrow> owed L s' = owed L s"
  by (simp add: owed_def)

lemma owed_disk [simp]: "owed L (s\<lparr>disk := d\<rparr>) = owed L s" "owed L (s\<lparr>counter := n\<rparr>) = owed L s"
  "owed L (w\<lparr>dec_var := v\<rparr>) = owed L w" "owed L (store_state.truncate w) = owed L w"
  by (simp_all add: owed_def store_state.defs)

lemma owed_on_disk: "on_disk m s = (x, s') \<Longrightarrow> owed L s' = owed L s"
  by (auto simp: on_disk_def split: prod.splits)

lemma owed_new:
  "decrement_lock_new p s = (d, s') \<Longrightarrow> owed L s \<Longrightarrow> size L + 1 < 2 ^ 64 \<Longrightarrow>
     owed (dec_locks d + L) s' \<and> dec_locks d = {#p#}"
  using counted_increase [of L s p]
  by (auto simp: decrement_lock_new_def Let_def dec_locks_def owed_def)

lemma owed_drop: "owed (dec_locks d + L) s \<Longrightarrow> owed L (decrement_lock_drop d s)"
  using counted_decrease [of _ L s]
  by (auto simp: decrement_lock_drop_def dec_locks_def owed_def split: option.splits)

lemma owed_lock_drop: "owed (lock_locks l + L) s \<Longrightarrow> owed L (store_lock_drop l s)"
  unfolding store_lock_drop_def lock_locks_def by (rule owed_drop)

lemma owed_pending_drop: "owed (pending_locks pf + L) s \<Longrightarrow> owed L (pending_drop pf s)"
  unfolding pending_drop_def pending_locks_def by (rule owed_lock_drop) simp

lemma owed_get_file:
  assumes "owed L s" and "size L + 1 < 2 ^ 64"
  shows "case get_file c h s of
      (Ok l, s') \<Rightarrow> owed (lock_locks l + L) s'
    | (_, s') \<Rightarrow> owed L s'"
proof -
  obtain d s1 where d: "decrement_lock_new (hash_path c h s) s = (d, s1)" by fastforce
  obtain x s2 where x: "on_disk (open_read (hash_path c h s)) s1 = (x, s2)" by fastforce
  from owed_new [OF d assms] have "owed (dec_locks d + L) s1" by blast
  with owed_on_disk [OF x] have "owed (dec_locks d + L) s2" by simp
  then show ?thesis
    by (auto simp: get_file_def d x lock_locks_def intro: owed_drop split: res.split)
qed

text \<open>The callback keeps the lock that the captured variable holds.\<close>

definition var_locks :: "creating_state \<Rightarrow> bytes multiset" where
  "var_locks w = (case dec_var w of Some d \<Rightarrow> dec_locks d | None \<Rightarrow> {#})"

lemma size_dec_locks: "size (dec_locks d) \<le> 1"
  by (simp add: dec_locks_def split: option.split)

lemma owed_callback:
  assumes "owed (var_locks w + L) w" and "size L + 2 < 2 ^ 64"
  shows "owed (var_locks (pending_callback p w) + L) (pending_callback p w) \<and>
    var_locks (pending_callback p w) = {#p#}"
proof -
  obtain d w1 where d: "decrement_lock_new p w = (d, w1)" by fastforce
  have "size (var_locks w) \<le> 1" using size_dec_locks by (simp add: var_locks_def split: option.split)
  with assms(2) have "size (var_locks w + L) + 1 < 2 ^ 64" by simp
  from owed_new [OF d assms(1) this]
  have "owed (dec_locks d + (var_locks w + L)) w1" and p: "dec_locks d = {#p#}" by blast+
  then have "owed (dec_locks d + L) (case dec_var w of Some old \<Rightarrow> decrement_lock_drop old w1 | None \<Rightarrow> w1)"
    by (auto simp: var_locks_def ac_simps intro!: owed_drop split: option.split)
  with p show ?thesis by (simp add: pending_callback_def d var_locks_def)
qed

lemma var_locks_disk [simp]: "var_locks (w\<lparr>disk := d\<rparr>) = var_locks w" "var_locks (w\<lparr>counter := n\<rparr>) = var_locks w"
  by (simp_all add: var_locks_def)

lemma owed_pending_new:
  assumes "owed L s" and "size L + 2 < 2 ^ 64"
  shows "case pending_new pid pick s of
      (Ok pf, s') \<Rightarrow> owed (pending_locks pf + L) s' \<and> pending_locks pf = {#pending_temp pf#}
    | (Err _, s') \<Rightarrow> owed L s'
    | (Panic, s') \<Rightarrow> False"
proof -
  let ?dir = "temp_dir (store_path s)"
  let ?I = "\<lambda>w. owed (var_locks w + L) w"
  let ?Q = "\<lambda>p w. \<exists>d. dec_var w = Some d \<and> dec_locks d = {#p#}"
  have start: "?I (with_dec s)" using assms(1) by (simp add: with_dec_def var_locks_def owed_def)
  obtain x w where run: "temp_file_new_with pending_callback pid pick ?dir (with_dec s) = (x, w)" by fastforce
  obtain y d where mk: "on_disk (create_dir_all ?dir) (with_dec s) = (y, with_dec s\<lparr>disk := d\<rparr>)"
    by (rule on_disk_run)
  let ?loop = "temp_loop create_new pending_callback pid pick ?dir MAX_RETRIES (with_dec s\<lparr>disk := d\<rparr>)"
  have I: "?I w" and Q: "\<forall>p. x = Ok p \<longrightarrow> ?Q p w" and np: "x \<noteq> Panic"
  proof -
    have inv: "?I (snd ?loop)"
      by (rule temp_loop_invariant) (use start in \<open>auto intro!: owed_callback [THEN conjunct1] assms(2)\<close>)
    show "?I w"
      using run mk start inv by (cases y) (auto simp: temp_file_new_with_def)
    have last: "?Q p w'" if "?loop = (Ok p, w')" for p w'
      by (rule temp_loop_last [OF _ _ that])
        (auto simp: pending_callback_def decrement_lock_new_def Let_def dec_locks_def split: prod.split)
    then show "\<forall>p. x = Ok p \<longrightarrow> ?Q p w"
      using run mk by (cases y) (auto simp: temp_file_new_with_def)
    show "x \<noteq> Panic"
      using run mk temp_file_no_panic [of pending_callback pid pick ?dir "with_dec s"] by auto
  qed
  show ?thesis
  proof (cases x)
    case (Ok p)
    with Q obtain d where "dec_var w = Some d" "dec_locks d = {#p#}" by blast
    with I Ok run show ?thesis
      by (simp add: pending_new_def pending_locks_def lock_locks_def var_locks_def)
  next
    case (Err e)
    with I run show ?thesis
      by (auto simp: pending_new_def var_locks_def intro: owed_drop split: option.splits)
  next
    case Panic
    with np show ?thesis by simp
  qed
qed

lemma size_dec_locks': "size (pending_locks pf) \<le> 1"
  unfolding pending_locks_def lock_locks_def by (rule size_dec_locks)

lemma owed_settle: "settle_write f s = (x, s') \<Longrightarrow> owed L s' = owed L s"
  by (auto simp: settle_write_def owed_on_disk split: if_splits)

lemma owed_complete:
  assumes "owed (pending_locks pf + L) s" and "size L + 2 < 2 ^ 64"
  shows "case pending_complete c landed h pf s of
      (Ok l, s') \<Rightarrow> owed (lock_locks l + L) s'
    | (_, s') \<Rightarrow> owed L s'"
proof -
  obtain d s1 where d: "decrement_lock_new (hash_path c h s) s = (d, s1)" by fastforce
  have "size (pending_locks pf + L) + 1 < 2 ^ 64" using size_dec_locks' [of pf] assms(2) by simp
  from owed_new [OF d assms(1) this] have s1: "owed (dec_locks d + (pending_locks pf + L)) s1" by blast
  define s2 where "s2 = snd (settle_some landed (lock_file (pending_lock pf)) s1)"
  have s2: "owed (dec_locks d + (pending_locks pf + L)) s2"
    using s1 settle_some_keeps [of "owed (dec_locks d + (pending_locks pf + L))"] owed_settle
    by (metis s2_def prod.collapse)
  have fail: "owed L (pending_drop pf (decrement_lock_drop d s'))"
    if "owed (dec_locks d + (pending_locks pf + L)) s'" for s'
    using that by (intro owed_pending_drop owed_drop)
  show ?thesis
  proof (cases "store_lock_as_path (pending_lock pf) :: (error_kind, bytes) res")
    case (Ok src)
    let ?do = "on_disk (io_then (copy_file src (hash_path c h s)) (open_read (hash_path c h s)))"
    obtain x s3 where x: "?do s2 = (x, s3)" by fastforce
    have s3: "owed (dec_locks d + (pending_locks pf + L)) s3" using s2 owed_on_disk [OF x] by simp
    have "owed (dec_locks d + L) (pending_drop pf s3)"
      using s3 by (intro owed_pending_drop) (simp add: ac_simps)
    with fail [OF s3] show ?thesis
      by (simp add: pending_complete_def d Ok Let_def x lock_locks_def flip: s2_def split: res.split)
  qed (use fail [OF s2] in \<open>simp_all add: pending_complete_def d Let_def flip: s2_def\<close>)
qed

lemma owed_write:
  assumes "pending_write bs pf s = (x, pf', s')"
  shows "owed L s' = owed L s \<and> pending_locks pf' = pending_locks pf"
proof -
  obtain f where w: "file_write_all bs (lock_file (pending_lock pf)) s = (x, f, s')"
    and pf': "pf' = pf\<lparr>pending_lock := (pending_lock pf)\<lparr>lock_file := f\<rparr>\<rparr>"
    using assms by (auto simp: pending_write_def split: prod.splits)
  have "owed L s' = owed L s"
    using file_write_all_keeps [OF _ w, of "\<lambda>t. owed L t = owed L s"] owed_settle by blast
  with pf' show ?thesis by (simp add: pending_locks_def lock_locks_def)
qed

section \<open>Any use of the store\<close>

text \<open>
  A session is what its clients hold: locks and pending files. A call names what it acts on by
  its position; \<open>drop\<close> and \<open>complete\<close> consume it.
\<close>

record session =
  held_locks :: "store_lock list"
  held_pending :: "pending_file list"

datatype store_call =
    GetFile supported_hash
  | CreateFile nat "nat \<Rightarrow> string"
  | WriteFile nat bytes
  | Complete nat nat supported_hash
  | DropLock nat
  | DropPending nat

definition remove_nth :: "nat \<Rightarrow> 'a list \<Rightarrow> 'a list" where
  "remove_nth i xs = take i xs @ drop (Suc i) xs"

fun run_call :: "b32_codec \<Rightarrow> store_call \<Rightarrow> session \<times> store_state \<Rightarrow> session \<times> store_state" where
  "run_call c (GetFile h) (ss, s) =
     (case get_file c h s of
        (Ok l, s') \<Rightarrow> (ss\<lparr>held_locks := l # held_locks ss\<rparr>, s')
      | (_, s') \<Rightarrow> (ss, s'))"
| "run_call c (CreateFile pid pick) (ss, s) =
     (case create_file pid pick s of
        (Ok pf, s') \<Rightarrow> (ss\<lparr>held_pending := pf # held_pending ss\<rparr>, s')
      | (_, s') \<Rightarrow> (ss, s'))"
| "run_call c (WriteFile i bs) (ss, s) =
     (if i < length (held_pending ss) then
        case pending_write bs (held_pending ss ! i) s of
          (_, pf, s') \<Rightarrow> (ss\<lparr>held_pending := (held_pending ss)[i := pf]\<rparr>, s')
      else (ss, s))"
| "run_call c (Complete i landed h) (ss, s) =
     (if i < length (held_pending ss) then
        case pending_complete c landed h (held_pending ss ! i) s of
          (Ok l, s') \<Rightarrow> (\<lparr>held_locks = l # held_locks ss, held_pending = remove_nth i (held_pending ss)\<rparr>, s')
        | (_, s') \<Rightarrow> (ss\<lparr>held_pending := remove_nth i (held_pending ss)\<rparr>, s')
      else (ss, s))"
| "run_call c (DropLock i) (ss, s) =
     (if i < length (held_locks ss) then
        (ss\<lparr>held_locks := remove_nth i (held_locks ss)\<rparr>, store_lock_drop (held_locks ss ! i) s)
      else (ss, s))"
| "run_call c (DropPending i) (ss, s) =
     (if i < length (held_pending ss) then
        (ss\<lparr>held_pending := remove_nth i (held_pending ss)\<rparr>, pending_drop (held_pending ss ! i) s)
      else (ss, s))"

definition store_calls :: "b32_codec \<Rightarrow> store_call list \<Rightarrow> session \<times> store_state \<Rightarrow> session \<times> store_state" where
  "store_calls c calls x = fold (run_call c) calls x"

definition live_locks :: "session \<Rightarrow> bytes multiset" where
  "live_locks ss = (\<Sum>l \<leftarrow> held_locks ss. lock_locks l) + (\<Sum>pf \<leftarrow> held_pending ss. pending_locks pf)"

lemma remove_nth_sum: "i < length xs \<Longrightarrow>
    (\<Sum>x \<leftarrow> xs. f x) = f (xs ! i) + (\<Sum>x \<leftarrow> remove_nth i xs. f x :: 'b :: comm_monoid_add)"
  unfolding remove_nth_def
  by (subst id_take_nth_drop [of i xs]) (simp_all add: ac_simps)

lemma update_sum: "i < length xs \<Longrightarrow> f y = f (xs ! i) \<Longrightarrow>
    (\<Sum>x \<leftarrow> xs[i := y]. f x) = (\<Sum>x \<leftarrow> xs. f x :: 'b :: comm_monoid_add)"
  by (metis list_update_id map_update)

text \<open>\<open>balanced n (ss, s)\<close>: the table is right, and at most \<open>n\<close> locks are live.\<close>

definition balanced :: "nat \<Rightarrow> session \<times> store_state \<Rightarrow> bool" where
  "balanced n x \<longleftrightarrow> owed (live_locks (fst x)) (snd x) \<and> size (live_locks (fst x)) \<le> n"

lemma size_lock_locks: "size (lock_locks l) \<le> 1"
  unfolding lock_locks_def by (rule size_dec_locks)

lemma size_with_lock: "m \<le> n \<Longrightarrow> size (lock_locks l) + m \<le> Suc n"
  using size_lock_locks [of l] by simp

lemma run_call_balanced:
  assumes "balanced n x" and "n + 2 < 2 ^ 64"
  shows "balanced (Suc n) (run_call c call x)"
proof -
  obtain ss s where x: "x = (ss, s)" by fastforce
  have ok: "owed (live_locks ss) s" and size: "size (live_locks ss) \<le> n"
    using assms(1) by (simp_all add: balanced_def x)
  then have room: "size (live_locks ss) + 1 < 2 ^ 64" "size (live_locks ss) + 2 < 2 ^ 64" using assms(2) by simp_all
  show ?thesis
  proof (cases call)
    case (GetFile h)
    with owed_get_file [OF ok room(1), of c h] size show ?thesis
      by (auto simp: balanced_def x live_locks_def ac_simps intro: size_with_lock split: prod.splits res.splits)
  next
    case (CreateFile pid pick)
    with owed_pending_new [OF ok room(2), of pid pick] size size_dec_locks' show ?thesis
      by (auto simp: balanced_def x live_locks_def create_file_def ac_simps split: prod.splits res.splits)
  next
    case (WriteFile i bs)
    with ok size show ?thesis
      by (auto simp: balanced_def x live_locks_def update_sum dest!: owed_write split: prod.splits)
  next
    case (Complete i landed h)
    show ?thesis
    proof (cases "i < length (held_pending ss)")
      case True
      let ?pf = "held_pending ss ! i"
      let ?L = "(\<Sum>l \<leftarrow> held_locks ss. lock_locks l) + (\<Sum>pf \<leftarrow> remove_nth i (held_pending ss). pending_locks pf)"
      have split: "live_locks ss = pending_locks ?pf + ?L"
        by (simp add: live_locks_def remove_nth_sum [OF True] ac_simps)
      then have L: "size ?L \<le> n" using size by simp
      from owed_complete [of ?pf ?L s c landed h] ok split L assms(2) show ?thesis
        by (auto simp: Complete True balanced_def x live_locks_def ac_simps intro: size_with_lock split: prod.splits res.splits)
    qed (use ok size in \<open>simp add: Complete balanced_def x\<close>)
  next
    case (DropLock i)
    with ok size show ?thesis
      by (auto simp: balanced_def x live_locks_def remove_nth_sum [of i] ac_simps intro!: owed_lock_drop)
  next
    case (DropPending i)
    with ok size show ?thesis
      by (auto simp: balanced_def x live_locks_def remove_nth_sum [of i] ac_simps intro!: owed_pending_drop)
  qed
qed

lemma store_calls_balanced:
  "balanced n x \<Longrightarrow> n + length calls + 2 < 2 ^ 64 \<Longrightarrow> balanced (n + length calls) (store_calls c calls x)"
proof (induction calls arbitrary: n x)
  case (Cons call calls)
  from Cons.prems have "balanced (Suc n) (run_call c call x)" by (intro run_call_balanced) simp_all
  from Cons.IH [OF this] Cons.prems(2) show ?case by (simp add: store_calls_def)
qed (simp add: store_calls_def)

text \<open>
  C24: Whatever calls are made on a store whose table is empty, and however they fail, the table
  has an entry for exactly the paths that have a live lock, and the entry is their number.
\<close>

theorem store_locks_counted:
  assumes "locks s = Map.empty" and "length calls + 2 < 2 ^ 64"
    and "store_calls c calls (\<lparr>held_locks = [], held_pending = []\<rparr>, s) = (ss, s')"
  shows "locks s' p = (if p \<in># live_locks ss then Some (word_of_nat (count (live_locks ss) p)) else None) \<and>
    count (live_locks ss) p < 2 ^ 64"
proof -
  have "balanced 0 (\<lparr>held_locks = [], held_pending = []\<rparr>, s)"
    using assms(1) by (simp add: balanced_def owed_def counted_def live_locks_def)
  from store_calls_balanced [OF this, of calls c] assms(2,3) show ?thesis
    by (simp add: balanced_def owed_def counted_def)
qed

text \<open>A store in which every path is an empty file.\<close>

definition full_store :: store_state where
  "full_store = \<lparr>counter = 0, disk = \<lparr>nodes = \<lambda>_. Some (NFile []), sys_faults = [], overwrite = True\<rparr>,
     locks = Map.empty, store_path = \<lparr>store_dir = [115], files_dir = [102], temp_dir = [116]\<rparr>\<rparr>"

theorem store_locks_counted_witness:
  "\<forall>c h. \<exists>ss s'. store_calls c [GetFile h, GetFile h, DropLock 0] (\<lparr>held_locks = [], held_pending = []\<rparr>, full_store) =
      (ss, s') \<and> locks s' (hash_path c h full_store) = Some 1"
proof (intro allI)
  fix c h
  let ?calls = "[GetFile h, GetFile h, DropLock 0]" and ?p = "hash_path c h full_store"
  obtain ss s' where run: "store_calls c ?calls (\<lparr>held_locks = [], held_pending = []\<rparr>, full_store) = (ss, s')"
    by fastforce
  have opens: "open_read p (disk full_store) = (Ok p, disk full_store)" for p
    by (simp add: open_read_def syscall_def full_store_def resolve_plain [of _ _ 40, simplified])
  have path: "path_join [102] (bytes_of (supported_display c h)) = ?p"
    by (simp add: hash_path_def full_store_def)
  have "live_locks ss = {#?p#}"
    using run opens by (auto simp: store_calls_def get_file_def decrement_lock_new_def increase_lock_def Let_def
        on_disk_def full_store_def hash_path_def remove_nth_def live_locks_def lock_locks_def dec_locks_def)
  with store_locks_counted [OF _ _ run, of ?p] have "locks s' ?p = Some 1" by (simp add: full_store_def)
  with run show "\<exists>ss s'. store_calls c ?calls (\<lparr>held_locks = [], held_pending = []\<rparr>, full_store) = (ss, s') \<and>
      locks s' ?p = Some 1" by blast
qed

section \<open>What is stored\<close>

text \<open>A pending file as \<open>create_file\<close> returns it and writes leave it.\<close>

definition pending_wf :: "pending_file \<Rightarrow> bool" where
  "pending_wf pf \<longleftrightarrow> handle_path (lock_file (pending_lock pf)) = pending_temp pf \<and>
     dec_path (lock_dec (pending_lock pf)) = Some (pending_temp pf) \<and> pending_temp pf \<noteq> []"

lemma pending_write_wf:
  assumes "pending_write bs pf s = (x, pf', s')" and "pending_wf pf"
  shows "pending_wf pf'"
proof -
  obtain f where w: "file_write_all bs (lock_file (pending_lock pf)) s = (x, f, s')"
    and pf': "pf' = pf\<lparr>pending_lock := (pending_lock pf)\<lparr>lock_file := f\<rparr>\<rparr>"
    using assms(1) by (auto simp: pending_write_def split: prod.splits)
  have "handle_path f = handle_path (lock_file (pending_lock pf))"
    using file_write_all_keeps [OF _ w, of "\<lambda>_. True"] by blast
  with pf' assms(2) show ?thesis by (simp add: pending_wf_def)
qed

lemma copy_faultless:
  assumes "faultless s" and "nodes s a = Some (NFile content)"
    and "a \<noteq> b" and "nodes s b \<noteq> Some NDir" and "\<forall>t. nodes s b \<noteq> Some (NLink t)"
  shows "\<exists>s'. copy_file a b s = (Ok (), s') \<and> faultless s' \<and> nodes s' = (nodes s)(b \<mapsto> NFile content)"
proof -
  let ?s1 = "rest_faults s"
  have f1: "faultless ?s1" and f2: "faultless (rest_faults ?s1)" using assms(1) by (simp_all add: faultless_rest)
  have 1: "open_read a s = (Ok a, ?s1)" using open_read_faultless [OF assms(1)] assms(2) by simp
  have r: "resolve 41 (nodes s) b = Some b" using assms(5) by (intro resolve_41)
  let ?s2 = "rest_faults ?s1\<lparr>nodes := (nodes s)(b \<mapsto> NFile [])\<rparr>"
  have 2: "open_truncate b ?s1 = (Ok b, ?s2)"
    using r assms(4) by (auto simp: open_truncate_def syscall_faultless [OF f1] split: option.split node.split)
  have "append_file b content ?s2 = (Ok (), rest_faults ?s2\<lparr>nodes := (nodes s)(b \<mapsto> NFile content)\<rparr>)"
    using append_faultless [of ?s2 b "[]" content] f2 by simp
  with 1 2 assms(2) f2 show ?thesis
    by (auto simp: copy_file_def faultless_rest io_bind_def)
qed

lemma disk_locks [simp]: "disk (decrement_lock_drop d s) = disk s" "disk (increase_lock p s) = disk s"
  "store_path (increase_lock p s) = store_path s"
  by (simp_all add: decrement_lock_drop_def decrease_lock_def increase_lock_def split: option.split)

lemma as_path_literal [simp]:
  "store_lock_as_path \<lparr>lock_file = f, lock_dec = \<lparr>dec_path = Some p\<rparr>\<rparr> = Ok p"
  by (simp add: store_lock_as_path_def)

lemma remove_file_faultless:
  "faultless s \<Longrightarrow> nodes s p = Some (NFile c) \<Longrightarrow>
     remove_file p s = (Ok (), rest_faults s\<lparr>nodes := (nodes s)(p := None)\<rparr>)"
  by (simp add: remove_file_def syscall_faultless)

lemma store_path_drop: "store_path (decrement_lock_drop d s) = store_path s"
  by (simp add: decrement_lock_drop_def decrease_lock_def split: option.split)

lemma store_complete:
  assumes "faultless (disk s)" and "pending_wf pf"
    and "nodes (disk s) (pending_temp pf) = Some (NFile content)"
    and "pending_temp pf \<noteq> hash_path c h s" and "nodes (disk s) (hash_path c h s) \<noteq> Some NDir"
    and "\<forall>t. nodes (disk s) (hash_path c h s) \<noteq> Some (NLink t)"
  shows "\<exists>l s'. pending_complete c landed h pf s = (Ok l, s') \<and>
    store_lock_as_path l = (Ok (hash_path c h s) :: (error_kind, bytes) res) \<and>
    nodes (disk s') = (nodes (disk s))(pending_temp pf := None, hash_path c h s \<mapsto>
      NFile (content @ take landed (in_flight (lock_file (pending_lock pf))))) \<and>
    faultless (disk s') \<and> store_path s' = store_path s"
proof -
  let ?p = "hash_path c h s" and ?t = "pending_temp pf"
  let ?data = "content @ take landed (in_flight (lock_file (pending_lock pf)))"
  have as_path: "store_lock_as_path (pending_lock pf) = (Ok ?t :: (error_kind, bytes) res)"
    using assms(2) by (simp add: pending_wf_def store_lock_as_path_def)
  let ?s1 = "increase_lock ?p s"
  obtain d2 where s2: "snd (settle_some landed (lock_file (pending_lock pf)) ?s1) = ?s1\<lparr>disk := d2\<rparr>"
    and f2: "faultless d2" and n2: "nodes d2 = (nodes (disk s))(?t \<mapsto> NFile ?data)"
    using settle_some_faultless [of ?s1 "lock_file (pending_lock pf)" content landed] assms(1-3) by (auto simp: pending_wf_def)
  have "nodes d2 ?t = Some (NFile ?data)" "nodes d2 ?p \<noteq> Some NDir" "\<forall>t. nodes d2 ?p \<noteq> Some (NLink t)"
    using assms(4-6) n2 by auto
  from copy_faultless [OF f2 this(1) assms(4) this(2,3)] obtain d3 where
    copy: "copy_file ?t ?p d2 = (Ok (), d3)" and f3: "faultless d3" and n3: "nodes d3 = (nodes d2)(?p \<mapsto> NFile ?data)"
    by blast
  have opened: "open_read ?p d3 = (Ok ?p, rest_faults d3)"
    using open_read_faultless [OF f3, of ?p] n3 by simp
  have "nodes (rest_faults d3) ?t = Some (NFile ?data)" using n3 n2 assms(4) by simp
  from remove_file_faultless [OF faultless_rest [OF f3] this] assms(2)
  have removed: "nodes (temp_file_drop (?t, rest_faults d3)) = (nodes d3)(?t := None)" "faultless (temp_file_drop (?t, rest_faults d3))"
    using f3 by (simp_all add: temp_file_drop_def temp_file_delete_impl_def temp_file_delete_def pending_wf_def faultless_rest)
  show ?thesis
    using assms(4) n2 n3
    by (auto simp: pending_complete_def decrement_lock_new_def Let_def as_path s2 on_disk_def copy opened
        pending_drop_def store_lock_drop_def removed fun_upd_twist store_path_drop)
qed

text \<open>
  When no system call fails, completing an upload succeeds, removes the temporary file and
  stores what has reached it under the digest: what was written up to the last write, and of that
  the bytes that have been carried out by then, as nothing waits for it.
\<close>

theorem store_complete_content:
  assumes "faultless (disk s)" and "pending_wf pf"
    and "nodes (disk s) (pending_temp pf) = Some (NFile content)"
    and "pending_temp pf \<noteq> hash_path c h s" and "nodes (disk s) (hash_path c h s) \<noteq> Some NDir"
    and "\<forall>t. nodes (disk s) (hash_path c h s) \<noteq> Some (NLink t)"
  shows "\<exists>l s'. pending_complete c landed h pf s = (Ok l, s') \<and>
    store_lock_as_path l = (Ok (hash_path c h s) :: (error_kind, bytes) res) \<and>
    nodes (disk s') = (nodes (disk s))(pending_temp pf := None, hash_path c h s \<mapsto>
      NFile (content @ take landed (in_flight (lock_file (pending_lock pf)))))"
  using store_complete [OF assms] by blast

text \<open>
  Completing an upload is not atomic: if writing the copy fails, an empty file stays in the
  store under the digest, and the next request for the digest is given a lock on it.
\<close>

theorem store_partial_visible:
  assumes "pending_wf pf" and "sys_faults (disk s) = [None, None, Some e]"
    and "nodes (disk s) (pending_temp pf) = Some (NFile content)"
    and "pending_temp pf \<noteq> hash_path c h s" and "nodes (disk s) (hash_path c h s) = None"
  shows "\<exists>s' l s''. pending_complete c 0 h pf s = (Err e, s') \<and>
    nodes (disk s') (hash_path c h s) = Some (NFile []) \<and>
    get_file c h s' = (Ok l, s'') \<and> handle_path (lock_file l) = hash_path c h s"
proof -
  let ?p = "hash_path c h s" and ?t = "pending_temp pf"
  have as_path: "store_lock_as_path (pending_lock pf) = (Ok ?t :: (error_kind, bytes) res)"
    using assms(1) by (simp add: pending_wf_def store_lock_as_path_def)
  let ?d = "\<lparr>nodes = (nodes (disk s))(?p \<mapsto> NFile []), sys_faults = [], overwrite = overwrite (disk s)\<rparr>"
  have "resolve 41 (nodes (disk s)) ?t = Some ?t" "resolve 41 (nodes (disk s)) ?p = Some ?p"
    using assms(3,5) by (simp_all add: resolve_41)
  then have copy: "copy_file ?t ?p (disk s) = (Err e, ?d)"
    using assms(2,3,5)
    by (cases "disk s") (simp add: copy_file_def open_read_def open_truncate_def append_file_def syscall_def io_bind_def)
  have drop: "temp_file_drop (?t, ?d) = ?d\<lparr>nodes := (nodes ?d)(?t := None)\<rparr>"
    using assms(1,3,4) remove_file_faultless [of ?d ?t content]
    by (simp add: temp_file_drop_def temp_file_delete_impl_def temp_file_delete_def pending_wf_def faultless_def rest_faults_Nil)
  have path: "hash_path c h s' = ?p" if "store_path s' = store_path s" for s' :: "'a store_state_scheme"
    using that by (simp add: hash_path_def)
  have keep: "store_path (decrement_lock_drop d s') = store_path s'" for d and s' :: "'a store_state_scheme"
    by (simp add: decrement_lock_drop_def decrease_lock_def split: option.split)
  obtain s' where run: "pending_complete c 0 h pf s = (Err e, s')"
    and d: "disk s' = ?d\<lparr>nodes := (nodes ?d)(?t := None)\<rparr>" and sp: "store_path s' = store_path s"
    by (simp add: pending_complete_def decrement_lock_new_def Let_def as_path on_disk_def copy io_then_def io_bind_def
        settle_some_def settle_write_def pending_drop_def store_lock_drop_def drop keep)
  have "nodes (disk s') ?p = Some (NFile [])" using d assms(4) by simp
  moreover from this d have "open_read ?p (disk s') = (Ok ?p, disk s')"
    by (simp add: open_read_def syscall_def resolve_41)
  ultimately show ?thesis
    using run path [OF sp] by (auto simp: get_file_def decrement_lock_new_def Let_def on_disk_def)
qed

text \<open>A store with one upload: one byte written, another accepted and in flight.\<close>

definition one_upload :: "error_kind option list \<Rightarrow> store_state" where
  "one_upload script = \<lparr>counter = 1, disk = \<lparr>nodes = [[116] \<mapsto> NFile [1]], sys_faults = script, overwrite = True\<rparr>,
     locks = [[116] \<mapsto> 1], store_path = \<lparr>store_dir = [115], files_dir = [102], temp_dir = [116]\<rparr>\<rparr>"

definition upload :: pending_file where
  "upload = \<lparr>pending_temp = [116],
     pending_lock = \<lparr>lock_file = \<lparr>handle_path = [116], in_flight = [2]\<rparr>, lock_dec = \<lparr>dec_path = Some [116]\<rparr>\<rparr>\<rparr>"

lemma upload_facts:
  "pending_wf upload" "pending_temp upload = [116]" "nodes (disk (one_upload script)) [116] = Some (NFile [1])"
  "[116] \<noteq> hash_path c h (one_upload script)" "nodes (disk (one_upload script)) (hash_path c h (one_upload script)) = None"
  by (cases h; simp add: pending_wf_def upload_def one_upload_def hash_path_def path_join_def bytes_of_def)+

theorem store_complete_content_witness:
  "\<forall>c h. \<exists>l s'. pending_complete c 0 h upload (one_upload []) = (Ok l, s') \<and>
    nodes (disk s') (hash_path c h (one_upload [])) = Some (NFile [1])"
proof (intro allI)
  fix c h
  have "faultless (disk (one_upload []))" by (simp add: faultless_def one_upload_def)
  from store_complete_content [OF this upload_facts(1), of "[1]" c h 0] upload_facts
  show "\<exists>l s'. pending_complete c 0 h upload (one_upload []) = (Ok l, s') \<and>
      nodes (disk s') (hash_path c h (one_upload [])) = Some (NFile [1])"
    by auto
qed

theorem store_partial_visible_witness:
  "\<forall>c h. \<exists>s' l s''. pending_complete c 0 h upload (one_upload [None, None, Some WriteZero]) = (Err WriteZero, s') \<and>
    get_file c h s' = (Ok l, s'')"
proof (intro allI)
  fix c h
  let ?s = "one_upload [None, None, Some WriteZero]"
  have "sys_faults (disk ?s) = [None, None, Some WriteZero]" by (simp add: one_upload_def)
  from store_partial_visible [OF upload_facts(1) this, of "[1]" c h] upload_facts
  show "\<exists>s' l s''. pending_complete c 0 h upload ?s = (Err WriteZero, s') \<and> get_file c h s' = (Ok l, s'')"
    by auto
qed

end
