(* ===== verification/Frontend_Build.thy ===== *)
theory Frontend_Build
  imports Store_Locks App_Error
begin

text \<open>
  \<open>crates/daemon/src/frontend/build.rs\<close>: the requests that create a build, upload files to it
  and start it. A build that is pending holds the locks of its files. A mutex that a request
  takes is held to its end, so a handler is a function on the state; requests run one after
  the other. \<open>Spec\<close> is declared nowhere: the digest of a specification, and the call that starts
  a build (\<open>Store::start\<close>, theory \<open>Store_Start\<close>), are arguments of \<open>run\<close>.
\<close>

section \<open>State\<close>

record pending_build_state =
  build_locks :: "store_lock list"

text \<open>A build that has been submitted is \<open>None\<close>.\<close>

type_synonym pending_build = "pending_build_state option"

definition pending_build_lock :: "pending_build \<Rightarrow> pending_build_state option" where
  "pending_build_lock b = (case b of Some st \<Rightarrow> Some st | None \<Rightarrow> None)"

definition pending_build_take :: "pending_build \<Rightarrow> pending_build_state option \<times> pending_build" where
  "pending_build_take b = (b, None)"

record frontend =
  pending_builds :: "string \<Rightarrow> pending_build option"
  fe_store :: store_state

text \<open>
  What a request takes from its environment: the codec and BLAKE3, the process number and the
  random suffixes for temporary files, the random names for builds, the text of an error, and
  how many bytes of the last write of an upload are carried out before the copy (theory \<open>Store\<close>).
\<close>

record env =
  env_codec :: b32_codec
  env_b3 :: digest
  env_pid :: nat
  env_suffix :: "nat \<Rightarrow> string"
  env_pet :: "nat \<Rightarrow> string"
  env_show :: "error_kind \<Rightarrow> string"
  env_landed :: nat

definition io_failure :: "env \<Rightarrow> (error_kind, 'a) res \<Rightarrow> (failure, 'a) res" where
  "io_failure env = map_err (\<lambda>e. OtherFailure [env_show env e])"

definition quoted :: "string \<Rightarrow> string" where
  "quoted s = [CHR 0x22] @ s @ [CHR 0x22]"

text \<open>A set of locks that are equal when their paths are: a second one for a path is dropped.\<close>

definition insert_lock ::
    "store_lock \<Rightarrow> pending_build_state \<Rightarrow> store_state \<Rightarrow> pending_build_state \<times> store_state" where
  "insert_lock l st s =
     (if list_ex (\<lambda>l'. store_lock_eq l' l) (build_locks st) then (st, store_lock_drop l s)
      else (st\<lparr>build_locks := l # build_locks st\<rparr>, s))"

section \<open>Creating a build\<close>

definition create_build :: "env \<Rightarrow> frontend \<Rightarrow> ((app_error, response) res \<times> frontend) option" where
  "create_build env fe =
     (case create_temporary_entry (env_pet env) 0 (fe_store fe) of
        None \<Rightarrow> None
      | Some (r, s) \<Rightarrow>
          Some (case reason ''creating working directory'' (io_failure env r) of
              Ok (name, _) \<Rightarrow>
                Ok \<lparr>resp_status = 201, resp_headers = [(''Location'', ''/api/1/build/'' @ name)], resp_body = EmptyBody\<rparr>
            | Err e \<Rightarrow> Err e
            | Panic \<Rightarrow> Panic,
            fe\<lparr>fe_store := s\<rparr>))"

section \<open>Uploading a file\<close>

text \<open>
  \<open>str::from_utf8\<close>: the well-formed sequences of the Unicode standard. The text is its bytes.
\<close>

definition byte_in :: "nat \<Rightarrow> nat \<Rightarrow> byte \<Rightarrow> bool" where
  "byte_in lo hi b \<longleftrightarrow> lo \<le> unat b \<and> unat b \<le> hi"

fun utf8_valid :: "bytes \<Rightarrow> bool" where
  "utf8_valid [] = True"
| "utf8_valid (a # bs) =
     (if byte_in 0x00 0x7F a then utf8_valid bs
      else case bs of
        [] \<Rightarrow> False
      | b # cs \<Rightarrow>
          if byte_in 0xC2 0xDF a then byte_in 0x80 0xBF b \<and> utf8_valid cs
          else case cs of
            [] \<Rightarrow> False
          | c # ds \<Rightarrow>
              if byte_in 0xE0 0xE0 a then byte_in 0xA0 0xBF b \<and> byte_in 0x80 0xBF c \<and> utf8_valid ds
              else if byte_in 0xED 0xED a then byte_in 0x80 0x9F b \<and> byte_in 0x80 0xBF c \<and> utf8_valid ds
              else if byte_in 0xE1 0xEF a then byte_in 0x80 0xBF b \<and> byte_in 0x80 0xBF c \<and> utf8_valid ds
              else case ds of
                [] \<Rightarrow> False
              | d # es \<Rightarrow>
                  (if byte_in 0xF0 0xF0 a then byte_in 0x90 0xBF b
                   else if byte_in 0xF4 0xF4 a then byte_in 0x80 0x8F b
                   else byte_in 0xF1 0xF3 a \<and> byte_in 0x80 0xBF b) \<and>
                  byte_in 0x80 0xBF c \<and> byte_in 0x80 0xBF d \<and> utf8_valid es)"

definition from_utf8 :: "bytes \<Rightarrow> (failure, string) res" where
  "from_utf8 v =
     (if utf8_valid v then Ok (map (\<lambda>b. char_of (unat b)) v) else Err (OtherFailure [''invalid utf-8'']))"

text \<open>
  The digest in \<open>If-None-Match\<close>: the quotes are to be taken off, by a range that ends two
  before the length.
\<close>

definition etag_bytes :: "bytes \<Rightarrow> (app_error, bytes) res" where
  "etag_bytes v =
     (if v \<noteq> [] \<and> hd v = 34 \<and> last v = 34 then map_err (\<lambda>_. app_error_macro '''') (slice_of 1 (length v - 2) v)
      else with_status_code BAD_REQUEST (map_err AppFailure
        (with_message (\<lambda>_. ''invalid If-None-Match value'')
        (map_err AppFailure (app_error_err (app_error_macro ''parsing If-None-Match value''))))))"

definition etag_text :: "bytes \<Rightarrow> (app_error, string) res" where
  "etag_text v =
     with_status_code BAD_REQUEST (map_err AppFailure
     (with_message (\<lambda>_. ''invalid If-None-Match value'') (map_err AppFailure
     (reason ''parsing If-None-Match value'' (from_utf8 v)))))"

definition etag_hash :: "env \<Rightarrow> bytes \<Rightarrow> (app_error, supported_hash) res" where
  "etag_hash env v =
     (case etag_bytes v of
        Err e \<Rightarrow> Err e
      | Panic \<Rightarrow> Panic
      | Ok v \<Rightarrow>
          (case etag_text v of
             Err e \<Rightarrow> Err e
           | Panic \<Rightarrow> Panic
           | Ok hash \<Rightarrow>
               reason ''test'' (map_err (\<lambda>_. OtherFailure [''invalid hash'']) (supported_from_str (env_codec env) hash))))"

text \<open>A file that the client says it has: the response if the store has it too.\<close>

definition cached_file ::
    "env \<Rightarrow> bytes option \<Rightarrow> pending_build_state \<Rightarrow> store_state \<Rightarrow>
       (app_error, response option) res \<times> pending_build_state \<times> store_state" where
  "cached_file env existing_hash st s =
     (case existing_hash of
        None \<Rightarrow> (Ok None, st, s)
      | Some v \<Rightarrow>
          (case etag_hash env v of
             Err e \<Rightarrow> (Err e, st, s)
           | Panic \<Rightarrow> (Panic, st, s)
           | Ok hash \<Rightarrow>
               (case get_file (env_codec env) hash s of
                  (Ok file, s1) \<Rightarrow>
                    (case insert_lock file st s1 of (st', s') \<Rightarrow>
                       (Ok (Some \<lparr>resp_status = 303,
                          resp_headers = [(''ETag'', quoted (supported_display (env_codec env) hash)),
                            (''Location'', ''/api/1/download/'' @ supported_display (env_codec env) hash)],
                          resp_body = EmptyBody\<rparr>), st', s'))
                | (Err e, s1) \<Rightarrow>
                    if e = NotFound then (Ok None, st, s1)
                    else (reason ''querying the store'' (io_failure env (Err e)), st, s1)
                | (Panic, s1) \<Rightarrow> (Panic, st, s1))))"

text \<open>The body of the request is a list of chunks, or errors of the connection.\<close>

fun upload_body ::
    "env \<Rightarrow> (error_kind, bytes) res list \<Rightarrow> supported_hasher \<Rightarrow> pending_file \<Rightarrow> store_state \<Rightarrow>
       (app_error, supported_hasher) res \<times> pending_file \<times> store_state" where
  "upload_body env [] hash file s = (Ok hash, file, s)"
| "upload_body env (val # body) hash file s =
     (case reason ''reading request'' (io_failure env val) of
        Err e \<Rightarrow> (Err e, file, s)
      | Panic \<Rightarrow> (Panic, file, s)
      | Ok val \<Rightarrow>
          (case pending_write val file s of
             (r, file', s') \<Rightarrow>
               (case reason ''writing to temporary upload file'' (io_failure env r) of
                  Err e \<Rightarrow> (Err e, file', s')
                | Panic \<Rightarrow> (Panic, file', s')
                | Ok _ \<Rightarrow> upload_body env body (supported_update hash val) file' s')))"

definition accept_upload ::
    "env \<Rightarrow> (error_kind, bytes) res list \<Rightarrow> pending_build_state \<Rightarrow> store_state \<Rightarrow>
       (app_error, response) res \<times> pending_build_state \<times> store_state" where
  "accept_upload env body st s =
     (case create_file (env_pid env) (env_suffix env) s of
        (Err e, s1) \<Rightarrow>
          (reason ''creating a temporary file to upload into'' (io_failure env (Err e)), st, s1)
      | (Panic, s1) \<Rightarrow> (Panic, st, s1)
      | (Ok file, s1) \<Rightarrow>
          (case upload_body env body supported_hasher_blake3 file s1 of
             (Err e, file', s2) \<Rightarrow> (Err e, st, pending_drop file' s2)
           | (Panic, file', s2) \<Rightarrow> (Panic, st, pending_drop file' s2)
           | (Ok hasher, file', s2) \<Rightarrow>
               let hash = supported_finalize (env_b3 env) hasher in
               (case pending_complete (env_codec env) (env_landed env) hash file' s2 of
                  (Err e, s3) \<Rightarrow> (reason ''committing the file to the store'' (io_failure env (Err e)), st, s3)
                | (Panic, s3) \<Rightarrow> (Panic, st, s3)
                | (Ok final_lock, s3) \<Rightarrow>
                    (case insert_lock final_lock st s3 of (st', s4) \<Rightarrow>
                       (Ok \<lparr>resp_status = 201,
                          resp_headers = [(''ETag'', quoted (supported_display (env_codec env) hash)),
                            (''Location'', ''/api/1/download/'' @ supported_display (env_codec env) hash),
                            (''X-Nickelpack-Hash'', supported_display (env_codec env) hash)],
                          resp_body = EmptyBody\<rparr>, st', s4)))))"

definition post_file ::
    "env \<Rightarrow> string \<Rightarrow> bytes option \<Rightarrow> (error_kind, bytes) res list \<Rightarrow> frontend \<Rightarrow>
       (app_error, response) res \<times> frontend" where
  "post_file env build_name if_none_match body fe =
     (case ok_or_else_message (\<lambda>_. ''build '' @ build_name @ '' not found'') (pending_builds fe build_name) of
        Err e \<Rightarrow> (Err e, fe)
      | Panic \<Rightarrow> (Panic, fe)
      | Ok build \<Rightarrow>
          (case ok_or_else_message
              (\<lambda>_. ''build '' @ build_name @ '' has already been submitted for build'') (pending_build_lock build) of
             Err e \<Rightarrow> (Err e, fe)
           | Panic \<Rightarrow> (Panic, fe)
           | Ok st \<Rightarrow>
               (case cached_file env if_none_match st (fe_store fe) of
                  (Ok (Some response), st', s') \<Rightarrow>
                    (Ok response, fe\<lparr>pending_builds := (pending_builds fe)(build_name \<mapsto> Some st'), fe_store := s'\<rparr>)
                | (Err e, st', s') \<Rightarrow>
                    (Err e, fe\<lparr>pending_builds := (pending_builds fe)(build_name \<mapsto> Some st'), fe_store := s'\<rparr>)
                | (Panic, st', s') \<Rightarrow>
                    (Panic, fe\<lparr>pending_builds := (pending_builds fe)(build_name \<mapsto> Some st'), fe_store := s'\<rparr>)
                | (Ok None, st', s') \<Rightarrow>
                    (case accept_upload env body st' s' of
                       (r, st'', s'') \<Rightarrow>
                         (r, fe\<lparr>pending_builds := (pending_builds fe)(build_name \<mapsto> Some st''), fe_store := s''\<rparr>)))))"

section \<open>Running a build\<close>

definition run ::
    "env \<Rightarrow> ('spec \<Rightarrow> supported_hash) \<Rightarrow> ('spec \<Rightarrow> (store_state, unit) io) \<Rightarrow> string \<Rightarrow> 'spec \<Rightarrow> frontend \<Rightarrow>
       (app_error, response) res \<times> frontend" where
  "run env spec_hash start build_name spec fe =
     (case ok_or_else_message (\<lambda>_. ''build '' @ build_name @ '' not found'') (pending_builds fe build_name) of
        Err e \<Rightarrow> (Err e, fe)
      | Panic \<Rightarrow> (Panic, fe)
      | Ok build \<Rightarrow>
          let fe' = fe\<lparr>pending_builds := (pending_builds fe)(build_name := None)\<rparr> in
          (case ok_or_else_message (\<lambda>_. ''build '' @ build_name @ '' has already been submitted'')
              (fst (pending_build_take build)) of
             Err e \<Rightarrow> (Err e, fe')
           | Panic \<Rightarrow> (Panic, fe')
           | Ok pending \<Rightarrow>
               let hash = spec_hash spec;
                   text = supported_display (env_codec env) hash;
                   release = (\<lambda>s. fold store_lock_drop (build_locks pending) s)
               in (case start spec (fe_store fe') of
                  (Err e, s) \<Rightarrow> (reason ''starting the build'' (io_failure env (Err e)), fe'\<lparr>fe_store := release s\<rparr>)
                | (Panic, s) \<Rightarrow> (Panic, fe'\<lparr>fe_store := release s\<rparr>)
                | (Ok _, s) \<Rightarrow>
                    (Ok \<lparr>resp_status = 202,
                       resp_headers = [(''Location'', ''/api/1/store/status/'' @ text), (''X-Nickelpack-Hash'', text)],
                       resp_body = EmptyBody\<rparr>, fe'\<lparr>fe_store := release s\<rparr>))))"

text \<open>\<open>create_routes\<close>: no build is pending at first, and a request goes to its handler.\<close>

definition create_routes :: "store_state \<Rightarrow> frontend" where
  "create_routes s = \<lparr>pending_builds = Map.empty, fe_store = s\<rparr>"

datatype 'spec request =
    PostBuild
  | PostFile string "bytes option" "(error_kind, bytes) res list"
  | PostRun string 'spec

fun handle_request ::
    "env \<Rightarrow> ('spec \<Rightarrow> supported_hash) \<Rightarrow> ('spec \<Rightarrow> (store_state, unit) io) \<Rightarrow> 'spec request \<Rightarrow> frontend \<Rightarrow>
       ((app_error, response) res \<times> frontend) option" where
  "handle_request env spec_hash start PostBuild fe = create_build env fe"
| "handle_request env spec_hash start (PostFile name etag body) fe = Some (post_file env name etag body fe)"
| "handle_request env spec_hash start (PostRun name spec) fe = Some (run env spec_hash start name spec fe)"

fun serve_requests ::
    "env \<Rightarrow> ('spec \<Rightarrow> supported_hash) \<Rightarrow> ('spec \<Rightarrow> (store_state, unit) io) \<Rightarrow> 'spec request list \<Rightarrow> frontend \<Rightarrow>
       ((app_error, response) res list \<times> frontend) option" where
  "serve_requests env spec_hash start [] fe = Some ([], fe)"
| "serve_requests env spec_hash start (q # qs) fe =
     (case handle_request env spec_hash start q fe of
        None \<Rightarrow> None
      | Some (r, fe') \<Rightarrow>
          (case serve_requests env spec_hash start qs fe' of
             None \<Rightarrow> None
           | Some (rs, fe'') \<Rightarrow> Some (r # rs, fe'')))"

section \<open>Builds are never pending\<close>

definition not_found :: "(app_error, response) res \<Rightarrow> bool" where
  "not_found r \<longleftrightarrow> (\<exists>e. r = Err e \<and> error_status e = NOT_FOUND)"

fun creates_build :: "'spec request \<Rightarrow> bool" where
  "creates_build PostBuild = True"
| "creates_build _ = False"

lemma post_file_not_pending:
  "pending_builds fe name = None \<Longrightarrow> \<exists>e. post_file env name etag body fe = (Err e, fe) \<and> error_status e = NOT_FOUND"
  by (simp add: post_file_def ok_or_else_message_def Let_def)

lemma run_not_pending:
  "pending_builds fe name = None \<Longrightarrow> \<exists>e. run env h start name spec fe = (Err e, fe) \<and> error_status e = NOT_FOUND"
  by (simp add: run_def ok_or_else_message_def Let_def)

lemma create_build_pending: "create_build env fe = Some (r, fe') \<Longrightarrow> pending_builds fe' = pending_builds fe"
  by (auto simp: create_build_def split: option.splits)

lemma handle_request_none:
  assumes "pending_builds fe = Map.empty" and "handle_request env h start q fe = Some (r, fe')"
  shows "pending_builds fe' = Map.empty \<and> (creates_build q \<or> not_found r)"
proof (cases q)
  case PostBuild
  with assms create_build_pending show ?thesis by fastforce
next
  case (PostFile name etag body)
  with assms post_file_not_pending [of fe name env etag body] show ?thesis by (auto simp: not_found_def)
next
  case (PostRun name spec)
  with assms run_not_pending [of fe name env h start spec] show ?thesis by (auto simp: not_found_def)
qed

text \<open>
  C27: No sequence of requests makes a build pending: \<open>create_build\<close> answers with the address of
  a build that it does not record, and every upload to a build and every run of one is
  answered with status 404.
\<close>

theorem builds_never_found:
  assumes "serve_requests env h start qs (create_routes s) = Some (rs, fe)"
  shows "pending_builds fe = Map.empty \<and> list_all2 (\<lambda>q r. creates_build q \<or> not_found r) qs rs"
proof -
  have "pending_builds fe0 = Map.empty \<Longrightarrow> serve_requests env h start qs fe0 = Some (rs, fe) \<Longrightarrow>
      pending_builds fe = Map.empty \<and> list_all2 (\<lambda>q r. creates_build q \<or> not_found r) qs rs" for fe0
  proof (induction qs arbitrary: rs fe0)
    case (Cons q qs)
    from Cons.prems(2) obtain r fe1 rs' where 1: "handle_request env h start q fe0 = Some (r, fe1)"
      and 2: "serve_requests env h start qs fe1 = Some (rs', fe)" and rs: "rs = r # rs'"
      by (auto split: option.splits)
    from handle_request_none [OF Cons.prems(1) 1] Cons.IH [OF _ 2] rs show ?case by auto
  qed simp
  from this [of "create_routes s"] assms show ?thesis by (simp add: create_routes_def)
qed

definition some_env :: env where
  "some_env = \<lparr>env_codec = rfc4648_codec, env_b3 = \<lambda>_. replicate 32 0, env_pid = 7, env_suffix = \<lambda>_. ''abcdefgh'',
     env_pet = \<lambda>_. ''cat'', env_show = \<lambda>_. ''error'', env_landed = 0\<rparr>"

definition empty_store :: store_state where
  "empty_store = \<lparr>counter = 0, disk = \<lparr>nodes = [[116] \<mapsto> NDir], sys_faults = [], overwrite = True\<rparr>,
     locks = Map.empty, store_path = \<lparr>store_dir = [115], files_dir = [102], temp_dir = [116]\<rparr>\<rparr>"

theorem builds_never_found_witness:
  "\<exists>created refused fe. serve_requests some_env (\<lambda>_ :: unit. Blake3 []) (\<lambda>_ s. (Ok (), s))
      [PostBuild, PostFile ''cat'' None []] (create_routes empty_store) = Some ([created, refused], fe) \<and>
    is_ok created \<and> not_found refused"
proof -
  let ?run = "serve_requests some_env (\<lambda>_ :: unit. Blake3 []) (\<lambda>_ s. (Ok (), s))
      [PostBuild, PostFile ''cat'' None []] (create_routes empty_store)"
  have "\<exists>p s'. create_temporary_entry (\<lambda>_. ''cat'') 0 empty_store = Some (Ok (''cat'', p), s')"
    by (subst create_temporary_entry.simps)
      (simp add: Let_def on_disk_def create_dir_def syscall_def empty_store_def path_join_def bytes_of_def)
  then obtain p s' where entry: "create_temporary_entry (\<lambda>_. ''cat'') 0 empty_store = Some (Ok (''cat'', p), s')" by blast
  let ?fe = "create_routes empty_store\<lparr>fe_store := s'\<rparr>"
  obtain r fe where post: "post_file some_env ''cat'' None [] ?fe = (r, fe)" by fastforce
  let ?created = "Ok \<lparr>resp_status = 201, resp_headers = [(''Location'', ''/api/1/build/cat'')], resp_body = EmptyBody\<rparr>"
  have "create_build some_env (create_routes empty_store) = Some (?created, ?fe)"
    using entry by (simp add: create_build_def create_routes_def reason_def with_reason_def io_failure_def some_env_def)
  with post have run: "?run = Some ([?created, r], fe)" by simp
  from builds_never_found [OF run] have "not_found r" by simp
  with run show ?thesis by (intro exI [of _ ?created] exI [of _ r] exI [of _ fe] conjI) simp_all
qed

section \<open>The digest in a request\<close>

lemma symbols_ascii: "c \<in> set BASE32_symbols \<Longrightarrow> (of_char c :: nat) < 128"
  by (auto simp: BASE32_symbols_def)

lemma utf8_ascii: "\<forall>b \<in> set v. unat b < 128 \<Longrightarrow> utf8_valid v"
  by (induction v) (auto simp: byte_in_def)

lemma unat_of_char: "unat (word_of_nat (of_char c) :: byte) = of_char c"
  by (simp add: unat_of_nat)

lemma from_utf8_bytes_of:
  assumes "\<forall>c \<in> set s. (of_char c :: nat) < 128"
  shows "from_utf8 (bytes_of s) = Ok s"
proof -
  have "utf8_valid (bytes_of s)"
    using assms by (intro utf8_ascii) (auto simp: bytes_of_def unat_of_char)
  moreover have "map (\<lambda>b. char_of (unat b)) (bytes_of s) = s"
    by (simp add: bytes_of_def o_def unat_of_char)
  ultimately show ?thesis by (simp add: from_utf8_def)
qed

text \<open>
  The digest that the frontend sends as the tag of a file, with its quotes, is never
  accepted back: the range that takes the quotes off takes the last character too, and parsing
  what is left panics. A tag that is one or two quotes panics before that.
\<close>

theorem etag_panics:
  assumes "codec_documented (env_codec env)" and "hash_valid h"
  shows "etag_hash env (bytes_of (quoted (supported_display (env_codec env) h))) = Panic \<and>
    etag_hash env [34] = Panic \<and> etag_hash env [34, 34] = Panic"
proof -
  let ?c = "env_codec env"
  obtain bs where h: "h = Blake3 bs" and len: "length bs = 32" using assms(2) by (cases h) (auto simp: hash_valid_def)
  let ?e = "encode_write ?c bs"
  have e: "length ?e = 52" "set ?e \<subseteq> set BASE32_symbols"
    using codec_encode_len [OF assms(1), of bs] codec_symbols [OF assms(1), of bs] len
    by (simp_all add: b32_encode_len_def)
  then have "?e \<noteq> []" by auto
  then obtain e' x where e': "?e = e' @ [x]" by (metis rev_exhaust)
  have shown: "supported_display ?c h = ''blake3-'' @ e' @ [x]" by (simp add: h base32_display_def e')
  have range: "etag_bytes (bytes_of (quoted (supported_display ?c h))) = Ok (bytes_of (''blake3-'' @ e'))"
    by (simp add: shown etag_bytes_def quoted_def bytes_of_def slice_of_def)
  have "\<forall>c \<in> set (''blake3-'' @ e'). (of_char c :: nat) < 128" using e(2) e' symbols_ascii by auto
  from from_utf8_bytes_of [OF this] have utf8: "etag_text (bytes_of (''blake3-'' @ e')) = Ok (''blake3-'' @ e')"
    by (simp add: etag_text_def reason_def with_reason_def with_message_def with_status_code_def)
  have "length e' \<noteq> 52" using e(1) e' by simp
  with from_str_prefixed_Panic [OF assms(1), of e'] have "supported_from_str ?c (''blake3-'' @ e') = Panic"
    by (simp add: PREFIX_BLAKE3_def)
  with range utf8 show ?thesis
    by (simp add: etag_hash_def reason_def with_reason_def etag_bytes_def slice_of_def)
qed

theorem etag_panics_witness:
  "etag_hash some_env (bytes_of (quoted (supported_display rfc4648_codec (Blake3 (replicate 32 0))))) = Panic"
  using etag_panics [of some_env "Blake3 (replicate 32 0)"] rfc4648_documented
  by (simp add: some_env_def hash_valid_def)

section \<open>What an upload stores\<close>

definition upload_path :: "env \<Rightarrow> store_state \<Rightarrow> bytes" where
  "upload_path env s =
     path_join (temp_dir (store_path s)) (temp_name (counter s) (env_pid env) (env_suffix env 1023))"

lemma path_join_name: "name \<noteq> [] \<Longrightarrow> path_join d name \<noteq> []"
  by (simp add: path_join_def)

lemma pending_new_faultless:
  assumes "faultless (disk s)" and "nodes (disk s) (temp_dir (store_path s)) = Some NDir"
    and "nodes (disk s) (upload_path env s) = None"
  shows "\<exists>pf s'. pending_new (env_pid env) (env_suffix env) s = (Ok pf, s') \<and> pending_wf pf \<and>
    pending_temp pf = upload_path env s \<and> in_flight (lock_file (pending_lock pf)) = [] \<and>
    faultless (disk s') \<and> nodes (disk s') = (nodes (disk s))(upload_path env s \<mapsto> NFile []) \<and>
    store_path s' = store_path s"
proof -
  let ?d1 = "rest_faults (disk s)" and ?w = "with_dec s"
  let ?p = "upload_path env s"
  have f1: "faultless ?d1" using assms(1) by (simp add: faultless_rest)
  have 1: "on_disk (create_dir_all (temp_dir (store_path s))) ?w = (Ok (), ?w\<lparr>disk := ?d1\<rparr>)"
    using assms(2) by (simp add: on_disk_def with_dec_def create_dir_all_def syscall_faultless [OF assms(1)])
  let ?w2 = "pending_callback ?p (?w\<lparr>disk := ?d1, counter := counter s + 1\<rparr>)"
  let ?d2 = "rest_faults ?d1\<lparr>nodes := (nodes (disk s))(?p \<mapsto> NFile [])\<rparr>"
  have new: "create_new ?p ?d1 = (Ok (), ?d2)"
    using assms(3) by (simp add: create_new_def syscall_faultless [OF f1])
  have cb: "disk ?w2 = ?d1" "store_path ?w2 = store_path s" "dec_var ?w2 = Some \<lparr>dec_path = Some ?p\<rparr>"
    by (simp_all add: pending_callback_def decrement_lock_new_def Let_def with_dec_def increase_lock_def)
  have "counter (?w\<lparr>disk := ?d1\<rparr>) = counter s" by (simp add: with_dec_def)
  then have 2: "temp_loop create_new pending_callback (env_pid env) (env_suffix env) (temp_dir (store_path s)) 1024
      (?w\<lparr>disk := ?d1\<rparr>) = (Ok ?p, ?w2\<lparr>disk := ?d2\<rparr>)"
    by (simp add: temp_loop_first Let_def upload_path_def [symmetric] on_disk_def cb(1) new)
  have "temp_file_new_with pending_callback (env_pid env) (env_suffix env) (temp_dir (store_path s)) ?w =
      (Ok ?p, ?w2\<lparr>disk := ?d2\<rparr>)"
    by (simp add: temp_file_new_with_def io_then_def io_bind_def 1 MAX_RETRIES_def 2)
  moreover have "?p \<noteq> []" using temp_name_first by (simp add: upload_path_def path_join_name)
  ultimately show ?thesis
    using f1 by (simp add: pending_new_def cb pending_wf_def faultless_rest store_state.defs)
qed

text \<open>
  The chunk whose end is in flight after a body, and what has reached the file by the time of the
  copy: the whole body but for the bytes of the last write that are not carried out
  (\<open>env_landed\<close> are).
\<close>

definition last_chunk :: "bytes list \<Rightarrow> bytes" where
  "last_chunk chunks = (case rev (filter (\<lambda>c. c \<noteq> []) chunks) of [] \<Rightarrow> [] | c # _ \<Rightarrow> c)"

definition body_in_flight :: "bytes list \<Rightarrow> bytes" where
  "body_in_flight chunks = last_write (last_chunk chunks)"

definition arrived :: "env \<Rightarrow> bytes list \<Rightarrow> bytes" where
  "arrived env chunks =
     take (length (concat chunks) - (length (body_in_flight chunks) - env_landed env)) (concat chunks)"

lemma last_chunk_simps [simp]:
  "last_chunk [] = []" "last_chunk ([] # chunks) = last_chunk chunks"
  "c \<noteq> [] \<Longrightarrow> last_chunk (c # chunks) = (if last_chunk chunks = [] then c else last_chunk chunks)"
proof -
  show "c \<noteq> [] \<Longrightarrow> last_chunk (c # chunks) = (if last_chunk chunks = [] then c else last_chunk chunks)"
  proof (cases "rev (filter (\<lambda>c. c \<noteq> []) chunks)")
    case (Cons x xs)
    then have "x \<in> set (rev (filter (\<lambda>c. c \<noteq> []) chunks))" by simp
    then have "x \<noteq> []" by simp
    moreover assume "c \<noteq> []"
    ultimately show ?thesis using Cons by (simp add: last_chunk_def)
  qed (simp add: last_chunk_def)
qed (simp_all add: last_chunk_def)

lemma body_in_flight_none [simp]:
  "(if last_chunk chunks = [] then [] else body_in_flight chunks) = body_in_flight chunks"
  by (simp add: body_in_flight_def)

lemma arrived_split:
  assumes "w @ body_in_flight chunks = concat chunks"
  shows "w @ take (env_landed env) (body_in_flight chunks) = arrived env chunks"
  unfolding arrived_def assms [symmetric] by (cases "length (body_in_flight chunks) \<le> env_landed env") auto

lemma arrived_whole:
  assumes "w @ body_in_flight chunks = concat chunks"
  shows "arrived env chunks = concat chunks \<longleftrightarrow> length (body_in_flight chunks) \<le> env_landed env"
  unfolding arrived_split [OF assms, symmetric] assms [symmetric] by auto

lemma pending_write_faultless:
  assumes "faultless (disk s)" and "pending_wf pf" and "nodes (disk s) (pending_temp pf) = Some (NFile w)" and "bs \<noteq> []"
  shows "\<exists>pf' d w'. pending_write bs pf s = (Ok (), pf', s\<lparr>disk := d\<rparr>) \<and> pending_wf pf' \<and> pending_temp pf' = pending_temp pf \<and>
    faultless d \<and> nodes d = (nodes (disk s))(pending_temp pf \<mapsto> NFile w') \<and>
    w' @ in_flight (lock_file (pending_lock pf')) = w @ in_flight (lock_file (pending_lock pf)) @ bs \<and>
    in_flight (lock_file (pending_lock pf')) = last_write bs"
proof -
  let ?f = "lock_file (pending_lock pf)"
  have "nodes (disk s) (handle_path ?f) = Some (NFile w)" using assms(2,3) by (simp add: pending_wf_def)
  from file_write_all_faultless [OF assms(1) this assms(4)] obtain f' d w' where
    "file_write_all bs ?f s = (Ok (), f', s\<lparr>disk := d\<rparr>)" "handle_path f' = handle_path ?f" "faultless d"
    "nodes d = (nodes (disk s))(handle_path ?f \<mapsto> NFile w')" "w' @ in_flight f' = w @ in_flight ?f @ bs"
    "in_flight f' = last_write bs" by blast
  with assms(2) show ?thesis
    by (intro exI [of _ "pf\<lparr>pending_lock := (pending_lock pf)\<lparr>lock_file := f'\<rparr>\<rparr>"] exI [of _ d] exI [of _ w'])
      (simp add: pending_write_def pending_wf_def)
qed

lemma upload_body_faultless:
  assumes "faultless (disk s)" and "pending_wf pf" and "nodes (disk s) (pending_temp pf) = Some (NFile w)"
  shows "\<exists>pf' s' w'. upload_body env (map Ok chunks) hasher pf s = (Ok (fold (\<lambda>c h. supported_update h c) chunks hasher), pf', s') \<and>
    pending_wf pf' \<and> pending_temp pf' = pending_temp pf \<and> faultless (disk s') \<and> store_path s' = store_path s \<and>
    nodes (disk s') = (nodes (disk s))(pending_temp pf \<mapsto> NFile w') \<and>
    w' @ in_flight (lock_file (pending_lock pf')) = w @ in_flight (lock_file (pending_lock pf)) @ concat chunks \<and>
    in_flight (lock_file (pending_lock pf')) =
      (if last_chunk chunks = [] then in_flight (lock_file (pending_lock pf)) else body_in_flight chunks)"
  using assms
proof (induction chunks arbitrary: s pf w hasher)
  case Nil
  then show ?case by (intro exI [of _ pf] exI [of _ s] exI [of _ w]) auto
next
  case (Cons c chunks)
  let ?h = "supported_update hasher c" and ?in = "in_flight (lock_file (pending_lock pf))"
  have step: "upload_body env (map Ok (c # chunks)) hasher pf s = upload_body env (map Ok chunks) ?h pf1 s1"
    if "pending_write c pf s = (Ok (), pf1, s1)" for pf1 s1
    using that by (simp add: reason_def with_reason_def io_failure_def)
  show ?case
  proof (cases "c = []")
    case True
    then have "pending_write c pf s = (Ok (), pf, s)" by (simp add: pending_write_def)
    from step [OF this] Cons.IH [OF Cons.prems, of ?h] True show ?thesis by (auto simp: body_in_flight_def)
  next
    case False
    from pending_write_faultless [OF Cons.prems False] obtain pf1 d w1 where
      run: "pending_write c pf s = (Ok (), pf1, s\<lparr>disk := d\<rparr>)" and wf: "pending_wf pf1" "pending_temp pf1 = pending_temp pf"
      and d: "faultless d" "nodes d = (nodes (disk s))(pending_temp pf \<mapsto> NFile w1)"
        "w1 @ in_flight (lock_file (pending_lock pf1)) = w @ ?in @ c" "in_flight (lock_file (pending_lock pf1)) = last_write c"
      by blast
    from d(1,2) have "faultless (disk (s\<lparr>disk := d\<rparr>))"
      "nodes (disk (s\<lparr>disk := d\<rparr>)) (pending_temp pf1) = Some (NFile w1)" by (simp_all add: wf(2))
    from Cons.IH [OF this(1) wf(1) this(2), of ?h] obtain pf' s' w' where
      ih: "upload_body env (map Ok chunks) ?h pf1 (s\<lparr>disk := d\<rparr>) =
          (Ok (fold (\<lambda>c h. supported_update h c) chunks ?h), pf', s')"
        "pending_wf pf'" "pending_temp pf' = pending_temp pf1" "faultless (disk s')"
        "store_path s' = store_path (s\<lparr>disk := d\<rparr>)"
        "nodes (disk s') = (nodes (disk (s\<lparr>disk := d\<rparr>)))(pending_temp pf1 \<mapsto> NFile w')"
        "w' @ in_flight (lock_file (pending_lock pf')) = w1 @ in_flight (lock_file (pending_lock pf1)) @ concat chunks"
        "in_flight (lock_file (pending_lock pf')) =
          (if last_chunk chunks = [] then in_flight (lock_file (pending_lock pf1)) else body_in_flight chunks)" by blast
    have "w' @ in_flight (lock_file (pending_lock pf')) = w @ ?in @ concat (c # chunks)"
      using ih(7) arg_cong [OF d(3), of "\<lambda>x. x @ concat chunks"] by simp
    moreover have "in_flight (lock_file (pending_lock pf')) = body_in_flight (c # chunks)"
      using ih(8) d(4) False by (simp add: body_in_flight_def)
    ultimately show ?thesis
      using step [OF run] ih(1-6) d(2) wf(2) False
      by (intro exI [of _ pf'] exI [of _ s'] exI [of _ w']) simp
  qed
qed

lemma fold_update: "fold (\<lambda>c h. supported_update h c) chunks (HBlake3 bs) = HBlake3 (bs @ concat chunks)"
  by (induction chunks arbitrary: bs) auto

lemma post_file_faultless:
  assumes "pending_builds fe name = Some (Some st)" and "faultless (disk (fe_store fe))"
    and "nodes (disk (fe_store fe)) (temp_dir (store_path (fe_store fe))) = Some NDir"
    and "nodes (disk (fe_store fe)) (upload_path env (fe_store fe)) = None"
    and "h = Blake3 (env_b3 env (concat chunks))" and "target = hash_path (env_codec env) h (fe_store fe)"
    and "target \<noteq> upload_path env (fe_store fe)" and "nodes (disk (fe_store fe)) target \<noteq> Some NDir"
    and "\<forall>t. nodes (disk (fe_store fe)) target \<noteq> Some (NLink t)"
  shows "\<exists>r fe'. post_file env name None (map Ok chunks) fe = (Ok r, fe') \<and> resp_status r = 201 \<and>
    (''ETag'', quoted (supported_display (env_codec env) h)) \<in> set (resp_headers r) \<and>
    nodes (disk (fe_store fe')) = (nodes (disk (fe_store fe)))(target \<mapsto> NFile (arrived env chunks)) \<and>
    (arrived env chunks = concat chunks \<longleftrightarrow> length (body_in_flight chunks) \<le> env_landed env) \<and>
    hd (resp_headers r) = (''ETag'', quoted (supported_display (env_codec env) h)) \<and>
    faultless (disk (fe_store fe')) \<and> store_path (fe_store fe') = store_path (fe_store fe) \<and>
    (\<exists>st'. pending_builds fe' name = Some (Some st'))"
proof -
  let ?s = "fe_store fe" and ?p = "upload_path env (fe_store fe)" and ?c = "env_codec env"
  from pending_new_faultless [OF assms(2-4)] obtain pf s1 where
    1: "pending_new (env_pid env) (env_suffix env) ?s = (Ok pf, s1)" "pending_wf pf" "pending_temp pf = ?p"
      "in_flight (lock_file (pending_lock pf)) = []" "faultless (disk s1)"
      "nodes (disk s1) = (nodes (disk ?s))(?p \<mapsto> NFile [])" "store_path s1 = store_path ?s" by blast
  then have "nodes (disk s1) (pending_temp pf) = Some (NFile [])" by simp
  from upload_body_faultless [OF 1(5,2) this, of env chunks supported_hasher_blake3, unfolded 1(4) body_in_flight_none] 1(3)
  obtain pf' s2 w where
    2: "upload_body env (map Ok chunks) supported_hasher_blake3 pf s1 =
        (Ok (fold (\<lambda>c h. supported_update h c) chunks supported_hasher_blake3), pf', s2)"
      "pending_wf pf'" "pending_temp pf' = ?p" "faultless (disk s2)" "store_path s2 = store_path s1"
      "nodes (disk s2) = (nodes (disk s1))(?p \<mapsto> NFile w)"
      "w @ in_flight (lock_file (pending_lock pf')) = concat chunks"
      "in_flight (lock_file (pending_lock pf')) = body_in_flight chunks" by auto
  have w: "w @ body_in_flight chunks = concat chunks" using 2(7,8) by simp
  have hash: "supported_finalize (env_b3 env) (fold (\<lambda>c h. supported_update h c) chunks supported_hasher_blake3) = h"
    by (simp add: supported_hasher_blake3_def fold_update assms(5))
  have target: "hash_path ?c h s2 = target" using 1(7) 2(5) assms(6) by (simp add: hash_path_def)
  have "nodes (disk s2) (pending_temp pf') = Some (NFile w)" using 2(3,6) by simp
  moreover have "pending_temp pf' \<noteq> hash_path ?c h s2" "nodes (disk s2) (hash_path ?c h s2) \<noteq> Some NDir"
    "\<forall>t. nodes (disk s2) (hash_path ?c h s2) \<noteq> Some (NLink t)"
    using 1(6) 2(3,6) target assms(7-9) by auto
  ultimately obtain l s3 where 3: "pending_complete ?c (env_landed env) h pf' s2 = (Ok l, s3)"
    "nodes (disk s3) = (nodes (disk s2))(?p := None, target \<mapsto>
       NFile (arrived env chunks))"
    "faultless (disk s3)" "store_path s3 = store_path s2"
    using store_complete [OF 2(4,2), of w ?c h "env_landed env"] 2(3,8) target arrived_split [OF w, of env] by auto
  obtain st' s4 where 4: "insert_lock l st s3 = (st', s4)" by fastforce
  then have d4: "disk s4 = disk s3" "store_path s4 = store_path s3"
    by (auto simp: insert_lock_def store_lock_drop_def store_path_drop split: if_splits)
  have "(nodes (disk s2))(?p := None) = nodes (disk ?s)" using 1(6) 2(6) assms(4) by auto
  with 3(2) have "nodes (disk s3) = (nodes (disk ?s))(target \<mapsto> NFile (arrived env chunks))" by simp
  with arrived_whole [OF w, of env] d4 1(1,7) 2(1,5) 3(1,3,4) 4 hash assms(1) show ?thesis
    by (simp add: post_file_def ok_or_else_message_def pending_build_lock_def cached_file_def accept_upload_def
        create_file_def Let_def)
qed

text \<open>
  C26: When no system call fails, an upload without an \<open>If-None-Match\<close> header to a
  pending build, to a store whose directory for temporary files exists, where the name made for
  the upload is free and what is at the final path is a file or nothing, is answered with status
  201, and the tag and the path in the store are the digest of the whole body. What is stored
  there is the body without the bytes of its last write (the end of its last chunk) that have
  not been carried out by the time of the copy: it is the whole body exactly if all of them have
  been.
\<close>

theorem post_file_stores:
  assumes "pending_builds fe name = Some (Some st)" and "faultless (disk (fe_store fe))"
    and "nodes (disk (fe_store fe)) (temp_dir (store_path (fe_store fe))) = Some NDir"
    and "nodes (disk (fe_store fe)) (upload_path env (fe_store fe)) = None"
    and "h = Blake3 (env_b3 env (concat chunks))" and "target = hash_path (env_codec env) h (fe_store fe)"
    and "target \<noteq> upload_path env (fe_store fe)" and "nodes (disk (fe_store fe)) target \<noteq> Some NDir"
    and "\<forall>t. nodes (disk (fe_store fe)) target \<noteq> Some (NLink t)"
  shows "\<exists>r fe'. post_file env name None (map Ok chunks) fe = (Ok r, fe') \<and> resp_status r = 201 \<and>
    (''ETag'', quoted (supported_display (env_codec env) h)) \<in> set (resp_headers r) \<and>
    nodes (disk (fe_store fe')) = (nodes (disk (fe_store fe)))(target \<mapsto> NFile (arrived env chunks)) \<and>
    (arrived env chunks = concat chunks \<longleftrightarrow> length (body_in_flight chunks) \<le> env_landed env)"
proof -
  from post_file_faultless [OF assms] show ?thesis by blast
qed

definition one_pending :: frontend where
  "one_pending = \<lparr>pending_builds = [''b'' \<mapsto> Some \<lparr>build_locks = []\<rparr>], fe_store = empty_store\<rparr>"

lemma empty_store_paths:
  "\<exists>x. hash_path c h empty_store = 102 # 47 # x" "\<exists>y. upload_path env empty_store = 116 # 47 # y"
proof -
  show "\<exists>x. hash_path c h empty_store = 102 # 47 # x"
    by (cases h) (simp add: hash_path_def empty_store_def path_join_def bytes_of_def)
  show "\<exists>y. upload_path env empty_store = 116 # 47 # y"
    using temp_name_first [of 0 "env_pid env" "env_suffix env 1023"]
    by (simp add: upload_path_def empty_store_def path_join_def)
qed

theorem post_file_stores_witness:
  "\<exists>r fe'. post_file some_env ''b'' None (map Ok [[1], [2]]) one_pending = (Ok r, fe') \<and> resp_status r = 201 \<and>
    nodes (disk (fe_store fe')) (hash_path rfc4648_codec (Blake3 (replicate 32 0)) empty_store) = Some (NFile [1])"
proof -
  let ?h = "Blake3 (env_b3 some_env (concat [[1], [2]]))"
  have h: "?h = Blake3 (replicate 32 0)" and c: "env_codec some_env = rfc4648_codec" by (simp_all add: some_env_def)
  obtain x y where paths: "hash_path (env_codec some_env) ?h empty_store = 102 # 47 # x"
    "upload_path some_env empty_store = 116 # 47 # y"
    using empty_store_paths by metis
  have "\<exists>r fe'. post_file some_env ''b'' None (map Ok [[1], [2]]) one_pending = (Ok r, fe') \<and> resp_status r = 201 \<and>
    (''ETag'', quoted (supported_display (env_codec some_env) ?h)) \<in> set (resp_headers r) \<and>
    nodes (disk (fe_store fe')) = (nodes (disk (fe_store one_pending)))(hash_path (env_codec some_env) ?h empty_store \<mapsto> NFile (arrived some_env [[1], [2]])) \<and>
    (arrived some_env [[1], [2]] = concat [[1], [2]] \<longleftrightarrow> length (body_in_flight [[1], [2]]) \<le> env_landed some_env)"
    by (rule post_file_stores [where st = "\<lparr>build_locks = []\<rparr>"])
      (use paths in \<open>simp_all add: one_pending_def faultless_def empty_store_def\<close>)
  moreover have "arrived some_env [[1], [2]] = [1]"
    by (simp add: arrived_def body_in_flight_def last_write_def some_env_def)
  ultimately show ?thesis using h c by auto
qed

end
