(* ===== verification/Store_Refines.thy ===== *)
theory Store_Refines
  imports Frontend_Build
begin

text \<open>
  What the store is for: a map from digests to contents. Clients upload through the handler of
  \<open>frontend/build.rs\<close> and fetch from the store of \<open>store.rs\<close>; when no system call fails, they see a
  map, whatever temporary files, locks and paths lie behind it.
\<close>

section \<open>Simulation\<close>

text \<open>
  Each step of the code gives the reply that the specification gives on the abstraction of its
  state, and leaves a state with the new abstraction.
\<close>

locale simulation =
  fixes step :: "'r \<Rightarrow> 's \<Rightarrow> 'a \<times> 's" and spec :: "'r \<Rightarrow> 'm \<Rightarrow> 'a \<times> 'm" and abs :: "'s \<Rightarrow> 'm"
    and inv :: "'s \<Rightarrow> bool" and allowed :: "'r \<Rightarrow> bool"
  assumes simulates: "inv s \<Longrightarrow> allowed r \<Longrightarrow> step r s = (a, s') \<Longrightarrow> inv s' \<and> spec r (abs s) = (a, abs s')"

fun run_all :: "('r \<Rightarrow> 's \<Rightarrow> 'a \<times> 's) \<Rightarrow> 'r list \<Rightarrow> 's \<Rightarrow> 'a list \<times> 's" where
  "run_all step [] s = ([], s)"
| "run_all step (r # rs) s = (case step r s of (a, s') \<Rightarrow> case run_all step rs s' of (as, s'') \<Rightarrow> (a # as, s''))"

context simulation
begin

lemma runs: "inv s \<Longrightarrow> \<forall>r \<in> set rs. allowed r \<Longrightarrow> run_all step rs s = (as, s') \<Longrightarrow>
    inv s' \<and> run_all spec rs (abs s) = (as, abs s')"
proof (induction rs arbitrary: s as)
  case (Cons r rs)
  obtain a s1 where step: "step r s = (a, s1)" by fastforce
  obtain as' where rest: "run_all step rs s1 = (as', s')" "as = a # as'"
    using Cons.prems(3) step by (auto split: prod.splits)
  from simulates [OF Cons.prems(1) _ step] Cons.prems(2) have s1: "inv s1" "spec r (abs s) = (a, abs s1)" by auto
  from Cons.IH [OF s1(1) _ rest(1)] Cons.prems(2) s1(2) rest(2) show ?case by simp
qed simp

end

section \<open>Requests\<close>

datatype store_request = Upload "bytes list" | Fetch supported_hash

datatype store_reply = Stored string | Refused | Fetched "bytes option"

text \<open>Fetching: the file is opened, read, and its lock dropped.\<close>

definition fetch :: "b32_codec \<Rightarrow> supported_hash \<Rightarrow> frontend \<Rightarrow> store_reply \<times> frontend" where
  "fetch c h fe =
     (case get_file c h (fe_store fe) of
        (Ok l, s) \<Rightarrow>
          (Fetched (case nodes (disk s) (handle_path (lock_file l)) of Some (NFile b) \<Rightarrow> Some b | _ \<Rightarrow> None),
           fe\<lparr>fe_store := store_lock_drop l s\<rparr>)
      | (Err e, s) \<Rightarrow> (Fetched None, fe\<lparr>fe_store := s\<rparr>)
      | (Panic, s) \<Rightarrow> (Refused, fe\<lparr>fe_store := s\<rparr>))"

fun answer_request :: "env \<Rightarrow> string \<Rightarrow> store_request \<Rightarrow> frontend \<Rightarrow> store_reply \<times> frontend" where
  "answer_request env name (Upload chunks) fe =
     (case post_file env name None (map Ok chunks) fe of
        (Ok r, fe') \<Rightarrow> (Stored (snd (hd (resp_headers r))), fe')
      | (_, fe') \<Rightarrow> (Refused, fe'))"
| "answer_request env name (Fetch h) fe = fetch (env_codec env) h fe"

section \<open>The specification\<close>

type_synonym content_map = "supported_hash \<Rightarrow> bytes option"

text \<open>
  A map takes what has arrived of an upload (\<open>arrived\<close>); a request is \<open>whole\<close> if that is all of it.
\<close>

fun whole :: "env \<Rightarrow> store_request \<Rightarrow> bool" where
  "whole env (Upload chunks) \<longleftrightarrow> arrived env chunks = concat chunks"
| "whole env (Fetch h) \<longleftrightarrow> True"

fun spec_request :: "env \<Rightarrow> store_request \<Rightarrow> content_map \<Rightarrow> store_reply \<times> content_map" where
  "spec_request env (Upload chunks) m =
     (let h = Blake3 (env_b3 env (concat chunks)) in
      (Stored (quoted (supported_display (env_codec env) h)), m(h \<mapsto> arrived env chunks)))"
| "spec_request env (Fetch h) m = (Fetched (m h), m)"

definition store_map :: "env \<Rightarrow> frontend \<Rightarrow> content_map" where
  "store_map env fe h =
     (if hash_valid h then
        case nodes (disk (fe_store fe)) (hash_path (env_codec env) h (fe_store fe)) of
          Some (NFile b) \<Rightarrow> Some b
        | _ \<Rightarrow> None
      else None)"

text \<open>Between requests no system call fails, and there are no temporary files.\<close>

definition store_ready :: "env \<Rightarrow> string \<Rightarrow> frontend \<Rightarrow> bool" where
  "store_ready env name fe \<longleftrightarrow>
     (let s = fe_store fe; ns = nodes (disk s) in
      faultless (disk s) \<and>
      (\<exists>d. files_dir (store_path s) = path_join d (bytes_of ''files'') \<and> temp_dir (store_path s) = path_join d (bytes_of ''temp'')) \<and>
      ns (temp_dir (store_path s)) = Some NDir \<and> (\<forall>q. below (temp_dir (store_path s)) q \<longrightarrow> ns q = None) \<and>
      (\<forall>h. ns (hash_path (env_codec env) h s) \<noteq> Some NDir \<and> (\<forall>t. ns (hash_path (env_codec env) h s) \<noteq> Some (NLink t))) \<and>
      (\<exists>st. pending_builds fe name = Some (Some st)))"

section \<open>Paths\<close>

definition with_slash :: "bytes \<Rightarrow> bytes" where
  "with_slash d = (if d = [] \<or> last d = 47 then d else d @ [47])"

lemma path_join_slash: "name \<noteq> [] \<Longrightarrow> hd name \<noteq> 47 \<Longrightarrow> path_join d name = with_slash d @ name"
  by (cases name) (auto simp: path_join_def with_slash_def)

lemma display_first: "bytes_of (supported_display c h) \<noteq> []" "hd (bytes_of (supported_display c h)) = 98"
  by (cases h; simp add: bytes_of_def)+

lemma hash_path_inj:
  assumes "codec_documented c" and "hash_valid h" and "hash_valid h'"
  shows "hash_path c h s = hash_path c h' s \<longleftrightarrow> h = h'"
proof
  assume "hash_path c h s = hash_path c h' s"
  then have "bytes_of (supported_display c h) = bytes_of (supported_display c h')"
    using display_first [of c] by (simp add: hash_path_def path_join_slash)
  then have eq: "supported_display c h = supported_display c h'" by (simp only: bytes_of_inject)
  have "Ok h = (supported_from_str c (supported_display c h') :: (_, supported_hash) res)"
    using display_from_str [OF assms(1,2)] unfolding eq by (rule sym)
  also have "\<dots> = Ok h'" by (rule display_from_str [OF assms(1,3)])
  finally show "h = h'" by (rule res.inject(1) [THEN iffD1])
qed simp

lemma ready_paths:
  assumes "files_dir (store_path s) = path_join d (bytes_of ''files'')" and "temp_dir (store_path s) = path_join d (bytes_of ''temp'')"
  shows "hash_path c h s \<noteq> temp_dir (store_path s)" and "\<not> below (temp_dir (store_path s)) (hash_path c h s)"
    and "below (temp_dir (store_path s)) (upload_path env s)" and "hash_path c h s \<noteq> upload_path env s"
proof -
  let ?d = "with_slash d"
  have t: "temp_dir (store_path s) = ?d @ bytes_of ''temp''" and f: "files_dir (store_path s) = ?d @ bytes_of ''files''"
    using assms by (simp_all add: path_join_slash bytes_of_def)
  have h: "hash_path c h s = ?d @ bytes_of ''files'' @ [47] @ bytes_of (supported_display c h)"
    using display_first [of c h] by (simp add: hash_path_def path_join_slash f with_slash_def [of "_ @ _"] bytes_of_def [of "''files''"])
  show "hash_path c h s \<noteq> temp_dir (store_path s)" by (simp add: h t bytes_of_def)
  show no: "\<not> below (temp_dir (store_path s)) (hash_path c h s)"
    by (simp add: h t below_def bytes_of_def)
  show up: "below (temp_dir (store_path s)) (upload_path env s)"
    using temp_name_first [of "counter s" "env_pid env" "env_suffix env 1023"]
    by (simp add: upload_path_def below_def path_join_slash hd_conv_nth t with_slash_def [of "_ @ _"] bytes_of_def [of "''temp''"])
  show "hash_path c h s \<noteq> upload_path env s" using no up by metis
qed

section \<open>The code simulates the specification\<close>

lemma faultless_lock: "faultless (disk (store_lock_drop l s)) = faultless (disk s)"
  by (simp add: store_lock_drop_def)

lemma fetch_simulates:
  assumes "store_ready env name fe" and "hash_valid h" and "fetch (env_codec env) h fe = (a, fe')"
  shows "store_ready env name fe' \<and> a = Fetched (store_map env fe h) \<and> store_map env fe' = store_map env fe"
proof -
  let ?s = "fe_store fe" and ?p = "hash_path (env_codec env) h (fe_store fe)"
  from assms(1) have d: "faultless (disk ?s)" "nodes (disk ?s) ?p \<noteq> Some NDir" "\<forall>t. nodes (disk ?s) ?p \<noteq> Some (NLink t)"
    by (simp_all add: store_ready_def Let_def)
  obtain x where x: "on_disk (open_read ?p) (increase_lock ?p ?s) = (x, (increase_lock ?p ?s)\<lparr>disk := rest_faults (disk ?s)\<rparr>)"
    and ok: "x = (if nodes (disk ?s) ?p = None then Err NotFound else Ok ?p)"
    using open_read_faultless [OF d(1,3)] by (simp add: on_disk_def)
  obtain s' where fe': "fe' = fe\<lparr>fe_store := s'\<rparr>" "disk s' = rest_faults (disk ?s)" "store_path s' = store_path ?s"
    and a: "a = Fetched (case nodes (disk ?s) ?p of Some (NFile b) \<Rightarrow> Some b | _ \<Rightarrow> None)"
    using assms(3) x ok
    by (auto simp: fetch_def get_file_def decrement_lock_new_def Let_def store_lock_drop_def store_path_drop split: if_splits)
  have path: "hash_path c k s' = hash_path c k ?s" for c k using fe'(3) by (simp add: hash_path_def)
  have "store_ready env name fe'"
    using assms(1) fe' faultless_rest by (auto simp: store_ready_def Let_def path)
  moreover have "store_map env fe' = store_map env fe" using fe' by (simp add: store_map_def path fun_eq_iff)
  ultimately show ?thesis using a assms(2) by (simp add: store_map_def)
qed

lemma upload_simulates:
  assumes "codec_documented (env_codec env)" and "blake3_documented (env_b3 env)" and "store_ready env name fe"
    and "answer_request env name (Upload chunks) fe = (a, fe')"
  defines "h \<equiv> Blake3 (env_b3 env (concat chunks))"
  shows "store_ready env name fe' \<and> a = Stored (quoted (supported_display (env_codec env) h)) \<and>
    store_map env fe' = (store_map env fe)(h \<mapsto> arrived env chunks)"
proof -
  let ?s = "fe_store fe" and ?c = "env_codec env" and ?p = "hash_path (env_codec env) h (fe_store fe)"
  from assms(3) obtain d st where ready: "faultless (disk ?s)" "nodes (disk ?s) (temp_dir (store_path ?s)) = Some NDir"
    "\<forall>q. below (temp_dir (store_path ?s)) q \<longrightarrow> nodes (disk ?s) q = None"
    "\<And>k. nodes (disk ?s) (hash_path ?c k ?s) \<noteq> Some NDir" "\<And>k t. nodes (disk ?s) (hash_path ?c k ?s) \<noteq> Some (NLink t)"
    "pending_builds fe name = Some (Some st)"
    and dirs: "files_dir (store_path ?s) = path_join d (bytes_of ''files'')" "temp_dir (store_path ?s) = path_join d (bytes_of ''temp'')"
    by (auto simp: store_ready_def Let_def)
  note paths = ready_paths [OF dirs]
  have valid: "hash_valid h" using assms(2) by (simp add: h_def hash_valid_def blake3_documented_def)
  have free: "nodes (disk ?s) (upload_path env ?s) = None" using ready(3) paths(3) by blast
  from post_file_faultless [OF ready(6,1,2) free h_def [THEN meta_eq_to_obj_eq] refl paths(4) ready(4)] ready(5) obtain r fe2 where
    post: "post_file env name None (map Ok chunks) fe = (Ok r, fe2)" "hd (resp_headers r) = (''ETag'', quoted (supported_display ?c h))"
    and n: "nodes (disk (fe_store fe2)) = (nodes (disk ?s))(?p \<mapsto> NFile (arrived env chunks))"
    and keep: "faultless (disk (fe_store fe2))" "store_path (fe_store fe2) = store_path ?s" "\<exists>st'. pending_builds fe2 name = Some (Some st')"
    by blast
  with assms(4) have a: "a = Stored (quoted (supported_display ?c h))" and fe': "fe' = fe2" by simp_all
  have path: "hash_path c k (fe_store fe2) = hash_path c k ?s" for c k using keep(2) by (simp add: hash_path_def)
  have "store_ready env name fe2"
    unfolding store_ready_def Let_def
    using keep dirs n ready(2-5) paths(1,2) [of ?c h] by (auto simp: path)
  moreover have "store_map env fe2 = (store_map env fe)(h \<mapsto> arrived env chunks)"
    using n valid hash_path_inj [OF assms(1), of _ h ?s] by (auto simp: store_map_def path fun_eq_iff)
  ultimately show ?thesis using a fe' by simp
qed

text \<open>The hash of a request is a value of its type.\<close>

fun well_typed :: "store_request \<Rightarrow> bool" where
  "well_typed (Upload chunks) \<longleftrightarrow> True"
| "well_typed (Fetch h) \<longleftrightarrow> hash_valid h"

definition documented :: "env \<Rightarrow> bool" where
  "documented env \<longleftrightarrow> codec_documented (env_codec env) \<and> blake3_documented (env_b3 env)"

interpretation content_store: simulation "answer_request env name" "spec_request env" "store_map env"
  "\<lambda>fe. documented env \<and> store_ready env name fe" well_typed for env name
proof
  fix fe r a fe'
  assume "documented env \<and> store_ready env name fe" "well_typed r" "answer_request env name r fe = (a, fe')"
  then show "(documented env \<and> store_ready env name fe') \<and> spec_request env r (store_map env fe) = (a, store_map env fe')"
    using upload_simulates [of env name fe _ a fe'] fetch_simulates [of env name fe _ a fe']
    by (cases r) (auto simp: documented_def Let_def)
qed

lemma spec_integrity:
  assumes "\<forall>r \<in> set rs. whole env r" and "run_all (spec_request env) rs m = (as, m')"
    and "\<forall>h b. m h = Some b \<longrightarrow> h = Blake3 (env_b3 env b)"
  shows "\<forall>h b. m' h = Some b \<longrightarrow> h = Blake3 (env_b3 env b)"
  using assms
proof (induction rs arbitrary: m as)
  case (Cons r rs)
  obtain a m1 where step: "spec_request env r m = (a, m1)" by fastforce
  then have "\<forall>h b. m1 h = Some b \<longrightarrow> h = Blake3 (env_b3 env b)"
    using Cons.prems(1,3) by (cases r) (auto simp: Let_def split: if_splits)
  with Cons.IH [of m1] Cons.prems(1,2) step show ?case by (auto split: prod.splits)
qed simp

text \<open>
  C6: When no system call fails, uploads through the handler of a pending build and fetches from
  the store, in any order, are the operations of a map from digests to contents: the same
  replies, and the same map at the end, with no temporary file left. If the whole of each upload
  has reached its file by the time it is copied, every content in the store has the digest it is stored
  under.
\<close>

theorem store_refines_map:
  assumes "documented env" and "store_ready env name fe" and "\<forall>r \<in> set rs. well_typed r"
    and "run_all (answer_request env name) rs fe = (as, fe')"
  shows "run_all (spec_request env) rs (store_map env fe) = (as, store_map env fe') \<and> store_ready env name fe' \<and>
    ((\<forall>r \<in> set rs. whole env r) \<longrightarrow> (\<forall>h b. store_map env fe h = Some b \<longrightarrow> h = Blake3 (env_b3 env b)) \<longrightarrow>
      (\<forall>h b. store_map env fe' h = Some b \<longrightarrow> h = Blake3 (env_b3 env b)))"
proof -
  from content_store.runs [OF _ assms(3,4)] assms(1,2)
  have run: "run_all (spec_request env) rs (store_map env fe) = (as, store_map env fe')" "store_ready env name fe'" by blast+
  with spec_integrity [OF _ run(1)] show ?thesis by blast
qed

definition landed_env :: env where
  "landed_env = some_env\<lparr>env_landed := 1\<rparr>"

definition ready_frontend :: frontend where
  "ready_frontend = \<lparr>pending_builds = [''b'' \<mapsto> Some \<lparr>build_locks = []\<rparr>],
     fe_store = \<lparr>counter = 0, disk = \<lparr>nodes = [path_join [115] (bytes_of ''temp'') \<mapsto> NDir], sys_faults = [], overwrite = True\<rparr>,
       locks = Map.empty, store_path = \<lparr>store_dir = [115], files_dir = path_join [115] (bytes_of ''files''),
         temp_dir = path_join [115] (bytes_of ''temp'')\<rparr>\<rparr>\<rparr>"

theorem store_refines_map_witness:
  "\<exists>etag fe'. run_all (answer_request landed_env ''b'')
      [Fetch (Blake3 (replicate 32 0)), Upload [[1], [2]], Fetch (Blake3 (replicate 32 0))] ready_frontend =
    ([Fetched None, Stored etag, Fetched (Some [1, 2])], fe')"
proof -
  let ?h = "Blake3 (replicate 32 0)" and ?rs = "[Fetch (Blake3 (replicate 32 0)), Upload [[1], [2]], Fetch (Blake3 (replicate 32 0))]"
  have "documented landed_env"
    using rfc4648_documented by (simp add: documented_def landed_env_def some_env_def blake3_documented_def)
  moreover have ready: "store_ready landed_env ''b'' ready_frontend"
  proof -
    have dirs: "files_dir (store_path (fe_store ready_frontend)) = path_join [115] (bytes_of ''files'')"
      "temp_dir (store_path (fe_store ready_frontend)) = path_join [115] (bytes_of ''temp'')" by (simp_all add: ready_frontend_def)
    from ready_paths(1) [OF dirs] have "hash_path c h (fe_store ready_frontend) \<noteq> path_join [115] (bytes_of ''temp'')" for c h
      by (simp add: dirs(2))
    moreover have "below (path_join [115] (bytes_of ''temp'')) q \<Longrightarrow> q \<noteq> path_join [115] (bytes_of ''temp'')" for q by auto
    ultimately show ?thesis
      by (auto simp: store_ready_def Let_def ready_frontend_def faultless_def)
  qed
  moreover have "\<forall>r \<in> set ?rs. well_typed r" by (simp add: hash_valid_def)
  moreover obtain as fe' where run: "run_all (answer_request landed_env ''b'') ?rs ready_frontend = (as, fe')" by fastforce
  ultimately have "fst (run_all (spec_request landed_env) ?rs (store_map landed_env ready_frontend)) = as"
    using store_refines_map [of landed_env "''b''" ready_frontend ?rs as fe'] by simp
  moreover have "store_map landed_env ready_frontend ?h = None"
    using ready_paths(1) [of "fe_store ready_frontend" "[115]" rfc4648_codec ?h]
    by (simp add: store_map_def ready_frontend_def landed_env_def some_env_def)
  ultimately have "\<exists>etag. as = [Fetched None, Stored etag, Fetched (Some [1, 2])]"
    by (auto simp: Let_def arrived_def body_in_flight_def last_write_def landed_env_def some_env_def)
  with run show ?thesis by auto
qed

end
