(* ===== verification/Supervisor_Answer.thy ===== *)
theory Supervisor_Answer
  imports Spawn_Session
begin

text \<open>
  \<open>process/supervisor_process.rs\<close>: what a supervisor answers to the zygote, and what becomes of
  the sandbox that it starts.
\<close>

section \<open>Steps of the supervisor\<close>

lemma made_sockets: "made (s :: os) cs s' \<Longrightarrow> sockets s' = sockets s"
  by (simp add: made_def)

lemma supervisor_setup_made:
  assumes "supervisor_setup s = (r, s')"
  obtains cs where "made s cs s'"
proof -
  have "all_calls (\<lambda>_. True) (clone_mount None p :: (os, errno, int) op)" for p
    unfolding clone_mount_def with_nix_path_def
    by (rule all_calls_if) (simp, rule all_calls_ask, simp, auto simp: all_calls_def traces_def intro!: made_refl)
  then have "all_calls (\<lambda>_. True) supervisor_setup"
    unfolding supervisor_setup_def set_id_def mount_at_def unmount_def by (intro calls) simp_all
  from all_callsD [OF this assms] that show thesis by blast
qed

lemma run_child_returns: "run_child cb report (Returned Panic) k = Some (Returned v, k') \<Longrightarrow> v = Panic"
  by (cases "cb k"; cases "fst (the (cb k))") (auto simp: run_child_def split: option.split_asm)

lemma clone3_made:
  assumes "clone3 cb report flags sig k = Some (Returned v, k')" and "v \<noteq> Panic"
  shows "made k [Clone3 (clone3_request flags sig)] k'"
  using assms
  by (auto simp: clone3_def ask_def Let_def made_record dest: run_child_returns split: prod.splits if_splits)

lemma clone_made:
  assumes "clone_process cb report flags k = Some (Returned v, k')" and "v \<noteq> Panic"
  obtains cs where "made k cs k'"
proof -
  obtain w sig where run: "clone_internal cb report w sig k = Some (Returned v, k')"
    using assms(1) by (auto simp: clone_process_def split: if_splits)
  then obtain u k1 where first: "clone3 cb report w sig k = Some (u, k1)"
    by (auto simp: clone_internal_def split: option.splits)
  show thesis
  proof (cases "u = Returned (Err (CloneFailed ENOSYS))")
    case True
    then obtain r where "clone_fallback w sig k1 = (r, k')"
      using run first by (auto simp: clone_internal_def split: prod.splits)
    from tracesD [OF clone_fallback_calls this] obtain cs where "made k1 cs k'" by blast
    with made_trans clone3_made first True that show thesis by blast
  next
    case False
    with run first have "u = Returned v" "k1 = k'"
      by (auto simp: clone_internal_def split: forked.splits res.splits if_splits prod.splits)
    with clone3_made first assms(2) that show thesis by blast
  qed
qed

text \<open>A sandbox that runs: it is told to end, or a child was waited for.\<close>

lemma wait_for_child_ends:
  assumes "wait_for_child (Some p) s = Some (Returned r, s')" and "clock_lawful s"
  obtains cs where "made s cs s'" "Kill p SIGTERM \<in> set cs \<or> WaitPid (- 1) \<in> set cs"
proof -
  have dropped: thesis if "made s ds s1" "drop_with v (Some p) s1 = Some (Returned r, s')" for ds v s1
  proof -
    have "clock_lawful s1" using made_fields(5) [OF that(1)] assms(2) by simp
    then obtain k' cs where "child_drop (Some p) s1 = Some k'" "made s1 (Kill p SIGTERM # cs) k'"
      by (rule child_drop_kills)
    with that made_trans [OF that(1)] show thesis
      using \<open>\<And>cs. made s cs s' \<Longrightarrow> Kill p SIGTERM \<in> set cs \<or> WaitPid (- 1) \<in> set cs \<Longrightarrow> thesis\<close> [of "ds @ Kill p SIGTERM # cs"]
      by (simp add: drop_with_def)
  qed
  let ?s1 = "record_call SignalsNew s"
  have 1: "made s [SignalsNew] ?s1" by (rule made_record)
  have 2: "made s [SignalsNew, NextSignal] (record_call NextSignal ?s1)" using made_trans [OF 1 made_record] by simp
  have 3: "made s [SignalsNew, NextSignal, WaitPid (- 1)] (record_call (WaitPid (- 1)) (record_call NextSignal ?s1))"
    using made_trans [OF 2 made_record] by simp
  show thesis
  proof (cases "\<exists>e. io_call SignalsNew s = (Err e, ?s1)")
    case True
    with assms(1) dropped [OF 1] show thesis by (auto simp: wait_for_child_def)
  next
    case False
    then have new: "io_call SignalsNew s = (Ok (), ?s1)" by (auto simp: io_call_def Let_def split: option.splits)
    have sig: "ask signal_answer NextSignal ?s1 = (signal_answer ?s1 (history ?s1 @ [NextSignal]), record_call NextSignal ?s1)"
      by (simp add: ask_def record_call_def)
    obtain w where "wait_call (- 1) (record_call NextSignal ?s1) = (w, record_call (WaitPid (- 1)) (record_call NextSignal ?s1))"
      by (cases "wait_answer (record_call NextSignal ?s1) (history (record_call NextSignal ?s1) @ [WaitPid (- 1)])")
        (simp_all add: wait_call_def)
    with assms(1) new sig dropped [OF 2] dropped [OF 3] 3 that [of "[SignalsNew, NextSignal, WaitPid (- 1)]"] show thesis
      by (auto simp: wait_for_child_def drop_with_def child_take_def child_drop_def try_drop_impl_def
          split: option.splits signal.splits res.splits)
  qed
qed

lemma read_order:
  assumes "quiet_script False (sockets s fd)" and "queue (sockets s fd) = frame (mapped_to cd) m [] @ rest"
    and "travels (mapped_to cd) (mapped_from cd) m"
  obtains so where "os_read (mapped_from cd) empty_fds_extend () fd s = Some (Ok m, (), s\<lparr>sockets := (sockets s)(fd := so)\<rparr>)"
    "quiet_script False so" "sent so = sent (sockets s fd)"
proof -
  have "lawful_extend empty_fds_extend" by (simp add: lawful_extend_def empty_fds_extend_def)
  with read_message_law [OF assms(1,2) _ assms(3), of empty_fds_extend "()"] that show thesis by (auto simp: os_read_def)
qed

definition answers :: "codecs \<Rightarrow> fd \<Rightarrow> os \<Rightarrow> started list \<Rightarrow> os \<Rightarrow> bool" where
  "answers cd peer s as s' \<longleftrightarrow>
     sent (sockets s' peer) = sent (sockets s peer) @ concat (map (\<lambda>a. frame (started_to cd) a []) as)"

text \<open>The state in which the supervisor has taken its name and read its order.\<close>

definition told :: "codecs \<Rightarrow> fd \<Rightarrow> os \<Rightarrow> supervisor_mapped \<Rightarrow> os \<Rightarrow> bool" where
  "told cd peer s m s1 \<longleftrightarrow> os_read (mapped_from cd) empty_fds_extend () peer
     (snd (unit_call (SetName ''nck-supervisor'') s)) = Some (Ok m, (), s1)"

text \<open>
  Why there is no sandbox: the mounts could not be made, or the clone failed. \<open>s2\<close> is the state
  after the call that failed.
\<close>

definition no_sandbox :: "fd \<Rightarrow> os \<Rightarrow> process_error \<Rightarrow> os \<Rightarrow> bool" where
  "no_sandbox sandbox_peer s1 e s2 \<longleftrightarrow> supervisor_setup s1 = (Err e, s2) \<or>
     (\<exists>tmp s e'. supervisor_setup s1 = (Ok tmp, s) \<and> e = CloneError e' \<and>
        clone_process (sandbox_callback sandbox_peer tmp) report_anyhow 0 s = Some (Returned (Err e'), s2))"

definition sandbox_cloned :: "fd \<Rightarrow> os \<Rightarrow> pid \<Rightarrow> os \<Rightarrow> bool" where
  "sandbox_cloned sandbox_peer s1 p s2 \<longleftrightarrow> (\<exists>tmp s. supervisor_setup s1 = (Ok tmp, s) \<and>
     clone_process (sandbox_callback sandbox_peer tmp) report_anyhow 0 s = Some (Returned (Ok p), s2))"

text \<open>Up to the answer: the order that was read, and a sandbox that was cloned or an error.\<close>

lemma fallible_outcomes:
  assumes "quiet_script False (sockets s peer)" and "queue (sockets s peer) = frame (mapped_to cd) m [] @ rest"
    and "travels (mapped_to cd) (mapped_from cd) m"
    and run: "fallible_supervisor_process cd peer sandbox_peer s = Some (Returned r, s')" and "r \<noteq> Panic"
  obtains (told_to_exit) "m = Exit" "r = Ok None" "history s' = history s @ [SetName ''nck-supervisor'']"
      "clock_at s' = clock_at s" "quiet_script False (sockets s' peer)" "sent (sockets s' peer) = sent (sockets s peer)"
    | (started) s1 p cs where "m = Proceed" "r = Ok (Some (Some p))"
        "told cd peer s m s1 \<and> sandbox_cloned sandbox_peer s1 p s'"
        "history s' = history s @ cs" "clock_at s' = clock_at s" "quiet_script False (sockets s' peer)"
        "sent (sockets s' peer) = sent (sockets s peer)"
    | (failed) s1 e cs where "m = Proceed" "r = Err e" "told cd peer s m s1 \<and> no_sandbox sandbox_peer s1 e s'" "history s' = history s @ cs" "clock_at s' = clock_at s"
        "quiet_script False (sockets s' peer)" "sent (sockets s' peer) = sent (sockets s peer)"
proof -
  let ?name = "SetName ''nck-supervisor''"
  let ?s0 = "snd (unit_call ?name s)"
  have s0: "?s0 = record_call ?name s" by (simp add: unit_call_def Let_def split: option.split)
  obtain so where so: "os_read (mapped_from cd) empty_fds_extend () peer ?s0 = Some (Ok m, (), ?s0\<lparr>sockets := (sockets ?s0)(peer := so)\<rparr>)"
    "quiet_script False so" "sent so = sent (sockets s peer)"
    using read_order [of ?s0 peer cd m rest] assms(1-3) s0 by (auto simp: record_call_def)
  let ?s1 = "?s0\<lparr>sockets := (sockets ?s0)(peer := so)\<rparr>"
  have s1: "history ?s1 = history s @ [?name]" "clock_at ?s1 = clock_at s" by (simp_all add: s0 record_call_def)
  have told: "told cd peer s m ?s1" using so(1) by (simp add: told_def)
  show thesis
  proof (cases m)
    case Exit
    with run so s1 told_to_exit show thesis by (auto simp: fallible_supervisor_process_def)
  next
    case Proceed
    obtain q s2 where su: "supervisor_setup ?s1 = (q, s2)" by fastforce
    obtain cs where cs: "made ?s1 cs s2" using supervisor_setup_made [OF su] .
    note s2 = made_fields [OF cs] made_sockets [OF cs]
    show thesis
    proof (cases q)
      case (Ok tmp)
      with run so(1) Proceed su obtain v s3 where
        clone: "clone_process (sandbox_callback sandbox_peer tmp) report_anyhow 0 s2 = Some (v, s3)"
        by (auto simp: fallible_supervisor_process_def)
      with run so(1) Proceed su Ok assms(5) obtain w where w: "v = Returned w" "w \<noteq> Panic" "s3 = s'"
        and r: "r = (case w of Ok p \<Rightarrow> Ok (Some (child_from p)) | Err e \<Rightarrow> Err (CloneError e) | Panic \<Rightarrow> Panic)"
        by (auto simp: fallible_supervisor_process_def split: forked.splits res.splits)
      obtain ds where ds: "made s2 ds s'" using clone_made clone w by blast
      note f = made_fields [OF ds] made_sockets [OF ds]
      show thesis
      proof (cases w)
        case (Ok p)
        with clone w su \<open>q = Ok tmp\<close> have "sandbox_cloned sandbox_peer ?s1 p s'"
          unfolding sandbox_cloned_def by auto
        with started [of p ?s1 "?name # cs @ ds"] told Ok Proceed r s2 f s1 so show thesis
          by (simp add: child_from_pid)
      next
        case (Err e)
        with clone w su \<open>q = Ok tmp\<close> have "no_sandbox sandbox_peer ?s1 (CloneError e) s'"
          unfolding no_sandbox_def by auto
        with failed [of "CloneError e" ?s1 "?name # cs @ ds"] told Err Proceed r s2 f s1 so show thesis by simp
      qed (use w in simp)
    next
      case (Err e)
      with run so(1) Proceed su have "r = Err e" "s' = s2" by (auto simp: fallible_supervisor_process_def)
      moreover from this su Err have "no_sandbox sandbox_peer ?s1 e s'" by (simp add: no_sandbox_def)
      ultimately show thesis using failed [of e ?s1 "?name # cs"] told Proceed s2 s1 so by simp
    next
      case Panic
      with run so(1) Proceed su assms(5) show thesis by (auto simp: fallible_supervisor_process_def)
    qed
  qed
qed


definition told_os :: os where
  "told_os = some_os\<lparr>sockets := \<lambda>_. some_socket\<lparr>queue := frame (mapped_to some_codecs) Proceed []\<rparr>,
     signal_answer := \<lambda>_. Some SIGTERM\<rparr>"

lemma told_setup:
  assumes "made (told_os\<lparr>sockets := f\<rparr>) cs s"
  obtains s' ds where "supervisor_setup s = (Ok 17, s')" "made s ds s'"
proof -
  have "unit_answer s = (\<lambda>_. None)" "ret_answer s = (\<lambda>_. (17, 0))"
    using assms by (simp_all add: made_def told_os_def some_os_def kernel.defs some_kernel_def)
  then have "fst (supervisor_setup s) = Ok 17"
    by (simp add: supervisor_setup_def set_id_def mount_at_def clone_mount_def with_nix_path_def unmount_def on_error_def
        io_then_def io_bind_def io_return_def unit_call_def ask_def record_call_def bytes_of_def Let_def)
  with supervisor_setup_made that show thesis by (metis prod.collapse)
qed


end
