(* ===== verification/Store_Start.thy ===== *)
theory Store_Start
  imports Store_Locks Mounts
begin

text \<open>
  \<open>crates/daemon/src/store.rs\<close>: starting a build, and the rest of the state of the store. The
  type of specifications is not declared in the repository; what the code asks of it is a
  parameter: the path of its output, the paths of its dependencies, and its text. The result of
  asking the controller for a sandbox is an argument (theory \<open>Sandbox_Processes\<close>).
\<close>

section \<open>State\<close>

record 'sb build =
  build_sandbox :: 'sb
  build_held :: "decrement_lock list"

record 'sb building_state = store_state +
  next_build :: "64 word"
  builds :: "64 word \<Rightarrow> 'sb build option"

text \<open>The tasks that \<open>StorePaths::new\<close> joins after making the directories; \<open>js\<close> is not declared.\<close>

datatype 'e joined = Joined "('e, unit) res" | JoinPanicked | JoinFailed 'e

fun join_all :: "error_kind joined list \<Rightarrow> (fs, unit) io" where
  "join_all [] = io_return ()"
| "join_all (Joined r # js) = io_then (io_res r) (join_all js)"
| "join_all (JoinPanicked # js) = io_res Panic"
| "join_all (JoinFailed e # js) = io_fail e"

definition store_paths_joined :: "error_kind joined list \<Rightarrow> bytes \<Rightarrow> (fs, store_paths) io" where
  "store_paths_joined js settings_path =
     io_bind (store_paths_new settings_path) (\<lambda>result. io_then (join_all js) (io_return result))"

definition building_new ::
    "error_kind joined list \<Rightarrow> bytes \<Rightarrow> world \<Rightarrow> (error_kind, 'sb building_state) res \<times> world" where
  "building_new js settings_path w =
     (case on_disk (store_paths_joined js settings_path) w of
        (Ok sp, w') \<Rightarrow>
          (Ok \<lparr>counter = counter w', disk = disk w', locks = Map.empty, store_path = sp,
             next_build = 0, builds = Map.empty\<rparr>, w')
      | (Err e, w') \<Rightarrow> (Err e, w')
      | (Panic, w') \<Rightarrow> (Panic, w'))"

section \<open>Starting a build\<close>

record ('spec, 'e) spec_ops =
  spec_output :: "'spec \<Rightarrow> bytes \<Rightarrow> bytes"
  spec_deps :: "'spec \<Rightarrow> bytes \<Rightarrow> bytes list"
  spec_text :: "'spec \<Rightarrow> 'e + bytes"

datatype 'e start_error = StartIo error_kind | StartText 'e | StartSpawn 'e

text \<open>
  The file of a specification is written under a temporary name and moved. As nothing flushes
  it, \<open>landed\<close> bytes of its last write are carried out before the move and the others after it;
  the handle stays with the file.
\<close>

definition write_spec ::
    "nat \<Rightarrow> (nat \<Rightarrow> string) \<Rightarrow> nat \<Rightarrow> 'e + bytes \<Rightarrow> bytes \<Rightarrow> bytes \<Rightarrow> 'sb building_state \<Rightarrow>
       (('e start_error, unit) res \<times> 'sb building_state) option" where
  "write_spec pid pick landed text parent output s =
     (case temp_file_new_in pid pick parent s of
        (Err e, s1) \<Rightarrow> Some (Err (StartIo e), s1)
      | (Panic, s1) \<Rightarrow> Some (Panic, s1)
      | (Ok temp, s1) \<Rightarrow>
          let drop_temp = (\<lambda>s. s\<lparr>disk := temp_file_drop (temp, disk s)\<rparr>) in
          (case text of
             Inl e \<Rightarrow> Some (Err (StartText e), drop_temp s1)
           | Inr bs \<Rightarrow>
               (case file_write_all bs \<lparr>handle_path = temp, in_flight = []\<rparr> s1 of
                  (Err e, f, s2) \<Rightarrow> Some (Err (StartIo e), drop_temp s2)
                | (Panic, f, s2) \<Rightarrow> Some (Panic, drop_temp s2)
                | (Ok _, f, s2) \<Rightarrow>
                    (case settle_some landed f s2 of (f', s3) \<Rightarrow>
                    (case write_to temp output (disk s3) of
                       None \<Rightarrow> None
                     | Some (Err e, d) \<Rightarrow> Some (Err (StartIo e), s3\<lparr>disk := d\<rparr>)
                     | Some (Panic, d) \<Rightarrow> Some (Panic, s3\<lparr>disk := d\<rparr>)
                     | Some (Ok _, d) \<Rightarrow>
                         Some (Ok (), snd (settle_write (f'\<lparr>handle_path := output\<rparr>) (s3\<lparr>disk := d\<rparr>))))))))"

text \<open>Locks are taken one after the other, and dropped from the first to the last.\<close>

fun lock_deps :: "bytes list \<Rightarrow> decrement_lock list \<Rightarrow> 'w store_state_scheme \<Rightarrow> decrement_lock list \<times> 'w store_state_scheme" where
  "lock_deps [] held s = (held, s)"
| "lock_deps (p # ps) held s = (case decrement_lock_new p s of (dec, s') \<Rightarrow> lock_deps ps (held @ [dec]) s')"

definition drop_locks :: "decrement_lock list \<Rightarrow> 'w store_state_scheme \<Rightarrow> 'w store_state_scheme" where
  "drop_locks held s = fold decrement_lock_drop held s"

text \<open>A build that is replaced in the table is dropped.\<close>

definition record_build :: "'sb \<Rightarrow> decrement_lock list \<Rightarrow> 'sb building_state \<Rightarrow> 'sb building_state" where
  "record_build sandbox held s =
     (let i = next_build s;
          s' = s\<lparr>next_build := i + 1, builds := (builds s)(i \<mapsto> \<lparr>build_sandbox = sandbox, build_held = held\<rparr>)\<rparr>
      in case builds s i of Some old \<Rightarrow> drop_locks (build_held old) s' | None \<Rightarrow> s')"

record ('spec, 'e, 'sb) attempt =
  try_spec :: 'spec
  try_pid :: nat
  try_pick :: "nat \<Rightarrow> string"
  try_landed :: nat
  try_spawned :: "('e, 'sb) res"

definition store_start ::
    "('spec, 'e) spec_ops \<Rightarrow> ('spec, 'e, 'sb) attempt \<Rightarrow> 'sb building_state \<Rightarrow>
       (('e start_error, unit) res \<times> 'sb building_state) option" where
  "store_start ops a s =
     (let dir = store_dir (store_path s); output = spec_output ops (try_spec a) dir in
      case decrement_lock_new output s of (dec, s1) \<Rightarrow>
      (case path_parent output of
         None \<Rightarrow> Some (Panic, drop_locks [dec] s1)
       | Some parent \<Rightarrow>
           (case write_spec (try_pid a) (try_pick a) (try_landed a) (spec_text ops (try_spec a)) parent output s1 of
              None \<Rightarrow> None
            | Some (Err e, s2) \<Rightarrow> Some (Err e, drop_locks [dec] s2)
            | Some (Panic, s2) \<Rightarrow> Some (Panic, drop_locks [dec] s2)
            | Some (Ok _, s2) \<Rightarrow>
                (case lock_deps (spec_deps ops (try_spec a) dir) [dec] s2 of (held, s3) \<Rightarrow>
                 (case try_spawned a of
                    Err e \<Rightarrow> Some (Err (StartSpawn e), drop_locks held s3)
                  | Panic \<Rightarrow> Some (Panic, drop_locks held s3)
                  | Ok sandbox \<Rightarrow> Some (Ok (), record_build sandbox held s3))))))"

fun starts ::
    "('spec, 'e) spec_ops \<Rightarrow> ('spec, 'e, 'sb) attempt list \<Rightarrow> 'sb building_state \<Rightarrow>
       (('e start_error, unit) res list \<times> 'sb building_state) option" where
  "starts ops [] s = Some ([], s)"
| "starts ops (a # as) s =
     (case store_start ops a s of
        None \<Rightarrow> None
      | Some (r, s') \<Rightarrow>
          (case starts ops as s' of
             None \<Rightarrow> None
           | Some (rs, s'') \<Rightarrow> Some (r # rs, s'')))"

section \<open>The locks of builds\<close>

definition held_sum :: "decrement_lock list \<Rightarrow> bytes multiset" where
  "held_sum held = (\<Sum>d \<leftarrow> held. dec_locks d)"

text \<open>A step that concerns the disk only.\<close>

definition disk_step :: "'sb building_state \<Rightarrow> 'sb building_state \<Rightarrow> bool" where
  "disk_step s s' \<longleftrightarrow> locks s' = locks s \<and> store_path s' = store_path s \<and> next_build s' = next_build s \<and> builds s' = builds s"

lemma disk_step_refl [simp]: "disk_step s s"
  by (simp add: disk_step_def)

lemma disk_step_disk: "disk_step s s' \<Longrightarrow> disk_step s (s'\<lparr>disk := d\<rparr>)"
  by (simp add: disk_step_def)

lemma disk_step_counter: "disk_step (s\<lparr>counter := n, disk := d\<rparr>) s' \<Longrightarrow> disk_step s s'"
  by (simp add: disk_step_def)

lemma disk_step_settle: "disk_step s s' \<Longrightarrow> disk_step s (snd (settle_write f s'))"
  by (auto simp: settle_write_def on_disk_def intro: disk_step_disk split: prod.split)

lemma temp_loop_step: "temp_loop mk (\<lambda>_ w. w) pid pick parent k s = (r, s') \<Longrightarrow> disk_step s s'"
proof (induction k arbitrary: s)
  case (Suc k)
  let ?w = "s\<lparr>counter := counter s + 1\<rparr>" and ?p = "path_join parent (temp_name (counter s) pid (pick k))"
  obtain x d where mk: "on_disk (mk ?p) ?w = (x, ?w\<lparr>disk := d\<rparr>)" by (rule on_disk_run)
  have one: "disk_step s (?w\<lparr>disk := d\<rparr>)" by (simp add: disk_step_def)
  show ?case
  proof (cases x)
    case (Err e)
    with Suc.prems mk Suc.IH [of "?w\<lparr>disk := d\<rparr>"] one show ?thesis
      by (auto simp: Let_def intro: disk_step_counter split: if_splits)
  qed (use Suc.prems mk one in \<open>auto simp: Let_def\<close>)
qed simp

lemma temp_file_step:
  assumes "temp_file_new_in pid pick parent s = (r, s')"
  shows "disk_step s s'"
proof -
  obtain x d where mk: "on_disk (create_dir_all parent) s = (x, s\<lparr>disk := d\<rparr>)" by (rule on_disk_run)
  have "disk_step s s'" if "disk_step (s\<lparr>disk := d\<rparr>) s'" using that by (simp add: disk_step_def)
  with assms mk show ?thesis
    by (cases x) (auto simp: temp_file_new_in_def temp_file_new_with_def io_then_def io_bind_def disk_step_disk dest: temp_loop_step)
qed

lemma settle_step: "settle_write f s1 = (r, s') \<Longrightarrow> disk_step s s1 \<Longrightarrow> disk_step s s'"
  by (metis disk_step_settle snd_conv)

lemma file_write_step: "file_write_all bs f s1 = (r, f', s') \<Longrightarrow> disk_step s s1 \<Longrightarrow> disk_step s s'"
  using file_write_all_keeps [of "disk_step s"] settle_step by blast

lemma settle_some_step: "settle_some n f s1 = (f', s') \<Longrightarrow> disk_step s s1 \<Longrightarrow> disk_step s s'"
  using settle_some_keeps [of "disk_step s"] settle_step by blast

lemma write_spec_step:
  assumes "write_spec pid pick landed text parent output s = Some (r, s')"
  shows "disk_step s s'"
proof -
  obtain t s1 where t: "temp_file_new_in pid pick parent s = (t, s1)" by fastforce
  from temp_file_step [OF t] have s1: "disk_step s s1" .
  show ?thesis
    using assms t s1 by (auto simp: write_spec_def Let_def intro!: disk_step_disk disk_step_settle dest: file_write_step settle_some_step
        split: res.splits sum.splits prod.splits option.splits if_splits)
qed

lemma owed_drop_locks: "owed (held_sum held + L) s \<Longrightarrow> owed L (drop_locks held s)"
proof (induction held arbitrary: s)
  case (Cons d held)
  then have "owed (dec_locks d + (held_sum held + L)) s" by (simp add: held_sum_def ac_simps)
  from Cons.IH [OF owed_drop [OF this]] show ?case by (simp add: drop_locks_def)
qed (simp add: drop_locks_def held_sum_def)

text \<open>The fields of the state that locks do not concern.\<close>

lemma drop_locks_keeps:
  "next_build (drop_locks held s) = next_build s" "builds (drop_locks held s) = builds s"
  "store_path (drop_locks held s) = store_path s" for s :: "'sb building_state"
  by (induction held arbitrary: s)
    (simp_all add: drop_locks_def decrement_lock_drop_def decrease_lock_def split: option.split)

lemma lock_new_keeps:
  fixes s :: "'sb building_state"
  assumes "decrement_lock_new p s = (d, s')"
  shows "next_build s' = next_build s" "builds s' = builds s" "store_path s' = store_path s"
  using assms by (auto simp: decrement_lock_new_def increase_lock_def Let_def)

lemma lock_deps_owed:
  fixes s :: "'sb building_state"
  assumes "lock_deps ps held s = (held', s')" and "owed (held_sum held + L) s"
    and "size (held_sum held + L) + length ps < 2 ^ 64"
  shows "owed (held_sum held' + L) s' \<and> held_sum held' = held_sum held + mset ps \<and>
    next_build s' = next_build s \<and> builds s' = builds s \<and> store_path s' = store_path s"
  using assms
proof (induction ps arbitrary: held s)
  case (Cons p ps)
  obtain d s1 where d: "decrement_lock_new p s = (d, s1)" by fastforce
  have "size (held_sum held + L) + 1 < 2 ^ 64" using Cons.prems(3) by simp
  from owed_new [OF d Cons.prems(2) this] have "owed (held_sum (held @ [d]) + L) s1" "dec_locks d = {#p#}"
    by (auto simp: held_sum_def ac_simps)
  moreover have one: "held_sum (held @ [d]) = add_mset p (held_sum held)"
    using calculation(2) by (simp add: held_sum_def)
  moreover have "size (held_sum (held @ [d]) + L) + length ps < 2 ^ 64" using Cons.prems(3) by (simp add: one)
  moreover have "lock_deps ps (held @ [d]) s1 = (held', s')" using Cons.prems(1) d by simp
  ultimately have "owed (held_sum held' + L) s'" "held_sum held' = held_sum (held @ [d]) + mset ps"
    "next_build s' = next_build s1" "builds s' = builds s1" "store_path s' = store_path s1"
    using Cons.IH [of "held @ [d]" s1] by blast+
  then show ?case using lock_new_keeps [OF d] one by (intro conjI) simp_all
qed simp

text \<open>\<open>tracked bs s\<close>: the builds are \<open>bs\<close>, numbered from zero, and their locks are the locks in the table.\<close>

definition tracked :: "'sb build list \<Rightarrow> 'sb building_state \<Rightarrow> bool" where
  "tracked bs s \<longleftrightarrow> next_build s = word_of_nat (length bs) \<and>
     builds s = (\<lambda>i. if unat i < length bs then Some (bs ! unat i) else None) \<and>
     owed (\<Sum>b \<leftarrow> bs. held_sum (build_held b)) s"

definition attempt_locks :: "('spec, 'e) spec_ops \<Rightarrow> bytes \<Rightarrow> ('spec, 'e, 'sb) attempt \<Rightarrow> bytes multiset" where
  "attempt_locks ops dir a = add_mset (spec_output ops (try_spec a) dir) (mset (spec_deps ops (try_spec a) dir))"

lemma tracked_record:
  assumes "next_build s = word_of_nat (length bs)" and "length bs < 2 ^ 64"
    and "builds s = (\<lambda>i. if unat i < length bs then Some (bs ! unat i) else None)"
    and "owed (held_sum held + (\<Sum>b \<leftarrow> bs. held_sum (build_held b))) s"
  shows "tracked (bs @ [\<lparr>build_sandbox = sb, build_held = held\<rparr>]) (record_build sb held s)"
proof -
  obtain k :: "64 word" where k: "word_of_nat (length bs) = k" by blast
  have u: "unat k = length bs" using assms(2) by (simp add: unat_of_nat flip: k)
  then have last: "unat i = length bs \<longleftrightarrow> i = k" for i by (auto simp: word_unat_eq_iff)
  have "(builds s)(next_build s \<mapsto> b) = (\<lambda>i. if unat i < length (bs @ [b]) then Some ((bs @ [b]) ! unat i) else None)" for b
  proof
    fix i
    show "((builds s)(next_build s \<mapsto> b)) i = (if unat i < length (bs @ [b]) then Some ((bs @ [b]) ! unat i) else None)"
    proof (cases "i = k")
      case True
      with assms(1) u show ?thesis by (simp add: k)
    next
      case False
      with last [of i] have "unat i \<noteq> length bs" by simp
      with False assms(1,3) show ?thesis by (simp add: k nth_append less_Suc_eq)
    qed
  qed
  moreover have "builds s (next_build s) = None" using assms(1,3) u by (simp add: k)
  ultimately show ?thesis
    using assms(1,4) by (simp add: tracked_def record_build_def Let_def owed_def ac_simps)
qed

lemma store_start_tracked:
  assumes "store_start ops a s = Some (r, s')" and "tracked bs s" and "length bs < 2 ^ 64"
    and "size (\<Sum>b \<leftarrow> bs. held_sum (build_held b)) + size (attempt_locks ops (store_dir (store_path s)) a) < 2 ^ 64"
  shows "store_path s' = store_path s \<and>
    (if r = Ok () then \<exists>b. tracked (bs @ [b]) s' \<and> held_sum (build_held b) = attempt_locks ops (store_dir (store_path s)) a
     else tracked bs s')"
proof -
  let ?L = "\<Sum>b \<leftarrow> bs. held_sum (build_held b)" and ?dir = "store_dir (store_path s)"
  let ?out = "spec_output ops (try_spec a) ?dir" and ?deps = "spec_deps ops (try_spec a) ?dir"
  have L: "owed ?L s" using assms(2) by (simp add: tracked_def)
  have room: "size ?L + 1 < 2 ^ 64" "size ?L + 1 + length ?deps < 2 ^ 64"
    using assms(4) by (simp_all add: attempt_locks_def)
  obtain d s1 where d: "decrement_lock_new ?out s = (d, s1)" by fastforce
  from owed_new [OF d L room(1)] have s1: "owed (held_sum [d] + ?L) s1" and out: "held_sum [d] = {#?out#}"
    by (auto simp: held_sum_def)
  note k1 = lock_new_keeps [OF d]
  have undone: "store_path (drop_locks held s2) = store_path s \<and> tracked bs (drop_locks held s2)"
    if "owed (held_sum held + ?L) s2" "next_build s2 = next_build s" "builds s2 = builds s" "store_path s2 = store_path s" for held s2
    using that owed_drop_locks [OF that(1)] assms(2) by (simp add: tracked_def drop_locks_keeps)
  show ?thesis
  proof (cases "path_parent ?out")
    case None
    with assms(1) d undone [OF s1 k1] show ?thesis by (auto simp: store_start_def Let_def)
  next
    case (Some parent)
    with assms(1) d obtain w s2 where
      w: "write_spec (try_pid a) (try_pick a) (try_landed a) (spec_text ops (try_spec a)) parent ?out s1 = Some (w, s2)"
      by (auto simp: store_start_def Let_def split: option.splits)
    from write_spec_step [OF w] k1 have k2: "next_build s2 = next_build s" "builds s2 = builds s" "store_path s2 = store_path s"
      and s2: "owed (held_sum [d] + ?L) s2" using s1 by (simp_all add: disk_step_def owed_def)
    obtain held s3 where h: "lock_deps ?deps [d] s2 = (held, s3)" by fastforce
    have "size (held_sum [d] + ?L) + length ?deps < 2 ^ 64" using room(2) out by simp
    note locked = lock_deps_owed [OF h s2 this]
    have s3: "owed (held_sum held + ?L) s3" "next_build s3 = next_build s" "builds s3 = builds s" "store_path s3 = store_path s"
      using locked k2 by (blast, simp_all)
    have held: "held_sum held = attempt_locks ops ?dir a" using locked out by (simp add: attempt_locks_def)
    show ?thesis
    proof (cases "w = Ok ()")
      case False
      with assms(1) d Some w undone [OF s2 k2] show ?thesis by (cases w) (auto simp: store_start_def Let_def)
    next
      case written: True
      show ?thesis
      proof (cases "try_spawned a")
        case (Ok sb)
        have "next_build s3 = word_of_nat (length bs)" "builds s3 = (\<lambda>i. if unat i < length bs then Some (bs ! unat i) else None)"
          using s3(2,3) assms(2) by (simp_all add: tracked_def)
        from tracked_record [OF this(1) assms(3) this(2) s3(1), of sb] held
        have "\<exists>b. tracked (bs @ [b]) (record_build sb held s3) \<and> held_sum (build_held b) = attempt_locks ops ?dir a"
          by (metis build.select_convs(2))
        moreover have "store_path (record_build sb held s3) = store_path s"
          using s3(4) by (simp add: record_build_def Let_def drop_locks_keeps split: option.split)
        ultimately show ?thesis using assms(1) d Some w written h Ok by (auto simp: store_start_def Let_def)
      qed (use assms(1) d Some w written h undone [OF s3] in \<open>auto simp: store_start_def Let_def\<close>)
    qed
  qed
qed

text \<open>The attempts that have succeeded.\<close>

definition succeeded :: "('spec, 'e, 'sb) attempt list \<Rightarrow> ('e start_error, unit) res list \<Rightarrow> ('spec, 'e, 'sb) attempt list" where
  "succeeded as rs = map fst (filter (\<lambda>(a, r). r = Ok ()) (zip as rs))"

lemma succeeded_Cons: "succeeded (a # as) (r # rs) = (if r = Ok () then a # succeeded as rs else succeeded as rs)"
  by (simp add: succeeded_def)

lemma starts_tracked:
  assumes "starts ops as s = Some (rs, s')" and "tracked bs s" and "store_dir (store_path s) = dir"
    and "length bs + length as < 2 ^ 64"
    and "size (\<Sum>b \<leftarrow> bs. held_sum (build_held b)) + (\<Sum>a \<leftarrow> as. size (attempt_locks ops dir a)) < 2 ^ 64"
  shows "\<exists>bs'. tracked (bs @ bs') s' \<and> map (\<lambda>b. held_sum (build_held b)) bs' = map (attempt_locks ops dir) (succeeded as rs)"
  using assms
proof (induction as arbitrary: s bs rs)
  case Nil
  then show ?case by (intro exI [of _ "[]"]) (simp add: succeeded_def)
next
  case (Cons a as)
  from Cons.prems(1) obtain r s1 rs' where one: "store_start ops a s = Some (r, s1)"
    and rest: "starts ops as s1 = Some (rs', s')" and rs: "rs = r # rs'" by (auto split: option.splits)
  have "length bs < 2 ^ 64"
    "size (\<Sum>b \<leftarrow> bs. held_sum (build_held b)) + size (attempt_locks ops (store_dir (store_path s)) a) < 2 ^ 64"
    using Cons.prems(3-5) by simp_all
  note done_one = store_start_tracked [OF one Cons.prems(2) this]
  then have dir: "store_dir (store_path s1) = dir" using Cons.prems(3) by simp
  show ?case
  proof (cases "r = Ok ()")
    case True
    with done_one Cons.prems(3) obtain b where b: "tracked (bs @ [b]) s1" "held_sum (build_held b) = attempt_locks ops dir a" by auto
    have "length (bs @ [b]) + length as < 2 ^ 64" using Cons.prems(4) by simp
    moreover have "size (\<Sum>b \<leftarrow> bs @ [b]. held_sum (build_held b)) + (\<Sum>a \<leftarrow> as. size (attempt_locks ops dir a)) < 2 ^ 64"
      using Cons.prems(5) b(2) by simp
    ultimately obtain bs' where "tracked ((bs @ [b]) @ bs') s'"
      "map (\<lambda>b. held_sum (build_held b)) bs' = map (attempt_locks ops dir) (succeeded as rs')"
      using Cons.IH [OF rest b(1) dir] by blast
    with True b(2) show ?thesis by (intro exI [of _ "b # bs'"]) (simp add: rs succeeded_Cons)
  next
    case False
    with done_one have "tracked bs s1" by simp
    moreover have "length bs + length as < 2 ^ 64"
      "size (\<Sum>b \<leftarrow> bs. held_sum (build_held b)) + (\<Sum>a \<leftarrow> as. size (attempt_locks ops dir a)) < 2 ^ 64"
      using Cons.prems(4,5) by simp_all
    ultimately show ?thesis using Cons.IH [OF rest _ dir] False by (simp add: rs succeeded_Cons)
  qed
qed

text \<open>
  C25: However attempts to start builds fail, the lock table counts the locks of exactly those
  that have succeeded: one for the output and one for each dependency of each. An attempt that
  fails, at any of its steps, leaves no lock behind. The builds are numbered in the order in
  which they were started.
\<close>

theorem starts_counted:
  fixes ops :: "('spec, 'e) spec_ops" and as :: "('spec, 'e, 'sb) attempt list"
  assumes "next_build s = 0" and "builds s = Map.empty" and "locks s = Map.empty"
    and "starts ops as s = Some (rs, s')"
    and "(\<Sum>a \<leftarrow> as. size (attempt_locks ops (store_dir (store_path s)) a)) < 2 ^ 64"
  defines "L \<equiv> \<Sum>a \<leftarrow> succeeded as rs. attempt_locks ops (store_dir (store_path s)) a"
  shows "locks s' p = (if p \<in># L then Some (word_of_nat (count L p)) else None) \<and>
    (\<exists>bs. builds s' = (\<lambda>i. if unat i < length bs then Some (bs ! unat i) else None) \<and>
       map (\<lambda>b. held_sum (build_held b)) bs = map (attempt_locks ops (store_dir (store_path s))) (succeeded as rs))"
proof -
  let ?dir = "store_dir (store_path s)"
  have "tracked [] s" using assms(1-3) by (simp add: tracked_def owed_def counted_def)
  moreover have "length as \<le> (\<Sum>a \<leftarrow> as. size (attempt_locks ops ?dir a))"
    by (induction as) (simp_all add: attempt_locks_def)
  ultimately obtain bs where bs: "tracked bs s'"
    "map (\<lambda>b. held_sum (build_held b)) bs = map (attempt_locks ops ?dir) (succeeded as rs)"
    using starts_tracked [OF assms(4), of "[]" ?dir] assms(5) by auto
  from bs(2) have "(\<Sum>b \<leftarrow> bs. held_sum (build_held b)) = L" by (simp add: L_def)
  with bs(1) have "owed L s'" by (simp add: tracked_def)
  with bs show ?thesis by (auto simp: owed_def counted_def tracked_def)
qed

definition one_dep :: "(bool, unit) spec_ops" where
  "one_dep = \<lparr>spec_output = \<lambda>named dir. if named then path_join dir [112] else [47],
     spec_deps = \<lambda>_ dir. [path_join dir [100]], spec_text = \<lambda>_. Inr [1]\<rparr>"

definition try_one :: "bool \<Rightarrow> (bool, unit, nat) attempt" where
  "try_one named = \<lparr>try_spec = named, try_pid = 7, try_pick = \<lambda>_. ''a'', try_landed = 1, try_spawned = Ok 5\<rparr>"

definition new_building :: "nat building_state" where
  "new_building = \<lparr>counter = 0, disk = \<lparr>nodes = [[47, 115] \<mapsto> NDir], sys_faults = [], overwrite = True\<rparr>, locks = Map.empty,
     store_path = \<lparr>store_dir = [47, 115], files_dir = [102], temp_dir = [116]\<rparr>, next_build = 0, builds = Map.empty\<rparr>"

lemma try_one_written:
  assumes "disk s = disk new_building" and "counter s = 0"
  shows "\<exists>s'. write_spec 7 (\<lambda>_. ''a'') 1 (Inr [1]) [47, 115] [47, 115, 47, 112] s = Some (Ok (), s')"
  by (simp add: assms write_spec_def temp_file_new_in_def temp_file_new_with_def MAX_RETRIES_def temp_loop_first Let_def
      io_then_def io_bind_def on_disk_def create_dir_all_def create_new_def syscall_def new_building_def
      file_write_all.simps settle_some_def MAX_WRITE_def settle_write_def append_file_def write_to_def move_replace_def rename_def move_node_def path_join_def temp_name_def
      bytes_of_def hex.simps hex_digit_def temp_forget_def temp_file_drop_def temp_file_delete_impl_def temp_file_delete_def)

text \<open>One build is started; the second has an output without a parent directory.\<close>

theorem starts_counted_witness:
  "\<exists>rs s'. starts one_dep [try_one True, try_one False] new_building = Some (rs, s') \<and> rs = [Ok (), Panic] \<and>
    locks s' [47, 115, 47, 112] = Some 1 \<and> locks s' [47] = None"
proof -
  let ?p = "[47, 115, 47, 112] :: bytes"
  have out: "path_join [47, 115] [112] = ?p" "path_join [47, 115] [100] = [47, 115, 47, 100]"
    and parents: "path_parent ?p = Some [47, 115]" "path_parent [47] = None"
    by (simp_all add: path_join_def path_parent_def strip_slashes_def)
  have ops: "spec_output one_dep True [47, 115] = ?p" "spec_output one_dep False d = [47]"
    "spec_deps one_dep b [47, 115] = [[47, 115, 47, 100]]" "spec_text one_dep b = Inr [1]" for b d
    by (simp_all add: one_dep_def out)
  have dir: "store_dir (store_path new_building) = [47, 115]" by (simp add: new_building_def)
  obtain d s1 where d: "decrement_lock_new ?p new_building = (d, s1)" by fastforce
  have "disk s1 = disk new_building" "counter s1 = 0"
    using d by (auto simp: decrement_lock_new_def increase_lock_def Let_def new_building_def)
  then obtain s2 where w: "write_spec 7 (\<lambda>_. ''a'') 1 (Inr [1]) [47, 115] ?p s1 = Some (Ok () :: (unit start_error, unit) res, s2)"
    using try_one_written by blast
  have "\<exists>s3. store_start one_dep (try_one True) new_building = Some (Ok (), s3)"
    using d w by (auto simp: store_start_def Let_def try_one_def dir ops parents split: prod.split)
  then obtain s3 where first: "store_start one_dep (try_one True) new_building = Some (Ok (), s3)" by blast
  have "\<exists>s4. store_start one_dep (try_one False) s3 = Some (Panic, s4)"
    by (auto simp: store_start_def Let_def try_one_def ops parents split: prod.split)
  then obtain s4 where second: "store_start one_dep (try_one False) s3 = Some (Panic, s4)" by blast
  from first second have run: "starts one_dep [try_one True, try_one False] new_building = Some ([Ok (), Panic], s4)" by simp
  have good: "succeeded [try_one True, try_one False] [Ok (), Panic :: (unit start_error, unit) res] = [try_one True]"
    by (simp add: succeeded_def)
  have start: "next_build new_building = 0" "builds new_building = Map.empty" "locks new_building = Map.empty"
    by (simp_all add: new_building_def)
  have locks: "attempt_locks one_dep [47, 115] (try_one True) = {#?p, [47, 115, 47, 100]#}"
    by (simp add: attempt_locks_def try_one_def ops)
  have room: "(\<Sum>a \<leftarrow> [try_one True, try_one False]. size (attempt_locks one_dep (store_dir (store_path new_building)) a)) < 2 ^ 64"
    by (simp add: dir attempt_locks_def try_one_def ops)
  from starts_counted [OF start run room, of ?p] starts_counted [OF start run room, of "[47]"] run
  show ?thesis by (simp add: good dir locks)
qed

end
