(* ===== verification/Frontend_Serve.thy ===== *)
theory Frontend_Serve
  imports Settings Io_Contracts
begin

text \<open>
  \<open>crates/daemon/src/frontend/serve.rs\<close>: the sockets of the daemon and the loop that accepts
  connections. The addresses of the two kinds of sockets are parameters; what the operating
  system answers is in the state, and so is what the server has done.
\<close>

section \<open>Clients\<close>

text \<open>A stream is known by a number. Reading and writing a client is reading and writing its stream.\<close>

datatype ('a, 'u) client = ClientTcp nat 'a | ClientUnix nat 'u

datatype ('a, 'u) client_info = InfoTcp 'a | InfoUnix 'u

fun client_from_tcp :: "nat \<times> 'a \<Rightarrow> ('a, 'u) client" where
  "client_from_tcp (stream, remote_addr) = ClientTcp stream remote_addr"

fun client_from_unix :: "nat \<times> 'u \<Rightarrow> ('a, 'u) client" where
  "client_from_unix (stream, remote_addr) = ClientUnix stream remote_addr"

fun connect_info :: "('a, 'u) client \<Rightarrow> ('a, 'u) client_info" where
  "connect_info (ClientTcp stream remote_addr) = InfoTcp remote_addr"
| "connect_info (ClientUnix stream remote_addr) = InfoUnix remote_addr"

text \<open>\<open>poll_read\<close>, \<open>poll_write\<close> and the others: on the stream inside, whichever it is.\<close>

fun client_stream :: "('a, 'u) client \<Rightarrow> nat" where
  "client_stream (ClientTcp stream remote_addr) = stream"
| "client_stream (ClientUnix stream remote_addr) = stream"

definition client_poll_read ::
    "(nat \<Rightarrow> nat \<Rightarrow> ('w, bytes) pio) \<Rightarrow> ('a, 'u) client \<Rightarrow> nat \<Rightarrow> ('w, bytes) pio" where
  "client_poll_read stream_read cl n = (case cl of ClientTcp stream _ \<Rightarrow> stream_read stream n | ClientUnix stream _ \<Rightarrow> stream_read stream n)"

definition client_poll_write ::
    "(nat \<Rightarrow> bytes \<Rightarrow> ('w, nat) pio) \<Rightarrow> ('a, 'u) client \<Rightarrow> bytes \<Rightarrow> ('w, nat) pio" where
  "client_poll_write stream_write cl buf = (case cl of ClientTcp stream _ \<Rightarrow> stream_write stream buf | ClientUnix stream _ \<Rightarrow> stream_write stream buf)"

definition client_poll_flush :: "(nat \<Rightarrow> ('w, unit) pio) \<Rightarrow> ('a, 'u) client \<Rightarrow> ('w, unit) pio" where
  "client_poll_flush stream_flush cl = (case cl of ClientTcp stream _ \<Rightarrow> stream_flush stream | ClientUnix stream _ \<Rightarrow> stream_flush stream)"

definition client_poll_shutdown :: "(nat \<Rightarrow> ('w, unit) pio) \<Rightarrow> ('a, 'u) client \<Rightarrow> ('w, unit) pio" where
  "client_poll_shutdown stream_shutdown cl = (case cl of ClientTcp stream _ \<Rightarrow> stream_shutdown stream | ClientUnix stream _ \<Rightarrow> stream_shutdown stream)"

section \<open>The server\<close>

text \<open>
  What the server does, in order. Serving a connection is a task of its own, whose failure is only
  logged; a connection is served with the information on its own client.
\<close>

datatype ('a, 'u) serve_action =
    TryExists bytes
  | RemoveSocket bytes
  | BindUnix bytes
  | Resolve string
  | BindTcp "'a list"
  | Serve "('a, 'u) client" "('a, 'u) client_info"

text \<open>
  \<open>incoming\<close> is what the listeners deliver, in the order in which it is ready; with no connection
  left the server waits. A TCP listener that is not bound delivers nothing.
\<close>

datatype ('a, 'u) incoming =
    FromUnix "error_kind + nat \<times> 'u"
  | FromTcp "error_kind + nat \<times> 'a"

record ('a, 'u) net =
  exists_answer :: "error_kind + bool"
  remove_answer :: "error_kind option"
  unix_answer :: "error_kind option"
  resolve_answer :: "string \<Rightarrow> error_kind + 'a list"
  tcp_answer :: "error_kind option"
  actions :: "('a, 'u) serve_action list"

datatype serve_error = ServeIo error_kind | FailedToBind bytes error_kind

definition act :: "('a, 'u) serve_action \<Rightarrow> (('a, 'u) net, 'e, unit) op" where
  "act a = io_modify (\<lambda>s. s\<lparr>actions := actions s @ [a]\<rparr>)"

fun answered :: "('k \<Rightarrow> 'e) \<Rightarrow> 'k option \<Rightarrow> ('s, 'e, unit) op" where
  "answered f None = io_return ()"
| "answered f (Some e) = io_fail (f e)"

fun answered_with :: "('k \<Rightarrow> 'e) \<Rightarrow> 'k + 'b \<Rightarrow> ('s, 'e, 'b) op" where
  "answered_with f (Inr x) = io_return x"
| "answered_with f (Inl e) = io_fail (f e)"

definition is_connection_error :: "error_kind \<Rightarrow> bool" where
  "is_connection_error e \<longleftrightarrow> e \<in> {ConnectionRefused, ConnectionAborted, ConnectionReset}"

definition clean_socket :: "bytes \<Rightarrow> (('a, 'u) net, serve_error, unit) op" where
  "clean_socket path =
     io_then (act (TryExists path))
     (io_bind (io_get (\<lambda>s. answered_with ServeIo (exists_answer s))) (\<lambda>ex.
      if ex then
        io_then (act (RemoveSocket path))
        (io_get (\<lambda>s. answered (FailedToBind path) (remove_answer s)))
      else io_return ()))"

fun resolve_all :: "string list \<Rightarrow> (('a, 'u) net, serve_error, 'a list) op" where
  "resolve_all [] = io_return []"
| "resolve_all (b # bs) =
     io_then (act (Resolve b))
     (io_bind (io_get (\<lambda>s. answered_with ServeIo (resolve_answer s b))) (\<lambda>addrs.
      io_bind (resolve_all bs) (\<lambda>rest. io_return (addrs @ rest))))"

definition bind_tcp :: "'a list \<Rightarrow> (('a, 'u) net, serve_error, bool) op" where
  "bind_tcp addrs =
     (if addrs = [] then io_return False
      else io_then (act (BindTcp addrs))
        (io_then (io_get (\<lambda>s. answered ServeIo (tcp_answer s))) (io_return True)))"

text \<open>The loop; \<open>None\<close> is the wait for a connection that does not come.\<close>

definition serve_client :: "('a, 'u) client \<Rightarrow> ('a, 'u) net \<Rightarrow> ('a, 'u) net" where
  "serve_client cl s = s\<lparr>actions := actions s @ [Serve cl (connect_info cl)]\<rparr>"

fun accept_loop ::
    "bool \<Rightarrow> ('a, 'u) incoming list \<Rightarrow> ('a, 'u) net \<Rightarrow> (serve_error, unit) res option \<times> ('a, 'u) net" where
  "accept_loop tcp [] s = (None, s)"
| "accept_loop tcp (FromUnix (Inr x) # evs) s = accept_loop tcp evs (serve_client (client_from_unix x) s)"
| "accept_loop tcp (FromTcp (Inr x) # evs) s =
     accept_loop tcp evs (if tcp then serve_client (client_from_tcp x) s else s)"
| "accept_loop tcp (FromUnix (Inl e) # evs) s =
     (if is_connection_error e then accept_loop tcp evs s else (Some (Err (ServeIo e)), s))"
| "accept_loop tcp (FromTcp (Inl e) # evs) s =
     (if \<not> tcp \<or> is_connection_error e then accept_loop tcp evs s else (Some (Err (ServeIo e)), s))"

definition serve_start :: "daemon_settings \<Rightarrow> (('a, 'u) net, serve_error, bool) op" where
  "serve_start settings =
     io_then (clean_socket (socket_path settings))
     (io_then (act (BindUnix (socket_path settings)))
     (io_then (io_get (\<lambda>s. answered ServeIo (unix_answer s)))
     (io_bind (resolve_all (tcp_bind settings)) bind_tcp)))"

definition serve ::
    "daemon_settings \<Rightarrow> ('a, 'u) incoming list \<Rightarrow> ('a, 'u) net \<Rightarrow> (serve_error, unit) res option \<times> ('a, 'u) net" where
  "serve settings evs s =
     (case serve_start settings s of
        (Ok tcp, s') \<Rightarrow> accept_loop tcp evs s'
      | (Err e, s') \<Rightarrow> (Some (Err e), s')
      | (Panic, s') \<Rightarrow> (Some Panic, s'))"

section \<open>What is served\<close>

fun incoming_error :: "('a, 'u) incoming \<Rightarrow> error_kind option" where
  "incoming_error (FromUnix (Inl e)) = Some e"
| "incoming_error (FromTcp (Inl e)) = Some e"
| "incoming_error _ = None"

fun incoming_client :: "('a, 'u) incoming \<Rightarrow> ('a, 'u) client list" where
  "incoming_client (FromUnix (Inr x)) = [client_from_unix x]"
| "incoming_client (FromTcp (Inr x)) = [client_from_tcp x]"
| "incoming_client _ = []"

fun heard :: "bool \<Rightarrow> ('a, 'u) incoming \<Rightarrow> bool" where
  "heard tcp (FromUnix r) = True"
| "heard tcp (FromTcp r) = tcp"

definition fatal :: "('a, 'u) incoming \<Rightarrow> bool" where
  "fatal ev \<longleftrightarrow> (\<exists>e. incoming_error ev = Some e \<and> \<not> is_connection_error e)"

definition served :: "('a, 'u) client list \<Rightarrow> ('a, 'u) serve_action list" where
  "served cls = map (\<lambda>cl. Serve cl (connect_info cl)) cls"

lemma accept_loop_result:
  "accept_loop tcp evs s =
     (let heard_evs = filter (heard tcp) evs;
          alive = takeWhile (\<lambda>ev. \<not> fatal ev) heard_evs in
      (case dropWhile (\<lambda>ev. \<not> fatal ev) heard_evs of
         [] \<Rightarrow> None
       | ev # _ \<Rightarrow> Some (Err (ServeIo (the (incoming_error ev)))),
       s\<lparr>actions := actions s @ served (concat (map incoming_client alive))\<rparr>))"
proof (induction tcp evs s rule: accept_loop.induct)
  case (1 tcp s)
  then show ?case by (simp add: served_def)
next
  case (2 tcp x evs s)
  then show ?case by (simp add: Let_def fatal_def served_def serve_client_def)
next
  case (3 tcp x evs s)
  then show ?case by (cases tcp) (simp_all add: Let_def fatal_def served_def serve_client_def)
next
  case (4 tcp e evs s)
  then show ?case by (cases "is_connection_error e") (simp_all add: Let_def fatal_def served_def)
next
  case (5 tcp e evs s)
  then show ?case by (cases "is_connection_error e"; cases tcp) (simp_all add: Let_def fatal_def served_def)
qed

lemma resolve_all_run:
  "\<forall>b \<in> set bs. resolve_answer s b = Inr (addrs b) \<Longrightarrow>
     resolve_all bs s = (Ok (concat (map addrs bs)), s\<lparr>actions := actions s @ map Resolve bs\<rparr>)"
proof (induction bs arbitrary: s)
  case (Cons b bs)
  from Cons.IH [of "s\<lparr>actions := actions s @ [Resolve b]\<rparr>"] Cons.prems show ?case
    by (simp add: act_def io_then_def io_bind_def)
qed simp

text \<open>
  C40: When the sockets can be bound, a socket left behind is removed first, the TCP listener is
  bound exactly if there are addresses, and then every connection that a listener delivers is
  served, with the address of its own client, up to the first error that is not an error of a
  connection; that error is the result, and without one the server goes on for ever.
\<close>

theorem serve_clients:
  assumes "exists_answer s = Inr ex" and "remove_answer s = None" and "unix_answer s = None" and "tcp_answer s = None"
    and "\<forall>b \<in> set (tcp_bind settings). resolve_answer s b = Inr (addrs b)"
    and "all = concat (map addrs (tcp_bind settings))" and "heard_evs = filter (heard (all \<noteq> [])) evs"
  shows "serve settings evs s =
    ((case dropWhile (\<lambda>ev. \<not> fatal ev) heard_evs of
        [] \<Rightarrow> None
      | ev # _ \<Rightarrow> Some (Err (ServeIo (the (incoming_error ev))))),
     s\<lparr>actions := actions s @ [TryExists (socket_path settings)] @
         (if ex then [RemoveSocket (socket_path settings)] else []) @ [BindUnix (socket_path settings)] @
         map Resolve (tcp_bind settings) @ (if all = [] then [] else [BindTcp all]) @
         served (concat (map incoming_client (takeWhile (\<lambda>ev. \<not> fatal ev) heard_evs)))\<rparr>)"
proof -
  have resolved: "resolve_all (tcp_bind settings) (s\<lparr>actions := as\<rparr>) =
      (Ok all, s\<lparr>actions := as @ map Resolve (tcp_bind settings)\<rparr>)" for as
    using resolve_all_run [of "tcp_bind settings" "s\<lparr>actions := as\<rparr>" addrs] assms(5,6) by simp
  have "serve_start settings s = (Ok (all \<noteq> []),
     s\<lparr>actions := actions s @ [TryExists (socket_path settings)] @
         (if ex then [RemoveSocket (socket_path settings)] else []) @ [BindUnix (socket_path settings)] @
         map Resolve (tcp_bind settings) @ (if all = [] then [] else [BindTcp all])\<rparr>)"
    using assms(1-4)
    by (simp add: serve_start_def clean_socket_def act_def io_then_def io_bind_def resolved bind_tcp_def)
  then show ?thesis by (simp add: serve_def accept_loop_result Let_def assms(7))
qed

theorem serve_clients_witness:
  "serve \<lparr>sub_uid = \<lparr>sub_min = 100000, sub_max = 165535\<rparr>, sub_gid = \<lparr>sub_min = 100000, sub_max = 165535\<rparr>, tcp_bind = [''localhost:80''], socket_path = default_socket_path\<rparr>
      [FromUnix (Inr (1, 7 :: nat)), FromTcp (Inl ConnectionReset), FromTcp (Inr (2, 9)), FromUnix (Inl (RawOs 24)), FromTcp (Inr (3, 9))]
      \<lparr>exists_answer = Inr True, remove_answer = None, unix_answer = None, resolve_answer = \<lambda>_. Inr [9 :: nat],
       tcp_answer = None, actions = []\<rparr> =
    (Some (Err (ServeIo (RawOs 24))),
     \<lparr>exists_answer = Inr True, remove_answer = None, unix_answer = None, resolve_answer = \<lambda>_. Inr [9],
      tcp_answer = None, actions = [TryExists default_socket_path, RemoveSocket default_socket_path,
        BindUnix default_socket_path, Resolve ''localhost:80'', BindTcp [9],
        Serve (ClientUnix 1 7) (InfoUnix 7), Serve (ClientTcp 2 9) (InfoTcp 9)]\<rparr>)"
  by (subst serve_clients [where ex = True and addrs = "\<lambda>_. [9]", OF _ _ _ _ _ refl refl])
    (simp_all add: fatal_def is_connection_error_def served_def)

end
