(* ===== verification/Daemon_Start.thy ===== *)
theory Daemon_Start
  imports Supervisor_Answer Store_Start Frontend_Build Frontend_Serve
begin

text \<open>
  \<open>crates/daemon/src/main.rs\<close>, \<open>frontend.rs\<close> and \<open>build/linux.rs\<close>: the start of the daemon. It reads
  its settings, forks the zygote while it has no other thread, and only then starts the runtime,
  opens the store and serves. The settings that are read, and whether a runtime can be made, are
  arguments; the processes, the files and the sockets are the states of the models used.
\<close>

section \<open>State\<close>

datatype daemon_error =
    SettingsError string
  | RuntimeError error_kind
  | ControllerError process_error
  | StoreError error_kind
  | FrontEndError serve_error
  | FrontEndPanicked

record ('a, 'u) daemon =
  processes :: os
  files :: world
  net :: "('a, 'u) net"
  app :: "frontend option"

text \<open>How the daemon is found: serving for ever is \<open>Returned None\<close>.\<close>

type_synonym daemon_result = "(daemon_error, unit) res option forked"

section \<open>Functions\<close>

definition create_controller :: "codecs \<Rightarrow> settings \<Rightarrow> os \<Rightarrow> (controller process \<times> os) option" where
  "create_controller cd config = main_process cd (settings_daemon config)"

text \<open>\<open>frontend\<close>: the routes over the store, and the server.\<close>

definition frontend_main ::
    "store_state \<Rightarrow> settings \<Rightarrow> ('a, 'u) incoming list \<Rightarrow> ('a, 'u) daemon \<Rightarrow>
       (serve_error, unit) res option \<times> ('a, 'u) daemon" where
  "frontend_main store settings evs d =
     (case serve (settings_daemon settings) evs (net d) of
        (r, n) \<Rightarrow> (r, d\<lparr>app := Some (create_routes store), net := n\<rparr>))"

text \<open>A function that returns drops the controller it owns, and with it the zygote.\<close>

definition closing ::
    "controller \<Rightarrow> (daemon_error, unit) res \<Rightarrow> ('a, 'u) daemon \<Rightarrow> (daemon_result \<times> ('a, 'u) daemon) option" where
  "closing c r d =
     map_option (\<lambda>s. (Returned (Some r), d\<lparr>processes := s\<rparr>)) (child_drop (controller_zygote c) (processes d))"

definition async_main ::
    "error_kind joined list \<Rightarrow> ('a, 'u) incoming list \<Rightarrow> controller \<Rightarrow> settings \<Rightarrow> ('a, 'u) daemon \<Rightarrow>
       (daemon_result \<times> ('a, 'u) daemon) option" where
  "async_main js evs pending settings d =
     (case into_controller pending (processes d) of
        None \<Rightarrow> None
      | Some (ProcessExit n, s) \<Rightarrow> Some (ProcessExit n, d\<lparr>processes := s\<rparr>)
      | Some (ProcessAbort, s) \<Rightarrow> Some (ProcessAbort, d\<lparr>processes := s\<rparr>)
      | Some (Returned Panic, s) \<Rightarrow> Some (Returned (Some Panic), d\<lparr>processes := s\<rparr>)
      | Some (Returned (Err e), s) \<Rightarrow> Some (Returned (Some (Err (ControllerError e))), d\<lparr>processes := s\<rparr>)
      | Some (Returned (Ok c), s) \<Rightarrow>
          (case building_new js (setting_path (settings_store settings)) (files d) of
             (Err e, w) \<Rightarrow> closing c (Err (StoreError e)) (d\<lparr>processes := s, files := w\<rparr>)
           | (Panic, w) \<Rightarrow> closing c Panic (d\<lparr>processes := s, files := w\<rparr>)
           | (Ok store, w) \<Rightarrow>
               (case frontend_main (store_state.truncate (store :: sandbox building_state)) settings evs
                   (d\<lparr>processes := s, files := w\<rparr>) of
                  (None, d') \<Rightarrow> Some (Returned None, d')
                | (Some (Ok _), d') \<Rightarrow> closing c (Ok ()) d'
                | (Some (Err e), d') \<Rightarrow> closing c (Err (FrontEndError e)) d'
                | (Some Panic, d') \<Rightarrow> closing c (Err FrontEndPanicked) d')))"

definition daemon_main ::
    "codecs \<Rightarrow> string + settings \<Rightarrow> error_kind option \<Rightarrow> error_kind joined list \<Rightarrow> ('a, 'u) incoming list \<Rightarrow>
       ('a, 'u) daemon \<Rightarrow> (daemon_result \<times> ('a, 'u) daemon) option" where
  "daemon_main cd config runtime js evs d =
     (case config of
        Inl e \<Rightarrow> Some (Returned (Some (Err (SettingsError e))), d)
      | Inr settings \<Rightarrow>
          (case create_controller cd settings (processes d) of
             None \<Rightarrow> None
           | Some (ProcessExit n, s) \<Rightarrow> Some (ProcessExit n, d\<lparr>processes := s\<rparr>)
           | Some (ProcessAbort, s) \<Rightarrow> Some (ProcessAbort, d\<lparr>processes := s\<rparr>)
           | Some (Returned Panic, s) \<Rightarrow> Some (Returned (Some Panic), d\<lparr>processes := s\<rparr>)
           | Some (Returned (Err e), s) \<Rightarrow> Some (Returned (Some (Err (ControllerError e))), d\<lparr>processes := s\<rparr>)
           | Some (Returned (Ok pending), s) \<Rightarrow>
               (case runtime of
                  Some e \<Rightarrow> closing pending (Err (RuntimeError e)) (d\<lparr>processes := s\<rparr>)
                | None \<Rightarrow> async_main js evs pending settings (d\<lparr>processes := s\<rparr>))))"

section \<open>The zygote is not left behind\<close>

lemma closing_kills:
  assumes "controller_zygote c = Some p" and "clock_lawful (processes d)"
  shows "\<exists>cs s. closing c r d = Some (Returned (Some r), d\<lparr>processes := s\<rparr>) \<and> advanced (processes d) (Kill p SIGTERM # cs) s"
proof -
  obtain s cs where "child_drop (Some p) (processes d) = Some s" "made (processes d) (Kill p SIGTERM # cs) s"
    using child_drop_kills [OF assms(2)] .
  with assms(1) show ?thesis by (auto simp: closing_def intro: advanced_made)
qed

text \<open>\<open>tended p s r s'\<close>: the daemon is serving and has sent no signal, or it has returned and told the zygote to end.\<close>

definition tended :: "pid \<Rightarrow> os \<Rightarrow> daemon_result \<Rightarrow> os \<Rightarrow> bool" where
  "tended p s r s' \<longleftrightarrow> (\<exists>cs. history s' = history s @ cs \<and>
     (case r of
        Returned None \<Rightarrow> \<forall>q sig. Kill q sig \<notin> set cs
      | Returned (Some v) \<Rightarrow> Kill p SIGTERM \<in> set cs
      | _ \<Rightarrow> False))"

lemma tended_closing:
  assumes "controller_zygote c = Some p" and "clock_lawful s" and "advanced s cs (processes d)"
  shows "\<exists>r' d'. closing c r d = Some (r', d') \<and> tended p s r' (processes d')"
proof -
  have "clock_lawful (processes d)" using assms(2) advanced_clock [OF assms(3)] by simp
  from closing_kills [OF assms(1) this, of r] obtain ds s' where
    d: "closing c r d = Some (Returned (Some r), d\<lparr>processes := s'\<rparr>)" and s': "advanced (processes d) (Kill p SIGTERM # ds) s'" by blast
  from advanced_trans [OF assms(3) s'] have "tended p s (Returned (Some r)) s'"
    unfolding tended_def by (intro exI [of _ "cs @ Kill p SIGTERM # ds"]) (simp add: advanced_def)
  with d show ?thesis by simp
qed

lemma make_async_calls:
  assumes "make_async fd s = (r, s')"
  obtains cs where "advanced s cs s'" "\<And>q sig. Kill q sig \<notin> set cs"
proof -
  have "all_calls (\<lambda>c. \<forall>q sig. c \<noteq> Kill q sig) (make_async fd :: (os, _, _) op)"
    unfolding make_async_def by (intro calls) simp_all
  from all_callsD [OF this assms] show thesis using that advanced_made by metis
qed

lemma main_process_made:
  assumes "main_process cd st s = Some (Returned (Ok c), s')"
  obtains p cs where "controller_zygote c = Some p" "advanced s cs s'"
proof -
  obtain r s1 where pair: "socket_pair s = (r, s1)" by fastforce
  have "all_calls (\<lambda>_. True) socket_pair" unfolding socket_pair_def by (intro calls) simp
  from all_callsD [OF this pair] obtain cs where cs: "made s cs s1" by blast
  from assms pair obtain cb v where run: "clone_process (cb :: (_, process_error, unit) callback) report_anyhow 0 s1 = Some (v, s')"
    and v: "case v of Returned (Ok p) \<Rightarrow> controller_zygote c = child_from p | _ \<Rightarrow> False"
    by (cases r) (fastforce simp: main_process_def Let_def split: prod.splits forked.splits res.splits)+
  from v obtain p where "v = Returned (Ok p)" "controller_zygote c = child_from p"
    by (auto split: forked.splits res.splits)
  with run show thesis using that clone_made child_from_pid advanced_trans advanced_made cs by (metis res.distinct(3))
qed

lemma accept_loop_not_ok: "fst (accept_loop tcp evs s) \<noteq> Some (Ok ())"
  by (induction tcp evs s rule: accept_loop.induct) auto

lemma serve_not_ok: "serve st evs n = (Some r, n') \<Longrightarrow> r \<noteq> Ok ()"
  using accept_loop_not_ok [of _ evs] by (auto simp: serve_def dest: arg_cong [of _ _ fst] split: res.splits prod.splits)

lemma async_main_tends:
  fixes d :: "('a, 'u) daemon"
  assumes "controller_zygote c = Some p" and "clock_lawful s" and "advanced s [] (processes d)"
  shows "\<exists>r d'. async_main js evs c st d = Some (r, d') \<and> tended p s r (processes d') \<and>
    (r = Returned None \<longrightarrow> (\<exists>fe. app d' = Some fe \<and> pending_builds fe = Map.empty \<and> locks (fe_store fe) = Map.empty)) \<and>
    r \<noteq> Returned (Some (Ok ()))"
proof -
  obtain m s1 where m: "make_async (controller_socket c) (processes d) = (m, s1)" by fastforce
  obtain cs where cs: "advanced (processes d) cs s1" "\<And>q sig. Kill q sig \<notin> set cs" using make_async_calls [OF m] by blast
  from advanced_trans [OF assms(3) cs(1)] have s1: "advanced s cs s1" by simp
  have clock: "clock_lawful s1" using advanced_clock [OF s1] assms(2) by simp
  show ?thesis
  proof (cases "m = Ok ()")
    case False
    obtain k ds where k: "child_drop (Some p) s1 = Some k" "advanced s1 (Kill p SIGTERM # ds) k"
      using child_drop_kills [OF clock, of p] advanced_made by metis
    from advanced_trans [OF s1 k(2)] have "tended p s (Returned (Some v)) k" for v
      unfolding tended_def by (intro exI [of _ "cs @ Kill p SIGTERM # ds"]) (simp add: advanced_def)
    with False m k(1) assms(1) show ?thesis
      by (cases m) (simp_all add: async_main_def into_controller_def drop_with_def)
  next
    case True
    with m have c: "into_controller c (processes d) = Some (Returned (Ok c), s1)" by (simp add: into_controller_def)
    obtain store :: "(error_kind, sandbox building_state) res" and w where b: "building_new js (setting_path (settings_store st)) (files d) = (store, w)" by fastforce
    have close: "\<exists>r' d'. closing c v d1 = Some (r', d') \<and> tended p s r' (processes d') \<and> r' = Returned (Some v)"
      if "processes d1 = s1" for v and d1 :: "('a, 'u) daemon"
      using tended_closing [OF assms(1,2), of cs d1 v] s1 that by (auto simp: closing_def)
    show ?thesis
    proof (cases "\<exists>x. store = Ok x")
      case False
      then obtain v where v: "v \<noteq> Ok ()" "async_main js evs c st d = closing c v (d\<lparr>processes := s1, files := w\<rparr>)"
        using c b by (cases store) (auto simp: async_main_def)
      with close [of "d\<lparr>processes := s1, files := w\<rparr>" v] show ?thesis by auto
    next
      case opened: True
      then obtain x where x: "store = Ok x" by blast
      obtain v n where srv: "serve (settings_daemon st) evs (net d) = (v, n)" by fastforce
      have "locks x = Map.empty" using b x by (auto simp: building_new_def split: res.splits prod.splits)
      then have fe: "locks (fe_store (create_routes (store_state.truncate x))) = Map.empty"
        "pending_builds (create_routes (store_state.truncate x)) = Map.empty"
        by (simp_all add: create_routes_def store_state.defs)
      show ?thesis
      proof (cases v)
        case None
        have "tended p s (Returned None) s1"
          unfolding tended_def using s1 cs(2) by (intro exI [of _ cs]) (simp add: advanced_def)
        with None c b x srv fe show ?thesis by (simp add: async_main_def frontend_main_def)
      next
        case (Some u)
        let ?d = "d\<lparr>processes := s1, files := w, app := Some (create_routes (store_state.truncate x)), net := n\<rparr>"
        from Some srv serve_not_ok have "u \<noteq> Ok ()" by blast
        then obtain v where v: "v \<noteq> Ok ()" "async_main js evs c st d = closing c v ?d"
          using Some c b x srv by (cases u) (auto simp: async_main_def frontend_main_def)
        with close [of ?d v] show ?thesis by auto
      qed
    qed
  qed
qed

text \<open>
  C34: Once the zygote runs, the start of the daemon always comes to one of two ends. Either it
  serves, with no builds and no locks, and has sent no signal; or it reports an error, and the
  zygote has been told to end: no failure of the runtime, of the store or of the sockets leaves
  the zygote behind.
\<close>

theorem daemon_tends_zygote:
  fixes d :: "('a, 'u) daemon"
  assumes "clock_lawful (processes d)" and "create_controller cd st (processes d) = Some (Returned (Ok c), s)"
  shows "\<exists>p r d' cs. controller_zygote c = Some p \<and> daemon_main cd (Inr st) runtime js evs d = Some (Returned r, d') \<and>
    history (processes d') = history s @ cs \<and>
    (case r of
       None \<Rightarrow> (\<forall>q sig. Kill q sig \<notin> set cs) \<and>
         (\<exists>fe. app d' = Some fe \<and> pending_builds fe = Map.empty \<and> locks (fe_store fe) = Map.empty)
     | Some v \<Rightarrow> v \<noteq> Ok () \<and> Kill p SIGTERM \<in> set cs)"
proof -
  from main_process_made assms(2) obtain p ds where p: "controller_zygote c = Some p" "advanced (processes d) ds s"
    unfolding create_controller_def by blast
  have clock: "clock_lawful s" using advanced_clock [OF p(2)] assms(1) by simp
  have stay: "advanced s [] (processes (d\<lparr>processes := s\<rparr>))" by (simp add: advanced_def)
  have "\<exists>r d'. daemon_main cd (Inr st) runtime js evs d = Some (r, d') \<and> tended p s r (processes d') \<and>
    (r = Returned None \<longrightarrow> (\<exists>fe. app d' = Some fe \<and> pending_builds fe = Map.empty \<and> locks (fe_store fe) = Map.empty)) \<and>
    r \<noteq> Returned (Some (Ok ()))"
  proof (cases runtime)
    case None
    with async_main_tends [OF p(1) clock stay] assms(2) show ?thesis by (simp add: daemon_main_def)
  next
    case (Some e)
    with tended_closing [OF p(1) clock stay, of "Err (RuntimeError e)"] assms(2) show ?thesis
      by (auto simp: daemon_main_def closing_def)
  qed
  then obtain r d' where r: "daemon_main cd (Inr st) runtime js evs d = Some (r, d')" "tended p s r (processes d')"
    "r = Returned None \<longrightarrow> (\<exists>fe. app d' = Some fe \<and> pending_builds fe = Map.empty \<and> locks (fe_store fe) = Map.empty)"
    "r \<noteq> Returned (Some (Ok ()))" by blast
  from r(2) obtain v where "r = Returned v" by (cases r) (auto simp: tended_def)
  with p(1) r show ?thesis by (auto simp: tended_def split: option.splits)
qed

definition some_settings :: settings where
  "some_settings = settings_from [47] None (daemon_settings_from \<lparr>sub_min = 1, sub_max = 2\<rparr> \<lparr>sub_min = 1, sub_max = 2\<rparr> None None)"

definition some_daemon :: "(nat, nat) daemon" where
  "some_daemon = \<lparr>processes = some_os, files = \<lparr>counter = 0, disk = \<lparr>nodes = Map.empty, sys_faults = [], overwrite = True\<rparr>\<rparr>,
     net = \<lparr>exists_answer = Inr False, remove_answer = None, unix_answer = None, resolve_answer = \<lambda>_. Inr [],
       tcp_answer = None, actions = []\<rparr>, app = None\<rparr>"

lemma some_daemon_clones:
  "\<exists>c s. create_controller some_codecs st (processes some_daemon) = Some (Returned (Ok c), s)"
  by (simp add: create_controller_def some_daemon_def main_process_def socket_pair_def on_error_def sum_call_def ask_def
      record_call_def Let_def clone_process_def clone_internal_def clone3_def some_kernel_def)

text \<open>The runtime cannot be made.\<close>

theorem daemon_tends_zygote_witness:
  "\<exists>p v d'. daemon_main some_codecs (Inr some_settings) (Some WouldBlock) [] [] some_daemon = Some (Returned (Some v), d') \<and>
    v \<noteq> Ok () \<and> Kill p SIGTERM \<in> set (history (processes d'))"
proof -
  have "clock_lawful (processes some_daemon)" by (simp add: some_daemon_def)
  moreover obtain c s where c: "create_controller some_codecs some_settings (processes some_daemon) = Some (Returned (Ok c), s)"
    using some_daemon_clones by blast
  ultimately obtain p r d' cs where run: "daemon_main some_codecs (Inr some_settings) (Some WouldBlock) [] [] some_daemon = Some (Returned r, d')"
    "history (processes d') = history s @ cs" "r = None \<or> (\<exists>v. r = Some v \<and> v \<noteq> Ok () \<and> Kill p SIGTERM \<in> set cs)"
    using daemon_tends_zygote [of some_daemon some_codecs some_settings c s "Some WouldBlock" "[]" "[]"] by (auto split: option.splits)
  have "r \<noteq> None" using run(1) c by (auto simp: daemon_main_def closing_def)
  with run show ?thesis by auto
qed

end
