(* ===== verification/Unix_Path.thy ===== *)
theory Unix_Path
  imports Nck_Prelude "HOL-Library.List_Lexorder"
begin

text \<open>
  The parts of \<open>std::path\<close> that the command line uses: the components of a path, in which paths
  are compared and sorted.
\<close>

text \<open>
  Paths are compared by their components, in the order of the declaration of
  \<open>std::path::Component\<close>. A dot is a component at the start of a path only.
\<close>

datatype component = RootDir | CurDir | ParentDir | NormalName bytes

fun component_rank :: "component \<Rightarrow> nat \<times> bytes" where
  "component_rank RootDir = (0, [])"
| "component_rank CurDir = (1, [])"
| "component_rank ParentDir = (2, [])"
| "component_rank (NormalName n) = (3, n)"

lemma component_rank_inject [simp]: "component_rank a = component_rank b \<longleftrightarrow> a = b"
  by (cases a; cases b) auto

instantiation component :: linorder
begin

definition less_eq_component :: "component \<Rightarrow> component \<Rightarrow> bool" where
  "less_eq_component a b \<longleftrightarrow>
     (case (component_rank a, component_rank b) of ((i, m), (j, n)) \<Rightarrow> i < j \<or> i = j \<and> m \<le> n)"

definition less_component :: "component \<Rightarrow> component \<Rightarrow> bool" where
  "less_component a b \<longleftrightarrow> a \<le> b \<and> \<not> b \<le> (a :: component)"

instance
proof
  fix a b c :: component
  show "(a < b) = (a \<le> b \<and> \<not> b \<le> a)" by (rule less_component_def)
  show "a \<le> a" by (simp add: less_eq_component_def case_prod_unfold)
  show "a \<le> b \<Longrightarrow> b \<le> c \<Longrightarrow> a \<le> c" by (auto simp: less_eq_component_def case_prod_unfold)
  show "a \<le> b \<Longrightarrow> b \<le> a \<Longrightarrow> a = b"
    by (simp add: component_rank_inject [symmetric] del: component_rank_inject)
      (auto simp: less_eq_component_def case_prod_unfold prod_eq_iff)
  show "a \<le> b \<or> b \<le> a" by (auto simp: less_eq_component_def case_prod_unfold)
qed

end

definition has_root :: "bytes \<Rightarrow> bool" where
  "has_root p \<longleftrightarrow> p \<noteq> [] \<and> p ! 0 = 47"

fun segments :: "bytes \<Rightarrow> bytes \<Rightarrow> bytes list" where
  "segments cur [] = [cur]"
| "segments cur (b # bs) = (if b = 47 then cur # segments [] bs else segments (cur @ [b]) bs)"

definition path_components :: "bytes \<Rightarrow> component list" where
  "path_components p =
     (let segs = segments [] p in
      (if has_root p then [RootDir] else if take 1 segs = [[46]] then [CurDir] else []) @
      map (\<lambda>s. if s = [46, 46] then ParentDir else NormalName s) (filter (\<lambda>s. s \<notin> {[], [46]}) segs))"

text \<open>\<open>sort_unstable\<close>: which of two spellings of one path comes first is left to the stable sort.\<close>

definition sort_paths :: "bytes list \<Rightarrow> bytes list" where
  "sort_paths = sort_key path_components"

text \<open>Two paths are equal when their components are: a slash at the end makes no difference.\<close>

definition path_eq :: "bytes \<Rightarrow> bytes \<Rightarrow> bool" where
  "path_eq p q \<longleftrightarrow> path_components p = path_components q"

lemma path_eq_refl [simp]: "path_eq p p"
  by (simp add: path_eq_def)

lemma segments_slash: "segments cur (p @ [47]) = segments cur p @ [[]]"
  by (induction cur p rule: segments.induct) auto

lemma segments_not_Nil: "segments cur p \<noteq> []"
  by (induction cur p rule: segments.induct) auto

lemma path_eq_slash: "p \<noteq> [] \<Longrightarrow> path_eq (p @ [47]) p"
  using segments_not_Nil [of "[]" p]
  by (cases "segments [] p") (auto simp: path_eq_def path_components_def segments_slash has_root_def nth_append Let_def)

end
