(* ===== verification/Cli_Create.thy ===== *)
theory Cli_Create
  imports Archive_Async File_System Unix_Path
begin

text \<open>
  \<open>crates/cli/src/archive/create.rs\<close>: the command that creates an archive. Two tasks run
  concurrently: the traversal of the files, and the task that writes their contents; a bounded
  channel carries the opened files from the first to the second, and an unbounded one collects
  the entries of both. Their interleavings are the runs of a step relation.
\<close>

section \<open>What the traversal sees\<close>

text \<open>
  The answers of the file system, which does not change while the archive is made. Listing a
  directory gives a name, or an error, at a time.
\<close>

datatype file_kind = Directory | Regular | Symlink | Special

record file_stat =
  stat_mode :: "32 word"
  stat_kind :: file_kind

record tree =
  stat_at :: "bytes \<Rightarrow> error_kind + file_stat"
  list_at :: "bytes \<Rightarrow> error_kind + (error_kind + bytes) list"
  file_at :: "bytes \<Rightarrow> error_kind + source"
  link_at :: "bytes \<Rightarrow> error_kind + bytes"

definition stat_flags :: "file_stat \<Rightarrow> entry_flags" where
  "stat_flags s = (if stat_mode s AND 73 \<noteq> 0 then EXECUTABLE else 0)"

text \<open>
  The names under a directory, put under the path as it was given: what \<open>DirEntry::path\<close>
  returns is the full path joined with the name, and the full path is stripped again.
\<close>

fun list_nested :: "bytes \<Rightarrow> (error_kind + bytes) list \<Rightarrow> error_kind + bytes list" where
  "list_nested file [] = Inr []"
| "list_nested file (Inl e # ns) = Inl e"
| "list_nested file (Inr name # ns) =
     (case list_nested file ns of Inl e \<Rightarrow> Inl e | Inr ps \<Rightarrow> Inr (path_join file name # ps))"

section \<open>The two tasks\<close>

type_synonym opened = "bytes \<times> source \<times> entry_flags"

datatype create_error = IoError error_kind | JoinError | Panicked

datatype phase =
    Walking "bytes list" \<comment> \<open>the queue of the traversal\<close>
  | Sending opened "bytes list" \<comment> \<open>awaiting room in the channel of the files\<close>
  | Joining
  | Writing writer
  | Finished "create_error + writer" \<comment> \<open>with the writer that is dropped on return\<close>

datatype task =
    Receiving writer
  | Copying opened writer
  | Ended "(error_kind, writer) res"

text \<open>\<open>flushed\<close> is what had been written when the writer was last flushed.\<close>

record create_state =
  phase :: phase
  task :: task
  data_chan :: "opened list"
  entry_chan :: "entry list"
  flushed :: bytes

definition DATA_CHANNEL :: nat where
  "DATA_CHANNEL = 20"

definition send_entry :: "entry \<Rightarrow> create_state \<Rightarrow> create_state" where
  "send_entry e st = st\<lparr>entry_chan := entry_chan st @ [e]\<rparr>"

definition fail_with :: "error_kind \<Rightarrow> create_state \<Rightarrow> create_state" where
  "fail_with e st = st\<lparr>phase := Finished (Inl (IoError e))\<rparr>"

definition full_path :: "bytes \<Rightarrow> bytes \<Rightarrow> bytes" where
  "full_path directory file = (if has_root file then file else path_join directory file)"

text \<open>
  One iteration of the traversal; \<open>rest\<close> is the queue behind the file. The receiver of the
  entries is alive as long as the traversal, so sending one never fails.
\<close>

definition visit_directory :: "tree \<Rightarrow> bytes \<Rightarrow> bytes \<Rightarrow> bytes list \<Rightarrow> create_state \<Rightarrow> create_state" where
  "visit_directory t full file rest st =
     (let st1 = send_entry (entry_directory file) st in
      case list_at t full of
        Inl e \<Rightarrow> fail_with e st1
      | Inr answers \<Rightarrow>
          (case list_nested file answers of
             Inl e \<Rightarrow> fail_with e st1
           | Inr nested \<Rightarrow> st1\<lparr>phase := Walking (rest @ sort_paths nested)\<rparr>))"

definition visit :: "tree \<Rightarrow> bytes \<Rightarrow> bytes \<Rightarrow> bytes list \<Rightarrow> create_state \<Rightarrow> create_state" where
  "visit t directory file rest st =
     (let full = full_path directory file in
      case stat_at t full of
        Inl e \<Rightarrow> fail_with e st
      | Inr s \<Rightarrow>
          (case stat_kind s of
             Directory \<Rightarrow> visit_directory t full file rest st
           | Regular \<Rightarrow>
               (case file_at t full of
                  Inl e \<Rightarrow> fail_with e st
                | Inr content \<Rightarrow> st\<lparr>phase := Sending (file, content, stat_flags s) rest\<rparr>)
           | Symlink \<Rightarrow>
               (case link_at t full of
                  Inl e \<Rightarrow> fail_with e st
                | Inr src \<Rightarrow> (send_entry (entry_link file src (Some (stat_flags s))) st)\<lparr>phase := Walking rest\<rparr>)
           | Special \<Rightarrow> st\<lparr>phase := Walking rest\<rparr>))"

fun task_ended :: "task \<Rightarrow> bool" where
  "task_ended (Ended r) = True"
| "task_ended _ = False"

text \<open>
  Sending a file waits for room in the channel, and fails when the other task is gone; the
  traversal then stops, and the result of that task is the result.
\<close>

definition send_file :: "opened \<Rightarrow> bytes list \<Rightarrow> create_state \<Rightarrow> create_state option" where
  "send_file f rest st =
     (if task_ended (task st) then Some (st\<lparr>phase := Joining\<rparr>)
      else if length (data_chan st) < DATA_CHANNEL
      then Some (st\<lparr>phase := Walking rest, data_chan := data_chan st @ [f]\<rparr>)
      else None)"

definition join_task :: "create_state \<Rightarrow> create_state option" where
  "join_task st =
     (case task st of
        Ended (Ok w) \<Rightarrow> Some (st\<lparr>phase := Writing w\<rparr>)
      | Ended (Err e) \<Rightarrow> Some (fail_with e st)
      | Ended Panic \<Rightarrow> Some (st\<lparr>phase := Finished (Inl JoinError)\<rparr>)
      | _ \<Rightarrow> None)"

text \<open>By then no sender of entries is left: an empty channel is a closed one.\<close>

definition write_next :: "writer \<Rightarrow> create_state \<Rightarrow> create_state option" where
  "write_next w st =
     (case entry_chan st of
        [] \<Rightarrow> Some (st\<lparr>phase := Finished (Inr w)\<rparr>)
      | e # es \<Rightarrow>
          (case write_entry_async e w of
             (Ok _, w') \<Rightarrow> Some (st\<lparr>phase := Writing w', entry_chan := es\<rparr>)
           | (Err e, _) \<Rightarrow> Some ((fail_with e st)\<lparr>entry_chan := es\<rparr>)
           | (Panic, _) \<Rightarrow> Some (st\<lparr>phase := Finished (Inl Panicked), entry_chan := es\<rparr>)))"

definition main_step :: "tree \<Rightarrow> bytes \<Rightarrow> create_state \<Rightarrow> create_state option" where
  "main_step t directory st =
     (case phase st of
        Walking [] \<Rightarrow> Some (st\<lparr>phase := Joining\<rparr>)
      | Walking (file # rest) \<Rightarrow> Some (visit t directory file rest st)
      | Sending f rest \<Rightarrow> send_file f rest st
      | Joining \<Rightarrow> join_task st
      | Writing w \<Rightarrow> write_next w st
      | Finished r \<Rightarrow> None)"

text \<open>
  \<open>tokio::io::copy\<close>: what a read delivers is written, and at the end of the file the writer is
  flushed. The buffer is tokio's.
\<close>

definition COPY_BUFFER :: nat where
  "COPY_BUFFER = 8192"

function tokio_copy ::
    "source \<Rightarrow> data_writer \<Rightarrow> ((error_kind, unit) res \<times> data_writer) option" where
  "tokio_copy s d =
     (case src_read COPY_BUFFER s of
        (Ok bs, s') \<Rightarrow>
          if bs = [] then Some (Ok (), d)
          else
            (case write_all_polled data_poll_write bs d of
               None \<Rightarrow> None
             | Some (Ok _, d') \<Rightarrow> tokio_copy s' d'
             | Some (Err e, d') \<Rightarrow> Some (Err e, d')
             | Some (Panic, d') \<Rightarrow> Some (Panic, d'))
      | (Err e, s') \<Rightarrow> Some (Err e, d)
      | (Panic, s') \<Rightarrow> Some (Panic, d))"
  by pat_completeness auto
termination
proof (relation "measure (\<lambda>(s, d). length (avail s))", goal_cases)
  case 1
  show ?case by simp
next
  case (2 s d r s' bs)
  then show ?case using src_read_Ok [of COPY_BUFFER s bs s'] by (cases bs) auto
qed

declare tokio_copy.simps [simp del]

text \<open>What the second task does with a file: the writer, the digest, and what was flushed.\<close>

definition copy_file_data ::
    "digest \<Rightarrow> source \<Rightarrow> writer \<Rightarrow> (error_kind, writer \<times> supported_hash \<times> bytes) res option" where
  "copy_file_data b3 content w =
     (case write_data_async supported_hasher_blake3 w of
        (Err e, _) \<Rightarrow> Some (Err e)
      | (Panic, _) \<Rightarrow> Some Panic
      | (Ok d, _) \<Rightarrow>
          (case tokio_copy content d of
             None \<Rightarrow> None
           | Some (Err e, _) \<Rightarrow> Some (Err e)
           | Some (Panic, _) \<Rightarrow> Some Panic
           | Some (Ok _, d') \<Rightarrow>
               Some (map_res (\<lambda>(w', h). (w', h, written (sink_of (dw_writer d'))))
                 (fst (finish_data_async b3 d')))))"

text \<open>The channel of the files is closed when the traversal is over, one way or another.\<close>

fun walking :: "phase \<Rightarrow> bool" where
  "walking (Walking q) = True"
| "walking (Sending f q) = True"
| "walking _ = False"

fun finished_phase :: "phase \<Rightarrow> bool" where
  "finished_phase (Finished r) = True"
| "finished_phase _ = False"

definition receive_file :: "writer \<Rightarrow> create_state \<Rightarrow> create_state option" where
  "receive_file w st =
     (case data_chan st of
        f # fs \<Rightarrow> Some (st\<lparr>task := Copying f w, data_chan := fs\<rparr>)
      | [] \<Rightarrow> if walking (phase st) then None else Some (st\<lparr>task := Ended (Ok w)\<rparr>))"

text \<open>When the command has returned, the receiver of the entries is gone, and the task stops.\<close>

definition copy_next :: "digest \<Rightarrow> opened \<Rightarrow> writer \<Rightarrow> create_state \<Rightarrow> create_state option" where
  "copy_next b3 f w st =
     (case f of (file, content, flags) \<Rightarrow>
        (case copy_file_data b3 content w of
           None \<Rightarrow> None
         | Some (Ok (w', hash, fl)) \<Rightarrow>
             if finished_phase (phase st) then Some (st\<lparr>task := Ended (Ok w'), flushed := fl\<rparr>)
             else Some ((send_entry (entry_data file hash (Some flags)) st)\<lparr>task := Receiving w', flushed := fl\<rparr>)
         | Some (Err e) \<Rightarrow> Some (st\<lparr>task := Ended (Err e)\<rparr>)
         | Some Panic \<Rightarrow> Some (st\<lparr>task := Ended Panic\<rparr>)))"

definition task_step :: "digest \<Rightarrow> create_state \<Rightarrow> create_state option" where
  "task_step b3 st =
     (case task st of
        Receiving w \<Rightarrow> receive_file w st
      | Copying f w \<Rightarrow> copy_next b3 f w st
      | Ended r \<Rightarrow> None)"

inductive create_step :: "tree \<Rightarrow> bytes \<Rightarrow> digest \<Rightarrow> create_state \<Rightarrow> create_state \<Rightarrow> bool"
  for t :: tree and directory :: bytes and b3 :: digest where
  main: "main_step t directory st = Some st' \<Longrightarrow> create_step t directory b3 st st'"
| task: "task_step b3 st = Some st' \<Longrightarrow> create_step t directory b3 st st'"

inductive_cases create_stepE: "create_step t directory b3 st st'"

section \<open>The command\<close>

record create_cli =
  create_output :: "bytes option"
  create_directory :: "bytes option"
  create_files :: "bytes list"

text \<open>
  \<open>execute\<close> up to the traversal: the sink is the \<open>BufWriter\<close> over the opened file or over the
  standard output.
\<close>

definition base_directory :: "create_cli \<Rightarrow> bytes \<Rightarrow> bytes" where
  "base_directory cli cwd =
     (case create_directory cli of
        None \<Rightarrow> cwd
      | Some v \<Rightarrow> if has_root v then v else path_join cwd v)"

definition create_start ::
    "(bytes \<Rightarrow> error_kind + sink) \<Rightarrow> sink \<Rightarrow> error_kind + bytes \<Rightarrow> create_cli \<Rightarrow>
       create_error + bytes \<times> create_state" where
  "create_start open_output stdout cwd cli =
     (case (case create_output cli of None \<Rightarrow> Inr stdout | Some v \<Rightarrow> open_output v) of
        Inl e \<Rightarrow> Inl (IoError e)
      | Inr s \<Rightarrow>
          (case writer_new_async s of
             (Err e, _) \<Rightarrow> Inl (IoError e)
           | (Panic, _) \<Rightarrow> Inl Panicked
           | (Ok w, _) \<Rightarrow>
               (case cwd of
                  Inl e \<Rightarrow> Inl (IoError e)
                | Inr cwd \<Rightarrow>
                    Inr (base_directory cli cwd,
                      \<lparr>phase = Walking (sort_paths (create_files cli)), task = Receiving w,
                       data_chan = [], entry_chan = [], flushed = []\<rparr>))))"

section \<open>Copying a file\<close>

lemma tokio_copy_law:
  "polled_blob_state pre base x [] d \<Longrightarrow>
     (\<exists>d'. tokio_copy s d = Some (Ok (), d') \<and> polled_blob_state pre base (x @ avail s) [] d') \<or>
     (\<exists>e d'. tokio_copy s d = Some (Err e, d') \<and> e \<in> faults s)"
proof (induction s d arbitrary: x rule: tokio_copy.induct)
  case (1 s d)
  show ?case
  proof (cases COPY_BUFFER s rule: src_read_cases)
    case (Ok bs s')
    show ?thesis
    proof (cases "bs = []")
      case True
      with Ok "1.prems" have "avail s = []" by (simp add: COPY_BUFFER_def)
      with True Ok(1) "1.prems" show ?thesis by (simp add: tokio_copy.simps [of s d])
    next
      case False
      from polled_data_writer.write_all_polled_law [OF polled_data_writer.next_buffer [OF "1.prems"], of bs]
      obtain d1 where d1: "write_all_polled data_poll_write bs d = Some (Ok (), d1)"
        "polled_blob_state pre base (x @ bs) [] d1" by auto
      from "1.IH" [OF Ok(1) [symmetric] refl False d1(1) _ refl d1(2)] d1(1) Ok False show ?thesis
        by (auto simp: tokio_copy.simps [of s d])
    qed
  next
    case (Err e s')
    then show ?thesis by (simp add: tokio_copy.simps [of s d])
  qed
qed

text \<open>
  The blob of a file is the file's content, in chunks that depend on how it was read; when the
  file cannot be read to its end the copy fails. Everything but the end of the blob has been
  flushed.
\<close>

lemma copy_file_data_at:
  assumes "calm_writer_at w a"
  obtains (copied) w' cs where
    "copy_file_data b3 s w = Some (Ok (w', Blake3 (b3 (avail s)), a @ ENTRY_DATA # enc_chunks cs))"
    "\<forall>c \<in> set cs. chunk_valid c" "concat cs = avail s"
    "calm_writer_at w' (a @ enc_blob cs (Blake3 (b3 (avail s))))"
  | (failed) e where "copy_file_data b3 s w = Some (Err e)" "e \<in> faults s"
proof -
  from write_data_async_at [OF assms] obtain d w1 where
    d: "write_data_async supported_hasher_blake3 w = (Ok d, w1)" "polled_blob_state [] (a @ [ENTRY_DATA]) [] [] d" .
  from tokio_copy_law [OF d(2), of s] show thesis
  proof (elim disjE exE conjE, goal_cases)
    case (1 d')
    then have "polled_blob_state [] (a @ [ENTRY_DATA]) (avail s) [] d'" by simp
    from finish_data_async_at [OF this, of b3] obtain w' d2 cs where
      "finish_data_async b3 d' = (Ok (w', Blake3 (b3 (avail s))), d2)" "\<forall>c \<in> set cs. chunk_valid c"
      "concat cs = avail s" "calm_writer_at w' (a @ enc_blob cs (Blake3 (b3 (avail s))))"
      "written (sink_of (dw_writer d')) = a @ ENTRY_DATA # enc_chunks cs" .
    with d(1) 1 show ?case by (intro copied [of w' cs]) (simp_all add: copy_file_data_def)
  next
    case (2 e d')
    with d(1) show ?case by (intro failed [of e]) (simp_all add: copy_file_data_def)
  qed
qed

text \<open>Writing an entry succeeds exactly for the entries that fit their length prefixes.\<close>

lemma write_length_prefixed_async_Ok:
  "write_length_prefixed_async bs w = (Ok u, w') \<Longrightarrow> length bs \<le> MAX_LENGTH"
  by (auto simp: write_length_prefixed_async_def split: if_splits)

lemma write_entry_async_Ok:
  assumes "write_entry_async e w = (Ok u, w')"
  shows "length (path e) \<le> MAX_LENGTH"
    and "target e = TLink dest flags \<Longrightarrow> length dest \<le> MAX_LENGTH"
  using assms unfolding write_entry_async_def
  by (auto elim!: io_then_OkE dest: write_length_prefixed_async_Ok)

end
