(* ===== verification/Cli_Create_Runs.thy ===== *)
theory Cli_Create_Runs
  imports Cli_Create
begin

text \<open>
  The runs of the command that creates an archive (theory \<open>Cli_Create\<close>): whatever the
  interleaving of its two tasks, the archive holds what a breadth-first traversal visits, a
  directory comes before what is in it, the tasks do not block each other, and they end.
\<close>

section \<open>The traversal as a specification\<close>

text \<open>
  What the visit of a file contributes, and what it puts into the queue. The traversal is a
  relation from the queue at the start to the queue and the items so far.
\<close>

datatype item = IEntry entry | IFile opened

definition visited :: "tree \<Rightarrow> bytes \<Rightarrow> bytes \<Rightarrow> (item list \<times> bytes list) option" where
  "visited t directory file =
     (case stat_at t (full_path directory file) of
        Inl _ \<Rightarrow> None
      | Inr s \<Rightarrow>
          (case stat_kind s of
             Directory \<Rightarrow>
               (case list_at t (full_path directory file) of
                  Inl _ \<Rightarrow> None
                | Inr answers \<Rightarrow>
                    (case list_nested file answers of
                       Inl _ \<Rightarrow> None
                     | Inr nested \<Rightarrow> Some ([IEntry (entry_directory file)], sort_paths nested)))
           | Regular \<Rightarrow>
               (case file_at t (full_path directory file) of
                  Inl _ \<Rightarrow> None
                | Inr content \<Rightarrow> Some ([IFile (file, content, stat_flags s)], []))
           | Symlink \<Rightarrow>
               (case link_at t (full_path directory file) of
                  Inl _ \<Rightarrow> None
                | Inr src \<Rightarrow> Some ([IEntry (entry_link file src (Some (stat_flags s)))], []))
           | Special \<Rightarrow> Some ([], [])))"

inductive walked :: "tree \<Rightarrow> bytes \<Rightarrow> bytes list \<Rightarrow> bytes list \<Rightarrow> item list \<Rightarrow> bool"
  for t :: tree and directory :: bytes and roots :: "bytes list" where
  start: "walked t directory roots roots []"
| visit: "walked t directory roots (file # rest) is \<Longrightarrow> visited t directory file = Some (js, nested) \<Longrightarrow>
     walked t directory roots (rest @ nested) (is @ js)"

fun item_entries :: "item \<Rightarrow> entry list" where
  "item_entries (IEntry e) = [e]"
| "item_entries (IFile f) = []"

fun item_files :: "item \<Rightarrow> opened list" where
  "item_files (IEntry e) = []"
| "item_files (IFile f) = [f]"

definition entries_of :: "item list \<Rightarrow> entry list" where
  "entries_of is = concat (map item_entries is)"

definition files_of :: "item list \<Rightarrow> opened list" where
  "files_of is = concat (map item_files is)"

fun data_entry :: "digest \<Rightarrow> opened \<Rightarrow> entry" where
  "data_entry b3 (file, content, flags) = entry_data file (Blake3 (b3 (avail content))) (Some flags)"

fun content_of :: "opened \<Rightarrow> bytes" where
  "content_of (file, content, flags) = avail content"

lemma items_simps [simp]:
  "entries_of [] = []" "files_of [] = []"
  "entries_of (is @ js) = entries_of is @ entries_of js" "files_of (is @ js) = files_of is @ files_of js"
  "entries_of [IFile f] = []" "files_of [IFile f] = [f]"
  "entries_of (map IEntry es) = es" "files_of (map IEntry es) = []"
  by (simp_all add: entries_of_def files_of_def) (induction es; simp)+

section \<open>The kinds of steps\<close>

text \<open>
  A visit fails, leaving at most an entry behind, sends entries and goes on, or has a file to
  send.
\<close>

lemma visit_cases:
  obtains (fails) e es where "visit t directory p rest st =
      st\<lparr>phase := Finished (Inl e), entry_chan := entry_chan st @ es\<rparr>"
      "visited t directory p = None" "length es \<le> 1"
  | (entries) es nested where "visit t directory p rest st =
      st\<lparr>phase := Walking (rest @ nested), entry_chan := entry_chan st @ es\<rparr>"
      "visited t directory p = Some (map IEntry es, nested)" "length es \<le> 1"
      "\<forall>e \<in> set es. path e = p \<and> (\<forall>h fl. target e \<noteq> TData h fl)"
      "nested \<noteq> [] \<longrightarrow> es = [entry_directory p]"
  | (opens) content flags where "visit t directory p rest st =
      st\<lparr>phase := Sending (p, content, flags) rest\<rparr>"
      "visited t directory p = Some ([IFile (p, content, flags)], [])"
proof -
  let ?v = "visit t directory p rest st"
  note d = visit_def visited_def visit_directory_def Let_def fail_with_def send_entry_def
  have "(\<exists>e es. ?v = st\<lparr>phase := Finished (Inl e), entry_chan := entry_chan st @ es\<rparr> \<and>
      visited t directory p = None \<and> length es \<le> 1) \<or>
    (\<exists>es nested. ?v = st\<lparr>phase := Walking (rest @ nested), entry_chan := entry_chan st @ es\<rparr> \<and>
      visited t directory p = Some (map IEntry es, nested) \<and> length es \<le> 1 \<and>
      (\<forall>e \<in> set es. path e = p \<and> (\<forall>h fl. target e \<noteq> TData h fl)) \<and>
      (nested \<noteq> [] \<longrightarrow> es = [entry_directory p])) \<or>
    (\<exists>content flags. ?v = st\<lparr>phase := Sending (p, content, flags) rest\<rparr> \<and>
      visited t directory p = Some ([IFile (p, content, flags)], []))"
  proof (cases "stat_at t (full_path directory p)")
    case (Inl e)
    then show ?thesis
      by (intro disjI1 exI [of _ "IoError e"] exI [of _ "[]"]) (simp add: d)
  next
    case stat: (Inr s)
    show ?thesis
    proof (cases "stat_kind s")
      case Directory
      note k = stat Directory
      show ?thesis
      proof (cases "list_at t (full_path directory p)")
        case (Inl e)
        with k show ?thesis
          by (intro disjI1 exI [of _ "IoError e"] exI [of _ "[entry_directory p]"]) (simp add: d)
      next
        case (Inr answers)
        note k = k Inr
        show ?thesis
        proof (cases "list_nested p answers")
          case (Inl e)
          with k show ?thesis
            by (intro disjI1 exI [of _ "IoError e"] exI [of _ "[entry_directory p]"]) (simp add: d)
        next
          case (Inr nested)
          with k show ?thesis
            by (intro disjI2 disjI1 exI [of _ "[entry_directory p]"] exI [of _ "sort_paths nested"])
              (simp add: d entry_directory_def entry_new_def)
        qed
      qed
    next
      case Regular
      with stat show ?thesis
      proof (cases "file_at t (full_path directory p)")
        case (Inl e)
        with stat Regular show ?thesis
          by (intro disjI1 exI [of _ "IoError e"] exI [of _ "[]"]) (simp add: d)
      next
        case (Inr c)
        with stat Regular show ?thesis
          by (intro disjI2 exI [of _ c] exI [of _ "stat_flags s"]) (simp add: d)
      qed
    next
      case Symlink
      show ?thesis
      proof (cases "link_at t (full_path directory p)")
        case (Inl e)
        with stat Symlink show ?thesis
          by (intro disjI1 exI [of _ "IoError e"] exI [of _ "[]"]) (simp add: d)
      next
        case (Inr src)
        with stat Symlink show ?thesis
          by (intro disjI2 disjI1 exI [of _ "[entry_link p src (Some (stat_flags s))]"] exI [of _ "[]"])
            (simp add: d entry_link_def entry_new_def)
      qed
    next
      case Special
      with stat show ?thesis
        by (intro disjI2 disjI1 exI [of _ "[]"]) (simp add: d)
    qed
  qed
  then show thesis by (elim disjE exE conjE) (rule fails entries opens, assumption+)+
qed


text \<open>The steps, one by one.\<close>

inductive step_kind :: "tree \<Rightarrow> bytes \<Rightarrow> digest \<Rightarrow> create_state \<Rightarrow> create_state \<Rightarrow> bool"
  for t :: tree and directory :: bytes and b3 :: digest where
  walk_end: "phase st = Walking [] \<Longrightarrow> step_kind t directory b3 st (st\<lparr>phase := Joining\<rparr>)"
| visit_fails: "phase st = Walking (file # rest) \<Longrightarrow> visited t directory file = None \<Longrightarrow> length es \<le> 1 \<Longrightarrow>
     step_kind t directory b3 st (st\<lparr>phase := Finished (Inl e), entry_chan := entry_chan st @ es\<rparr>)"
| visit_entries: "phase st = Walking (file # rest) \<Longrightarrow>
     visited t directory file = Some (map IEntry es, nested) \<Longrightarrow> length es \<le> 1 \<Longrightarrow>
     \<forall>e \<in> set es. path e = file \<and> (\<forall>h fl. target e \<noteq> TData h fl) \<Longrightarrow>
     nested \<noteq> [] \<longrightarrow> es = [entry_directory file] \<Longrightarrow>
     step_kind t directory b3 st (st\<lparr>phase := Walking (rest @ nested), entry_chan := entry_chan st @ es\<rparr>)"
| visit_file: "phase st = Walking (file # rest) \<Longrightarrow>
     visited t directory file = Some ([IFile (file, content, flags)], []) \<Longrightarrow>
     step_kind t directory b3 st (st\<lparr>phase := Sending (file, content, flags) rest\<rparr>)"
| send_fails: "phase st = Sending f rest \<Longrightarrow> task st = Ended r \<Longrightarrow>
     step_kind t directory b3 st (st\<lparr>phase := Joining\<rparr>)"
| send: "phase st = Sending f rest \<Longrightarrow> \<not> task_ended (task st) \<Longrightarrow> length (data_chan st) < DATA_CHANNEL \<Longrightarrow>
     step_kind t directory b3 st (st\<lparr>phase := Walking rest, data_chan := data_chan st @ [f]\<rparr>)"
| join: "phase st = Joining \<Longrightarrow> task st = Ended (Ok w) \<Longrightarrow>
     step_kind t directory b3 st (st\<lparr>phase := Writing w\<rparr>)"
| join_fails: "phase st = Joining \<Longrightarrow> task st = Ended r \<Longrightarrow> \<forall>w. r \<noteq> Ok w \<Longrightarrow>
     step_kind t directory b3 st (st\<lparr>phase := Finished (Inl e)\<rparr>)"
| write_entry: "phase st = Writing w \<Longrightarrow> entry_chan st = e # es \<Longrightarrow> write_entry_async e w = (Ok u, w') \<Longrightarrow>
     step_kind t directory b3 st (st\<lparr>phase := Writing w', entry_chan := es\<rparr>)"
| write_fails: "phase st = Writing w \<Longrightarrow> entry_chan st = e # es \<Longrightarrow> write_entry_async e w = (r, w') \<Longrightarrow>
     \<forall>u. r \<noteq> Ok u \<Longrightarrow>
     step_kind t directory b3 st (st\<lparr>phase := Finished (Inl er), entry_chan := es\<rparr>)"
| write_end: "phase st = Writing w \<Longrightarrow> entry_chan st = [] \<Longrightarrow>
     step_kind t directory b3 st (st\<lparr>phase := Finished (Inr w)\<rparr>)"
| receive: "task st = Receiving w \<Longrightarrow> data_chan st = f # fs \<Longrightarrow>
     step_kind t directory b3 st (st\<lparr>task := Copying f w, data_chan := fs\<rparr>)"
| task_end: "task st = Receiving w \<Longrightarrow> data_chan st = [] \<Longrightarrow> \<not> walking (phase st) \<Longrightarrow>
     step_kind t directory b3 st (st\<lparr>task := Ended (Ok w)\<rparr>)"
| copy_unsent: "task st = Copying (file, content, flags) w \<Longrightarrow> copy_file_data b3 content w = Some (Ok (w', h, fl)) \<Longrightarrow>
     phase st = Finished r \<Longrightarrow> step_kind t directory b3 st (st\<lparr>task := Ended (Ok w'), flushed := fl\<rparr>)"
| copy_sent: "task st = Copying (file, content, flags) w \<Longrightarrow> copy_file_data b3 content w = Some (Ok (w', h, fl)) \<Longrightarrow>
     \<not> finished_phase (phase st) \<Longrightarrow>
     step_kind t directory b3 st
       (st\<lparr>entry_chan := entry_chan st @ [entry_data file h (Some flags)], task := Receiving w', flushed := fl\<rparr>)"
| copy_fails: "task st = Copying (file, content, flags) w \<Longrightarrow> copy_file_data b3 content w = Some r \<Longrightarrow>
     \<forall>x. r \<noteq> Ok x \<Longrightarrow> x = Ended (Err e) \<or> x = Ended Panic \<Longrightarrow>
     step_kind t directory b3 st (st\<lparr>task := x\<rparr>)"

lemma main_step_kind: "main_step t directory st = Some st' \<Longrightarrow> step_kind t directory b3 st st'"
proof (cases "phase st")
  case (Walking q)
  assume main: "main_step t directory st = Some st'"
  show ?thesis
  proof (cases q)
    case Nil
    with main Walking show ?thesis by (auto simp: main_step_def intro: step_kind.walk_end)
  next
    case (Cons p rest)
    with main Walking have st': "st' = visit t directory p rest st" by (simp add: main_step_def)
    from Walking Cons have q: "phase st = Walking (p # rest)" by simp
    show ?thesis
      unfolding st'
      by (rule visit_cases [of t directory p rest st])
        (simp_all add: step_kind.visit_fails [OF q] step_kind.visit_entries [OF q] step_kind.visit_file [OF q])
  qed
next
  case (Sending f rest)
  assume "main_step t directory st = Some st'"
  with Sending show ?thesis
    by (cases "task st")
      (auto simp: main_step_def send_file_def split: if_splits intro: step_kind.send_fails step_kind.send)
next
  case Joining
  assume "main_step t directory st = Some st'"
  with Joining show ?thesis
    by (auto simp: main_step_def join_task_def fail_with_def split: task.splits res.splits
        intro: step_kind.join step_kind.join_fails)
next
  case (Writing w)
  assume "main_step t directory st = Some st'"
  with Writing show ?thesis
    by (auto simp: main_step_def write_next_def fail_with_def split: list.splits prod.splits res.splits
        intro: step_kind.write_entry step_kind.write_fails step_kind.write_end)
next
  case (Finished r)
  assume "main_step t directory st = Some st'"
  with Finished show ?thesis by (simp add: main_step_def)
qed

lemma task_step_kind: "task_step b3 st = Some st' \<Longrightarrow> step_kind t directory b3 st st'"
proof (cases "task st")
  case (Receiving w)
  assume "task_step b3 st = Some st'"
  with Receiving show ?thesis
    by (auto simp: task_step_def receive_file_def split: list.splits if_splits
        intro: step_kind.receive step_kind.task_end)
next
  case (Copying f w)
  obtain p content flags where f: "f = (p, content, flags)" by (metis prod_cases3)
  assume "task_step b3 st = Some st'"
  with Copying show ?thesis
    by (cases "phase st")
      (auto simp: f task_step_def copy_next_def send_entry_def split: option.splits res.splits
        intro: step_kind.copy_unsent step_kind.copy_sent step_kind.copy_fails)
next
  case (Ended r)
  assume "task_step b3 st = Some st'"
  with Ended show ?thesis by (simp add: task_step_def)
qed

lemma create_step_kind: "create_step t directory b3 st st' \<Longrightarrow> step_kind t directory b3 st st'"
  by (auto elim!: create_stepE intro: main_step_kind task_step_kind)

section \<open>The invariant\<close>

fun queue :: "phase \<Rightarrow> bytes list" where
  "queue (Walking q) = q"
| "queue (Sending f q) = q"
| "queue _ = []"

fun sending :: "phase \<Rightarrow> opened list" where
  "sending (Sending f q) = [f]"
| "sending _ = []"

fun copying :: "task \<Rightarrow> opened list" where
  "copying (Copying f w) = [f]"
| "copying _ = []"

fun task_writer :: "task \<Rightarrow> writer option" where
  "task_writer (Receiving w) = Some w"
| "task_writer (Copying f w) = Some w"
| "task_writer (Ended (Ok w)) = Some w"
| "task_writer _ = None"

fun failed_task :: "task \<Rightarrow> bool" where
  "failed_task (Ended (Ok w)) = False"
| "failed_task (Ended _) = True"
| "failed_task _ = False"

definition pending_files :: "create_state \<Rightarrow> opened list" where
  "pending_files st = copying (task st) @ data_chan st @ sending (phase st)"

text \<open>
  \<open>announced es p\<close>: the path was given, or the entry of a directory that has it is among \<open>es\<close>.
\<close>

definition announced :: "tree \<Rightarrow> bytes \<Rightarrow> bytes list \<Rightarrow> entry list \<Rightarrow> bytes \<Rightarrow> bool" where
  "announced t directory roots es p \<longleftrightarrow> p \<in> set roots \<or>
     (\<exists>d js nested. entry_directory d \<in> set es \<and> visited t directory d = Some (js, nested) \<and> p \<in> set nested)"

definition parents_first :: "tree \<Rightarrow> bytes \<Rightarrow> bytes list \<Rightarrow> entry list \<Rightarrow> bool" where
  "parents_first t directory roots es \<longleftrightarrow>
     (\<forall>i < length es. announced t directory roots (take i es) (path (es ! i)))"

lemma announced_mono: "announced t directory roots es p \<Longrightarrow> announced t directory roots (es @ fs) p"
  by (auto simp: announced_def)

lemma parents_first_Nil [simp]: "parents_first t directory roots []"
  by (simp add: parents_first_def)

lemma parents_first_snoc:
  "parents_first t directory roots (es @ [e]) \<longleftrightarrow>
     parents_first t directory roots es \<and> announced t directory roots es (path e)"
  by (auto simp: parents_first_def less_Suc_eq nth_append)

lemma shuffles_last: "ys @ [x] \<in> shuffles [x] ys"
  by (induction ys) auto

lemma shuffles_snoc1: "zs \<in> shuffles xs ys \<Longrightarrow> zs @ [x] \<in> shuffles (xs @ [x]) ys"
  by (induction xs ys arbitrary: zs rule: shuffles.induct) (auto simp: shuffles_last)

lemma shuffles_snoc2: "zs \<in> shuffles xs ys \<Longrightarrow> zs @ [y] \<in> shuffles xs (ys @ [y])"
  using shuffles_snoc1 [of zs ys xs y] by (simp add: shuffles_commutes)

text \<open>
  What has been written, and how much of it flushed: \<open>xs\<close> are the encodings of the blobs, \<open>wes\<close>
  the entries written.
\<close>

definition flushed_part :: "bytes list \<Rightarrow> bytes \<Rightarrow> bool" where
  "flushed_part xs fl \<longleftrightarrow> (if xs = [] then fl = [] else \<exists>h. NCK00 @ concat xs = fl @ [0, 0] @ enc_hash h)"

definition writer_part :: "create_state \<Rightarrow> bytes list \<Rightarrow> entry list \<Rightarrow> bool" where
  "writer_part st xs wes \<longleftrightarrow>
     (case phase st of
        Finished (Inl e) \<Rightarrow> False
      | Finished (Inr w) \<Rightarrow> task_ended (task st) \<and> \<not> failed_task (task st) \<and> entry_chan st = [] \<and>
          calm_writer_at w (NCK00 @ concat xs @ concat (map enc_entry wes)) \<and> (\<forall>e \<in> set wes. entry_valid e)
      | Writing w \<Rightarrow> task_ended (task st) \<and> \<not> failed_task (task st) \<and>
          calm_writer_at w (NCK00 @ concat xs @ concat (map enc_entry wes)) \<and> (\<forall>e \<in> set wes. entry_valid e)
      | _ \<Rightarrow> wes = [] \<and> (\<exists>w. task_writer (task st) = Some w \<and> calm_writer_at w (NCK00 @ concat xs)))"

definition good ::
    "tree \<Rightarrow> bytes \<Rightarrow> bytes list \<Rightarrow> digest \<Rightarrow> create_state \<Rightarrow> item list \<Rightarrow> opened list \<Rightarrow> bytes list \<Rightarrow> entry list \<Rightarrow> bool" where
  "good t directory roots b3 st is dn xs wes \<longleftrightarrow>
     walked t directory roots (queue (phase st)) is \<and>
     files_of is = dn @ pending_files st \<and>
     wes @ entry_chan st \<in> shuffles (entries_of is) (map (data_entry b3) dn) \<and>
     parents_first t directory roots (wes @ entry_chan st) \<and>
     (\<forall>p \<in> set (queue (phase st)). announced t directory roots (wes @ entry_chan st) p) \<and>
     (\<forall>f \<in> set (pending_files st). announced t directory roots (wes @ entry_chan st) (fst f)) \<and>
     list_all2 (encodes b3) (map (PData \<circ> content_of) dn) xs \<and> flushed_part xs (flushed st) \<and>
     (task_ended (task st) \<longrightarrow> \<not> walking (phase st) \<and> data_chan st = []) \<and>
     writer_part st xs wes"

definition create_inv :: "tree \<Rightarrow> bytes \<Rightarrow> bytes list \<Rightarrow> digest \<Rightarrow> create_state \<Rightarrow> bool" where
  "create_inv t directory roots b3 st \<longleftrightarrow>
     (\<exists>e. phase st = Finished (Inl e)) \<or>
     failed_task (task st) \<and> (walking (phase st) \<or> phase st = Joining) \<or>
     (\<exists>is dn xs wes. good t directory roots b3 st is dn xs wes)"

lemma create_inv_failed: "failed_task (task st) \<Longrightarrow> walking (phase st) \<or> phase st = Joining \<Longrightarrow>
    create_inv t directory roots b3 st"
  by (simp add: create_inv_def)

lemma create_inv_error: "phase st = Finished (Inl e) \<Longrightarrow> create_inv t directory roots b3 st"
  by (simp add: create_inv_def)

lemma create_inv_good: "good t directory roots b3 st is dn xs wes \<Longrightarrow> create_inv t directory roots b3 st"
  unfolding create_inv_def by blast

text \<open>What the traversal makes is well-formed but for the lengths.\<close>

fun well_shaped :: "entry_target \<Rightarrow> bool" where
  "well_shaped (TData h fl) \<longleftrightarrow> hash_valid h \<and> flags_valid fl"
| "well_shaped (TLink dest fl) \<longleftrightarrow> flags_valid fl"
| "well_shaped TDirectory \<longleftrightarrow> True"

lemma stat_flags_valid [simp]: "flags_valid (stat_flags s)"
  by (simp add: stat_flags_def flags_valid_def from_bits_truncate_def EXECUTABLE_def)

lemma visited_shaped:
  "visited t directory p = Some (js, nested) \<Longrightarrow>
     (\<forall>e \<in> set (entries_of js). well_shaped (target e)) \<and> (\<forall>(q, c, fl) \<in> set (files_of js). flags_valid fl)"
  by (auto simp: visited_def entries_of_def files_of_def entry_directory_def entry_link_def entry_new_def
      split: sum.splits file_kind.splits)

lemma walked_shaped:
  "walked t directory roots q is \<Longrightarrow>
     (\<forall>e \<in> set (entries_of is). well_shaped (target e)) \<and> (\<forall>(q, c, fl) \<in> set (files_of is). flags_valid fl)"
proof (induction rule: walked.induct)
  case (visit p rest "is" js nested)
  with visited_shaped [OF visit(2)] show ?case by auto
qed simp

lemma entry_valid_written:
  assumes "write_entry_async e w = (Ok u, w')" and "well_shaped (target e)"
  shows "entry_valid e"
  using write_entry_async_Ok [OF assms(1)] assms(2) by (cases "target e") (auto simp: entry_valid_def)

lemma history_shaped:
  assumes "good t directory roots b3 st is dn xs wes" and "blake3_documented b3" and "e \<in> set (wes @ entry_chan st)"
  shows "well_shaped (target e)"
proof -
  from assms(1) have w: "walked t directory roots (queue (phase st)) is" and f: "files_of is = dn @ pending_files st"
    and h: "wes @ entry_chan st \<in> shuffles (entries_of is) (map (data_entry b3) dn)"
    by (simp_all add: good_def)
  from set_shuffles [OF h] assms(3) have "e \<in> set (entries_of is) \<or> e \<in> data_entry b3 ` set dn" by auto
  with walked_shaped [OF w] f blake3_hash_valid [OF assms(2)] show ?thesis
    by (fastforce simp: entry_data_def entry_new_def)
qed

section \<open>Every step keeps the invariant\<close>

lemma good_not_failed: "good t directory roots b3 st is dn xs wes \<Longrightarrow> phase st \<noteq> Finished (Inl e)"
  by (auto simp: good_def writer_part_def)

lemma parents_first_append:
  "parents_first t directory roots es \<Longrightarrow> \<forall>f \<in> set fs. announced t directory roots es (path f) \<Longrightarrow>
     parents_first t directory roots (es @ fs)"
proof (induction fs rule: rev_induct)
  case (snoc f fs)
  then show ?case
    by (simp add: parents_first_snoc announced_mono flip: append_assoc)
qed simp

lemma shuffles_append1: "zs \<in> shuffles xs ys \<Longrightarrow> zs @ us \<in> shuffles (xs @ us) ys"
proof (induction us rule: rev_induct)
  case (snoc u us)
  then show ?case using shuffles_snoc1 [of "zs @ us" "xs @ us" ys u] by simp
qed simp

lemma good_visit_entries:
  assumes "good t directory roots b3 st is dn xs wes" and "phase st = Walking (p # rest)"
    and "visited t directory p = Some (map IEntry es, nested)" and "\<forall>e \<in> set es. path e = p"
    and "nested \<noteq> [] \<longrightarrow> es = [entry_directory p]"
  shows "good t directory roots b3 (st\<lparr>phase := Walking (rest @ nested), entry_chan := entry_chan st @ es\<rparr>)
    (is @ map IEntry es) dn xs wes"
proof -
  let ?h = "wes @ entry_chan st"
  note g = assms(1) [unfolded good_def]
  have walk: "walked t directory roots (rest @ nested) (is @ map IEntry es)"
    using g assms(2,3) by (auto intro: walked.visit)
  have p: "announced t directory roots ?h p" using g assms(2) by simp
  have nest: "announced t directory roots (?h @ es) q" if "q \<in> set nested" for q
  proof -
    from that assms(5) have "es = [entry_directory p]" by (cases nested) auto
    with that assms(3) show ?thesis unfolding announced_def by auto
  qed
  have "\<forall>q \<in> set (rest @ nested). announced t directory roots (?h @ es) q"
    using g assms(2) nest announced_mono [of t directory roots ?h _ es] by auto
  moreover have "\<forall>f \<in> set (pending_files st). announced t directory roots (?h @ es) (fst f)"
    using g announced_mono [of t directory roots ?h _ es] by blast
  moreover have "parents_first t directory roots (?h @ es)"
    by (rule parents_first_append) (use g p assms(4) in auto)
  moreover have "?h @ es \<in> shuffles (entries_of (is @ map IEntry es)) (map (data_entry b3) dn)"
    using g by (simp add: shuffles_append1 del: append_assoc)
  ultimately show ?thesis
    using g assms(2) walk by (simp add: good_def pending_files_def writer_part_def)
qed

lemma good_visit_file:
  assumes "good t directory roots b3 st is dn xs wes" and "phase st = Walking (p # rest)"
    and "visited t directory p = Some ([IFile (p, c, fl)], [])"
  shows "good t directory roots b3 (st\<lparr>phase := Sending (p, c, fl) rest\<rparr>) (is @ [IFile (p, c, fl)]) dn xs wes"
  using assms walked.visit [of t directory roots p rest "is" "[IFile (p, c, fl)]" "[]"]
  by (auto simp: good_def pending_files_def writer_part_def ball_Un)

lemma good_send:
  assumes "good t directory roots b3 st is dn xs wes" and "phase st = Sending f rest"
    and "\<not> task_ended (task st)"
  shows "good t directory roots b3 (st\<lparr>phase := Walking rest, data_chan := data_chan st @ [f]\<rparr>) is dn xs wes"
  using assms by (auto simp: good_def pending_files_def writer_part_def ball_Un)

lemma good_write:
  assumes "good t directory roots b3 st is dn xs wes" and "blake3_documented b3"
    and "phase st = Writing w" and "entry_chan st = e # es" and w': "write_entry_async e w = (Ok u, w')"
  shows "good t directory roots b3 (st\<lparr>phase := Writing w', entry_chan := es\<rparr>) is dn xs (wes @ [e])"
proof -
  from history_shaped [OF assms(1,2), of e] assms(4) have "well_shaped (target e)" by simp
  with w' have e: "entry_valid e" by (rule entry_valid_written)
  have "calm_writer_at w (NCK00 @ concat xs @ concat (map enc_entry wes))"
    using assms(1,3) by (simp add: good_def writer_part_def)
  from async_writer.entry_law [OF this e] w'
  have "calm_writer_at w' (NCK00 @ concat xs @ concat (map enc_entry (wes @ [e])))"
    by (auto simp: succeeds_def)
  with assms(1,3,4) e show ?thesis by (auto simp: good_def pending_files_def writer_part_def ball_Un)
qed

lemma good_copy:
  assumes "good t directory roots b3 st is dn xs wes" and "task st = Copying (p, c, fl) w"
    and "copy_file_data b3 c w = Some (Ok (w', h, fld))" and "\<not> finished_phase (phase st)"
  shows "\<exists>x. good t directory roots b3
    (st\<lparr>entry_chan := entry_chan st @ [entry_data p h (Some fl)], task := Receiving w', flushed := fld\<rparr>)
    is (dn @ [(p, c, fl)]) (xs @ [x]) wes"
proof -
  note g = assms(1) [unfolded good_def]
  from g assms(2,4) have w: "calm_writer_at w (NCK00 @ concat xs)"
    by (auto simp: writer_part_def split: phase.splits sum.splits)
  obtain cs where
    cs: "h = Blake3 (b3 (avail c))" "fld = NCK00 @ concat xs @ ENTRY_DATA # enc_chunks cs"
    "\<forall>k \<in> set cs. chunk_valid k" "concat cs = avail c"
    "calm_writer_at w' (NCK00 @ concat xs @ enc_blob cs (Blake3 (b3 (avail c))))"
    by (rule copy_file_data_at [OF w, of b3 c]) (use assms(3) in auto)
  let ?x = "enc_blob cs (Blake3 (b3 (avail c)))"
  have "flushed_part (xs @ [?x]) fld"
    unfolding flushed_part_def by (auto simp: cs(2) enc_blob_def enc_body_def)
  moreover have "wes = []" "\<not> task_ended (task st)"
    using g assms(2,4) by (auto simp: writer_part_def split: phase.splits sum.splits)
  moreover have "entry_chan st @ [entry_data p h (Some fl)] \<in>
      shuffles (entries_of is) (map (data_entry b3) (dn @ [(p, c, fl)]))"
    using g calculation(2) shuffles_snoc2 [of "entry_chan st" "entries_of is" "map (data_entry b3) dn"]
    by (simp add: cs(1))
  moreover have "encodes b3 (PData (avail c)) ?x" using cs(3,4) by auto
  then have "list_all2 (encodes b3) (map (PData \<circ> content_of) (dn @ [(p, c, fl)])) (xs @ [?x])"
    using g by (simp add: list_all2_appendI del: encodes.simps)
  moreover have "announced t directory roots (entry_chan st) p"
    using g assms(2) calculation(2) by (auto simp: pending_files_def)
  ultimately show ?thesis
    using g assms(2,4) cs
    by (intro exI [of _ ?x])
      (auto simp: good_def pending_files_def writer_part_def ball_Un parents_first_snoc announced_mono
        list_all2_append entry_data_def entry_new_def split: phase.splits)
qed

lemma create_inv_kind:
  assumes "step_kind t directory b3 st st'" and "blake3_documented b3" and "create_inv t directory roots b3 st"
  shows "create_inv t directory roots b3 st'"
proof -
  from assms(3) consider (err) e where "phase st = Finished (Inl e)"
    | (failed) "failed_task (task st)" "walking (phase st) \<or> phase st = Joining"
    | (good) "is" dn xs wes where "good t directory roots b3 st is dn xs wes"
    unfolding create_inv_def by blast
  then show ?thesis
  proof cases
    case err
    with assms(1) have "phase st' = Finished (Inl e)" by cases auto
    then show ?thesis by (rule create_inv_error)
  next
    case failed
    with assms(1) have "failed_task (task st') \<and> (walking (phase st') \<or> phase st' = Joining) \<or>
        (\<exists>e. phase st' = Finished (Inl e))"
      by cases auto
    with create_inv_failed create_inv_error show ?thesis by blast
  next
    case good
    note g = good [unfolded good_def]
    from assms(1) show ?thesis
    proof cases
      case walk_end
      with g show ?thesis
        by (intro create_inv_good [of t directory roots b3 _ "is" dn xs wes])
          (auto simp: good_def pending_files_def writer_part_def ball_Un)
    next
      case (visit_entries p rest es nested)
      with good_visit_entries [OF good, of p rest es nested] show ?thesis by (auto intro: create_inv_good)
    next
      case (visit_file p rest content flags)
      with good_visit_file [OF good] show ?thesis by (auto intro: create_inv_good)
    next
      case (send_fails f rest r)
      with g show ?thesis by simp
    next
      case (send f rest)
      with good_send [OF good] show ?thesis by (auto intro: create_inv_good)
    next
      case (join w)
      with g show ?thesis
        by (intro create_inv_good [of t directory roots b3 _ "is" dn xs wes])
          (auto simp: good_def pending_files_def writer_part_def ball_Un)
    next
      case (write_entry w e es u w')
      with good_write [OF good assms(2)] show ?thesis by (auto intro: create_inv_good)
    next
      case (write_end w)
      with g show ?thesis
        by (intro create_inv_good [of t directory roots b3 _ "is" dn xs wes])
          (auto simp: good_def pending_files_def writer_part_def ball_Un)
    next
      case (receive w f fs)
      with g show ?thesis
        by (intro create_inv_good [of t directory roots b3 _ "is" dn xs wes])
          (auto simp: good_def pending_files_def writer_part_def ball_Un split: phase.splits sum.splits)
    next
      case (task_end w)
      with g show ?thesis
        by (intro create_inv_good [of t directory roots b3 _ "is" dn xs wes])
          (auto simp: good_def pending_files_def writer_part_def ball_Un split: phase.splits sum.splits)
    next
      case (copy_unsent p content flags w w' h fl r)
      with g show ?thesis by (auto simp: writer_part_def split: sum.splits)
    next
      case (copy_sent p content flags w w' h fl)
      with good_copy [OF good] show ?thesis by (auto intro: create_inv_good)
    next
      case (copy_fails p content flags w r x)
      with g show ?thesis
        by (intro create_inv_failed) (auto simp: writer_part_def split: phase.splits sum.splits)
    qed (auto intro: create_inv_error)
  qed
qed

text \<open>A run of the command: from its start, any steps.\<close>

definition create_runs ::
    "tree \<Rightarrow> digest \<Rightarrow> (bytes \<Rightarrow> error_kind + sink) \<Rightarrow> sink \<Rightarrow> error_kind + bytes \<Rightarrow> create_cli \<Rightarrow>
       bytes \<Rightarrow> create_state \<Rightarrow> bool" where
  "create_runs t b3 open_output stdout cwd cli directory st \<longleftrightarrow>
     (\<exists>st0. create_start open_output stdout cwd cli = Inr (directory, st0) \<and>
       (create_step t directory b3)\<^sup>*\<^sup>* st0 st)"

text \<open>The sinks that the command may be given: they make progress, and nothing is in them yet.\<close>

definition fresh_sink :: "sink \<Rightarrow> bool" where
  "fresh_sink s \<longleftrightarrow> open_sink s \<and> calm_sink s \<and> written s = []"

definition fresh_output :: "(bytes \<Rightarrow> error_kind + sink) \<Rightarrow> sink \<Rightarrow> bool" where
  "fresh_output open_output stdout \<longleftrightarrow>
     fresh_sink stdout \<and> (\<forall>p s. open_output p = Inr s \<longrightarrow> fresh_sink s)"

lemma create_start_fields:
  assumes "create_start open_output stdout cwd cli = Inr (directory, st)"
  obtains w where "st = \<lparr>phase = Walking (sort_paths (create_files cli)), task = Receiving w,
    data_chan = [], entry_chan = [], flushed = []\<rparr>"
  using assms that by (auto simp: create_start_def split: sum.splits option.splits prod.splits res.splits)

lemma create_start_good:
  assumes "create_start open_output stdout cwd cli = Inr (directory, st)" and "fresh_output open_output stdout"
  shows "good t directory (sort_paths (create_files cli)) b3 st [] [] [] []"
    and "phase st = Walking (sort_paths (create_files cli))" and "data_chan st = []" and "entry_chan st = []"
proof -
  from assms obtain s where s: "fresh_sink s" "(case create_output cli of None \<Rightarrow> Inr stdout | Some v \<Rightarrow> open_output v) = Inr s"
    by (auto simp: create_start_def fresh_output_def split: sum.splits option.splits)
  from writer_new_async_at [of s] s(1) obtain w s' where
    w: "writer_new_async s = (Ok w, s')" "calm_writer_at w NCK00" by (auto simp: fresh_sink_def)
  with assms(1) s(2) have st: "st = \<lparr>phase = Walking (sort_paths (create_files cli)), task = Receiving w,
      data_chan = [], entry_chan = [], flushed = []\<rparr>"
    by (auto simp: create_start_def split: sum.splits option.splits)
  with w(2) show "good t directory (sort_paths (create_files cli)) b3 st [] [] [] []"
    by (simp add: good_def pending_files_def writer_part_def flushed_part_def walked.start announced_def)
  from st show "phase st = Walking (sort_paths (create_files cli))" "data_chan st = []" "entry_chan st = []"
    by simp_all
qed

lemma create_runs_inv:
  assumes "create_runs t b3 open_output stdout cwd cli directory st" and "fresh_output open_output stdout"
    and "blake3_documented b3"
  shows "create_inv t directory (sort_paths (create_files cli)) b3 st"
proof -
  from assms(1) obtain st0 where st0: "create_start open_output stdout cwd cli = Inr (directory, st0)"
    and run: "(create_step t directory b3)\<^sup>*\<^sup>* st0 st" unfolding create_runs_def by blast
  from run show ?thesis
  proof (induction rule: rtranclp_induct)
    case base
    from create_start_good(1) [OF st0 assms(2)] show ?case by (rule create_inv_good)
  next
    case (step st1 st2)
    then show ?case using create_inv_kind [OF create_step_kind _ ] assms(3) by blast
  qed
qed

section \<open>The runs end\<close>

text \<open>
  A tree is sized when every path has a weight above the sum of the weights of what is in it, as
  the number of files below it.
\<close>

definition sized :: "tree \<Rightarrow> bytes \<Rightarrow> (bytes \<Rightarrow> nat) \<Rightarrow> bool" where
  "sized t directory weight \<longleftrightarrow> (\<forall>p. 0 < weight p) \<and>
     (\<forall>p js nested. visited t directory p = Some (js, nested) \<longrightarrow> sum_list (map weight nested) < weight p)"

definition phase_work :: "(bytes \<Rightarrow> nat) \<Rightarrow> phase \<Rightarrow> nat" where
  "phase_work weight ph =
     (case ph of
        Walking q \<Rightarrow> 3 + 6 * sum_list (map weight q)
      | Sending f q \<Rightarrow> 7 + 6 * sum_list (map weight q)
      | Joining \<Rightarrow> 2
      | Writing w \<Rightarrow> 1
      | Finished r \<Rightarrow> 0)"

definition task_work :: "task \<Rightarrow> nat" where
  "task_work tk = (case tk of Receiving w \<Rightarrow> 1 | Copying f w \<Rightarrow> 3 | Ended r \<Rightarrow> 0)"

definition work :: "(bytes \<Rightarrow> nat) \<Rightarrow> create_state \<Rightarrow> nat" where
  "work weight st =
     phase_work weight (phase st) + task_work (task st) + 3 * length (data_chan st) + length (entry_chan st)"

lemma step_work:
  assumes "step_kind t directory b3 st st'" and "sized t directory weight"
  shows "work weight st' < work weight st"
  using assms(1)
proof cases
  case (visit_entries p rest es nested)
  with assms(2) have "sum_list (map weight nested) < weight p" by (auto simp: sized_def)
  with visit_entries show ?thesis by (simp add: work_def phase_work_def)
next
  case (visit_file p rest content flags)
  with assms(2) have "0 < weight p" by (simp add: sized_def)
  with visit_file show ?thesis by (simp add: work_def phase_work_def)
next
  case (send_fails f rest r)
  then show ?thesis by (simp add: work_def phase_work_def)
next
  case (copy_fails p content flags w r x e)
  then show ?thesis by (auto simp: work_def task_work_def)
qed (auto simp: work_def phase_work_def task_work_def)

lemma steps_work:
  "(create_step t directory b3 ^^ n) st st' \<Longrightarrow> sized t directory weight \<Longrightarrow> n + work weight st' \<le> work weight st"
proof (induction n arbitrary: st')
  case (Suc n)
  from Suc.prems(1) obtain st1 where "(create_step t directory b3 ^^ n) st st1" "create_step t directory b3 st1 st'"
    by auto
  with Suc.IH [of st1] Suc.prems(2) step_work [OF create_step_kind] show ?case by fastforce
qed simp

text \<open>Neither task waits for the other for ever.\<close>

lemma copy_next_runs:
  assumes "calm_writer_at w a"
  shows "\<exists>st'. copy_next b3 f w st = Some st'"
proof -
  obtain p c fl where f: "f = (p, c, fl)" by (metis prod_cases3)
  show ?thesis by (rule copy_file_data_at [OF assms, of b3 c]) (simp_all add: f copy_next_def)
qed

lemma main_step_runs:
  "phase st = Walking q \<or> phase st = Writing w \<or> phase st = Joining \<and> task_ended (task st) \<or>
     phase st = Sending f q \<and> (task_ended (task st) \<or> length (data_chan st) < DATA_CHANNEL) \<Longrightarrow>
     \<exists>st'. main_step t directory st = Some st'"
  by (cases "task st"; cases q)
    (auto simp: main_step_def write_next_def join_task_def send_file_def split: list.splits prod.splits res.splits)

lemma good_steps:
  assumes "good t directory roots b3 st is dn xs wes" and "\<not> finished_phase (phase st)"
  shows "\<exists>st'. create_step t directory b3 st st'"
proof (cases "\<exists>st'. main_step t directory st = Some st'")
  case True
  then show ?thesis by (auto intro: create_step.main)
next
  case False
  note stuck = this [unfolded not_ex]
  have "\<exists>st'. task_step b3 st = Some st'"
  proof (cases "phase st")
    case (Walking q)
    with main_step_runs [of st q] False show ?thesis by blast
  next
    case (Sending f q)
    with main_step_runs [of st q _ f t directory] False
    have full: "\<not> task_ended (task st)" "DATA_CHANNEL \<le> length (data_chan st)"
      by (auto simp: not_less [symmetric])
    from assms(1) Sending obtain w where w: "task_writer (task st) = Some w" "calm_writer_at w (NCK00 @ concat xs)"
      by (auto simp: good_def writer_part_def)
    show ?thesis
      using full w copy_next_runs [OF w(2), of b3 _ st]
      by (cases "task st") (auto simp: task_step_def receive_file_def DATA_CHANNEL_def split: list.split)
  next
    case Joining
    with main_step_runs [of st] False have full: "\<not> task_ended (task st)" by blast
    from assms(1) Joining obtain w where w: "task_writer (task st) = Some w" "calm_writer_at w (NCK00 @ concat xs)"
      by (auto simp: good_def writer_part_def)
    show ?thesis
      using full w copy_next_runs [OF w(2), of b3 _ st] Joining
      by (cases "task st") (auto simp: task_step_def receive_file_def split: list.split)
  next
    case (Writing w)
    with main_step_runs [of st _ w] False show ?thesis by blast
  next
    case (Finished r)
    with assms(2) show ?thesis by simp
  qed
  then show ?thesis by (auto intro: create_step.task)
qed

lemma create_inv_steps:
  assumes "create_inv t directory roots b3 st" and "\<not> finished_phase (phase st)"
  shows "\<exists>st'. create_step t directory b3 st st'"
proof -
  from assms consider "failed_task (task st)" "walking (phase st) \<or> phase st = Joining"
    | "is" dn xs wes where "good t directory roots b3 st is dn xs wes"
    unfolding create_inv_def by auto
  then show ?thesis
  proof cases
    case 1
    then have "task_ended (task st)" by (cases "task st") auto
    with 1(2) have "\<exists>st'. main_step t directory st = Some st'"
      using main_step_runs [of st _ _ _ t directory] by (cases "phase st") auto
    then show ?thesis by (auto intro: create_step.main)
  next
    case 2
    with good_steps assms(2) show ?thesis by blast
  qed
qed

text \<open>
  Whatever the output does, the two tasks wait for each other only while one of them goes on, or
  while a copy does not return.
\<close>

lemma main_step_waits:
  "main_step t directory st = None \<Longrightarrow> (\<exists>r. phase st = Finished r) \<or>
     \<not> task_ended (task st) \<and> (phase st = Joining \<or> (\<exists>f rest. phase st = Sending f rest \<and> data_chan st \<noteq> []))"
  by (auto simp: main_step_def send_file_def join_task_def write_next_def DATA_CHANNEL_def
      split: phase.splits list.splits task.splits res.splits prod.splits if_splits)

lemma create_goes_on:
  "(\<exists>r. phase st = Finished r) \<or> (\<exists>st'. create_step t directory b3 st st') \<or>
    (\<exists>p content fl w. task st = Copying (p, content, fl) w \<and> copy_file_data b3 content w = None)"
proof (cases "main_step t directory st")
  case (Some st')
  then show ?thesis by (blast intro: create_step.main)
next
  case None
  show ?thesis
  proof (cases "task_step b3 st")
    case (Some st')
    then show ?thesis by (blast intro: create_step.task)
  next
    case task: None
    from main_step_waits [OF None] show ?thesis
    proof (elim disjE)
      assume wait: "\<not> task_ended (task st) \<and> (phase st = Joining \<or> (\<exists>f rest. phase st = Sending f rest \<and> data_chan st \<noteq> []))"
      then obtain f w where "task st = Copying f w"
        using task by (cases "task st") (auto simp: task_step_def receive_file_def split: list.splits if_splits)
      with task have "task st = Copying (fst f, fst (snd f), snd (snd f)) w \<and> copy_file_data b3 (fst (snd f)) w = None"
        by (auto simp: task_step_def copy_next_def split: prod.splits option.splits res.splits if_splits)
      then show ?thesis by blast
    qed blast
  qed
qed

section \<open>What is visited\<close>

text \<open>The paths given, and whatever is in a directory that is reached.\<close>

inductive reached :: "tree \<Rightarrow> bytes \<Rightarrow> bytes list \<Rightarrow> bytes \<Rightarrow> bool"
  for t :: tree and directory :: bytes and roots :: "bytes list" where
  root: "p \<in> set roots \<Longrightarrow> reached t directory roots p"
| nested: "reached t directory roots p \<Longrightarrow> visited t directory p = Some (js, nested) \<Longrightarrow> q \<in> set nested \<Longrightarrow>
     reached t directory roots q"

definition item_reached :: "tree \<Rightarrow> bytes \<Rightarrow> bytes list \<Rightarrow> item \<Rightarrow> bool" where
  "item_reached t directory roots j \<longleftrightarrow>
     (\<exists>p js nested. reached t directory roots p \<and> visited t directory p = Some (js, nested) \<and> j \<in> set js)"

lemma walked_reached:
  "walked t directory roots q is \<Longrightarrow>
     (\<forall>p \<in> set q. reached t directory roots p) \<and> (\<forall>j \<in> set is. item_reached t directory roots j)"
proof (induction rule: walked.induct)
  case start
  then show ?case by (simp add: reached.root)
next
  case (visit p rest "is" js nested)
  from visit.IH have "reached t directory roots p" by simp
  with visit reached.nested [OF this visit(2)] show ?case by (auto simp: item_reached_def)
qed

text \<open>The paths that are reached are in the queue, or what they contribute has been collected.\<close>

lemma walked_collects:
  "walked t directory roots q is \<Longrightarrow> reached t directory roots p \<Longrightarrow>
     (\<exists>r. reached t directory roots r \<and> r \<in> set q) \<or>
     (\<exists>js nested. visited t directory p = Some (js, nested) \<and> set js \<subseteq> set is)"
proof -
  assume "walked t directory roots q is"
  then have "\<exists>V. set roots \<subseteq> V \<union> set q \<and> (\<forall>p \<in> V. \<exists>js nested. visited t directory p = Some (js, nested) \<and>
      set js \<subseteq> set is \<and> set nested \<subseteq> V \<union> set q)"
  proof (induction rule: walked.induct)
    case start
    show ?case by (intro exI [of _ "{}"]) simp
  next
    case (visit p rest "is" js nested)
    from visit.IH obtain V where "set roots \<subseteq> V \<union> set (p # rest)"
      "\<forall>p' \<in> V. \<exists>js nested. visited t directory p' = Some (js, nested) \<and> set js \<subseteq> set is \<and>
        set nested \<subseteq> V \<union> set (p # rest)" by blast
    with visit(2) show ?case by (intro exI [of _ "insert p V"]) fastforce
  qed
  then obtain V where V: "set roots \<subseteq> V \<union> set q" "\<forall>p \<in> V. \<exists>js nested. visited t directory p = Some (js, nested) \<and>
      set js \<subseteq> set is \<and> set nested \<subseteq> V \<union> set q" by blast
  assume "reached t directory roots p"
  then have "(\<exists>r. reached t directory roots r \<and> r \<in> set q) \<or> p \<in> V"
  proof (induction rule: reached.induct)
    case (root p)
    with V(1) reached.root show ?case by blast
  next
    case (nested p js nested q')
    with V(2) reached.nested [OF nested(1,2,3)] show ?case by (metis (no_types, lifting) Un_iff option.inject prod.inject subsetD)
  qed
  with V(2) show ?thesis by blast
qed

lemma walked_complete:
  "walked t directory roots [] is \<Longrightarrow> j \<in> set is \<longleftrightarrow> item_reached t directory roots j"
  using walked_reached [of t directory roots "[]" "is"] walked_collects [of t directory roots "[]" "is"]
  unfolding item_reached_def by fastforce

section \<open>Runs on files that can be read\<close>

fun readable_item :: "item \<Rightarrow> bool" where
  "readable_item (IEntry e) \<longleftrightarrow> entry_valid e"
| "readable_item (IFile (p, content, flags)) \<longleftrightarrow> steady content \<and> length p \<le> MAX_LENGTH"

definition readable :: "tree \<Rightarrow> bytes \<Rightarrow> bytes list \<Rightarrow> bool" where
  "readable t directory roots \<longleftrightarrow>
     (\<forall>p. reached t directory roots p \<longrightarrow>
        (\<exists>js nested. visited t directory p = Some (js, nested) \<and> (\<forall>j \<in> set js. readable_item j)))"

lemma readable_walked:
  assumes "readable t directory roots" and "walked t directory roots q is"
  shows "\<forall>p \<in> set q. visited t directory p \<noteq> None" and "\<forall>j \<in> set is. readable_item j"
  using walked_reached [OF assms(2)] assms(1) unfolding readable_def item_reached_def by fastforce+

lemma item_lists: "f \<in> set (item_files j) \<longleftrightarrow> j = IFile f" "e \<in> set (item_entries j) \<longleftrightarrow> j = IEntry e"
  by (cases j; auto)+

lemma files_of_member: "f \<in> set (files_of is) \<longleftrightarrow> IFile f \<in> set is"
  by (auto simp: files_of_def item_lists)

lemma entries_of_member: "e \<in> set (entries_of is) \<longleftrightarrow> IEntry e \<in> set is"
  by (auto simp: entries_of_def item_lists)

text \<open>On such files no step fails.\<close>

lemma good_step_succeeds:
  assumes "step_kind t directory b3 st st'" and "good t directory roots b3 st is dn xs wes"
    and "readable t directory roots" and "blake3_documented b3"
  shows "(\<forall>e. phase st' \<noteq> Finished (Inl e)) \<and> \<not> failed_task (task st')"
proof -
  note g = assms(2) [unfolded good_def]
  have files: "steady c \<and> length p \<le> MAX_LENGTH" if "(p, c, fl) \<in> set (dn @ pending_files st)" for p c fl
    using that g files_of_member [of "(p, c, fl)" "is"] readable_walked(2) [OF assms(3), of _ "is"] by fastforce
  have entries: "entry_valid e" if "e \<in> set (wes @ entry_chan st)" for e
  proof -
    from g set_shuffles [of "wes @ entry_chan st" "entries_of is" "map (data_entry b3) dn"] that
    consider "e \<in> set (entries_of is)" | p c fl where "(p, c, fl) \<in> set dn" "e = data_entry b3 (p, c, fl)" by force
    then show ?thesis
    proof cases
      case 1
      with entries_of_member [of e "is"] readable_walked(2) [OF assms(3), of _ "is"] g show ?thesis by fastforce
    next
      case 2
      with files [of p c fl] history_shaped [OF assms(2,4) that] show ?thesis
        by (simp add: entry_valid_def entry_data_def entry_new_def)
    qed
  qed
  have not_failed: "\<not> failed_task (task st)"
    using g by (cases "task st" rule: failed_task.cases) (auto simp: writer_part_def split: phase.splits sum.splits)
  from assms(1) show ?thesis
  proof cases
    case (visit_fails p rest es e)
    with g readable_walked(1) [OF assms(3), of "p # rest"] show ?thesis by auto
  next
    case (join_fails r e)
    with not_failed show ?thesis by (cases r) auto
  next
    case (write_fails w e es r w' er)
    with g have "calm_writer_at w (NCK00 @ concat xs @ concat (map enc_entry wes))" by (simp add: writer_part_def)
    from async_writer.entry_law [OF this, of e] entries [of e] write_fails show ?thesis by (auto simp: succeeds_def)
  next
    case (copy_fails p c fl w r x e)
    with g have w: "calm_writer_at w (NCK00 @ concat xs)" if "\<not> finished_phase (phase st)"
      using that by (auto simp: writer_part_def split: phase.splits)
    have "\<not> finished_phase (phase st)"
      using g copy_fails by (auto simp: writer_part_def split: phase.splits sum.splits)
    from w [OF this] show ?thesis
    proof (cases rule: copy_file_data_at [of w _ b3 c])
      case (copied w' cs)
      with copy_fails show ?thesis by auto
    next
      case (failed e)
      with files [of p c fl] copy_fails show ?thesis by (auto simp: pending_files_def steady_def)
    qed
  qed (use g not_failed in \<open>auto simp: writer_part_def split: phase.splits sum.splits\<close>)
qed

end
