(* ===== verification/Cli_Create_Results.thy ===== *)
theory Cli_Create_Results
  imports Cli_Create_Runs
begin

text \<open>
  What the command that creates an archive achieves (theories \<open>Cli_Create\<close> and
  \<open>Cli_Create_Runs\<close>): the archive it has written when it succeeds, that it ends, that it
  succeeds on files that can be read; and what of the archive reaches the output file.
\<close>

section \<open>Success\<close>

lemma create_done:
  assumes "create_runs t b3 open_output stdout cwd cli directory st" and "fresh_output open_output stdout"
    and "blake3_documented b3" and "phase st = Finished (Inr w)"
  obtains "is" xs es where
    "walked t directory (sort_paths (create_files cli)) [] is"
    "es \<in> shuffles (entries_of is) (map (data_entry b3) (files_of is))"
    "parents_first t directory (sort_paths (create_files cli)) es"
    "list_all2 (encodes b3) (map (PData \<circ> content_of) (files_of is)) xs"
    "written (sink_of w) = NCK00 @ concat xs @ concat (map enc_entry es)"
    "\<forall>e \<in> set es. entry_valid e" "flushed_part xs (flushed st)"
proof -
  from create_runs_inv [OF assms(1-3)] assms(4) obtain "is" dn xs wes where
    good: "good t directory (sort_paths (create_files cli)) b3 st is dn xs wes"
    by (auto simp: create_inv_def)
  then have "files_of is = dn" using assms(4)
    by (cases "task st") (auto simp: good_def pending_files_def writer_part_def)
  with good assms(4) show thesis
    by (intro that [of "is" wes xs]) (auto simp: good_def writer_part_def calm_writer_at_def writer_at_def)
qed

text \<open>The archive of a traversal, as a list of parts.\<close>

definition archive_parts :: "item list \<Rightarrow> entry list \<Rightarrow> part list" where
  "archive_parts is es = map (PData \<circ> content_of) (files_of is) @ map PEntry es"

lemma archive_parts_encoded:
  assumes "list_all2 (encodes b3) (map (PData \<circ> content_of) (files_of is)) xs" and "\<forall>e \<in> set es. entry_valid e"
  shows "list_all2 (encodes b3) (archive_parts is es) (xs @ map enc_entry es)"
  unfolding archive_parts_def
  by (rule list_all2_appendI [OF assms(1)]) (use assms(2) in \<open>simp add: list_all2_conv_all_nth\<close>)

lemma archive_parts_read:
  assumes "blake3_documented b3" and "list_all2 (encodes b3) (map (PData \<circ> content_of) (files_of is)) xs"
    and "\<forall>e \<in> set es. entry_valid e"
    and "avail src = NCK00 @ concat xs @ concat (map enc_entry es)" and "set (script src) \<subseteq> {RWait}"
  shows "\<exists>r. read_archive_async (Suc n) src =
    Some (Ok (map (\<lambda>f. CData (content_of f) (Some (Blake3 (b3 (content_of f))))) (files_of is) @ map CEntry es), r)"
proof -
  have "map (read_back b3) (archive_parts is es) =
      map (\<lambda>f. CData (content_of f) (Some (Blake3 (b3 (content_of f))))) (files_of is) @ map CEntry es"
    by (simp add: archive_parts_def)
  with archive_reads_back [OF assms(1) archive_parts_encoded [OF assms(2,3)], of src] assms(4,5) show ?thesis by simp
qed

text \<open>From any state of a run on readable files, success can be reached.\<close>

definition on_course :: "tree \<Rightarrow> bytes \<Rightarrow> bytes list \<Rightarrow> digest \<Rightarrow> create_state \<Rightarrow> bool" where
  "on_course t directory roots b3 st \<longleftrightarrow> (\<exists>is dn xs wes. good t directory roots b3 st is dn xs wes)"

lemma on_course_step:
  assumes "on_course t directory roots b3 st" and "create_step t directory b3 st st'"
    and "readable t directory roots" and "blake3_documented b3"
  shows "on_course t directory roots b3 st'"
proof -
  from assms(1) obtain "is" dn xs wes where good: "good t directory roots b3 st is dn xs wes"
    unfolding on_course_def by blast
  note k = create_step_kind [OF assms(2)]
  from create_inv_kind [OF k assms(4) create_inv_good [OF good]] good_step_succeeds [OF k good assms(3,4)]
  show ?thesis by (auto simp: create_inv_def on_course_def)
qed

lemma on_course_steps:
  "(create_step t directory b3)\<^sup>*\<^sup>* st st' \<Longrightarrow> on_course t directory roots b3 st \<Longrightarrow>
     readable t directory roots \<Longrightarrow> blake3_documented b3 \<Longrightarrow> on_course t directory roots b3 st'"
  by (induction rule: rtranclp_induct) (auto intro: on_course_step)

lemma on_course_succeeds:
  assumes "on_course t directory roots b3 st" and "readable t directory roots" and "blake3_documented b3"
    and "sized t directory weight"
  shows "\<exists>st' w. (create_step t directory b3)\<^sup>*\<^sup>* st st' \<and> phase st' = Finished (Inr w)"
  using assms(1)
proof (induction "work weight st" arbitrary: st rule: less_induct)
  case less
  show ?case
  proof (cases "finished_phase (phase st)")
    case True
    then obtain r where r: "phase st = Finished r" by (cases "phase st") auto
    have "\<forall>e. phase st \<noteq> Finished (Inl e)" using less.prems good_not_failed unfolding on_course_def by blast
    with r obtain w where "phase st = Finished (Inr w)" by (cases r) auto
    then show ?thesis by blast
  next
    case False
    with less.prems good_steps obtain st1 where st1: "create_step t directory b3 st st1"
      unfolding on_course_def by blast
    from less.hyps [OF step_work [OF create_step_kind [OF st1] assms(4)] on_course_step [OF less.prems st1 assms(2,3)]]
    show ?thesis using st1 by (meson converse_rtranclp_into_rtranclp)
  qed
qed

lemma create_finishes:
  assumes "create_start open_output stdout cwd cli = Inr (directory, st0)" and "fresh_output open_output stdout"
    and "readable t directory (sort_paths (create_files cli))" and "blake3_documented b3"
    and "sized t directory weight"
  shows "\<exists>st w. create_runs t b3 open_output stdout cwd cli directory st \<and> phase st = Finished (Inr w)"
proof -
  have "on_course t directory (sort_paths (create_files cli)) b3 st0"
    using create_start_good(1) [OF assms(1,2)] unfolding on_course_def by blast
  from on_course_succeeds [OF this assms(3-5)] assms(1) show ?thesis unfolding create_runs_def by blast
qed

section \<open>The buffer over the output\<close>

text \<open>
  The writer is a \<open>tokio::io::BufWriter\<close>: it keeps what it is given in a buffer, hands it on
  when the buffer would overflow and when it is flushed, and drops the buffer when it is
  dropped. \<open>file_of\<close> stands for it: what has been handed on after a list of calls.
\<close>

datatype writer_call = WriteBytes bytes | Flush

definition BUFFER_CAPACITY :: nat where
  "BUFFER_CAPACITY = 8192"

fun call_bytes :: "writer_call \<Rightarrow> bytes" where
  "call_bytes (WriteBytes bs) = bs"
| "call_bytes Flush = []"

definition accepted :: "writer_call list \<Rightarrow> bytes" where
  "accepted cs = concat (map call_bytes cs)"

definition buf_writer_documented :: "(writer_call list \<Rightarrow> bytes) \<Rightarrow> bool" where
  "buf_writer_documented file_of \<longleftrightarrow>
     file_of [] = [] \<and>
     (\<forall>cs. file_of (cs @ [Flush]) = accepted cs) \<and>
     (\<forall>cs ds. (cs = [] \<or> last cs = Flush) \<longrightarrow> Flush \<notin> set ds \<longrightarrow>
        length (accepted ds) < BUFFER_CAPACITY \<longrightarrow> file_of (cs @ ds) = file_of cs)"

text \<open>
  The calls of a run: everything that the archive's writer wrote, and a last flush where the
  state says so.
\<close>

definition calls_of :: "create_state \<Rightarrow> writer \<Rightarrow> writer_call list \<Rightarrow> writer_call list \<Rightarrow> bool" where
  "calls_of st w cs ds \<longleftrightarrow> accepted cs = flushed st \<and> (cs = [] \<or> last cs = Flush) \<and> Flush \<notin> set ds \<and>
     accepted (cs @ ds) = written (sink_of w)"

lemma accepted_append: "accepted (cs @ ds) = accepted cs @ accepted ds"
  by (simp add: accepted_def)

lemma unflushed_lost:
  assumes "buf_writer_documented file_of" and "calls_of st w cs ds"
    and "length (written (sink_of w)) < length (flushed st) + BUFFER_CAPACITY"
  shows "file_of (cs @ ds) = flushed st"
proof -
  from assms(2) have cs: "accepted cs = flushed st" "cs = [] \<or> last cs = Flush" "Flush \<notin> set ds"
    and "flushed st @ accepted ds = written (sink_of w)"
    by (auto simp: calls_of_def accepted_append)
  with cs(1) have "length (accepted cs) + length (accepted ds) = length (written (sink_of w))"
    by (metis length_append)
  with assms(3) cs(1) have "length (accepted ds) < BUFFER_CAPACITY" by simp
  with assms(1) cs(2,3) have *: "file_of (cs @ ds) = file_of cs" unfolding buf_writer_documented_def by blast
  have "file_of cs = accepted cs"
  proof (cases cs rule: rev_cases)
    case Nil
    with assms(1) show ?thesis by (simp add: accepted_def buf_writer_documented_def)
  next
    case (snoc cs' x)
    with cs(2) have "cs = cs' @ [Flush]" by simp
    moreover have "accepted (cs' @ [Flush]) = accepted cs'" by (simp add: accepted_def)
    ultimately show ?thesis using assms(1) by (simp add: buf_writer_documented_def)
  qed
  with * cs(1) show ?thesis by simp
qed

text \<open>A buffered writer as documented: what it has handed on, and what it holds.\<close>

fun buffer_call :: "bytes \<times> bytes \<Rightarrow> writer_call \<Rightarrow> bytes \<times> bytes" where
  "buffer_call (f, b) Flush = (f @ b, [])"
| "buffer_call (f, b) (WriteBytes bs) =
     (case (if length b + length bs > BUFFER_CAPACITY then (f @ b, []) else (f, b)) of (f, b) \<Rightarrow>
        if length bs \<ge> BUFFER_CAPACITY then (f @ bs, b) else (f, b @ bs))"

definition buffer_file :: "writer_call list \<Rightarrow> bytes" where
  "buffer_file cs = fst (foldl buffer_call ([], []) cs)"

lemma buffer_accepts:
  "foldl buffer_call s cs = (f, b) \<Longrightarrow> f @ b = fst s @ snd s @ accepted cs"
proof (induction cs arbitrary: f b rule: rev_induct)
  case Nil
  then show ?case by (simp add: accepted_def)
next
  case (snoc c cs)
  obtain f1 b1 where "foldl buffer_call s cs = (f1, b1)" by fastforce
  with snoc.IH have IH: "f1 @ b1 = fst s @ snd s @ accepted cs" by blast
  show ?case
  proof (cases c)
    case (WriteBytes bs)
    have "b1 = []" if "BUFFER_CAPACITY \<le> length bs" "length b1 + length bs \<le> BUFFER_CAPACITY"
      using that by (cases b1) auto
    with WriteBytes IH snoc.prems \<open>foldl buffer_call s cs = (f1, b1)\<close> show ?thesis
      by (cases "BUFFER_CAPACITY \<le> length bs"; cases "length b1 + length bs \<le> BUFFER_CAPACITY")
        (auto simp: accepted_def not_less [symmetric])
  next
    case Flush
    with IH snoc.prems \<open>foldl buffer_call s cs = (f1, b1)\<close> show ?thesis by (auto simp: accepted_def)
  qed
qed

lemma buffer_keeps:
  "Flush \<notin> set cs \<Longrightarrow> length (snd s) + length (accepted cs) < BUFFER_CAPACITY \<Longrightarrow>
     fst (foldl buffer_call s cs) = fst s"
proof (induction cs arbitrary: s)
  case (Cons c cs)
  obtain bs where c: "c = WriteBytes bs" using Cons.prems(1) by (cases c) auto
  obtain f b where s: "s = (f, b)" by fastforce
  from Cons.prems(2) have "buffer_call s c = (f, b @ bs)" by (simp add: c s accepted_def)
  with Cons.IH [of "(f, b @ bs)"] Cons.prems show ?case by (simp add: c s accepted_def)
qed simp

lemma buffer_flushes: "foldl buffer_call ([], []) (cs @ [Flush]) = (accepted cs, [])"
proof -
  obtain f b where "foldl buffer_call ([], []) cs = (f, b)" by fastforce
  with buffer_accepts [OF this] show ?thesis by simp
qed

lemma buffer_documented: "buf_writer_documented buffer_file"
  unfolding buf_writer_documented_def
proof (intro conjI allI impI)
  show "buffer_file [] = []" by (simp add: buffer_file_def)
  show "buffer_file (cs @ [Flush]) = accepted cs" for cs by (simp only: buffer_file_def buffer_flushes fst_conv)
  fix cs ds :: "writer_call list"
  assume cs: "cs = [] \<or> last cs = Flush" and ds: "Flush \<notin> set ds" "length (accepted ds) < BUFFER_CAPACITY"
  have "snd (foldl buffer_call ([], []) cs) = []"
    using cs buffer_flushes [of "butlast cs"] by (cases cs rule: rev_cases) auto
  with ds buffer_keeps [of ds "foldl buffer_call ([], []) cs"]
  show "buffer_file (cs @ ds) = buffer_file cs" by (simp add: buffer_file_def)
qed

section \<open>A small tree\<close>

text \<open>A directory with one file in it, in the root directory.\<close>

definition small_tree :: tree where
  "small_tree =
     \<lparr>stat_at = \<lambda>p. if p = [47, 97] then Inr \<lparr>stat_mode = 493, stat_kind = Directory\<rparr>
        else if p = [47, 97, 47, 98] then Inr \<lparr>stat_mode = 420, stat_kind = Regular\<rparr> else Inl NotFound,
      list_at = \<lambda>p. if p = [47, 97] then Inr [Inr [98]] else Inl NotFound,
      file_at = \<lambda>p. Inr (Source [1, 2, 3] [Give 1]), link_at = \<lambda>p. Inl InvalidInput\<rparr>"

definition small_cli :: create_cli where
  "small_cli = \<lparr>create_output = None, create_directory = None, create_files = [[97]]\<rparr>"

definition small_weight :: "bytes \<Rightarrow> nat" where
  "small_weight p = (if p = [97] \<or> p = [47, 97] then 2 else 1)"

definition small_digest :: digest where
  "small_digest _ = replicate 32 7"

definition small_sink :: sink where
  "small_sink = Sink [] None [Take 3, WWait]"

lemma small_facts [simp]:
  "fresh_output (\<lambda>_. Inl NotFound) small_sink" "blake3_documented small_digest"
  "sort_paths (create_files small_cli) = [[97]]" "base_directory small_cli [47] = [47]"
  by (simp_all add: fresh_output_def fresh_sink_def small_sink_def open_sink_def calm_sink_def
      blake3_documented_def small_digest_def sort_paths_def small_cli_def base_directory_def)

lemma small_visits:
  "visited small_tree [47] [97] = Some ([IEntry (entry_directory [97])], [[97, 47, 98]])"
  "visited small_tree [47] [97, 47, 98] = Some ([IFile ([97, 47, 98], Source [1, 2, 3] [Give 1], 0)], [])"
  by (simp_all add: visited_def small_tree_def full_path_def has_root_def path_join_def sort_paths_def stat_flags_def)

lemma small_reached: "reached small_tree [47] [[97]] p \<Longrightarrow> p = [97] \<or> p = [97, 47, 98]"
  by (induction rule: reached.induct) (auto simp: small_visits)

lemma small_readable: "readable small_tree [47] [[97]]"
  unfolding readable_def
  using small_reached by (fastforce simp: small_visits entry_valid_def entry_directory_def entry_new_def
      MAX_LENGTH_def steady_def)

lemma small_sized: "sized small_tree [47] small_weight"
  by (auto simp: sized_def visited_def small_tree_def full_path_def has_root_def path_join_def sort_paths_def
      small_weight_def split: if_splits)

lemma small_start:
  obtains st0 where "create_start (\<lambda>_. Inl NotFound) small_sink (Inr [47]) small_cli = Inr ([47], st0)"
proof -
  obtain w s' where "writer_new_async small_sink = (Ok w, s')"
    by (rule writer_new_async_at [of small_sink]) (auto simp: small_sink_def open_sink_def calm_sink_def)
  then show thesis by (intro that) (simp add: create_start_def small_cli_def base_directory_def)
qed

lemma small_run:
  obtains st w where
    "create_runs small_tree small_digest (\<lambda>_. Inl NotFound) small_sink (Inr [47]) small_cli [47] st"
    "phase st = Finished (Inr w)"
proof -
  from small_start obtain st0 where
    st0: "create_start (\<lambda>_. Inl NotFound) small_sink (Inr [47]) small_cli = Inr ([47], st0)" .
  from create_finishes [OF st0 _ _ _ small_sized, of small_digest] small_readable show thesis
    using that by auto
qed

lemma small_walked:
  "walked small_tree [47] [[97]] q is \<Longrightarrow>
     q = [[97]] \<and> is = [] \<or> q = [[97, 47, 98]] \<and> is = [IEntry (entry_directory [97])] \<or>
     q = [] \<and> is = [IEntry (entry_directory [97]), IFile ([97, 47, 98], Source [1, 2, 3] [Give 1], 0)]"
  by (induction rule: walked.induct) (auto simp: small_visits)

text \<open>A directory with nothing in it.\<close>

definition empty_tree :: tree where
  "empty_tree =
     \<lparr>stat_at = \<lambda>p. if p = [47, 97] then Inr \<lparr>stat_mode = 493, stat_kind = Directory\<rparr> else Inl NotFound,
      list_at = \<lambda>p. Inr [], file_at = \<lambda>p. Inl NotFound, link_at = \<lambda>p. Inl InvalidInput\<rparr>"

lemma empty_visit: "visited empty_tree [47] [97] = Some ([IEntry (entry_directory [97])], [])"
  by (simp add: visited_def empty_tree_def full_path_def has_root_def path_join_def sort_paths_def)

lemma empty_sized: "sized empty_tree [47] (\<lambda>_. 1)"
  by (auto simp: sized_def visited_def empty_tree_def sort_paths_def split: if_splits)

lemma empty_reached: "reached empty_tree [47] [[97]] p \<Longrightarrow> p = [97]"
  by (induction rule: reached.induct) (auto simp: empty_visit)

lemma empty_readable: "readable empty_tree [47] [[97]]"
  unfolding readable_def
  using empty_reached by (fastforce simp: empty_visit entry_valid_def entry_directory_def entry_new_def MAX_LENGTH_def)

lemma empty_run:
  obtains st w where
    "create_runs empty_tree small_digest (\<lambda>_. Inl NotFound) small_sink (Inr [47]) small_cli [47] st"
    "phase st = Finished (Inr w)"
proof -
  from small_start obtain st0 where
    st0: "create_start (\<lambda>_. Inl NotFound) small_sink (Inr [47]) small_cli = Inr ([47], st0)" .
  from create_finishes [OF st0 _ _ _ empty_sized, of small_digest] empty_readable show thesis
    using that by auto
qed

lemma empty_walked:
  "walked empty_tree [47] [[97]] q is \<Longrightarrow>
     q = [[97]] \<and> is = [] \<or> q = [] \<and> is = [IEntry (entry_directory [97])]"
  by (induction rule: walked.induct) (auto simp: empty_visit)

lemma empty_written:
  assumes "create_runs empty_tree small_digest (\<lambda>_. Inl NotFound) small_sink (Inr [47]) small_cli [47] st"
    and "phase st = Finished (Inr w)"
  shows "flushed st = []" and "length (written (sink_of w)) < 8192"
proof -
  from create_done [OF assms(1) small_facts(1,2) assms(2)] obtain "is" xs es where d:
    "walked empty_tree [47] [[97]] [] is"
    "es \<in> shuffles (entries_of is) (map (data_entry small_digest) (files_of is))"
    "list_all2 (encodes small_digest) (map (PData \<circ> content_of) (files_of is)) xs"
    "written (sink_of w) = NCK00 @ concat xs @ concat (map enc_entry es)" "flushed_part xs (flushed st)" unfolding small_facts(3) .
  from empty_walked [OF d(1)] have "is = [IEntry (entry_directory [97])]" by simp
  with d have "xs = []" "es = [entry_directory [97]]" by (auto simp: entries_of_def files_of_def)
  with d(4,5) show "flushed st = []" "length (written (sink_of w)) < 8192"
    by (simp_all add: flushed_part_def NCK00_def enc_entry_def entry_directory_def entry_new_def enc_string_def)
qed

section \<open>The theorems\<close>





text \<open>
  C12: Whatever the output does, a run of the command on a file tree whose paths have weights takes
  a bounded number of steps, and as long as it has not returned one of the two tasks can go on,
  unless the task that copies is in a copy that does not return: neither the bounded channel nor the
  wait for the other task blocks the command. On an output that takes all it is given and never
  fails there is no such copy, and the command ends.
\<close>

theorem create_ends:
  assumes "create_start open_output stdout cwd cli = Inr (directory, st0)" and "sized t directory weight"
  shows "(\<forall>n st. (create_step t directory b3 ^^ n) st0 st \<longrightarrow>
      n \<le> 4 + 6 * sum_list (map weight (sort_paths (create_files cli)))) \<and>
    (\<forall>st. (create_step t directory b3)\<^sup>*\<^sup>* st0 st \<longrightarrow>
      (\<exists>r. phase st = Finished r) \<or> (\<exists>st'. create_step t directory b3 st st') \<or>
      (\<exists>p content fl w. task st = Copying (p, content, fl) w \<and> copy_file_data b3 content w = None)) \<and>
    (fresh_output open_output stdout \<and> blake3_documented b3 \<longrightarrow>
      (\<forall>st. (create_step t directory b3)\<^sup>*\<^sup>* st0 st \<longrightarrow>
        (\<exists>r. phase st = Finished r) \<or> (\<exists>st'. create_step t directory b3 st st')))"
proof (intro conjI allI impI)
  fix n st
  assume "(create_step t directory b3 ^^ n) st0 st"
  from steps_work [OF this assms(2)] have "n \<le> work weight st0" by simp
  also have "\<dots> \<le> 4 + 6 * sum_list (map weight (sort_paths (create_files cli)))"
    using assms(1) by (rule create_start_fields) (simp add: work_def phase_work_def task_work_def)
  finally show "n \<le> 4 + 6 * sum_list (map weight (sort_paths (create_files cli)))" .
next
  fix st
  show "(\<exists>r. phase st = Finished r) \<or> (\<exists>st'. create_step t directory b3 st st') \<or>
      (\<exists>p content fl w. task st = Copying (p, content, fl) w \<and> copy_file_data b3 content w = None)"
    by (rule create_goes_on)
next
  fix st
  assume "fresh_output open_output stdout \<and> blake3_documented b3" "(create_step t directory b3)\<^sup>*\<^sup>* st0 st"
  with assms(1) have "create_inv t directory (sort_paths (create_files cli)) b3 st"
    unfolding create_runs_def by (intro create_runs_inv) (auto simp: create_runs_def)
  from create_inv_steps [OF this]
  show "(\<exists>r. phase st = Finished r) \<or> (\<exists>st'. create_step t directory b3 st st')"
    by (cases "phase st") auto
qed

theorem create_ends_witness:
  "\<exists>st0. create_start (\<lambda>_. Inl NotFound) small_sink (Inr [47]) small_cli = Inr ([47], st0) \<and>
    (\<forall>n st. (create_step small_tree [47] small_digest ^^ n) st0 st \<longrightarrow> n \<le> 16)"
proof -
  obtain st0 where st0: "create_start (\<lambda>_. Inl NotFound) small_sink (Inr [47]) small_cli = Inr ([47], st0)"
    by (rule small_start)
  from create_ends [OF st0 small_sized, of small_digest] st0 show ?thesis by (auto simp: small_weight_def)
qed

text \<open>
  C14: On an output that takes all it is given and never fails, and a file tree that can be read,
  whose paths fit the format and have weights that decrease downwards, no run of the command fails,
  and every run can be completed successfully.
\<close>

theorem create_succeeds:
  assumes "create_runs t b3 open_output stdout cwd cli directory st" and "fresh_output open_output stdout"
    and "blake3_documented b3" and "sized t directory weight" and "readable t directory (sort_paths (create_files cli))"
  shows "(\<forall>e. phase st \<noteq> Finished (Inl e)) \<and>
    (\<exists>st' w. (create_step t directory b3)\<^sup>*\<^sup>* st st' \<and> phase st' = Finished (Inr w))"
proof -
  from assms(1) obtain st0 where st0: "create_start open_output stdout cwd cli = Inr (directory, st0)"
    and run: "(create_step t directory b3)\<^sup>*\<^sup>* st0 st" unfolding create_runs_def by blast
  have "on_course t directory (sort_paths (create_files cli)) b3 st0"
    using create_start_good(1) [OF st0 assms(2)] unfolding on_course_def by blast
  from on_course_steps [OF run this assms(5,3)] have "on_course t directory (sort_paths (create_files cli)) b3 st" .
  with on_course_succeeds [OF this assms(5,3,4)] good_not_failed show ?thesis
    unfolding on_course_def by blast
qed

theorem create_succeeds_witness:
  "\<exists>st0 st w. create_start (\<lambda>_. Inl NotFound) small_sink (Inr [47]) small_cli = Inr ([47], st0) \<and>
    (create_step small_tree [47] small_digest)\<^sup>*\<^sup>* st0 st \<and> phase st = Finished (Inr w)"
proof -
  obtain st0 where st0: "create_start (\<lambda>_. Inl NotFound) small_sink (Inr [47]) small_cli = Inr ([47], st0)"
    by (rule small_start)
  then have "create_runs small_tree small_digest (\<lambda>_. Inl NotFound) small_sink (Inr [47]) small_cli [47] st0"
    unfolding create_runs_def by blast
  from create_succeeds [OF this _ _ small_sized] small_readable st0 show ?thesis by auto
qed

text \<open>
  C15: The writer is never flushed after the last file has been copied. When less than the buffer
  holds has been written since, none of it reaches the output although the command succeeds: the
  end of the last blob with its digest is missing, and so are all the entries.
\<close>

theorem create_unflushed:
  assumes "create_runs t b3 open_output stdout cwd cli directory st" and "fresh_output open_output stdout"
    and "blake3_documented b3" and "phase st = Finished (Inr w)" and "buf_writer_documented file_of"
    and "calls_of st w cs ds" and "length (written (writer_into_inner w)) < length (flushed st) + BUFFER_CAPACITY"
  shows "\<exists>is es rest. walked t directory (sort_paths (create_files cli)) [] is \<and>
    es \<in> shuffles (entries_of is) (map (data_entry b3) (files_of is)) \<and>
    written (writer_into_inner w) = file_of (cs @ ds) @ rest @ concat (map enc_entry es) \<and>
    rest \<noteq> [] \<and> (files_of is = [] \<longrightarrow> file_of (cs @ ds) = [])"
proof -
  from create_done [OF assms(1-4)] obtain "is" xs es where d:
    "walked t directory (sort_paths (create_files cli)) [] is"
    "es \<in> shuffles (entries_of is) (map (data_entry b3) (files_of is))"
    "list_all2 (encodes b3) (map (PData \<circ> content_of) (files_of is)) xs"
    "written (sink_of w) = NCK00 @ concat xs @ concat (map enc_entry es)" "flushed_part xs (flushed st)" .
  have f: "file_of (cs @ ds) = flushed st"
    using unflushed_lost [OF assms(5,6)] assms(7) by (simp add: writer_into_inner_def)
  obtain rest where "NCK00 @ concat xs = flushed st @ rest" "rest \<noteq> []"
  proof (cases "xs = []")
    case True
    with d(5) show thesis by (intro that [of NCK00]) (simp_all add: flushed_part_def NCK00_def)
  next
    case False
    with d(5) show thesis by (auto simp: flushed_part_def intro: that)
  qed
  moreover have "files_of is = [] \<longrightarrow> flushed st = []"
    using d(3,5) by (auto simp: flushed_part_def)
  ultimately show ?thesis
    using d f by (intro exI [of _ "is"] exI [of _ es] exI [of _ rest]) (simp add: writer_into_inner_def flip: append_assoc)
qed

text \<open>On a directory with nothing in it, the output file stays empty.\<close>

theorem create_unflushed_witness:
  "\<exists>st w cs. create_runs empty_tree small_digest (\<lambda>_. Inl NotFound) small_sink (Inr [47]) small_cli [47] st \<and>
    phase st = Finished (Inr w) \<and> accepted cs = written (sink_of w) \<and> buffer_file cs = []"
proof -
  obtain st w where
    run: "create_runs empty_tree small_digest (\<lambda>_. Inl NotFound) small_sink (Inr [47]) small_cli [47] st"
    "phase st = Finished (Inr w)" by (rule empty_run)
  note e = empty_written [OF run]
  let ?cs = "[WriteBytes (written (sink_of w))]"
  have "calls_of st w [] ?cs" using e(1) by (simp add: calls_of_def accepted_def)
  from create_unflushed [OF run(1) _ _ run(2) buffer_documented this] e
  obtain "is" where "walked empty_tree [47] [[97]] [] is" "files_of is = [] \<longrightarrow> buffer_file ?cs = []"
    by (auto simp: writer_into_inner_def BUFFER_CAPACITY_def)
  with empty_walked have "buffer_file ?cs = []" by (fastforce simp: files_of_def)
  with run show ?thesis by (intro exI [of _ st] exI [of _ w] exI [of _ ?cs]) (simp add: accepted_def)
qed

end
