(* ===== verification/Cli_Hash.thy ===== *)
theory Cli_Hash
  imports Supported_Hash Rust_Io Unix_Path
begin

text \<open>
  \<open>crates/cli/src/hash.rs\<close>: the command that hashes a file or the standard input, through a
  buffered reader.
\<close>

section \<open>The command line\<close>

datatype hash_algorithm = AlgBlake3

definition default_algorithm :: hash_algorithm where
  "default_algorithm = AlgBlake3"

record hash_cli =
  hash_file :: bytes
  hash_algorithm :: hash_algorithm

text \<open>The arguments that have a default.\<close>

definition hash_args :: "bytes option \<Rightarrow> hash_algorithm option \<Rightarrow> hash_cli" where
  "hash_args file alg =
     \<lparr>hash_file = (case file of None \<Rightarrow> bytes_of ''-'' | Some p \<Rightarrow> p),
      hash_algorithm = (case alg of None \<Rightarrow> default_algorithm | Some a \<Rightarrow> a)\<rparr>"

fun algorithm_hasher :: "hash_algorithm \<Rightarrow> supported_hasher" where
  "algorithm_hasher AlgBlake3 = supported_hasher_blake3"

section \<open>Reading\<close>

text \<open>
  \<open>tokio::io::BufReader\<close>: an empty buffer is filled by one read; what is consumed is dropped from
  it.
\<close>

record buf_reader =
  buf_source :: source
  buf_data :: bytes

definition READER_CAPACITY :: nat where
  "READER_CAPACITY = 8192"

definition buf_reader_new :: "source \<Rightarrow> buf_reader" where
  "buf_reader_new s = \<lparr>buf_source = s, buf_data = []\<rparr>"

definition fill_buf :: "(buf_reader, bytes) io" where
  "fill_buf r =
     (if buf_data r \<noteq> [] then (Ok (buf_data r), r)
      else case src_read READER_CAPACITY (buf_source r) of
        (Ok bs, s) \<Rightarrow> (Ok bs, r\<lparr>buf_source := s, buf_data := bs\<rparr>)
      | (Err e, s) \<Rightarrow> (Err e, r\<lparr>buf_source := s\<rparr>)
      | (Panic, s) \<Rightarrow> (Panic, r\<lparr>buf_source := s\<rparr>))"

definition consume :: "nat \<Rightarrow> buf_reader \<Rightarrow> buf_reader" where
  "consume n r = r\<lparr>buf_data := drop n (buf_data r)\<rparr>"

text \<open>What the reader has yet to deliver.\<close>

definition to_read :: "buf_reader \<Rightarrow> bytes" where
  "to_read r = buf_data r @ avail (buf_source r)"

lemma fill_buf_cases:
  obtains (filled) bs r' where "fill_buf r = (Ok bs, r')" and "buf_data r' = bs" and "to_read r' = to_read r"
      and "bs = [] \<longrightarrow> to_read r = []" and "faults (buf_source r') \<subseteq> faults (buf_source r)"
  | (failed) e r' where "fill_buf r = (Err e, r')" and "e \<in> faults (buf_source r)"
proof (cases "buf_data r = []")
  case True
  show thesis
  proof (cases READER_CAPACITY "buf_source r" rule: src_read_cases)
    case (Ok bs s')
    with True show ?thesis
      by (intro filled [of bs "r\<lparr>buf_source := s', buf_data := bs\<rparr>"])
        (auto simp: fill_buf_def to_read_def READER_CAPACITY_def)
  next
    case (Err e s')
    with True show ?thesis by (intro failed) (auto simp: fill_buf_def)
  qed
next
  case False
  then show thesis by (intro filled [of "buf_data r" r]) (auto simp: fill_buf_def)
qed

text \<open>The loop: the whole buffer is hashed and consumed, until there is nothing left.\<close>

function hash_loop :: "supported_hasher \<Rightarrow> (buf_reader, supported_hasher) io" where
  "hash_loop hasher r =
     (case fill_buf r of
        (Ok buf, r') \<Rightarrow>
          let len = length buf in
          if len = 0 then (Ok hasher, r')
          else hash_loop (supported_update hasher buf) (consume len r')
      | (Err e, r') \<Rightarrow> (Err e, r')
      | (Panic, r') \<Rightarrow> (Panic, r'))"
  by pat_completeness auto
termination
proof (relation "measure (\<lambda>(h, r). length (to_read r))", goal_cases)
  case 1
  show ?case by simp
next
  case (2 h r x r' buf len)
  show ?case
  proof (cases r rule: fill_buf_cases)
    case (filled bs r1)
    with 2 have "to_read r = buf @ to_read (consume len r')" "buf \<noteq> []"
      by (auto simp: consume_def to_read_def)
    then show ?thesis by simp
  next
    case (failed e r1)
    with 2 show ?thesis by simp
  qed
qed

declare hash_loop.simps [simp del]

lemma hash_loop_result:
  "(\<exists>r'. hash_loop (HBlake3 bs) r = (Ok (HBlake3 (bs @ to_read r)), r')) \<or>
   (\<exists>e r'. hash_loop (HBlake3 bs) r = (Err e, r') \<and> e \<in> faults (buf_source r))"
proof (induction "length (to_read r)" arbitrary: bs r rule: less_induct)
  case less
  show ?case
  proof (cases r rule: fill_buf_cases)
    case (filled buf r1)
    show ?thesis
    proof (cases "buf = []")
      case True
      with filled show ?thesis by (simp add: hash_loop.simps [of _ r])
    next
      case False
      let ?r = "consume (length buf) r1"
      have r: "to_read r = buf @ to_read ?r" "faults (buf_source ?r) \<subseteq> faults (buf_source r)"
        using filled by (auto simp: consume_def to_read_def)
      then have "length (to_read ?r) < length (to_read r)" using False by simp
      from less.hyps [OF this, of "bs @ buf"] r filled False show ?thesis
        by (auto simp: hash_loop.simps [of _ r])
    qed
  next
    case (failed e r1)
    then show ?thesis by (simp add: hash_loop.simps [of _ r])
  qed
qed

section \<open>The commands\<close>

text \<open>
  \<open>println\<close> writes the display of the hash and a newline. The result is the text printed.
\<close>

definition hash_execute ::
    "b32_codec \<Rightarrow> digest \<Rightarrow> (bytes \<Rightarrow> error_kind + source) \<Rightarrow> source \<Rightarrow> hash_cli \<Rightarrow> (error_kind, string) res" where
  "hash_execute c b3 open_file stdin cli =
     (case (if path_eq (hash_file cli) (bytes_of ''-'') then Inr stdin else open_file (hash_file cli)) of
        Inl e \<Rightarrow> Err e
      | Inr s \<Rightarrow>
          (case hash_loop (algorithm_hasher (hash_algorithm cli)) (buf_reader_new s) of
             (Ok hasher, _) \<Rightarrow> Ok (supported_display c (supported_finalize b3 hasher) @ [CHR 0x0A])
           | (Err e, _) \<Rightarrow> Err e
           | (Panic, _) \<Rightarrow> Panic))"



end
