(* ===== verification/Cli_Main.thy ===== *)
theory Cli_Main
  imports Cli_Create_Results Cli_Hash
begin

text \<open>
  \<open>crates/cli/src/main.rs\<close> and \<open>archive.rs\<close>: the program, from its arguments to the end of its
  command. The expansion of argument files and the parser of the command line are parameters. The
  command that creates an archive runs two tasks, so how a program ends is a relation.
\<close>

section \<open>Commands\<close>

datatype archive_command = CmdCreate create_cli

record archive_cli =
  archive_command :: archive_command

datatype cli_command = CmdArchive archive_cli | CmdHash hash_cli

record cli =
  cli_command :: cli_command

datatype cli_error = ArgumentError error_kind | HashFailed error_kind | CreateFailed create_error

datatype cli_end =
    Printed string
  | Archived writer
  | CliFailed cli_error
  | CliPanicked
  | CliExited int \<comment> \<open>by the parser, which prints its usage\<close>

text \<open>The world of the program: its inputs and outputs, and the code that it is linked with.\<close>

record cli_env =
  cli_codec :: b32_codec
  cli_digest :: digest
  cli_open :: "bytes \<Rightarrow> error_kind + source"
  cli_stdin :: source
  cli_tree :: tree
  cli_output :: "bytes \<Rightarrow> error_kind + sink"
  cli_stdout :: sink
  cli_cwd :: "error_kind + bytes"
  cli_expand :: "string list \<Rightarrow> error_kind + string list"
  cli_parse :: "string list \<Rightarrow> int + cli"

section \<open>How a command ends\<close>

text \<open>What a run of the create command that has come to an end returns.\<close>

fun create_end :: "create_error + writer \<Rightarrow> cli_end" where
  "create_end (Inr w) = Archived w"
| "create_end (Inl Panicked) = CliPanicked"
| "create_end (Inl e) = CliFailed (CreateFailed e)"

inductive archive_execute :: "cli_env \<Rightarrow> archive_cli \<Rightarrow> cli_end \<Rightarrow> bool" where
  create_fails: "archive_command a = CmdCreate v \<Longrightarrow>
     create_start (cli_output env) (cli_stdout env) (cli_cwd env) v = Inl e \<Longrightarrow> archive_execute env a (create_end (Inl e))"
| create_ends: "archive_command a = CmdCreate v \<Longrightarrow>
     create_runs (cli_tree env) (cli_digest env) (cli_output env) (cli_stdout env) (cli_cwd env) v directory st \<Longrightarrow>
     phase st = Finished r \<Longrightarrow> archive_execute env a (create_end r)"

fun hash_end :: "(error_kind, string) res \<Rightarrow> cli_end" where
  "hash_end (Ok line) = Printed line"
| "hash_end (Err e) = CliFailed (HashFailed e)"
| "hash_end Panic = CliPanicked"

inductive cli_execute :: "cli_env \<Rightarrow> cli \<Rightarrow> cli_end \<Rightarrow> bool" where
  archive: "cli_command c = CmdArchive a \<Longrightarrow> archive_execute env a r \<Longrightarrow> cli_execute env c r"
| hash: "cli_command c = CmdHash v \<Longrightarrow>
     cli_execute env c (hash_end (hash_execute (cli_codec env) (cli_digest env) (cli_open env) (cli_stdin env) v))"

definition cli_main :: "cli_env \<Rightarrow> string list \<Rightarrow> cli_end \<Rightarrow> bool" where
  "cli_main env args r =
     (case cli_expand env args of
        Inl e \<Rightarrow> r = CliFailed (ArgumentError e)
      | Inr args' \<Rightarrow>
          (case cli_parse env args' of
             Inl n \<Rightarrow> r = CliExited n
           | Inr c \<Rightarrow> cli_execute env c r))"

inductive_cases archive_executeE: "archive_execute env a r"
inductive_cases cli_executeE: "cli_execute env c r"

section \<open>What the program does\<close>

lemma cli_main_archive:
  assumes "cli_main env args r" and "cli_expand env args = Inr args'" and "cli_parse env args' = Inr c"
    and "cli_command c = CmdArchive a"
  shows "archive_execute env a r"
  using assms by (auto simp: cli_main_def elim: cli_executeE)

text \<open>Nothing but the hash of the whole input is ever printed, and hashing ends in one way only.\<close>

lemma cli_main_printed:
  assumes "cli_main env args (Printed line)"
  obtains args' c v where "cli_expand env args = Inr args'" "cli_parse env args' = Inr c" "cli_command c = CmdHash v"
    "hash_execute (cli_codec env) (cli_digest env) (cli_open env) (cli_stdin env) v = Ok line"
proof -
  have "create_end x \<noteq> Printed line" for x by (cases x rule: create_end.cases) auto
  moreover have "hash_end x = Printed line \<longleftrightarrow> x = Ok line" for x by (cases x) auto
  ultimately show thesis
    using assms that
    by (auto simp: cli_main_def eq_commute [of "Printed line"] elim!: cli_executeE archive_executeE split: sum.splits)
qed

text \<open>An archive is only reported when a run has written it.\<close>

lemma cli_main_archived:
  assumes "cli_main env args (Archived w)"
  obtains args' c a v directory st where "cli_expand env args = Inr args'" "cli_parse env args' = Inr c"
    "cli_command c = CmdArchive a" "archive_command a = CmdCreate v"
    "create_runs (cli_tree env) (cli_digest env) (cli_output env) (cli_stdout env) (cli_cwd env) v directory st"
    "phase st = Finished (Inr w)"
proof -
  have "create_end x = Archived w \<longleftrightarrow> x = Inr w" for x by (cases x rule: create_end.cases) auto
  moreover have "hash_end x \<noteq> Archived w" for x by (cases x) auto
  ultimately show thesis
    using assms that
    by (auto simp: cli_main_def eq_commute [of "Archived w"] elim!: cli_executeE archive_executeE split: sum.splits)
qed

end
