(* ===== verification/Spec2Isabelle.thy ===== *)
theory Spec2Isabelle
  imports
    Archive_Roundtrip
    Archive_Tests
    Pool_Tests
    Printable
    Buffer_Concurrent
    String_Types
    Root_Fs
    Spawn_Session
    Old_Routes
    Store_Refines
    Daemon_Start
    Cli_Main
begin

text \<open>
  A model of nickelpack (the crates \<open>hashing\<close>, \<open>io\<close>, \<open>archive\<close>, \<open>daemon\<close> and \<open>cli\<close> under
  \<open>src/crates\<close>) and the theorems that make its core correct.

  The program. \<open>hashing\<close> digests values in a way that does not depend on the platform, and
  prints and parses the digests. \<open>archive\<close> is a streaming format: a header, then entries
  (files by digest, links, directories) and blobs (chunks with a length, an empty chunk, the
  digest). Its readers and writers, blocking and asynchronous, take their buffers from the
  lock-free pool of \<open>io\<close>, and fill them with that crate's reading functions. \<open>io\<close> also makes
  temporary files, moves them over others, and prints raw bytes. \<open>daemon\<close> keeps a store of files
  by digest, accepts connections, takes uploads and builds over HTTP, and runs builds in
  sandboxes: a zygote process, asked over a socket, clones a supervisor in new namespaces, which
  sets up mounts and runs the sandboxed process. \<open>cli\<close> creates archives from files, and hashes.

  Conventions. An operation is a function from a state to a result and a new state, \<open>('s, 'a) io\<close>;
  a result is \<open>Ok\<close>, \<open>Err\<close> with an error kind, or \<open>Panic\<close>: every early return and every slice or
  index out of bounds of the source is a branch. A method that takes a mutable reference returns
  the state with that part updated. A loop that may run for ever is a \<open>partial_function\<close> into
  options, \<open>None\<close> meaning that it does not return; that it returns is always a theorem of its own
  or part of the property. \<open>usize\<close> counters wrap at 64 bits; lengths that the code bounds are
  natural numbers. What a reader, a sink or the file system does is a script in the state, so
  that theorems quantify over every behaviour of the environment: partial reads and writes,
  interruptions, errors, calls that are not ready.

  The theories, from the bottom.

  \<^item> \<open>Nck_Prelude\<close>: bytes, results, the combinators of \<open>io\<close> and their rules: \<open>succeeds\<close> (the
    call returns a value, with a postcondition), \<open>guarded\<close> (it may fail but does not panic and
    keeps an invariant), \<open>agree\<close> (two programs are equal on some states), and big-endian bytes.
  \<^item> \<open>Rust_Io\<close>: sources and sinks, and \<open>read_exact\<close> and \<open>write_all\<close> of the standard library and
    of \<open>tokio\<close>. \<open>Io_Contracts\<close>: what it means to be a reader or a writer, blocking or polled, as
    locales: if each call delivers some of a stream then the loop of a client reads it all.
    Interpreted there for sources and sinks, and later for the archive's own readers and writers
    of blobs.
  \<^item> \<open>Base32\<close>, \<open>Stable_Hash\<close>, \<open>Supported_Hash\<close> (crate \<open>hashing\<close>): the text of hashes, and the
    bytes that a value feeds to a hasher. The locale \<open>stable_type\<close> says that these bytes are a
    prefix-free code of the value; it is interpreted for the types the program hashes.
  \<^item> \<open>Bytes_Ext\<close>, \<open>Printable\<close> (\<open>io/src/bytes_ext.rs\<close>, \<open>io/src/lib.rs\<close>): filling a buffer from a
    reader; printing buffers, and which forms determine the buffer.
  \<^item> \<open>Archive_Types\<close>, \<open>Archive_Read\<close>, \<open>Data_Reader\<close>, \<open>Archive_Write\<close>, \<open>Archive_Async\<close> (crate
    \<open>archive\<close>): the format as a specification (\<open>enc_entry\<close>, \<open>enc_blob\<close>) and the code: \<open>Reader\<close>,
    \<open>DataReader\<close>, \<open>Writer\<close>, \<open>DataWriter\<close>, and their asynchronous twins, method by method.
    \<open>Archive_Client\<close> is a program that uses them, over locales for the interfaces; and
    \<open>Archive_Roundtrip\<close> and \<open>Archive_Async\<close> interpret those for the code. \<open>Archive_Tests\<close> runs the
    crate's own tests on the model.
  \<^item> \<open>Pool\<close>, \<open>Pooled_Item\<close>, \<open>Buffer_Pool\<close>, \<open>Pool_Concurrent\<close>, \<open>Buffer_Concurrent\<close>
    (\<open>io/src/pool.rs\<close> and \<open>pool/\<close>): the operations of the pool one at a time; the handles that
    return a value when dropped; the program's pool of buffers with its hooks, used by one thread;
    the operations of a pool as threads that take one atomic step at a time, in any interleaving;
    and the pool of buffers with its hooks in such threads, the check of the total size and the
    addition to it being two steps. \<open>Pool_Tests\<close> runs the tests of one thread.
  \<^item> \<open>File_System\<close>, \<open>Temp_File\<close> (\<open>io/src/fs.rs\<close>): a file system whose calls may each fail;
    temporary files and directories, and the move that replaces its target. \<open>Tokio_File\<close>: writing
    to a file through \<open>tokio\<close>, whose last write may be carried out later, in part or wholly.

  \<^item> \<open>String_Types\<close>, \<open>App_Error\<close>, \<open>Settings\<close> (\<open>daemon/src/string_types.rs\<close>,
    \<open>axum_extensions.rs\<close>, \<open>settings.rs\<close>): the strings that requests carry, the errors that become
    responses, the settings and their defaults.
  \<^item> \<open>Store\<close>, \<open>Store_Locks\<close> (\<open>daemon/src/store.rs\<close>): the store over the file system, its lock
    counters, pending files; and that the counters count the locks that are held. \<open>Store_Start\<close>:
    starting builds there, each with its locks. \<open>Store_Refines\<close>: the store as a map from digests to
    contents, which uploads and fetches refine. \<open>Old_Routes\<close> (\<open>daemon/src/routes.rs\<close>): the handlers
    that those of \<open>frontend/\<close> have replaced.
  \<^item> \<open>Frontend_Build\<close>, \<open>Frontend_Serve\<close> (\<open>daemon/src/frontend/\<close>): the handlers of builds and
    uploads on that store; the sockets of the daemon and the loop that accepts connections.
  \<^item> \<open>Message_Channel\<close> (\<open>daemon/src/build/linux/io.rs\<close>): messages with file descriptors over a
    stream socket, blocking and asynchronous.
  \<^item> \<open>Kernel\<close>: system calls as events, answered by an arbitrary function of all calls so far.
    \<open>Child_Process\<close>, \<open>Process_Clone\<close>, \<open>User_Ns\<close>, \<open>Mounts\<close>, \<open>Root_Fs\<close> (\<open>daemon/src/build/linux/proc.rs\<close>,
    \<open>fork.rs\<close>, \<open>user_ns.rs\<close>, \<open>fs.rs\<close>, \<open>rootfs.rs\<close>) are programs over it, and \<open>Sandbox_Processes\<close>
    (\<open>process/\<close>) is the processes themselves, each with its end of the channel. \<open>Spawn_Session\<close>
    runs the main process and the zygote together, over the stream between them, and
    \<open>Supervisor_Answer\<close> is what a supervisor answers to the zygote.
  \<^item> \<open>Daemon_Start\<close> (\<open>daemon/src/main.rs\<close>, \<open>frontend.rs\<close>, \<open>build/linux.rs\<close>): the start of the daemon,
    over the zygote, the store and the server.
  \<^item> \<open>Unix_Path\<close>: paths and their order. \<open>Cli_Create\<close>, \<open>Cli_Create_Runs\<close>, \<open>Cli_Create_Results\<close>
    (\<open>cli/src/archive/create.rs\<close>): the traversal and the task that copies files as a step relation
    over the two channels between them, its invariant, and what a run achieves. \<open>Cli_Hash\<close>
    (\<open>cli/src/hash.rs\<close>): hashing a file. \<open>Cli_Main\<close> (\<open>cli/src/main.rs\<close>, \<open>archive.rs\<close>): the commands.

  What is shown. For archives: what is written is what is read, for any sequence of entries and
  blobs and any splitting of the transfers; what the reader returns is what the bytes encode; it
  never panics on any input; the asynchronous halves agree with the blocking ones; and the cases
  in which the writer damages an archive or does not return. For the pool: mutual exclusion
  between threads, conservation of values; that dropping ends; that a returned value is used
  again; and by how much the total size of the pooled buffers can exceed its soft limit when
  threads return buffers at the same time. For files: a move never loses both contents, puts the
  old file aside for good only if two calls in a row fail, and returns when nothing fails; and
  temporary paths are new and distinct. For
  hashing: parsing inverts printing, every outcome of parsing, and that the digested stream
  determines the value.

  For the daemon: the lock counters are the numbers of locks held, also when attempts to start
  builds fail; when nothing fails, uploads and fetches are those of a map from digests to
  contents; a message arrives with its descriptors, once, however
  the socket cuts it; a child process is killed last of all when its handle is dropped, and the
  drop returns; the two ways of cloning do the same; a supervisor whose set-up fails is not left
  behind, and one that starts answers exactly once and ends its sandbox; a sequence of requests
  of the main process is served by the zygote in order, each with its own descriptor and the
  identities it was given; the calls of mapping a user namespace and of installing a root file system, and that
  the latter stay below the root; which connections are served; a start of the daemon that fails
  leaves no zygote behind. Where the code does not do what
  it means to, the theorem says what it does: a build that is never found, a zygote that waits
  for ever, an upload of which some bytes are still to be written when its entry is there.

  For the command line: whatever the interleaving of the two tasks, a successful run has written
  the contents of the files reached and then their entries, breadth first, directories before
  what is in them, and it reads back; on an output that accepts what it is given the runs end, the tasks do not block each other, and on
  readable files they succeed; and the part of a small archive that never reaches the output
  because the buffer is dropped.

  Bounds. A search of the pool ends after \<open>max_loop\<close> turns; making a temporary file tries 1024
  names; chunks have at most 65535 bytes. There is no fuel in the models of the code: where a client needs a
  bound (\<open>read_blob\<close> reads with buffers of \<open>Suc n\<close> bytes, \<open>patience\<close> counts the calls a sink
  makes no progress in) it is computed from the state.

  Not modelled: BLAKE3, the base32 codec, the serialization of messages and tokio's \<open>BufWriter\<close>
  (parameters, with their documented laws); the tests that need a test build's chunk length (of
  \<open>write_data\<close>), threads or real processes (of \<open>fork.rs\<close>); the allocation of buffers; the weak memory orderings
  (the atomic accesses of a slot are acquire and release pairs; the model interleaves them);
  logging; extraction of requests by the framework; the command line parser and the reading of the
  settings from the environment, which are parameters.
  What the repository uses and does not declare (specifications and the tasks of the store's
  paths, the state and types of \<open>daemon/src/routes.rs\<close>) is a parameter. The file tree that an
  archive is made of does not change while it is made.
\<close>

end
